(* ===== verification/Prelude.thy ===== *)
theory Prelude
  imports Main "HOL-Library.Word" "HOL-Library.Code_Target_Nat"
begin

text \<open>
  The shared part of the development: the widths of the C integer types, the result
  type for code that may call crash (startup/lib/kprintf.c), the TRUNC and ROUND macros
  and the address constants of startup/lib/public/startup.h, and the lemmas on words and
  word intervals that several components use.
\<close>

unbundle bit_operations_syntax

named_theorems res_simps \<open>unfolding rules of the result type\<close>
named_theorems seg_simps \<open>membership in sets of covered addresses\<close>

section \<open>Machine integers\<close>

type_synonym u8 = "8 word"
type_synonym u16 = "16 word"
type_synonym u32 = "32 word"
type_synonym u64 = "64 word"

text \<open>The type paddr\_t is 64 bits wide on this target, and so is PADDR\_T.\<close>
type_synonym paddr = "64 word"

section \<open>Results\<close>

text \<open>
  A call of crash prints its message and never returns: it is a left value of the sum.
  Stray stands for a read or write outside the object the code works on, which C leaves
  undefined; the theorems show where it cannot happen.  Hang is the result of a loop that
  polls a device register and does not end within the number of reads the model follows.
  Div\_Zero is a division by zero.
\<close>

datatype fault = Crash string | Stray | Hang | Div_Zero

type_synonym 'a res = "fault + 'a"

abbreviation crash :: "string \<Rightarrow> 'a res" where
  "crash msg \<equiv> Inl (Crash msg)"

abbreviation stray :: "'a res" where
  "stray \<equiv> Inl Stray"

abbreviation hang :: "'a res" where
  "hang \<equiv> Inl Hang"

abbreviation ok :: "'a \<Rightarrow> 'a res" where
  "ok x \<equiv> Inr x"

fun and_then :: "'a res \<Rightarrow> ('a \<Rightarrow> 'b res) \<Rightarrow> 'b res" where
  "and_then (Inl e) f = Inl e"
| "and_then (Inr x) f = f x"

text \<open>The macro ASSERT of startup.h: it is never compiled out and ends in crash.\<close>
definition assert_that :: "bool \<Rightarrow> unit res" where
  "assert_that p = (if p then ok () else crash ''ASSERT'')"

lemma assert_that_ok [simp]: "assert_that p = ok u \<longleftrightarrow> p"
  by (simp add: assert_that_def)

lemma assert_that_True [simp]: "p \<Longrightarrow> assert_that p = ok ()"
  by (simp add: assert_that_def)

lemma and_then_ok [simp]: "and_then m ok = m"
  by (cases m) auto

lemma and_then_assoc: "and_then (and_then m f) g = and_then m (\<lambda>x. and_then (f x) g)"
  by (cases m) auto

lemma and_then_eq_ok [res_simps]:
  "and_then m f = ok y \<longleftrightarrow> (\<exists>x. m = ok x \<and> f x = ok y)"
  by (cases m) auto

lemma and_then_eq_crash [res_simps]:
  "and_then m f = Inl e \<longleftrightarrow> m = Inl e \<or> (\<exists>x. m = ok x \<and> f x = Inl e)"
  by (cases m) auto

lemma and_then_okE [elim]:
  assumes "and_then m f = ok y"
  obtains x where "m = ok x" and "f x = ok y"
  using assms by (auto simp: res_simps)

section \<open>The address macros\<close>

definition NULL_PADDR :: paddr where
  "NULL_PADDR = NOT 0"

definition TRUNC :: "paddr \<Rightarrow> paddr \<Rightarrow> paddr" where
  "TRUNC x a = x AND NOT (a - 1)"

definition ROUND :: "paddr \<Rightarrow> paddr \<Rightarrow> paddr" where
  "ROUND x a = TRUNC (x + (a - 1)) a"

definition KILO :: "u64 \<Rightarrow> u64" where
  "KILO k = k * 1024"

definition GIG :: "u64 \<Rightarrow> u64" where
  "GIG m = m * (1024 * 1024 * 1024)"

lemma NULL_PADDR_max: "NULL_PADDR = - 1"
  by (simp add: NULL_PADDR_def)

lemma TRUNC_le: "TRUNC x a \<le> x"
  by (simp add: TRUNC_def word_and_le2)

lemma TRUNC_pow2: "TRUNC x (2 ^ n) = push_bit n (drop_bit n x)"
proof -
  have "TRUNC x (2 ^ n) = x AND NOT (mask n)"
    by (simp add: TRUNC_def mask_eq_exp_minus_1)
  also have "\<dots> = push_bit n (drop_bit n x)"
    by (rule bit_word_eqI)
      (auto simp: bit_simps not_less)
  finally show ?thesis .
qed

lemma unat_TRUNC_pow2:
  assumes "n < 64"
  shows "unat (TRUNC x (2 ^ n)) = unat x div 2 ^ n * 2 ^ n"
proof -
  have x: "unat x < 2 ^ 64"
    by (rule order_less_le_trans [OF unsigned_less], simp)
  have "unat x div 2 ^ n * 2 ^ n < 2 ^ 64"
    by (rule le_less_trans [OF div_times_less_eq_dividend x])
  with x show ?thesis
    unfolding TRUNC_pow2 unsigned_push_bit_eq unsigned_drop_bit_eq
    by (simp add: push_bit_eq_mult drop_bit_eq_div take_bit_eq_mod)
qed

lemma TRUNC_0: "TRUNC x 0 = 0"
  by (simp add: TRUNC_def)

lemma ROUND_0: "ROUND x 0 = 0"
  by (simp add: ROUND_def TRUNC_0)

lemma ROUND_1: "ROUND x 1 = x"
  by (simp add: ROUND_def TRUNC_def)

lemma unat_pow2:
  assumes "n < LENGTH('a)"
  shows "unat ((2 :: 'a :: len word) ^ n) = 2 ^ n"
proof -
  have "unat (of_nat (2 ^ n) :: 'a word) = take_bit (LENGTH('a)) (2 ^ n)"
    by (simp only: unsigned_of_nat of_nat_id)
  with assms show ?thesis
    by (simp add: take_bit_nat_eq_self)
qed

lemma unat_of_nat_small: "x < 2 ^ LENGTH('a :: len) \<Longrightarrow> unat (of_nat x :: 'a word) = x"
  by (simp only: unsigned_of_nat of_nat_id) (rule take_bit_nat_eq_self)

lemma unat_ROUND_pow2:
  assumes n: "n < 64" and x: "unat x + 2 ^ n \<le> 2 ^ 64"
  shows "unat (ROUND x (2 ^ n)) = (unat x + (2 ^ n - 1)) div 2 ^ n * 2 ^ n"
proof -
  have p: "unat ((2 :: 64 word) ^ n) = 2 ^ n"
    using n by (subst unat_pow2) auto
  have m: "unat ((2 :: 64 word) ^ n - 1) = 2 ^ n - 1"
    using p by (subst unat_sub) (auto simp: word_le_nat_alt)
  have "unat (x + (2 ^ n - 1)) = unat x + (2 ^ n - 1)"
    using x m by (subst unat_plus_simple [THEN iffD1]) (auto simp: no_plus_overflow_unat_size word_size)
  with n show ?thesis
    by (simp add: ROUND_def unat_TRUNC_pow2)
qed

lemma le_round_up: "0 < d \<Longrightarrow> (x :: nat) \<le> (x + (d - 1)) div d * d"
  by (metis add.commute add_diff_cancel_right' div_mult_mod_eq diff_le_mono2 le_add_diff
      le_diff_conv less_Suc_eq_le mod_less_divisor Suc_diff_1)

lemma ROUND_ge:
  assumes n: "n < 64" and x: "unat x + 2 ^ n \<le> 2 ^ 64"
  shows "x \<le> ROUND x (2 ^ n)"
proof -
  have "unat x \<le> (unat x + (2 ^ n - 1)) div 2 ^ n * 2 ^ n"
    by (rule le_round_up) simp
  with assms show ?thesis
    by (simp add: word_le_nat_alt unat_ROUND_pow2)
qed

section \<open>Natural-number forms of the macros\<close>

text \<open>Sizes and offsets inside the system page are natural numbers; this is ROUND on them
  (lemma roundup\_ROUND).\<close>

definition roundup :: "nat \<Rightarrow> nat \<Rightarrow> nat" where
  "roundup n a = (n + (a - 1)) div a * a"

lemma roundup_ge: "0 < a \<Longrightarrow> n \<le> roundup n a"
  unfolding roundup_def by (rule le_round_up)

lemma roundup_dvd: "a dvd roundup n a"
  by (simp add: roundup_def)

lemma roundup_less: "0 < a \<Longrightarrow> roundup n a < n + a"
  unfolding roundup_def
  by (metis One_nat_def Suc_pred add_Suc_right div_times_less_eq_dividend less_Suc_eq_le)

lemma roundup_mono: "m \<le> n \<Longrightarrow> roundup m a \<le> roundup n a"
  by (simp add: roundup_def div_le_mono)

lemma roundup_fix: "0 < a \<Longrightarrow> a dvd n \<Longrightarrow> roundup n a = n"
proof -
  assume a: "0 < a" and "a dvd n"
  then obtain k where n: "n = k * a" by (metis dvd_def mult.commute)
  have "((a - 1) + k * a) div a = k"
    using a by (subst div_mult_self1) auto
  then show "roundup n a = n"
    by (simp only: roundup_def n add.commute)
qed

lemma roundup_ROUND:
  "n < 64 \<Longrightarrow> unat x + 2 ^ n \<le> 2 ^ 64 \<Longrightarrow> unat (ROUND x (2 ^ n)) = roundup (unat x) (2 ^ n)"
  by (simp add: unat_ROUND_pow2 roundup_def)

section \<open>Word intervals\<close>

lemma word_fit:
  fixes a e sz :: "'a :: len word"
  assumes "a \<le> e" "sz \<le> e - a"
  shows "a \<le> a + sz \<and> a + sz \<le> e"
  using assms by unat_arith

lemma below_absorb:
  "(s :: 'a :: linorder) \<le> e \<Longrightarrow> (a \<le> z \<and> z \<le> e) \<and> z < s \<longleftrightarrow> a \<le> z \<and> z < s"
  by auto

lemma above_absorb:
  "(a :: 'a :: linorder) \<le> s \<Longrightarrow> (a \<le> z \<and> z \<le> e) \<and> s < z \<longleftrightarrow> s < z \<and> z \<le> e"
  by auto

lemma straddle:
  "(x :: 'a :: linorder) \<le> y \<Longrightarrow> s \<le> e \<Longrightarrow> \<not> (s \<le> x \<and> x \<le> e) \<Longrightarrow> \<not> (s \<le> y \<and> y \<le> e) \<Longrightarrow>
    \<not> (x \<le> s \<and> s \<le> y) \<Longrightarrow> x < s \<and> y < s \<or> e < x \<and> e < y"
  by auto

lemma unat_drop_bit: "unat (drop_bit n w) = unat w div 2 ^ n" for w :: "'a::len word"
proof -
  have "take_bit LENGTH('a) (unat w) = unat w"
    by (rule take_bit_nat_eq_self) (rule unsigned_less)
  then show ?thesis
    by (simp only: unsigned_drop_bit_eq) (simp add: drop_bit_nat_def)
qed

end
