(* ===== verification/Syspage.thy ===== *)
theory Syspage
  imports Prelude
begin

text \<open>
  startup/lib/syspage\_memory.c: the temporary system page, one block of memory cut into
  sections that grow in place. The memory from the base up to total\_size is a list of
  bytes, the sections are pairs of an address and a size, in the order of struct
  local\_syspage (section 0 is the struct syspage\_entry at the base).
\<close>

section \<open>The size budget\<close>

text \<open>The two counters that grow\_syspage\_section keeps in the syspage\_entry: total\_size
  and, until the page is written, the maximal size in its field size.\<close>

record budget =
  bg_total :: nat
  bg_max :: nat

text \<open>The request part of grow\_syspage\_section: the rounded amount, with the 32-bit sum
  written out, and the crash when the maximum is exceeded.\<close>

definition request :: "nat \<Rightarrow> budget \<Rightarrow> (nat \<times> budget) res" where
  "request n b =
    (if n > 0 then
       let add = roundup n 8;
           new_size = (bg_total b + add) mod 2 ^ 32
       in if new_size > bg_max b then crash ''Syspage memory request exceeds maximum''
          else ok (add, b\<lparr>bg_total := new_size\<rparr>)
     else ok (0, b))"

section \<open>Sections in memory\<close>

record sect =
  sc_p :: nat
  sc_size :: nat

record sysmem =
  sm_base :: nat
  sm_mem :: "char list"
  sm_budget :: budget
  sm_sects :: "sect list"
  sm_fixed :: nat
  sm_owners :: "nat list"

definition sc_end :: "sect \<Rightarrow> nat" where
  "sc_end s = sc_p s + sc_size s"

abbreviation NUL :: char where
  "NUL \<equiv> CHR 0x00"

text \<open>The loop over the sections: every other section at or above the insertion point
  moves up.\<close>

definition shift_sects :: "nat \<Rightarrow> nat \<Rightarrow> nat \<Rightarrow> sect list \<Rightarrow> sect list" where
  "shift_sects i bottom n ss =
    map (\<lambda>(j, s). if j \<noteq> i \<and> sc_p s \<ge> bottom then s\<lparr>sc_p := sc_p s + n\<rparr> else s)
      (zip [0 ..< length ss] ss)"

text \<open>callout\_reloc\_data (startup/lib/callouts.c) on the addresses of the callout slots
  that have data registered; the difference may be negative when the page moves.\<close>

definition callout_reloc_data :: "nat \<Rightarrow> nat \<Rightarrow> int \<Rightarrow> nat list \<Rightarrow> nat list" where
  "callout_reloc_data bs len diff owners =
    map (\<lambda>p. if bs \<le> p \<and> bs + len > p then nat (int p + diff) else p) owners"

definition grow_syspage_section :: "nat \<Rightarrow> nat \<Rightarrow> sysmem \<Rightarrow> (nat \<times> sysmem) res" where
  "grow_syspage_section i n st =
    and_then (request n (sm_budget st)) (\<lambda>(add, b).
      let s = sm_sects st ! i;
          bottom = sc_end s;
          off = bottom - sm_base st;
          len = bg_total (sm_budget st) - off
      in if n = 0 then ok (sc_p s, st)
         else ok (sc_p s,
           st\<lparr>sm_mem := take off (sm_mem st) @ replicate add NUL @ drop off (sm_mem st),
              sm_budget := b,
              sm_owners := callout_reloc_data bottom len (int add) (sm_owners st),
              sm_sects := (shift_sects i bottom add (sm_sects st))
                [i := s\<lparr>sc_size := sc_size s + add\<rparr>]\<rparr>))"

definition set_syspage_section :: "nat \<Rightarrow> nat \<Rightarrow> sysmem \<Rightarrow> (nat \<times> sysmem) res" where
  "set_syspage_section i n st =
    (let n' = roundup n 8;
         s = (sm_sects st ! i)\<lparr>sc_p := sm_base st + sm_fixed st\<rparr>
     in grow_syspage_section i n'
          (st\<lparr>sm_sects := (sm_sects st)[i := s], sm_fixed := sm_fixed st + n'\<rparr>))"

definition reloc_syspage_memory :: "nat \<Rightarrow> nat \<Rightarrow> sysmem \<Rightarrow> sysmem" where
  "reloc_syspage_memory bs max_size st =
    (let diff = int bs - int (sm_base st)
     in st\<lparr>sm_base := bs,
           sm_owners := callout_reloc_data (sm_base st) (bg_total (sm_budget st)) diff (sm_owners st),
           sm_sects := map (\<lambda>s. s\<lparr>sc_p := nat (int (sc_p s) + diff)\<rparr>) (sm_sects st),
           sm_budget := (sm_budget st)\<lparr>bg_max := max_size\<rparr>\<rparr>)"

section \<open>What the memory means\<close>

definition sect_bytes :: "sysmem \<Rightarrow> nat \<Rightarrow> char list" where
  "sect_bytes st i =
    (let s = sm_sects st ! i in take (sc_size s) (drop (sc_p s - sm_base st) (sm_mem st)))"

text \<open>Two sections do not overlap, and an empty one does not lie inside another.\<close>

definition apart :: "sect \<Rightarrow> sect \<Rightarrow> bool" where
  "apart s t \<longleftrightarrow> sc_end s \<le> sc_p t \<or> sc_end t \<le> sc_p s"

definition sysmem_ok :: "sysmem \<Rightarrow> bool" where
  "sysmem_ok st \<longleftrightarrow>
    length (sm_mem st) = bg_total (sm_budget st) \<and>
    (\<forall>s\<in>set (sm_sects st). sm_base st \<le> sc_p s \<and> sc_end s \<le> sm_base st + length (sm_mem st)) \<and>
    (\<forall>i<length (sm_sects st). \<forall>j<length (sm_sects st). i \<noteq> j \<longrightarrow>
       apart (sm_sects st ! i) (sm_sects st ! j))"

lemma request_ok:
  assumes "request n b = ok (add, b')" "bg_total b + roundup n 8 < 2 ^ 32"
  shows "add = roundup n 8" "b' = b\<lparr>bg_total := bg_total b + roundup n 8\<rparr>"
    "0 < n \<longrightarrow> bg_total b + roundup n 8 \<le> bg_max b"
  using assms by (auto simp: request_def Let_def roundup_def split: if_splits)

lemma shift_sects_length [simp]: "length (shift_sects i b n ss) = length ss"
  by (simp add: shift_sects_def)

lemma shift_sects_nth:
  "j < length ss \<Longrightarrow> shift_sects i b n ss ! j =
    (if j \<noteq> i \<and> sc_p (ss ! j) \<ge> b then (ss ! j)\<lparr>sc_p := sc_p (ss ! j) + n\<rparr> else ss ! j)"
  by (simp add: shift_sects_def)

lemma take_drop_insert_low:
  "p + k \<le> off \<Longrightarrow> off \<le> length m \<Longrightarrow>
    take k (drop p (take off m @ zs @ drop off m)) = take k (drop p m)"
  by (cases "k = 0") (auto simp: drop_take min_def le_diff_conv2)

lemma take_drop_insert_high:
  "off \<le> p \<Longrightarrow> off \<le> length m \<Longrightarrow>
    take k (drop (p + length zs) (take off m @ zs @ drop off m)) = take k (drop p m)"
  by (simp add: add.commute)

lemma take_drop_insert_at:
  assumes "p + k = off" "off \<le> length m"
  shows "take (k + length zs) (drop p (take off m @ zs @ drop off m)) = take k (drop p m) @ zs"
proof -
  have "drop p (take off m @ zs @ drop off m) = take k (drop p m) @ zs @ drop off m"
    using assms by (auto simp: drop_take)
  moreover have "length (take k (drop p m)) = k"
    using assms by simp
  ultimately show ?thesis
    by (simp add: take_add)
qed

section \<open>Growing a section\<close>

lemma sysmem_okD:
  assumes "sysmem_ok st" "i < length (sm_sects st)"
  shows "sm_base st \<le> sc_p (sm_sects st ! i)"
    "sc_p (sm_sects st ! i) \<le> sc_end (sm_sects st ! i)"
    "sc_end (sm_sects st ! i) \<le> sm_base st + length (sm_mem st)"
  using assms by (auto simp: sysmem_ok_def sc_end_def)

lemma sysmem_ok_apart:
  assumes "sysmem_ok st" "i < length (sm_sects st)" "j < length (sm_sects st)" "i \<noteq> j"
  shows "apart (sm_sects st ! i) (sm_sects st ! j)"
  using assms by (simp add: sysmem_ok_def)

definition grown :: "nat \<Rightarrow> nat \<Rightarrow> sysmem \<Rightarrow> sysmem" where
  "grown i add st =
    (let s = sm_sects st ! i; bottom = sc_end s; off = bottom - sm_base st
     in st\<lparr>sm_mem := take off (sm_mem st) @ replicate add NUL @ drop off (sm_mem st),
           sm_budget := (sm_budget st)\<lparr>bg_total := bg_total (sm_budget st) + add\<rparr>,
           sm_owners := callout_reloc_data bottom (bg_total (sm_budget st) - off) (int add)
             (sm_owners st),
           sm_sects := (shift_sects i bottom add (sm_sects st))
             [i := s\<lparr>sc_size := sc_size s + add\<rparr>]\<rparr>)"

lemma grow_eq_grown:
  assumes "grow_syspage_section i n st = ok (p, st')"
    and "bg_total (sm_budget st) + roundup n 8 < 2 ^ 32" "0 < n"
  shows "st' = grown i (roundup n 8) st" "p = sc_p (sm_sects st ! i)"
proof -
  obtain add b where r: "request n (sm_budget st) = ok (add, b)"
    using assms(1) by (auto simp: grow_syspage_section_def)
  note ab = request_ok(1,2) [OF r assms(2)]
  show "st' = grown i (roundup n 8) st" "p = sc_p (sm_sects st ! i)"
    using assms(1,3) by (auto simp: grow_syspage_section_def grown_def Let_def r ab)
qed

lemma grown_sect:
  assumes "i < length (sm_sects st)" "j < length (sm_sects st)"
  shows "sm_sects (grown i n st) ! j =
    (let s = sm_sects st ! i; t = sm_sects st ! j
     in if j = i then s\<lparr>sc_size := sc_size s + n\<rparr>
        else if sc_p t \<ge> sc_end s then t\<lparr>sc_p := sc_p t + n\<rparr> else t)"
  using assms by (auto simp: grown_def Let_def nth_list_update shift_sects_nth)

lemma grown_simps [simp]:
  "length (sm_sects (grown i n st)) = length (sm_sects st)"
  "sm_base (grown i n st) = sm_base st"
  "sm_fixed (grown i n st) = sm_fixed st"
  "sm_budget (grown i n st) = (sm_budget st)\<lparr>bg_total := bg_total (sm_budget st) + n\<rparr>"
  by (simp_all add: grown_def Let_def)

lemma grown_mem_eq:
  "sm_mem (grown i n st) =
    (let off = sc_end (sm_sects st ! i) - sm_base st
     in take off (sm_mem st) @ replicate n NUL @ drop off (sm_mem st))"
  by (simp add: grown_def Let_def)

lemma grown_mem:
  assumes "sysmem_ok st" "i < length (sm_sects st)"
  shows "length (sm_mem (grown i n st)) = length (sm_mem st) + n"
  using sysmem_okD [OF assms] by (simp add: grown_def Let_def)

lemma grown_ok:
  assumes ok: "sysmem_ok st" and i: "i < length (sm_sects st)"
  shows "sysmem_ok (grown i n st)"
  unfolding sysmem_ok_def
proof (intro conjI)
  show "length (sm_mem (grown i n st)) = bg_total (sm_budget (grown i n st))"
    using ok by (simp add: grown_mem [OF assms] sysmem_ok_def)
next
  show "\<forall>s\<in>set (sm_sects (grown i n st)).
      sm_base (grown i n st) \<le> sc_p s \<and>
      sc_end s \<le> sm_base (grown i n st) + length (sm_mem (grown i n st))"
  proof
    fix s assume "s \<in> set (sm_sects (grown i n st))"
    then obtain j where j: "j < length (sm_sects st)" "s = sm_sects (grown i n st) ! j"
      by (auto simp: in_set_conv_nth)
    show "sm_base (grown i n st) \<le> sc_p s \<and>
      sc_end s \<le> sm_base (grown i n st) + length (sm_mem (grown i n st))"
      using sysmem_okD [OF ok i] sysmem_okD [OF ok j(1)]
      by (auto simp: j(2) grown_sect [OF i j(1)] grown_mem [OF assms] Let_def sc_end_def)
  qed
next
  show "\<forall>j<length (sm_sects (grown i n st)). \<forall>k<length (sm_sects (grown i n st)). j \<noteq> k \<longrightarrow>
      apart (sm_sects (grown i n st) ! j) (sm_sects (grown i n st) ! k)"
  proof (intro allI impI)
    fix j k
    assume jk: "j < length (sm_sects (grown i n st))" "k < length (sm_sects (grown i n st))" "j \<noteq> k"
    then have j: "j < length (sm_sects st)" and k: "k < length (sm_sects st)" by auto
    have ij: "i \<noteq> j \<Longrightarrow> apart (sm_sects st ! i) (sm_sects st ! j)"
      and ik: "i \<noteq> k \<Longrightarrow> apart (sm_sects st ! i) (sm_sects st ! k)"
      and jk': "apart (sm_sects st ! j) (sm_sects st ! k)"
      using sysmem_ok_apart [OF ok] i j k jk(3) by auto
    show "apart (sm_sects (grown i n st) ! j) (sm_sects (grown i n st) ! k)"
      using ij ik jk' sysmem_okD [OF ok i] sysmem_okD [OF ok j] sysmem_okD [OF ok k] jk(3)
      unfolding grown_sect [OF i j] grown_sect [OF i k] Let_def apart_def sc_end_def
      by (simp split: if_splits) linarith
  qed
qed

lemma grown_bytes_same:
  assumes ok: "sysmem_ok st" and i: "i < length (sm_sects st)"
  shows "sect_bytes (grown i n st) i = sect_bytes st i @ replicate n NUL"
proof -
  note b = sysmem_okD [OF assms]
  have "take (sc_size (sm_sects st ! i) + length (replicate n NUL))
      (drop (sc_p (sm_sects st ! i) - sm_base st) (sm_mem (grown i n st))) =
      take (sc_size (sm_sects st ! i)) (drop (sc_p (sm_sects st ! i) - sm_base st) (sm_mem st))
        @ replicate n NUL"
    unfolding grown_mem_eq Let_def
    by (rule take_drop_insert_at) (use b in \<open>auto simp: sc_end_def\<close>)
  then show ?thesis
    by (simp add: sect_bytes_def Let_def grown_sect [OF i i])
qed

lemma grown_bytes_other:
  assumes ok: "sysmem_ok st" and i: "i < length (sm_sects st)" and j: "j < length (sm_sects st)"
    and ij: "j \<noteq> i"
  shows "sect_bytes (grown i n st) j = sect_bytes st j"
proof -
  let ?s = "sm_sects st ! i" and ?t = "sm_sects st ! j"
  note b = sysmem_okD [OF ok i] sysmem_okD [OF ok j]
  have ap: "apart ?s ?t" using sysmem_ok_apart [OF ok i j] ij by simp
  note m = grown_mem_eq [of i n st]
  show ?thesis
  proof (cases "sc_p ?t \<ge> sc_end ?s")
    case True
    have "sc_p ?t + n - sm_base st = sc_p ?t - sm_base st + length (replicate n NUL)"
      using b by simp
    then show ?thesis
      using True ij b unfolding sect_bytes_def grown_sect [OF i j] Let_def m grown_simps
      by (simp del: length_replicate add: take_drop_insert_high)
  next
    case False
    with ap b have "sc_end ?t \<le> sc_end ?s"
      by (auto simp: apart_def sc_end_def)
    then show ?thesis
      using False ij b unfolding sect_bytes_def grown_sect [OF i j] Let_def m grown_simps
      by (subst take_drop_insert_low) (auto simp: sc_end_def)
  qed
qed

section \<open>Moving the page\<close>

lemma reloc_bytes:
  assumes "sysmem_ok st" "i < length (sm_sects st)"
  shows "sect_bytes (reloc_syspage_memory bs n st) i = sect_bytes st i"
proof -
  have "nat (int (sc_p (sm_sects st ! i)) + (int bs - int (sm_base st))) - bs =
      sc_p (sm_sects st ! i) - sm_base st"
    using sysmem_okD(1) [OF assms] by linarith
  then show ?thesis
    using assms(2) by (simp add: sect_bytes_def reloc_syspage_memory_def Let_def)
qed

lemma reloc_ok:
  assumes "sysmem_ok st"
  shows "sysmem_ok (reloc_syspage_memory bs n st)"
proof -
  have "nat (int (sc_p s) + (int bs - int (sm_base st))) = sc_p s - sm_base st + bs"
    if "s \<in> set (sm_sects st)" for s
    using assms that by (auto simp: sysmem_ok_def)
  moreover have "apart (s\<lparr>sc_p := sc_p s - sm_base st + bs\<rparr>) (t\<lparr>sc_p := sc_p t - sm_base st + bs\<rparr>)"
    if "s \<in> set (sm_sects st)" "t \<in> set (sm_sects st)" "apart s t" for s t
    using assms that by (auto simp: sysmem_ok_def apart_def sc_end_def)
  ultimately show ?thesis
    using assms
    by (auto simp: sysmem_ok_def reloc_syspage_memory_def Let_def sc_end_def)
qed

section \<open>Setting up the page\<close>

text \<open>The sections that init\_syspage\_memory touches, by their position in struct
  local\_syspage, which has 14 sections before the three CPU specific ones.\<close>

definition S_HWINFO :: nat where "S_HWINFO = 3"
definition S_CALLOUT :: nat where "S_CALLOUT = 7"
definition S_TYPED_STRINGS :: nat where "S_TYPED_STRINGS = 8"
definition S_STRINGS :: nat where "S_STRINGS = 9"
definition S_GIC_MAP :: nat where "S_GIC_MAP = 14"
definition N_SECTS :: nat where "N_SECTS = 17"
definition PROCESSORS_MAX :: nat where "PROCESSORS_MAX = 64"

text \<open>The sizes of the structures of sys/syspage.h, which is not part of the tree.\<close>

record sp_sizes =
  sz_syspage_entry :: nat
  sz_callout_entry :: nat
  sz_hwi_prefix :: nat

definition blank_syspage :: "sp_sizes \<Rightarrow> nat \<Rightarrow> nat \<Rightarrow> sysmem" where
  "blank_syspage z bs max_size =
    (let spsize = roundup (sz_syspage_entry z) 8
     in \<lparr>sm_base = bs, sm_mem = replicate spsize NUL,
         sm_budget = \<lparr>bg_total = spsize, bg_max = max_size\<rparr>,
         sm_sects = \<lparr>sc_p = bs, sc_size = spsize\<rparr> #
           replicate (N_SECTS - 1) \<lparr>sc_p = bs + spsize, sc_size = 0\<rparr>,
         sm_fixed = spsize, sm_owners = []\<rparr>)"

definition cpu_init_syspage_memory :: "sysmem \<Rightarrow> (nat \<times> sysmem) res" where
  "cpu_init_syspage_memory = set_syspage_section S_GIC_MAP (8 * PROCESSORS_MAX)"

definition init_syspage_memory :: "sp_sizes \<Rightarrow> nat \<Rightarrow> nat \<Rightarrow> sysmem res" where
  "init_syspage_memory z bs max_size =
    and_then (set_syspage_section S_CALLOUT (sz_callout_entry z) (blank_syspage z bs max_size))
      (\<lambda>(_, s1). and_then (grow_syspage_section S_TYPED_STRINGS 4 s1)
      (\<lambda>(_, s2). and_then (grow_syspage_section S_STRINGS 1 s2)
      (\<lambda>(_, s3). and_then (grow_syspage_section S_HWINFO (sz_hwi_prefix z) s3)
      (\<lambda>(_, s4). and_then (cpu_init_syspage_memory s4) (\<lambda>(_, s5). ok s5)))))"

lemma grow_ok:
  assumes "grow_syspage_section i n st = ok (p, st')" "sysmem_ok st" "i < length (sm_sects st)"
    and "bg_total (sm_budget st) + roundup n 8 < 2 ^ 32"
  shows "sysmem_ok st'"
    "sect_bytes st' i = sect_bytes st i @ replicate (roundup n 8) NUL"
    "\<And>j. j < length (sm_sects st) \<Longrightarrow> j \<noteq> i \<Longrightarrow> sect_bytes st' j = sect_bytes st j"
    "length (sm_sects st') = length (sm_sects st)"
    "bg_total (sm_budget st') = bg_total (sm_budget st) + roundup n 8"
proof -
  have *: "st' = (if n = 0 then st else grown i (roundup n 8) st)"
    using grow_eq_grown [OF assms(1,4)] assms(1)
    by (auto simp: grow_syspage_section_def request_def Let_def)
  have z: "roundup 0 8 = 0" by (simp add: roundup_def)
  show "sysmem_ok st'"
    using assms(2,3) by (simp add: * grown_ok)
  show "sect_bytes st' i = sect_bytes st i @ replicate (roundup n 8) NUL"
    using assms(2,3) by (simp add: * grown_bytes_same z)
  show "\<And>j. j < length (sm_sects st) \<Longrightarrow> j \<noteq> i \<Longrightarrow> sect_bytes st' j = sect_bytes st j"
    using assms(2,3) by (simp add: * grown_bytes_other)
  show "length (sm_sects st') = length (sm_sects st)"
    by (simp add: *)
  show "bg_total (sm_budget st') = bg_total (sm_budget st) + roundup n 8"
    by (simp add: * z)
qed

text \<open>fixed\_size is the offset at which the next fixed section is put: no section lies
  across it, and what the variable sections hold is above it.\<close>

definition fixed_ok :: "sysmem \<Rightarrow> bool" where
  "fixed_ok st \<longleftrightarrow> sm_fixed st \<le> length (sm_mem st) \<and>
    (\<forall>s\<in>set (sm_sects st). sm_base st + sm_fixed st \<le> sc_p s \<or> sc_end s \<le> sm_base st + sm_fixed st)"

definition place_fixed :: "nat \<Rightarrow> nat \<Rightarrow> sysmem \<Rightarrow> sysmem" where
  "place_fixed i n st =
    st\<lparr>sm_sects := (sm_sects st)[i := (sm_sects st ! i)\<lparr>sc_p := sm_base st + sm_fixed st\<rparr>],
       sm_fixed := sm_fixed st + n\<rparr>"

lemma place_fixed_ok:
  assumes "sysmem_ok st" "fixed_ok st" "i < length (sm_sects st)" "sc_size (sm_sects st ! i) = 0"
  shows "sysmem_ok (place_fixed i n st)"
proof -
  let ?x = "(sm_sects st ! i)\<lparr>sc_p := sm_base st + sm_fixed st\<rparr>"
  have x: "sc_p ?x = sm_base st + sm_fixed st" "sc_end ?x = sm_base st + sm_fixed st"
    using assms(4) by (simp_all add: sc_end_def)
  have ap: "apart ?x s" "apart s ?x" if "s \<in> set (sm_sects st)" for s
    using assms(2) that unfolding apart_def x fixed_ok_def by blast+
  have "sm_base st \<le> sc_p s \<and> sc_end s \<le> sm_base st + length (sm_mem st)"
    if "s \<in> set ((sm_sects st)[i := ?x])" for s
  proof -
    have "s = ?x \<or> s \<in> set (sm_sects st)"
      using that set_update_subset_insert by fastforce
    then show ?thesis
      using assms(1,2) x by (auto simp: sysmem_ok_def fixed_ok_def)
  qed
  moreover have "apart ((sm_sects st)[i := ?x] ! j) ((sm_sects st)[i := ?x] ! k)"
    if "j < length (sm_sects st)" "k < length (sm_sects st)" "j \<noteq> k" for j k
    using sysmem_ok_apart [OF assms(1) that] ap [OF nth_mem] that
    by (cases "j = i"; cases "k = i") auto
  ultimately show ?thesis
    using assms(1) unfolding sysmem_ok_def place_fixed_def by auto
qed

lemma place_fixed_sel [simp]:
  "sm_budget (place_fixed i n st) = sm_budget st"
  "sm_mem (place_fixed i n st) = sm_mem st"
  "sm_base (place_fixed i n st) = sm_base st"
  "sm_fixed (place_fixed i n st) = sm_fixed st + n"
  "sm_sects (place_fixed i n st) =
    (sm_sects st)[i := (sm_sects st ! i)\<lparr>sc_p := sm_base st + sm_fixed st\<rparr>]"
  by (simp_all add: place_fixed_def)

lemma fixed_ok_grown:
  assumes "sysmem_ok st" "fixed_ok st" "i < length (sm_sects st)"
    and "sm_base st + sm_fixed st \<le> sc_p (sm_sects st ! i)"
  shows "fixed_ok (grown i n st)"
  unfolding fixed_ok_def
proof (intro conjI ballI)
  show "sm_fixed (grown i n st) \<le> length (sm_mem (grown i n st))"
    using assms(2) by (simp add: fixed_ok_def grown_mem [OF assms(1,3)])
  fix s assume "s \<in> set (sm_sects (grown i n st))"
  then obtain j where j: "j < length (sm_sects st)" "s = sm_sects (grown i n st) ! j"
    by (auto simp: in_set_conv_nth)
  have "sm_base st + sm_fixed st \<le> sc_p (sm_sects st ! j)
      \<or> sc_end (sm_sects st ! j) \<le> sm_base st + sm_fixed st"
    using assms(2) j(1) by (auto simp: fixed_ok_def)
  then show "sm_base (grown i n st) + sm_fixed (grown i n st) \<le> sc_p s
      \<or> sc_end s \<le> sm_base (grown i n st) + sm_fixed (grown i n st)"
    using assms(4) by (auto simp: j(2) grown_sect [OF assms(3) j(1)] Let_def sc_end_def)
qed

lemma set_section_eq:
  assumes "set_syspage_section i n st = ok (p, st')"
    and "bg_total (sm_budget st) + roundup n 8 < 2 ^ 32" "0 < n" "i < length (sm_sects st)"
  shows "st' = grown i (roundup n 8) (place_fixed i (roundup n 8) st)"
proof -
  have r: "roundup (roundup n 8) 8 = roundup n 8"
    by (simp add: roundup_fix roundup_dvd)
  have "0 < roundup n 8"
    using roundup_ge [of 8 n] assms(3) by simp
  then show ?thesis
    using assms r grow_eq_grown(1) [of i "roundup n 8" "place_fixed i (roundup n 8) st" p st']
    by (simp add: set_syspage_section_def Let_def place_fixed_def)
qed

lemma set_section_ok:
  assumes "set_syspage_section i n st = ok (p, st')" "sysmem_ok st" "fixed_ok st"
    and "bg_total (sm_budget st) + roundup n 8 < 2 ^ 32" "0 < n" "i < length (sm_sects st)"
    and "sc_size (sm_sects st ! i) = 0"
  shows "sysmem_ok st'" "fixed_ok st'" "length (sm_sects st') = length (sm_sects st)"
    "bg_total (sm_budget st') = bg_total (sm_budget st) + roundup n 8"
    "sect_bytes st' i = replicate (roundup n 8) NUL"
    "\<And>j. j < length (sm_sects st) \<Longrightarrow> j \<noteq> i \<Longrightarrow> sect_bytes st' j = sect_bytes st j"
proof -
  let ?q = "place_fixed i (roundup n 8) st"
  note st' = set_section_eq [OF assms(1,4,5,6)]
  have q: "sysmem_ok ?q" by (rule place_fixed_ok) (use assms in auto)
  have i: "i < length (sm_sects ?q)" using assms(6) by simp
  have qb: "sect_bytes ?q i = []" "\<And>j. j \<noteq> i \<Longrightarrow> sect_bytes ?q j = sect_bytes st j"
    using assms(6,7) by (auto simp: sect_bytes_def Let_def)
  show "sysmem_ok st'"
    unfolding st' by (rule grown_ok [OF q i])
  show "length (sm_sects st') = length (sm_sects st)"
    "bg_total (sm_budget st') = bg_total (sm_budget st) + roundup n 8"
    by (simp_all add: st')
  show "sect_bytes st' i = replicate (roundup n 8) NUL"
    unfolding st' by (simp add: grown_bytes_same [OF q i] qb)
  show "\<And>j. j < length (sm_sects st) \<Longrightarrow> j \<noteq> i \<Longrightarrow> sect_bytes st' j = sect_bytes st j"
    unfolding st' by (simp add: grown_bytes_other [OF q i] qb)
  show "fixed_ok st'"
    unfolding fixed_ok_def
  proof (intro conjI ballI)
    have fx: "sm_fixed st' = sm_fixed st + roundup n 8" "sm_base st' = sm_base st"
      by (simp_all add: st' grown_def Let_def)
    show "sm_fixed st' \<le> length (sm_mem st')"
      using assms(3) grown_mem [OF q i, of "roundup n 8"] by (simp add: st' fixed_ok_def)
    fix s assume "s \<in> set (sm_sects st')"
    then obtain j where j: "j < length (sm_sects ?q)" "s = sm_sects st' ! j"
      by (auto simp: in_set_conv_nth st')
    have "sm_base st + sm_fixed st \<le> sc_p (sm_sects st ! j)
        \<or> sc_end (sm_sects st ! j) \<le> sm_base st + sm_fixed st"
      using assms(3) j(1) by (auto simp: fixed_ok_def)
    then show "sm_base st' + sm_fixed st' \<le> sc_p s \<or> sc_end s \<le> sm_base st' + sm_fixed st'"
      using assms(6,7) unfolding fx j(2) unfolding st' grown_sect [OF i j(1)]
      by (auto simp: Let_def sc_end_def nth_list_update split: if_splits)
  qed
qed

lemma blank_ok: "sysmem_ok (blank_syspage z bs n)" "fixed_ok (blank_syspage z bs n)"
  by (auto simp: sysmem_ok_def fixed_ok_def blank_syspage_def Let_def sc_end_def N_SECTS_def
      apart_def nth_Cons split: nat.splits)

lemma blank_sel:
  "length (sm_sects (blank_syspage z bs n)) = N_SECTS"
  "bg_total (sm_budget (blank_syspage z bs n)) = roundup (sz_syspage_entry z) 8"
  "0 < i \<Longrightarrow> i < N_SECTS \<Longrightarrow> sect_bytes (blank_syspage z bs n) i = []"
  by (auto simp: blank_syspage_def Let_def N_SECTS_def sect_bytes_def nth_Cons split: nat.splits)

lemma sect_bytes_size:
  assumes "sysmem_ok st" "i < length (sm_sects st)"
  shows "length (sect_bytes st i) = sc_size (sm_sects st ! i)"
  using sysmem_okD [OF assms] by (simp add: sect_bytes_def Let_def sc_end_def)

lemmas sect_index_defs = S_HWINFO_def S_CALLOUT_def S_TYPED_STRINGS_def S_STRINGS_def S_GIC_MAP_def
  N_SECTS_def PROCESSORS_MAX_def

definition init_total :: "sp_sizes \<Rightarrow> nat" where
  "init_total z = roundup (sz_syspage_entry z) 8 + roundup (sz_callout_entry z) 8 + 8 + 8
    + roundup (sz_hwi_prefix z) 8 + 512"

lemma init_steps:
  assumes "init_syspage_memory z bs m = ok st"
  obtains p1 s1 p2 s2 p3 s3 p4 s4 p5
  where "set_syspage_section S_CALLOUT (sz_callout_entry z) (blank_syspage z bs m) = ok (p1, s1)"
    "grow_syspage_section S_TYPED_STRINGS 4 s1 = ok (p2, s2)"
    "grow_syspage_section S_STRINGS 1 s2 = ok (p3, s3)"
    "grow_syspage_section S_HWINFO (sz_hwi_prefix z) s3 = ok (p4, s4)"
    "set_syspage_section S_GIC_MAP (8 * PROCESSORS_MAX) s4 = ok (p5, st)"
  using assms
  by (auto simp: init_syspage_memory_def cpu_init_syspage_memory_def res_simps split: prod.splits)

lemma fixed_ok_grow:
  assumes "grow_syspage_section i n st = ok (p, st')" "sysmem_ok st" "fixed_ok st"
    and "bg_total (sm_budget st) + roundup n 8 < 2 ^ 32" "0 < n" "i < length (sm_sects st)"
    and "sm_base st + sm_fixed st \<le> sc_p (sm_sects st ! i)"
  shows "fixed_ok st'"
  using grow_eq_grown(1) [OF assms(1,4,5)] fixed_ok_grown [OF assms(2,3,6,7)] by simp

text \<open>A section that has not been placed yet is at or above the fixed part.\<close>

definition above_fixed :: "sysmem \<Rightarrow> nat \<Rightarrow> bool" where
  "above_fixed st i \<longleftrightarrow> sm_base st + sm_fixed st \<le> sc_p (sm_sects st ! i)"

lemma above_fixed_grow:
  assumes "grow_syspage_section i n st = ok (p, st')"
    and "bg_total (sm_budget st) + roundup n 8 < 2 ^ 32" "0 < n"
    and "i < length (sm_sects st)" "j < length (sm_sects st)" "above_fixed st j"
  shows "above_fixed st' j"
  using assms(6) unfolding grow_eq_grown(1) [OF assms(1,2,3)] above_fixed_def
  by (auto simp: grown_sect [OF assms(4,5)] Let_def)

lemma above_fixed_set:
  assumes "set_syspage_section i n st = ok (p, st')"
    and "bg_total (sm_budget st) + roundup n 8 < 2 ^ 32" "0 < n"
    and "i < length (sm_sects st)" "j < length (sm_sects st)" "j \<noteq> i" "above_fixed st j"
    and "sc_size (sm_sects st ! i) = 0"
  shows "above_fixed st' j"
  using assms(6,7,8) grown_sect [of i "place_fixed i (roundup n 8) st" j "roundup n 8"] assms(4,5)
  unfolding set_section_eq [OF assms(1,2,3,4)] above_fixed_def
  by (auto simp: Let_def nth_list_update sc_end_def)

lemma blank_above: "0 < i \<Longrightarrow> i < N_SECTS \<Longrightarrow> above_fixed (blank_syspage z bs n) i"
  by (auto simp: above_fixed_def blank_syspage_def Let_def N_SECTS_def nth_Cons split: nat.splits)

lemma empty_size: "sysmem_ok st \<Longrightarrow> i < length (sm_sects st) \<Longrightarrow> sect_bytes st i = []
    \<Longrightarrow> sc_size (sm_sects st ! i) = 0"
  by (drule sect_bytes_size) auto

text \<open>What holds during the set-up: the total, the contents of every section but the first,
  and the sections that are still empty lie above the fixed part.\<close>

definition laid :: "sysmem \<Rightarrow> nat \<Rightarrow> (nat \<Rightarrow> char list) \<Rightarrow> bool" where
  "laid st t c \<longleftrightarrow> sysmem_ok st \<and> fixed_ok st \<and> length (sm_sects st) = N_SECTS
    \<and> bg_total (sm_budget st) = t
    \<and> (\<forall>j. 0 < j \<and> j < N_SECTS \<longrightarrow> sect_bytes st j = c j \<and> (c j = [] \<longrightarrow> above_fixed st j))"

lemma laidD:
  assumes "laid st t c" "0 < i" "i < N_SECTS"
  shows "sysmem_ok st" "fixed_ok st" "i < length (sm_sects st)" "length (sm_sects st) = N_SECTS"
    "bg_total (sm_budget st) = t" "sect_bytes st i = c i" "c i = [] \<Longrightarrow> above_fixed st i"
    "c i = [] \<Longrightarrow> sc_size (sm_sects st ! i) = 0"
  using assms empty_size [of st i] by (auto simp: laid_def)

lemma laid_blank: "laid (blank_syspage z bs n) (roundup (sz_syspage_entry z) 8) (\<lambda>_. [])"
  using blank_ok blank_sel blank_above by (auto simp: laid_def)

lemma laid_grow:
  assumes run: "grow_syspage_section i n st = ok (p, st')" and l: "laid st t c"
    and i: "0 < i" "i < N_SECTS" "c i = []" and n: "0 < n" "t + roundup n 8 < 2 ^ 32"
  shows "laid st' (t + roundup n 8) (c(i := replicate (roundup n 8) NUL))"
proof -
  note d = laidD [OF l i(1,2)]
  have b: "bg_total (sm_budget st) + roundup n 8 < 2 ^ 32" using d n by simp
  note g = grow_ok [OF run d(1,3) b]
  have "0 < roundup n 8" using roundup_ge [of 8 n] n by simp
  moreover have "fixed_ok st'"
    using fixed_ok_grow [OF run d(1,2) b n(1) d(3)] d(7) i by (simp add: above_fixed_def)
  moreover have "above_fixed st' j" if "0 < j" "j < N_SECTS" "j \<noteq> i" "c j = []" for j
    using above_fixed_grow [OF run b n(1) d(3)] laidD [OF l that(1,2)] that by simp
  ultimately show ?thesis
    using g d i l by (auto simp: laid_def)
qed

lemma laid_set:
  assumes run: "set_syspage_section i n st = ok (p, st')" and l: "laid st t c"
    and i: "0 < i" "i < N_SECTS" "c i = []" and n: "0 < n" "t + roundup n 8 < 2 ^ 32"
  shows "laid st' (t + roundup n 8) (c(i := replicate (roundup n 8) NUL))"
proof -
  note d = laidD [OF l i(1,2)]
  have b: "bg_total (sm_budget st) + roundup n 8 < 2 ^ 32" using d n by simp
  note g = set_section_ok [OF run d(1,2) b n(1) d(3) d(8) [OF i(3)]]
  have "0 < roundup n 8" using roundup_ge [of 8 n] n by simp
  moreover have "above_fixed st' j" if "0 < j" "j < N_SECTS" "j \<noteq> i" "c j = []" for j
    using above_fixed_set [OF run b n(1) d(3)] laidD [OF l that(1,2)] that d(8) i by simp
  ultimately show ?thesis
    using g d i l by (auto simp: laid_def)
qed

lemma init_laid:
  assumes run: "init_syspage_memory z bs m = ok st"
    and pos: "0 < sz_callout_entry z" "0 < sz_hwi_prefix z" and small: "init_total z < 2 ^ 32"
  shows "laid st (init_total z) ((\<lambda>_. [])
    (S_CALLOUT := replicate (roundup (sz_callout_entry z) 8) NUL,
     S_TYPED_STRINGS := replicate 8 NUL, S_STRINGS := replicate 8 NUL,
     S_HWINFO := replicate (roundup (sz_hwi_prefix z) 8) NUL,
     S_GIC_MAP := replicate 512 NUL))"
proof -
  have r: "roundup 4 8 = 8" "roundup (Suc 0) 8 = 8" "roundup (8 * PROCESSORS_MAX) 8 = 512"
    "0 < 8 * PROCESSORS_MAX"
    by (simp_all add: roundup_def PROCESSORS_MAX_def)
  have ix: "0 < S_CALLOUT" "S_CALLOUT < N_SECTS" "0 < S_TYPED_STRINGS" "S_TYPED_STRINGS < N_SECTS"
    "0 < S_STRINGS" "S_STRINGS < N_SECTS" "0 < S_HWINFO" "S_HWINFO < N_SECTS"
    "0 < S_GIC_MAP" "S_GIC_MAP < N_SECTS"
    by (simp_all add: sect_index_defs)
  have ne: "S_TYPED_STRINGS \<noteq> S_CALLOUT" "S_STRINGS \<noteq> S_CALLOUT" "S_STRINGS \<noteq> S_TYPED_STRINGS"
    "S_HWINFO \<notin> {S_CALLOUT, S_TYPED_STRINGS, S_STRINGS}"
    "S_GIC_MAP \<notin> {S_CALLOUT, S_TYPED_STRINGS, S_STRINGS, S_HWINFO}"
    by (simp_all add: sect_index_defs)
  note le = small [unfolded init_total_def]
  obtain p1 s1 p2 s2 p3 s3 p4 s4 p5 where
    e: "set_syspage_section S_CALLOUT (sz_callout_entry z) (blank_syspage z bs m) = ok (p1, s1)"
      "grow_syspage_section S_TYPED_STRINGS 4 s1 = ok (p2, s2)"
      "grow_syspage_section S_STRINGS 1 s2 = ok (p3, s3)"
      "grow_syspage_section S_HWINFO (sz_hwi_prefix z) s3 = ok (p4, s4)"
      "set_syspage_section S_GIC_MAP (8 * PROCESSORS_MAX) s4 = ok (p5, st)"
    by (rule init_steps [OF run])
  note l1 = laid_set [OF e(1) laid_blank ix(1,2) refl pos(1)]
  note l2 = laid_grow [OF e(2) l1 ix(3,4)]
  note l3 = laid_grow [OF e(3) l2 ix(5,6)]
  note l4 = laid_grow [OF e(4) l3 ix(7,8) _ pos(2)]
  note l5 = laid_set [OF e(5) l4 ix(9,10) _ r(4)]
  show ?thesis
    using l5 le ne by (simp add: init_total_def r)
qed

lemma init_syspage_ok:
  assumes "init_syspage_memory z bs m = ok st"
    and "0 < sz_callout_entry z" "0 < sz_hwi_prefix z" "init_total z < 2 ^ 32"
  shows "sysmem_ok st \<and> fixed_ok st \<and> bg_total (sm_budget st) = init_total z
    \<and> sect_bytes st S_STRINGS = replicate 8 NUL \<and> sect_bytes st S_TYPED_STRINGS = replicate 8 NUL
    \<and> sect_bytes st S_CALLOUT = replicate (roundup (sz_callout_entry z) 8) NUL
    \<and> sect_bytes st S_HWINFO = replicate (roundup (sz_hwi_prefix z) 8) NUL
    \<and> sect_bytes st S_GIC_MAP = replicate 512 NUL"
  using init_laid [OF assms] by (auto simp: laid_def sect_index_defs)

section \<open>Properties\<close>

text \<open>The byte a registered callout slot points at.\<close>

definition owner_byte :: "sysmem \<Rightarrow> nat \<Rightarrow> char" where
  "owner_byte st k = sm_mem st ! (sm_owners st ! k - sm_base st)"

lemma grown_owner_byte:
  assumes ok: "sysmem_ok st" and i: "i < length (sm_sects st)" and k: "k < length (sm_owners st)"
    and p: "sm_base st \<le> sm_owners st ! k" "sm_owners st ! k < sm_base st + bg_total (sm_budget st)"
  shows "owner_byte (grown i n st) k = owner_byte st k"
proof -
  let ?b = "sc_end (sm_sects st ! i)" and ?o = "sm_owners st ! k"
  note d = sysmem_okD [OF ok i]
  have len: "length (sm_mem st) = bg_total (sm_budget st)" using ok by (simp add: sysmem_ok_def)
  have "sm_owners (grown i n st) ! k = (if ?b \<le> ?o then ?o + n else ?o)"
    using k p d len by (auto simp: grown_def Let_def callout_reloc_data_def)
  then show ?thesis
    using d p len by (auto simp: owner_byte_def grown_mem_eq Let_def nth_append)
qed

text \<open>C9: growing a section appends zero bytes to it, leaves the contents of every other section
  as they are although their memory moves, and the registered callout slots still point at
  the same bytes.\<close>

theorem grow_syspage_section_grows:
  assumes "sysmem_ok st" "i < length (sm_sects st)" "grow_syspage_section i n st = ok (p, st')"
    and "bg_total (sm_budget st) + roundup n 8 < 2 ^ 32"
  shows "sysmem_ok st' \<and> sect_bytes st' i = sect_bytes st i @ replicate (roundup n 8) NUL
    \<and> (\<forall>j<length (sm_sects st). j \<noteq> i \<longrightarrow> sect_bytes st' j = sect_bytes st j)
    \<and> (\<forall>k<length (sm_owners st). sm_base st \<le> sm_owners st ! k \<and>
         sm_owners st ! k < sm_base st + bg_total (sm_budget st) \<longrightarrow> owner_byte st' k = owner_byte st k)"
proof -
  note g = grow_ok [OF assms(3,1,2,4)]
  have "st' = (if n = 0 then st else grown i (roundup n 8) st)"
    using grow_eq_grown [OF assms(3,4)] assms(3)
    by (auto simp: grow_syspage_section_def request_def Let_def)
  then show ?thesis
    using g grown_owner_byte [OF assms(1,2)] by simp
qed

definition sm_ex :: sysmem where
  "sm_ex = \<lparr>sm_base = 0x1000, sm_mem = ''syspageAB'', sm_budget = \<lparr>bg_total = 9, bg_max = 100\<rparr>,
     sm_sects = [\<lparr>sc_p = 0x1000, sc_size = 7\<rparr>, \<lparr>sc_p = 0x1007, sc_size = 1\<rparr>, \<lparr>sc_p = 0x1008, sc_size = 1\<rparr>],
     sm_fixed = 7, sm_owners = [0x1008]\<rparr>"

lemma sm_ex_ok: "sysmem_ok sm_ex"
  by code_simp

lemma grow_syspage_section_grows_witness:
  "\<exists>st'. grow_syspage_section 1 3 sm_ex = ok (0x1007, st')
     \<and> sect_bytes st' 1 = sect_bytes sm_ex 1 @ replicate 8 NUL"
proof -
  have run: "case grow_syspage_section 1 3 sm_ex of Inl _ \<Rightarrow> False | Inr x \<Rightarrow> fst x = 0x1007"
    by code_simp
  then obtain st' where st': "grow_syspage_section 1 3 sm_ex = ok (0x1007, st')"
    by (cases "grow_syspage_section 1 3 sm_ex") auto
  have "roundup 3 8 = 8" by (simp add: roundup_def)
  with grow_syspage_section_grows [OF sm_ex_ok _ st'] st' show ?thesis
    by (simp add: sm_ex_def)
qed

lemma request_succeeds:
  assumes "bg_total b + roundup n 8 \<le> bg_max b" "bg_max b < 2 ^ 32"
  shows "request n b = ok (roundup n 8, b\<lparr>bg_total := bg_total b + roundup n 8\<rparr>)"
  using assms by (auto simp: request_def Let_def roundup_def)

lemma grow_succeeds:
  assumes "bg_total (sm_budget st) + roundup n 8 \<le> bg_max (sm_budget st)" "bg_max (sm_budget st) < 2 ^ 32"
  shows "\<exists>p st'. grow_syspage_section i n st = ok (p, st')
    \<and> bg_total (sm_budget st') = bg_total (sm_budget st) + roundup n 8
    \<and> bg_max (sm_budget st') = bg_max (sm_budget st)"
  using request_succeeds [OF assms]
  by (cases "n = 0") (auto simp: grow_syspage_section_def Let_def roundup_def)

lemma set_succeeds:
  assumes "bg_total (sm_budget st) + roundup n 8 \<le> bg_max (sm_budget st)" "bg_max (sm_budget st) < 2 ^ 32"
  shows "\<exists>p st'. set_syspage_section i n st = ok (p, st')
    \<and> bg_total (sm_budget st') = bg_total (sm_budget st) + roundup n 8
    \<and> bg_max (sm_budget st') = bg_max (sm_budget st)"
proof -
  have "roundup (roundup n 8) 8 = roundup n 8" by (simp add: roundup_fix roundup_dvd)
  then show ?thesis
    using assms grow_succeeds [where n = "roundup n 8" and i = i and
        st = "place_fixed i (roundup n 8) st"]
    by (simp add: set_syspage_section_def place_fixed_def Let_def)
qed

lemma init_succeeds:
  assumes "init_total z \<le> m" "m < 2 ^ 32"
  shows "\<exists>st. init_syspage_memory z bs m = ok st"
proof -
  have r: "roundup 4 8 = 8" "roundup (Suc 0) 8 = 8" "roundup (8 * PROCESSORS_MAX) 8 = 512"
    by (simp_all add: roundup_def PROCESSORS_MAX_def)
  let ?b = "blank_syspage z bs m"
  have b: "bg_total (sm_budget ?b) = roundup (sz_syspage_entry z) 8" "bg_max (sm_budget ?b) = m"
    by (simp_all add: blank_syspage_def Let_def)
  note le = assms(1) [unfolded init_total_def]
  obtain p1 s1 where 1: "set_syspage_section S_CALLOUT (sz_callout_entry z) ?b = ok (p1, s1)"
    "bg_total (sm_budget s1) = roundup (sz_syspage_entry z) 8 + roundup (sz_callout_entry z) 8"
    "bg_max (sm_budget s1) = m"
    using set_succeeds [of ?b "sz_callout_entry z" S_CALLOUT] le assms(2) b by auto
  obtain p2 s2 where 2: "grow_syspage_section S_TYPED_STRINGS 4 s1 = ok (p2, s2)"
    "bg_total (sm_budget s2) = bg_total (sm_budget s1) + 8" "bg_max (sm_budget s2) = m"
    using grow_succeeds [of s1 4 S_TYPED_STRINGS] le assms(2) 1 r by auto
  obtain p3 s3 where 3: "grow_syspage_section S_STRINGS 1 s2 = ok (p3, s3)"
    "bg_total (sm_budget s3) = bg_total (sm_budget s2) + 8" "bg_max (sm_budget s3) = m"
    using grow_succeeds [of s2 1 S_STRINGS] le assms(2) 1 2 r by auto
  obtain p4 s4 where 4: "grow_syspage_section S_HWINFO (sz_hwi_prefix z) s3 = ok (p4, s4)"
    "bg_total (sm_budget s4) = bg_total (sm_budget s3) + roundup (sz_hwi_prefix z) 8"
    "bg_max (sm_budget s4) = m"
    using grow_succeeds [of s3 "sz_hwi_prefix z" S_HWINFO] le assms(2) 1 2 3 by auto
  obtain p5 s5 where "set_syspage_section S_GIC_MAP (8 * PROCESSORS_MAX) s4 = ok (p5, s5)"
    using set_succeeds [of s4 "8 * PROCESSORS_MAX" S_GIC_MAP] le assms(2) 1 2 3 4 r by auto
  then show ?thesis
    using 1(1) 2(1) 3(1) 4(1) by (auto simp: init_syspage_memory_def cpu_init_syspage_memory_def)
qed

text \<open>When the maximal size is large enough, the set-up of the system page succeeds and
  gives a well-formed page whose sections hold zeros of the sizes that the code asks for;
  nothing overlaps.\<close>

lemma init_syspage_memory_ok:
  assumes "0 < sz_callout_entry z" "0 < sz_hwi_prefix z" "init_total z \<le> m" "m < 2 ^ 32"
  shows "\<exists>st. init_syspage_memory z bs m = ok st \<and> sysmem_ok st \<and> fixed_ok st
    \<and> bg_total (sm_budget st) = init_total z
    \<and> sect_bytes st S_STRINGS = replicate 8 NUL \<and> sect_bytes st S_TYPED_STRINGS = replicate 8 NUL
    \<and> sect_bytes st S_CALLOUT = replicate (roundup (sz_callout_entry z) 8) NUL
    \<and> sect_bytes st S_HWINFO = replicate (roundup (sz_hwi_prefix z) 8) NUL
    \<and> sect_bytes st S_GIC_MAP = replicate 512 NUL"
proof -
  obtain st where st: "init_syspage_memory z bs m = ok st"
    using init_succeeds [OF assms(3,4)] by blast
  have "init_total z < 2 ^ 32" using assms(3,4) by linarith
  from init_syspage_ok [OF st assms(1,2) this] st show ?thesis by blast
qed

definition z_ex :: sp_sizes where
  "z_ex = \<lparr>sz_syspage_entry = 12, sz_callout_entry = 16, sz_hwi_prefix = 4\<rparr>"

lemma init_syspage_memory_ok_witness:
  "\<exists>st. init_syspage_memory z_ex 0x1000 4096 = ok st \<and> sysmem_ok st \<and> bg_total (sm_budget st) = 568"
proof -
  have "init_total z_ex = 568" by (simp add: init_total_def z_ex_def roundup_def)
  with init_syspage_memory_ok [of z_ex 4096 "0x1000"] show ?thesis by (auto simp: z_ex_def)
qed

text \<open>Moving the page to a new base keeps it well-formed and keeps the contents of every
  section.\<close>

lemma reloc_syspage_memory_keeps:
  assumes "sysmem_ok st"
  shows "sysmem_ok (reloc_syspage_memory bs n st)
    \<and> (\<forall>i<length (sm_sects st). sect_bytes (reloc_syspage_memory bs n st) i = sect_bytes st i)"
  using reloc_ok [OF assms] reloc_bytes [OF assms] by blast

lemma reloc_syspage_memory_keeps_witness:
  "sect_bytes (reloc_syspage_memory 0x200 300 sm_ex) 2 = ''B''"
proof -
  have "sect_bytes sm_ex 2 = ''B''" by code_simp
  with reloc_syspage_memory_keeps [OF sm_ex_ok, of "0x200" 300] show ?thesis
    by (simp add: sm_ex_def)
qed

end
