(* ===== verification/Strings.thy ===== *)
theory Strings
  imports Syspage
begin

text \<open>
  startup/lib/strings.c: the string section, in which add\_string finds or appends a name
  and returns its offset, and the section of typed strings. A section is its list of bytes;
  the memory behind it is the subject of theory Syspage, of which only the size budget is
  used here.
\<close>

section \<open>C strings in a section\<close>

definition cstr_at :: "char list \<Rightarrow> nat \<Rightarrow> string" where
  "cstr_at bs i = takeWhile (\<lambda>c. c \<noteq> NUL) (drop i bs)"

definition put_bytes :: "nat \<Rightarrow> char list \<Rightarrow> char list \<Rightarrow> char list" where
  "put_bytes i xs bs = take i bs @ xs @ drop (i + length xs) bs"

text \<open>strlcpy (dst + i, src, n): at most n - 1 characters and the terminator.\<close>

definition strlcpy_at :: "nat \<Rightarrow> string \<Rightarrow> nat \<Rightarrow> char list \<Rightarrow> char list" where
  "strlcpy_at i src n bs = (if n = 0 then bs else put_bytes i (take (n - 1) src @ [NUL]) bs)"

section \<open>add\_string\<close>

text \<open>The scan of add\_string: Inl i is the offset at which the name was found, Inr i the
  offset of the empty string that ends the table. None is a scan past the section.\<close>

function scan_strings :: "string \<Rightarrow> char list \<Rightarrow> nat \<Rightarrow> (nat + nat) option" where
  "scan_strings name bs i =
    (case bs of
       [] \<Rightarrow> None
     | c # _ \<Rightarrow>
         if c = NUL then Some (Inr i)
         else let s = takeWhile (\<lambda>c. c \<noteq> NUL) bs
              in if name = s then Some (Inl i)
                 else scan_strings name (drop (length s + 1) bs) (i + length s + 1))"
  by auto
termination
  by (relation "measure (\<lambda>(_, bs, _). length bs)") auto

declare scan_strings.simps [simp del]

definition add_string :: "string \<Rightarrow> char list \<Rightarrow> budget \<Rightarrow> (nat \<times> char list \<times> budget) res" where
  "add_string name bs b =
    (case scan_strings name bs 0 of
       None \<Rightarrow> stray
     | Some (Inl i) \<Rightarrow> ok (i, bs, b)
     | Some (Inr i) \<Rightarrow>
         let len = length name + 2;
             spare = length bs - i
         in and_then (request (if len > spare then roundup (len - spare) 128 else 0) b)
              (\<lambda>(n, b').
                 let bs' = bs @ replicate n NUL
                 in ok (i, strlcpy_at i name (length bs' - i) bs', b')))"

section \<open>What the section holds\<close>

definition enc_strings :: "string list \<Rightarrow> char list" where
  "enc_strings ss = concat (map (\<lambda>s. s @ [NUL]) ss)"

definition cstr :: "string \<Rightarrow> bool" where
  "cstr s \<longleftrightarrow> s \<noteq> [] \<and> NUL \<notin> set s"

text \<open>The section is the encoding of a list of different names and at least one zero.\<close>

definition holds :: "char list \<Rightarrow> string list \<Rightarrow> bool" where
  "holds bs ss \<longleftrightarrow> (\<forall>s\<in>set ss. cstr s) \<and> distinct ss \<and>
    (\<exists>k>0. bs = enc_strings ss @ replicate k NUL)"

definition offset_of :: "string list \<Rightarrow> string \<Rightarrow> nat" where
  "offset_of ss s = length (enc_strings (takeWhile (\<lambda>t. t \<noteq> s) ss))"

lemma enc_strings_simps [simp]:
  "enc_strings [] = []"
  "enc_strings (s # ss) = s @ NUL # enc_strings ss"
  "enc_strings (xs @ ys) = enc_strings xs @ enc_strings ys"
  by (simp_all add: enc_strings_def)

lemma takeWhile_cstr [simp]: "cstr s \<Longrightarrow> takeWhile (\<lambda>c. c \<noteq> NUL) (s @ NUL # r) = s"
  by (subst takeWhile_append2) (auto simp: cstr_def)

lemma cstr_hd: "cstr s \<Longrightarrow> \<exists>c r. s = c # r \<and> c \<noteq> NUL"
  by (cases s) (auto simp: cstr_def)

lemma scan_strings_enc:
  assumes "\<forall>s\<in>set ss. cstr s" "0 < k"
  shows "scan_strings name (enc_strings ss @ replicate k NUL) i =
    Some (if name \<in> set ss then Inl (i + offset_of ss name) else Inr (i + length (enc_strings ss)))"
  using assms
proof (induction ss arbitrary: i)
  case Nil
  then show ?case by (cases k) (auto simp: scan_strings.simps)
next
  case (Cons s ss)
  then have s: "cstr s" by simp
  obtain c r where cr: "s = c # r" "c \<noteq> NUL" using cstr_hd [OF s] by blast
  have tw: "takeWhile (\<lambda>c. c \<noteq> NUL) (s @ NUL # enc_strings ss @ replicate k NUL) = s"
    using s by simp
  have "scan_strings name (enc_strings (s # ss) @ replicate k NUL) i =
      (if name = s then Some (Inl i)
       else scan_strings name (enc_strings ss @ replicate k NUL) (i + length s + 1))"
    using tw cr by (subst scan_strings.simps) (auto simp: Let_def)
  also have "\<dots> = Some (if name \<in> set (s # ss) then Inl (i + offset_of (s # ss) name)
      else Inr (i + length (enc_strings (s # ss))))"
    using Cons by (auto simp: offset_of_def)
  finally show ?case .
qed

lemma add_string_found:
  assumes "holds bs ss" "name \<in> set ss"
  shows "add_string name bs b = ok (offset_of ss name, bs, b)"
  using assms by (auto simp: holds_def add_string_def scan_strings_enc)

lemma add_string_miss:
  assumes "\<forall>s\<in>set ss. cstr s" "0 < k" "name \<notin> set ss"
  shows "add_string name (enc_strings ss @ replicate k NUL) b =
    and_then (request (if length name + 2 > k then roundup (length name + 2 - k) 128 else 0) b)
      (\<lambda>(n, b'). ok (length (enc_strings ss),
         strlcpy_at (length (enc_strings ss)) name (k + n) (enc_strings ss @ replicate (k + n) NUL), b'))"
  using assms by (auto simp: add_string_def scan_strings_enc Let_def replicate_add intro!: arg_cong2 [where f = and_then])

lemma put_at_end:
  "length xs \<le> k \<Longrightarrow> put_bytes (length m) xs (m @ replicate k NUL) = m @ xs @ replicate (k - length xs) NUL"
  by (simp add: put_bytes_def drop_replicate)

lemma add_string_new:
  assumes bs: "holds bs ss" and name: "name \<notin> set ss" "cstr name"
    and run: "add_string name bs b = ok (i, bs', b')"
    and small: "bg_total b + roundup (length name + 130) 8 < 2 ^ 32"
  shows "i = length (enc_strings ss)" "holds bs' (ss @ [name])" "length bs \<le> length bs'"
    "bg_total b' = bg_total b + (length bs' - length bs)"
proof -
  obtain k where k: "0 < k" "bs = enc_strings ss @ replicate k NUL" and ss: "\<forall>s\<in>set ss. cstr s"
    using bs by (auto simp: holds_def)
  let ?m = "enc_strings ss" and ?len = "length name + 2"
  let ?rq = "if ?len > k then roundup (?len - k) 128 else 0"
  obtain n b1 where rq: "request ?rq b = ok (n, b1)"
    using run unfolding k(2) add_string_miss [OF ss k(1) name(1)] by (auto elim!: and_then_okE)
  have "roundup ?rq 8 \<le> roundup (length name + 130) 8"
    using roundup_less [of 128 "?len - k"] by (intro roundup_mono) auto
  then have b: "bg_total b + roundup ?rq 8 < 2 ^ 32" using small by simp
  note n = request_ok(1,2) [OF rq b]
  have "?len - k \<le> ?rq" by (auto simp: roundup_ge)
  moreover have "?rq \<le> n" using n(1) by (simp add: roundup_ge)
  ultimately have fits: "?len \<le> k + n" by linarith
  have eq: "i = length ?m \<and> b' = b1 \<and>
      bs' = strlcpy_at (length ?m) name (k + n) (?m @ replicate (k + n) NUL)"
    using run unfolding k(2) add_string_miss [OF ss k(1) name(1)] rq by auto
  have "bs' = put_bytes (length ?m) (name @ [NUL]) (?m @ replicate (k + n) NUL)"
    using fits eq k(1) by (simp add: strlcpy_at_def)
  also have "\<dots> = ?m @ (name @ [NUL]) @ replicate (k + n - length (name @ [NUL])) NUL"
    using fits by (intro put_at_end) simp
  finally have bs': "bs' = enc_strings (ss @ [name]) @ replicate (k + n - (length name + 1)) NUL"
    by simp
  have k': "0 < k + n - (length name + 1)" using fits by linarith
  have lb: "length bs' = length bs + n"
    using fits by (simp add: bs' k(2))
  show "i = length ?m" using eq by simp
  show "holds bs' (ss @ [name])"
    unfolding holds_def bs' using bs name k' by (auto simp: holds_def)
  show "length bs \<le> length bs'" "bg_total b' = bg_total b + (length bs' - length bs)"
    using eq n(2) lb n(1) by simp_all
qed

lemma offset_of_first:
  assumes "s \<notin> set ps"
  shows "offset_of (ps @ s # qs) s = length (enc_strings ps)"
proof -
  have "takeWhile (\<lambda>t. t \<noteq> s) (ps @ s # qs) = ps"
    using assms by (subst takeWhile_append2) auto
  then show ?thesis by (simp add: offset_of_def)
qed

lemma cstr_at_offset:
  assumes "holds bs ss" "s \<in> set ss"
  shows "cstr_at bs (offset_of ss s) = s"
proof -
  obtain k where k: "0 < k" "bs = enc_strings ss @ replicate k NUL" and ss: "\<forall>s\<in>set ss. cstr s"
    using assms(1) by (auto simp: holds_def)
  obtain ps qs where ps: "ss = ps @ s # qs" "s \<notin> set ps"
    using split_list_first [OF assms(2)] by auto
  have "offset_of ss s = length (enc_strings ps)"
    using offset_of_first [OF ps(2)] by (simp add: ps(1))
  then show ?thesis
    using ss ps by (simp add: k(2) cstr_at_def)
qed

lemma offset_of_append:
  assumes "s \<in> set ss"
  shows "offset_of (ss @ ts) s = offset_of ss s"
  using assms by (induction ss) (auto simp: offset_of_def)

lemma offset_of_last: "s \<notin> set ss \<Longrightarrow> offset_of (ss @ [s]) s = length (enc_strings ss)"
  by (rule offset_of_first)

section \<open>The contract of a string table\<close>

text \<open>What the users of add\_string rely on: a name that is in the table keeps its offset,
  and the offset that is returned leads to the name. The address-space entries (theory
  Asinfo) and the hardware items name their strings this way.\<close>

locale string_table =
  fixes intern :: "string \<Rightarrow> 't \<Rightarrow> (nat \<times> 't) res"
    and get :: "'t \<Rightarrow> nat \<Rightarrow> string"
    and inv :: "'t \<Rightarrow> string list \<Rightarrow> bool"
    and pos :: "string list \<Rightarrow> string \<Rightarrow> nat"
    and name_ok :: "string \<Rightarrow> bool"
  assumes get: "inv t ns \<Longrightarrow> n \<in> set ns \<Longrightarrow> get t (pos ns n) = n"
    and found: "inv t ns \<Longrightarrow> n \<in> set ns \<Longrightarrow> intern n t = ok (pos ns n, t)"
    and fresh: "inv t ns \<Longrightarrow> name_ok n \<Longrightarrow> n \<notin> set ns \<Longrightarrow> intern n t = ok (i, t') \<Longrightarrow>
      i = pos (ns @ [n]) n \<and> inv t' (ns @ [n])"
    and stable: "m \<in> set ns \<Longrightarrow> pos (ns @ ms) m = pos ns m"
begin

definition names_after :: "string list \<Rightarrow> string \<Rightarrow> string list" where
  "names_after ns n = (if n \<in> set ns then ns else ns @ [n])"

lemma intern_step:
  assumes "inv t ns" "name_ok n" "intern n t = ok (i, t')"
  shows "inv t' (names_after ns n)" "i = pos (names_after ns n) n"
  using found [OF assms(1), of n] fresh [OF assms(1,2) _ assms(3)] assms
  by (cases "n \<in> set ns"; simp add: names_after_def)+

lemma in_names_after: "n \<in> set (names_after ns n)" "m \<in> set ns \<Longrightarrow> m \<in> set (names_after ns n)"
  by (simp_all add: names_after_def)

lemma pos_names_after: "m \<in> set ns \<Longrightarrow> pos (names_after ns n) m = pos ns m"
  by (simp add: names_after_def stable)

lemma intern_get:
  assumes "inv t ns" "name_ok n" "intern n t = ok (i, t')"
  shows "get t' i = n"
  unfolding intern_step(2) [OF assms] by (rule get [OF intern_step(1) [OF assms] in_names_after(1)])

lemma intern_keeps:
  assumes "inv t ns" "name_ok n" "intern n t = ok (i, t')" "m \<in> set ns"
  shows "get t' (pos ns m) = m"
  using get [OF intern_step(1) [OF assms(1-3)] in_names_after(2) [OF assms(4)]]
  unfolding pos_names_after [OF assms(4)] .

lemma intern_again:
  assumes "inv t ns" "name_ok n" "intern n t = ok (i, t')"
  shows "intern n t' = ok (i, t')"
  unfolding intern_step(2) [OF assms]
  by (rule found [OF intern_step(1) [OF assms] in_names_after(1)])

lemma pos_inj:
  assumes "inv t ns" "m \<in> set ns" "n \<in> set ns" "pos ns m = pos ns n"
  shows "m = n"
  using get [OF assms(1,2)] get [OF assms(1,3)] unfolding assms(4) by simp

end

text \<open>The table of strings.c: the section and the budget, with room below 2 GB, so that
  the 32-bit sum of the size check does not wrap.\<close>

definition str_inv :: "char list \<times> budget \<Rightarrow> string list \<Rightarrow> bool" where
  "str_inv t ns \<longleftrightarrow> holds (fst t) ns \<and> bg_total (snd t) \<le> bg_max (snd t) \<and> bg_max (snd t) < 2 ^ 31"

definition str_name_ok :: "string \<Rightarrow> bool" where
  "str_name_ok n \<longleftrightarrow> cstr n \<and> length n < 2 ^ 30"

definition add_string_p :: "string \<Rightarrow> char list \<times> budget \<Rightarrow> (nat \<times> char list \<times> budget) res" where
  "add_string_p n t = add_string n (fst t) (snd t)"

lemma request_budget:
  assumes "request k b = ok (m, b')" "bg_total b \<le> bg_max b"
  shows "bg_total b' \<le> bg_max b' \<and> bg_max b' = bg_max b"
  using assms by (auto simp: request_def Let_def split: if_splits)

lemma add_string_budget:
  assumes "add_string n bs b = ok (i, bs', b')" "bg_total b \<le> bg_max b"
  shows "bg_total b' \<le> bg_max b' \<and> bg_max b' = bg_max b"
  using assms request_budget
  by (fastforce simp: add_string_def Let_def res_simps split: option.splits sum.splits)

lemma add_string_fresh:
  assumes "str_inv t ns" "str_name_ok n" "n \<notin> set ns" "add_string_p n t = ok (i, t')"
  shows "i = offset_of (ns @ [n]) n \<and> str_inv t' (ns @ [n])"
proof -
  obtain bs b bs' b' where t: "t = (bs, b)" "t' = (bs', b')"
    by (cases t, cases t')
  have run: "add_string n bs b = ok (i, bs', b')" using assms(4) by (simp add: add_string_p_def t)
  have "roundup (length n + 130) 8 < length n + 130 + 8" by (rule roundup_less) simp
  then have "bg_total b + roundup (length n + 130) 8 < 2 ^ 32"
    using assms(1,2) by (simp add: str_inv_def str_name_ok_def t)
  with assms run show ?thesis
    using add_string_new [OF _ assms(3) _ run] add_string_budget [OF run]
    by (auto simp: str_inv_def str_name_ok_def t offset_of_last)
qed

interpretation strs: string_table add_string_p "\<lambda>t. cstr_at (fst t)" str_inv offset_of str_name_ok
proof
  fix t :: "char list \<times> budget" and ns n
  assume "str_inv t ns" "n \<in> set ns"
  then show "cstr_at (fst t) (offset_of ns n) = n" and "add_string_p n t = ok (offset_of ns n, t)"
    by (auto simp: str_inv_def cstr_at_offset add_string_p_def add_string_found)
next
  fix m :: string and ns ms assume "m \<in> set ns"
  then show "offset_of (ns @ ms) m = offset_of ns m" by (rule offset_of_append)
qed (rule add_string_fresh)

section \<open>Properties\<close>

text \<open>C39: add\_string interns: the offset it returns leads to the name, every name that was in the
  section keeps its offset, and adding the name again returns the same offset and changes
  nothing.\<close>

theorem add_string_interns:
  assumes "str_inv (bs, b) ns" "str_name_ok name" "add_string name bs b = ok (i, bs', b')"
  shows "cstr_at bs' i = name \<and> add_string name bs' b' = ok (i, bs', b')
    \<and> (\<forall>m\<in>set ns. cstr_at bs' (offset_of ns m) = m)
    \<and> str_inv (bs', b') (if name \<in> set ns then ns else ns @ [name])"
proof -
  have run: "add_string_p name (bs, b) = ok (i, bs', b')"
    using assms(3) by (simp add: add_string_p_def)
  note a = assms(1,2) run
  show ?thesis
    using strs.intern_get [OF a] strs.intern_again [OF a] strs.intern_keeps [OF a]
      strs.intern_step(1) [OF a]
    by (simp add: add_string_p_def strs.names_after_def)
qed

lemma add_string_interns_witness:
  "\<exists>bs' b'. add_string ''ram'' (''io'' @ [NUL, NUL]) \<lparr>bg_total = 8, bg_max = 4096\<rparr> = ok (3, bs', b')
     \<and> cstr_at bs' 3 = ''ram'' \<and> cstr_at bs' 0 = ''io''"
proof -
  let ?bs = "''io'' @ [NUL, NUL]" and ?b = "\<lparr>bg_total = 8, bg_max = 4096\<rparr>"
  have "case add_string ''ram'' ?bs ?b of Inl _ \<Rightarrow> False | Inr x \<Rightarrow> fst x = 3" by code_simp
  then obtain bs' b' where run: "add_string ''ram'' ?bs ?b = ok (3, bs', b')"
    by (cases "add_string ''ram'' ?bs ?b") auto
  have "str_inv (?bs, ?b) [''io'']"
    by (auto simp: str_inv_def holds_def cstr_def intro!: exI [of _ 1])
  moreover have "str_name_ok ''ram''" by (simp add: str_name_ok_def cstr_def)
  moreover have "offset_of [''io''] ''io'' = 0" by (simp add: offset_of_def)
  ultimately show ?thesis
    using add_string_interns [OF _ _ run, of "[''io'']"] run by auto
qed

end
