(* ===== verification/Typed_Strings.thy ===== *)
theory Typed_Strings
  imports Strings
begin

text \<open>
  The typed strings of startup/lib/strings.c: records of a 32-bit type and a string, padded
  to a multiple of four bytes, that end with a record of type \_CS\_NONE. The value of
  \_CS\_NONE is defined outside the tree and is an argument of the definitions; the
  theorems take it to be 0, since the code relies on memory that is zero.
\<close>

section \<open>32-bit fields of a section\<close>

text \<open>The target is little endian.\<close>

definition rd32 :: "char list \<Rightarrow> nat \<Rightarrow> nat" where
  "rd32 bs i = of_char (bs ! i) + 256 * of_char (bs ! (i + 1)) + 65536 * of_char (bs ! (i + 2))
    + 16777216 * of_char (bs ! (i + 3))"

definition le32 :: "nat \<Rightarrow> char list" where
  "le32 t = [char_of t, char_of (t div 256), char_of (t div 65536), char_of (t div 16777216)]"

section \<open>The operations\<close>

text \<open>find\_typed\_string: Some None is the result -1, None a read past the section.\<close>

function find_typed_string :: "nat \<Rightarrow> nat \<Rightarrow> char list \<Rightarrow> nat \<Rightarrow> nat option option" where
  "find_typed_string none ty bs i =
    (if length bs < i + 4 then None
     else if rd32 bs i = ty then Some (Some i)
     else if rd32 bs i = none then Some None
     else find_typed_string none ty bs (roundup (i + 4 + length (cstr_at bs (i + 4)) + 1) 4))"
  by auto
termination
proof (relation "measure (\<lambda>(_, _, bs, i). length bs - i)")
  fix none ty :: nat and bs :: "char list" and i :: nat
  assume "\<not> length bs < i + 4"
  moreover have "i + 4 + length (cstr_at bs (i + 4)) + 1 \<le>
      roundup (i + 4 + length (cstr_at bs (i + 4)) + 1) 4"
    by (rule roundup_ge) simp
  ultimately show "((none, ty, bs, roundup (i + 4 + length (cstr_at bs (i + 4)) + 1) 4),
      none, ty, bs, i) \<in> measure (\<lambda>(_, _, bs, i). length bs - i)"
    by auto
qed simp

declare find_typed_string.simps [simp del]

text \<open>del\_typed\_string: the records from j to the end are copied down to i, and the bytes
  from the copy up to the old end are cleared.\<close>

definition del_typed_string :: "nat \<Rightarrow> nat \<Rightarrow> char list \<Rightarrow> (bool \<times> char list) res" where
  "del_typed_string none ty bs =
    (case find_typed_string none ty bs 0 of
       None \<Rightarrow> stray
     | Some None \<Rightarrow> ok (False, bs)
     | Some (Some i) \<Rightarrow>
         (let j = roundup (i + 4 + length (cstr_at bs (i + 4)) + 1) 4
          in case find_typed_string none none bs 0 of
               Some (Some e) \<Rightarrow>
                 (let mv = take (e - j) (drop j bs);
                      top = max j e
                  in ok (True, take i bs @ mv @ replicate (top - (i + length mv)) NUL @ drop top bs))
             | _ \<Rightarrow> stray))"

definition add_typed_string ::
  "nat \<Rightarrow> nat \<Rightarrow> string \<Rightarrow> char list \<Rightarrow> budget \<Rightarrow> (nat \<times> char list \<times> budget) res" where
  "add_typed_string none ty name bs0 b =
    and_then (del_typed_string none ty bs0) (\<lambda>(_, bs).
      case find_typed_string none none bs 0 of
        Some (Some i) \<Rightarrow>
          (let len = roundup (length name + 1) 4;
               need = len + 8;
               spare = length bs - i
           in and_then (request (if spare < need then need - spare else 0) b) (\<lambda>(n, b').
                let bs' = put_bytes i (le32 ty) (bs @ replicate n NUL)
                in ok (i, strlcpy_at (i + 4) name (length bs' - i) bs', b')))
      | _ \<Rightarrow> stray)"

section \<open>What the section holds\<close>

definition pad4 :: "string \<Rightarrow> char list" where
  "pad4 s = s @ replicate (roundup (length s + 1) 4 - length s) NUL"

definition enc_typed :: "(nat \<times> string) list \<Rightarrow> char list" where
  "enc_typed l = concat (map (\<lambda>(t, s). le32 t @ pad4 s) l)"

definition typed_ok :: "nat \<times> string \<Rightarrow> bool" where
  "typed_ok e \<longleftrightarrow> 0 < fst e \<and> fst e < 2 ^ 32 \<and> NUL \<notin> set (snd e)"

definition holds_typed :: "char list \<Rightarrow> (nat \<times> string) list \<Rightarrow> bool" where
  "holds_typed bs l \<longleftrightarrow> (\<forall>e\<in>set l. typed_ok e) \<and> distinct (map fst l) \<and>
    (\<exists>k\<ge>4. bs = enc_typed l @ replicate k NUL)"

lemma enc_typed_simps [simp]:
  "enc_typed [] = []"
  "enc_typed ((t, s) # l) = le32 t @ pad4 s @ enc_typed l"
  "enc_typed (l @ m) = enc_typed l @ enc_typed m"
  by (simp_all add: enc_typed_def)

lemma length_le32 [simp]: "length (le32 t) = 4"
  by (simp add: le32_def)

lemma length_pad4: "length (pad4 s) = roundup (length s + 1) 4"
  using roundup_ge [of 4 "length s + 1"] by (simp add: pad4_def)

lemma pad4_nul: "\<exists>k. pad4 s = s @ NUL # replicate k NUL"
proof -
  have "length s < roundup (length s + 1) 4"
    using roundup_ge [of 4 "length s + 1"] by simp
  then obtain k where "roundup (length s + 1) 4 - length s = Suc k"
    by (metis Suc_diff_Suc)
  then show ?thesis by (simp add: pad4_def)
qed

lemma enc_typed_dvd: "4 dvd length (enc_typed l)"
proof (induction l)
  case (Cons a l)
  then show ?case by (cases a) (simp add: length_pad4 roundup_dvd)
qed simp

lemma rd32_le32:
  assumes "t < 2 ^ 32" "length pre = i"
  shows "rd32 (pre @ le32 t @ r) i = t"
proof -
  have d: "t div 65536 = t div 256 div 256" "t div 16777216 = t div 256 div 256 div 256"
    by (simp_all flip: div_mult2_eq)
  have sum: "t = r0 + a * 256 \<Longrightarrow> a = r1 + b * 256 \<Longrightarrow> b = r2 + c * 256 \<Longrightarrow>
      r0 + 256 * r1 + 65536 * r2 + 16777216 * c = t" for r0 r1 r2 a b c :: nat
    by simp
  have "t mod 256 + 256 * (t div 256 mod 256) + 65536 * (t div 65536 mod 256)
      + 16777216 * (t div 16777216) = t"
    unfolding d by (rule sum) (simp_all only: mod_div_mult_eq)
  with assms show ?thesis
    by (simp add: rd32_def le32_def nth_append of_char_of)
qed

lemma rd32_zero: "length pre = i \<Longrightarrow> 4 \<le> k \<Longrightarrow> rd32 (pre @ replicate k NUL) i = 0"
  by (simp add: rd32_def nth_append)

definition typed_pos :: "(nat \<times> string) list \<Rightarrow> nat \<Rightarrow> nat" where
  "typed_pos l ty = length (enc_typed (takeWhile (\<lambda>e. fst e \<noteq> ty) l))"

lemma cstr_at_pad4:
  assumes "NUL \<notin> set s" "length pre = i"
  shows "cstr_at (pre @ pad4 s @ r) i = s"
proof -
  obtain k where "pad4 s = s @ NUL # replicate k NUL" using pad4_nul by blast
  then show ?thesis
    using assms by (simp add: cstr_at_def) (subst takeWhile_append2, auto)
qed

lemma next_record:
  assumes "4 dvd i"
  shows "roundup (i + 4 + n + 1) 4 = i + 4 + roundup (n + 1) 4"
proof -
  obtain m where "i = 4 * m" using assms by blast
  then have "(i + 4 + n + 1 + 3) div 4 = (n + 1 + 3) div 4 + (m + 1)" by presburger
  then show ?thesis using \<open>i = 4 * m\<close> by (simp add: roundup_def)
qed

lemma record_end:
  assumes "typed_ok (t, s)" "4 dvd length pre"
  shows "roundup (length pre + 4 + length (cstr_at (pre @ le32 t @ pad4 s @ r) (length pre + 4)) + 1) 4 =
    length (pre @ le32 t @ pad4 s)"
  using cstr_at_pad4 [of s "pre @ le32 t" "length pre + 4" r] assms next_record [OF assms(2), of "length s"]
  by (simp add: typed_ok_def length_pad4)

lemma find_typed_enc:
  assumes "\<forall>e\<in>set l. typed_ok e" "4 dvd length pre" "4 \<le> k"
  shows "find_typed_string 0 ty (pre @ enc_typed l @ replicate k NUL) (length pre) =
    Some (if ty = 0 \<or> ty \<in> fst ` set l then Some (length pre + typed_pos l ty) else None)"
  using assms
proof (induction l arbitrary: pre)
  case Nil
  then show ?case
    by (subst find_typed_string.simps) (auto simp: rd32_zero typed_pos_def)
next
  case (Cons e l)
  obtain t s where e: "e = (t, s)" by (cases e)
  let ?bs = "pre @ enc_typed (e # l) @ replicate k NUL"
  let ?pre = "pre @ le32 t @ pad4 s"
  have t: "typed_ok (t, s)" "t \<noteq> 0" "t < 2 ^ 32" using Cons.prems(1) by (auto simp: e typed_ok_def)
  have rd: "rd32 ?bs (length pre) = t"
    using rd32_le32 [OF t(3) refl, of pre "pad4 s @ enc_typed l @ replicate k NUL"] by (simp add: e)
  have nxt: "roundup (length pre + 4 + length (cstr_at ?bs (length pre + 4)) + 1) 4 = length ?pre"
    using record_end [OF t(1) Cons.prems(2), of "enc_typed l @ replicate k NUL"] by (simp add: e)
  have "find_typed_string 0 ty (?pre @ enc_typed l @ replicate k NUL) (length ?pre) =
      Some (if ty = 0 \<or> ty \<in> fst ` set l then Some (length ?pre + typed_pos l ty) else None)"
    using Cons.prems t by (intro Cons.IH) (auto simp: length_pad4 roundup_dvd)
  moreover have "find_typed_string 0 ty ?bs (length pre) =
      (if ty = t then Some (Some (length pre)) else find_typed_string 0 ty ?bs (length ?pre))"
    using t(2) unfolding find_typed_string.simps [of 0 ty ?bs "length pre"] rd nxt by (simp add: e)
  ultimately show ?case
    using t(2) by (auto simp: e typed_pos_def)
qed

lemmas find_typed_enc0 = find_typed_enc [where pre = "[]", simplified]

lemma typed_pos_end: "(\<forall>e\<in>set l. typed_ok e) \<Longrightarrow> typed_pos l 0 = length (enc_typed l)"
  unfolding typed_pos_def by (subst takeWhile_eq_all_conv [THEN iffD2]) (auto simp: typed_ok_def)

lemma typed_pos_split:
  assumes "ty \<notin> fst ` set ps"
  shows "typed_pos (ps @ (ty, s) # qs) ty = length (enc_typed ps)"
proof -
  have "takeWhile (\<lambda>e. fst e \<noteq> ty) (ps @ (ty, s) # qs) = ps"
    using assms by (subst takeWhile_append2) force+
  then show ?thesis by (simp add: typed_pos_def)
qed

lemma del_typed_string_spec:
  assumes h: "holds_typed bs l" and ty: "0 < ty"
  shows "\<exists>bs'. del_typed_string 0 ty bs = ok (ty \<in> fst ` set l, bs') \<and> length bs' = length bs
    \<and> holds_typed bs' (filter (\<lambda>e. fst e \<noteq> ty) l)"
proof -
  obtain k where k: "4 \<le> k" "bs = enc_typed l @ replicate k NUL" and l: "\<forall>e\<in>set l. typed_ok e"
    and d: "distinct (map fst l)"
    using h by (auto simp: holds_typed_def)
  show ?thesis
  proof (cases "ty \<in> fst ` set l")
    case False
    then have "filter (\<lambda>e. fst e \<noteq> ty) l = l" by (auto simp: filter_id_conv)
    with False h ty show ?thesis
      by (simp add: del_typed_string_def k find_typed_enc0 l)
  next
    case True
    then obtain s where "(ty, s) \<in> set l" by auto
    then obtain ps qs where l': "l = ps @ (ty, s) # qs" by (meson split_list)
    have nin: "ty \<notin> fst ` set ps" "ty \<notin> fst ` set qs" using d by (auto simp: l')
    then have "filter (\<lambda>e. fst e \<noteq> ty) ps = ps" "filter (\<lambda>e. fst e \<noteq> ty) qs = qs"
      by (auto simp: filter_id_conv)
    then have fil: "filter (\<lambda>e. fst e \<noteq> ty) l = ps @ qs" by (simp add: l')
    let ?i = "length (enc_typed ps)" and ?m = "4 + length (pad4 s)"
    have j: "roundup (?i + 4 + length (cstr_at bs (?i + 4)) + 1) 4 = ?i + ?m"
      using record_end [of ty s "enc_typed ps" "enc_typed qs @ replicate k NUL"] l enc_typed_dvd
      by (simp add: k l')
    have "del_typed_string 0 ty bs =
        ok (True, enc_typed ps @ enc_typed qs @ replicate (?m + k) NUL)"
      using True ty find_typed_enc0 [OF l k(1), of ty] find_typed_enc0 [OF l k(1), of 0] j
        typed_pos_split [OF nin(1), of s qs] typed_pos_end [OF l]
      by (simp add: del_typed_string_def k(2) l' replicate_add Let_def)
    moreover have "holds_typed (enc_typed ps @ enc_typed qs @ replicate (?m + k) NUL) (ps @ qs)"
      using l d k(1) by (auto simp: holds_typed_def l' intro!: exI [of _ "?m + k"])
    ultimately show ?thesis
      using True unfolding fil by (auto simp: k(2) l')
  qed
qed

lemma put_fits:
  assumes "length xs \<le> k"
  shows "put_bytes (length m) xs (m @ replicate k NUL) = m @ xs @ replicate (k - length xs) NUL"
  by (rule put_at_end [OF assms])

lemma put_typed:
  assumes "roundup (length s + 1) 4 + 8 \<le> k" "i = length m"
  shows "strlcpy_at (i + 4) s k (put_bytes i (le32 t) (m @ replicate k NUL)) =
    m @ le32 t @ pad4 s @ replicate (k - 4 - roundup (length s + 1) 4) NUL"
proof -
  have r: "length s + 1 \<le> roundup (length s + 1) 4" by (rule roundup_ge) simp
  have "put_bytes i (le32 t) (m @ replicate k NUL) = (m @ le32 t) @ replicate (k - 4) NUL"
    using assms by (subst assms(2), subst put_at_end) auto
  then have "strlcpy_at (i + 4) s k (put_bytes i (le32 t) (m @ replicate k NUL)) =
      put_bytes (length (m @ le32 t)) (s @ [NUL]) ((m @ le32 t) @ replicate (k - 4) NUL)"
    using assms r by (simp add: strlcpy_at_def)
  also have "\<dots> = (m @ le32 t) @ (s @ [NUL]) @ replicate (k - 4 - (length s + 1)) NUL"
    using assms r by (subst put_at_end) auto
  also have "\<dots> = m @ le32 t @ pad4 s @ replicate (k - 4 - roundup (length s + 1) 4) NUL"
    using assms r by (simp add: pad4_def flip: replicate_Suc replicate_add)
  finally show ?thesis .
qed

lemma add_typed_string_spec:
  assumes h: "holds_typed bs l" and ty: "0 < ty" "ty < 2 ^ 32" and nul: "NUL \<notin> set name"
    and run: "add_typed_string 0 ty name bs b = ok (i, bs', b')"
    and small: "bg_total b + roundup (length name) 8 + 24 < 2 ^ 32"
  shows "holds_typed bs' (filter (\<lambda>e. fst e \<noteq> ty) l @ [(ty, name)])"
proof -
  let ?l = "filter (\<lambda>e. fst e \<noteq> ty) l" and ?r = "roundup (length name + 1) 4"
  obtain bs1 f where del: "del_typed_string 0 ty bs = ok (f, bs1)" and h1: "holds_typed bs1 ?l"
    using del_typed_string_spec [OF h ty(1)] by blast
  obtain k where k: "4 \<le> k" "bs1 = enc_typed ?l @ replicate k NUL" and l: "\<forall>e\<in>set ?l. typed_ok e"
    and d: "distinct (map fst ?l)"
    using h1 unfolding holds_typed_def by blast
  let ?rq = "if k < ?r + 8 then ?r + 8 - k else 0"
  have fnd: "find_typed_string 0 0 bs1 0 = Some (Some (length (enc_typed ?l)))"
    using find_typed_enc0 [OF l k(1), of 0] typed_pos_end [OF l] by (simp add: k(2))
  obtain n where rq: "request ?rq b = ok (n, b')"
    and q: "bs' = (let q = put_bytes (length (enc_typed ?l)) (le32 ty) (bs1 @ replicate n NUL)
        in strlcpy_at (length (enc_typed ?l) + 4) name (length q - length (enc_typed ?l)) q)"
  proof -
    define rq where "rq = ?rq"
    have eq: "add_typed_string 0 ty name bs b = and_then (request rq b) (\<lambda>(n, b').
        let q = put_bytes (length (enc_typed ?l)) (le32 ty) (bs1 @ replicate n NUL)
        in ok (length (enc_typed ?l),
            strlcpy_at (length (enc_typed ?l) + 4) name (length q - length (enc_typed ?l)) q, b'))"
      unfolding rq_def by (simp add: add_typed_string_def del fnd Let_def) (simp add: k(2))
    show thesis
      using run that [folded rq_def] unfolding eq by (auto simp: Let_def elim!: and_then_okE)
  qed
  have "length (put_bytes (length (enc_typed ?l)) (le32 ty) (bs1 @ replicate n NUL)) =
      length (enc_typed ?l) + (k + n)"
    using k(1) by (simp add: put_bytes_def k(2))
  with q have bs': "bs' = strlcpy_at (length (enc_typed ?l) + 4) name (k + n)
        (put_bytes (length (enc_typed ?l)) (le32 ty) (bs1 @ replicate n NUL))"
    by (simp add: Let_def)
  have "?r < length name + 1 + 4" by (rule roundup_less) simp
  then have "roundup ?rq 8 \<le> roundup (length name + 13) 8" by (intro roundup_mono) auto
  also have "\<dots> \<le> roundup (length name + 2 * 8) 8" by (intro roundup_mono) auto
  also have "\<dots> = roundup (length name) 8 + 16"
  proof -
    have "(length name + 2 * 8 + 7) div 8 = (length name + 7) div 8 + 2" by presburger
    then show ?thesis by (simp add: roundup_def)
  qed
  finally have "bg_total b + roundup ?rq 8 < 2 ^ 32" using small by linarith
  note n = request_ok(1) [OF rq this]
  have "?rq \<le> n" unfolding n by (rule roundup_ge) simp
  then have fits: "?r + 8 \<le> k + n" by (auto split: if_splits)
  have "bs' = enc_typed (?l @ [(ty, name)]) @ replicate (k + n - 4 - ?r) NUL"
    using put_typed [OF fits refl, of "enc_typed ?l" ty] by (simp add: bs' k(2) replicate_add)
  moreover have "4 \<le> k + n - 4 - ?r" using fits by linarith
  ultimately show ?thesis
    using l d ty nul by (auto simp: holds_typed_def typed_ok_def)
qed

section \<open>Properties\<close>

text \<open>C40: on the table of typed strings, add\_typed\_string removes the record of the given type
  and appends the new one; the other records keep their order.\<close>

theorem add_typed_string_replaces:
  assumes "holds_typed bs l" "0 < ty" "ty < 2 ^ 32" "NUL \<notin> set name"
    and "add_typed_string 0 ty name bs b = ok (i, bs', b')"
    and "bg_total b + roundup (length name) 8 + 24 < 2 ^ 32"
  shows "holds_typed bs' (filter (\<lambda>e. fst e \<noteq> ty) l @ [(ty, name)])"
  by (rule add_typed_string_spec [OF assms])

lemma add_typed_string_replaces_witness:
  "\<exists>i bs' b'. add_typed_string 0 2 ''qrb'' (enc_typed [(2, ''x''), (7, ''arm'')] @ replicate 8 NUL)
      \<lparr>bg_total = 100, bg_max = 4096\<rparr> = ok (i, bs', b')
    \<and> holds_typed bs' [(7, ''arm''), (2, ''qrb'')]"
proof -
  let ?l = "[(2, ''x''), (7, ''arm'')] :: (nat \<times> string) list"
  let ?run = "add_typed_string 0 2 ''qrb'' (enc_typed ?l @ replicate 8 NUL) \<lparr>bg_total = 100, bg_max = 4096\<rparr>"
  have "case ?run of Inl _ \<Rightarrow> False | Inr _ \<Rightarrow> True" by code_simp
  then obtain i bs' b' where run: "?run = ok (i, bs', b')"
    by (cases ?run) auto
  have "holds_typed (enc_typed ?l @ replicate 8 NUL) ?l"
    unfolding holds_typed_def by (auto simp: typed_ok_def intro!: exI [of _ 8])
  from add_typed_string_replaces [OF this _ _ _ run] run show ?thesis
    by (auto simp: roundup_def simp del: enc_typed_simps)
qed

end
