(* ===== verification/Ramlist.thy ===== *)
theory Ramlist
  imports Prelude
begin

text \<open>
  The two tables of startup/lib/ram.c: the sorted list of free memory (ram\_list) and the
  list of ranges that must not be handed out (avoid\_list), with the operations that read
  and change them. A table is the list of its entries up to the terminating entry (size 0,
  respectively end 0), so ram\_list\_size is 16 times one more than the length of the list.
\<close>

section \<open>The entries\<close>

record ram_entry =
  re_addr :: paddr
  re_size :: paddr

record avoid_entry =
  av_start :: paddr
  av_end :: paddr

definition re_end :: "ram_entry \<Rightarrow> paddr" where
  "re_end r = re_addr r + re_size r"

definition mk_ram :: "paddr \<Rightarrow> paddr \<Rightarrow> ram_entry" where
  "mk_ram a s = \<lparr>re_addr = a, re_size = s\<rparr>"

definition MAX_RAM_LIST_SIZE :: nat where
  "MAX_RAM_LIST_SIZE = 3 * 1024"

definition MAX_AVOID_LIST_SIZE :: nat where
  "MAX_AVOID_LIST_SIZE = 1024"

text \<open>sizeof(struct ram\_entry) and sizeof(struct avoid\_entry) are both 16 bytes.\<close>

definition ram_list_size :: "ram_entry list \<Rightarrow> nat" where
  "ram_list_size l = 16 * (length l + 1)"

section \<open>Adding memory\<close>

text \<open>The first loop of add\_mem and the insertion before the first higher entry.\<close>

fun ins_mem :: "paddr \<Rightarrow> paddr \<Rightarrow> ram_entry list \<Rightarrow> ram_entry list" where
  "ins_mem a s [] = [mk_ram a s]"
| "ins_mem a s (r # rs) =
    (if re_size r = 0 \<or> a < re_addr r then mk_ram a s # r # rs else r # ins_mem a s rs)"

text \<open>The second loop: an entry that starts no later than the end of the one before it
  is merged into it, and the merged entry is compared with the next one.\<close>

fun coalesce :: "ram_entry \<Rightarrow> ram_entry list \<Rightarrow> ram_entry list" where
  "coalesce p [] = [p]"
| "coalesce p (r # rs) =
    (if re_size r = 0 then p # r # rs
     else if re_addr r \<le> re_end p then
       (let e = if re_end p < re_end r then re_end r else re_end p
        in coalesce (p\<lparr>re_size := e - re_addr p\<rparr>) rs)
     else p # coalesce r rs)"

fun coalesce_all :: "ram_entry list \<Rightarrow> ram_entry list" where
  "coalesce_all [] = []"
| "coalesce_all (p # rs) = coalesce p rs"

definition add_mem :: "paddr \<Rightarrow> paddr \<Rightarrow> ram_entry list \<Rightarrow> ram_entry list res" where
  "add_mem start sz l =
    (if sz > 0 then
       if ram_list_size l > MAX_RAM_LIST_SIZE - 16 then crash ''RAM entry array overflow''
       else ok (coalesce_all (ins_mem start sz l))
     else ok l)"

section \<open>The ranges that must be avoided\<close>

fun fix_size :: "paddr \<Rightarrow> paddr \<Rightarrow> paddr \<Rightarrow> paddr \<Rightarrow> (paddr \<times> paddr) option" where
  "fix_size s e as ae =
    (if s \<ge> ae \<or> e \<le> as then Some (s, e)
     else if s \<ge> as then
       if e \<le> ae then None else Some (ae, e)
     else if e < ae then Some (s, as)
     else if as - s > e - ae then Some (s, as)
     else Some (ae, e))"

declare fix_size.simps [simp del]

text \<open>The loop over avoid\_list that both search functions run on a candidate.\<close>

fun fix_sizes :: "avoid_entry list \<Rightarrow> paddr \<Rightarrow> paddr \<Rightarrow> (paddr \<times> paddr) option" where
  "fix_sizes [] s e = Some (s, e)"
| "fix_sizes (a # as) s e =
    (if av_end a = 0 then Some (s, e)
     else case fix_size s e (av_start a) (av_end a) of
       None \<Rightarrow> None
     | Some (s', e') \<Rightarrow> fix_sizes as s' e')"

section \<open>Searching\<close>

text \<open>The colour adjustment: mask and colour are 32 bits wide, and so is the complement
  of the mask, which is then widened with zeros.\<close>

definition colour_adjust :: "paddr \<Rightarrow> u32 \<Rightarrow> u32 \<Rightarrow> paddr" where
  "colour_adjust addr colour msk =
    (if addr AND ucast msk \<noteq> ucast colour then
       let incr = ((msk - 1) OR msk) + 1
       in ((addr + ucast incr) AND ucast (NOT msk)) OR ucast colour
     else addr)"

text \<open>One candidate of find\_ram\_in\_range after the avoid loop.\<close>

definition fit_candidate ::
  "paddr \<Rightarrow> paddr \<Rightarrow> u64 \<Rightarrow> u32 \<Rightarrow> u32 \<Rightarrow> u32 \<Rightarrow> paddr \<Rightarrow> paddr \<Rightarrow> paddr option" where
  "fit_candidate range_start range_end sz align colour msk s e =
    (let addr0 = colour_adjust (ROUND s (ucast align)) colour msk;
         addr = if range_start \<noteq> 0 \<and> addr0 < range_start then range_start else addr0;
         e' = if range_end \<noteq> 0 \<and> range_end < e then range_end else e
     in if e' \<le> addr then None
        else if sz \<le> e' - addr then Some addr else None)"

fun find_ram_in_range ::
  "avoid_entry list \<Rightarrow> ram_entry list \<Rightarrow> paddr \<Rightarrow> paddr \<Rightarrow> u64 \<Rightarrow> u32 \<Rightarrow> u32 \<Rightarrow> u32 \<Rightarrow> paddr" where
  "find_ram_in_range av [] rs re sz align colour msk = NULL_PADDR"
| "find_ram_in_range av (r # l) rs re sz align colour msk =
    (if re_size r = 0 then NULL_PADDR
     else case fix_sizes av (re_addr r) (re_end r) of
       None \<Rightarrow> find_ram_in_range av l rs re sz align colour msk
     | Some (s, e) \<Rightarrow>
         (case fit_candidate rs re sz align colour msk s e of
           Some addr \<Rightarrow> addr
         | None \<Rightarrow> find_ram_in_range av l rs re sz align colour msk))"

text \<open>find\_ram searches with the range 0 to the highest address; its two results for
  failure are the same 64-bit value.\<close>

definition find_ram ::
  "avoid_entry list \<Rightarrow> ram_entry list \<Rightarrow> u64 \<Rightarrow> u32 \<Rightarrow> u32 \<Rightarrow> u32 \<Rightarrow> paddr" where
  "find_ram av l sz align colour msk =
    find_ram_in_range av l 0 (NOT 0) sz align colour msk"

text \<open>The loop of find\_top\_ram\_aligned\_limit: top is the best address so far.\<close>

fun find_top_loop ::
  "avoid_entry list \<Rightarrow> paddr \<Rightarrow> u32 \<Rightarrow> paddr \<Rightarrow> ram_entry list \<Rightarrow> paddr \<Rightarrow> paddr" where
  "find_top_loop av sz align limit [] tp = tp"
| "find_top_loop av sz align limit (r # l) tp =
    (if re_size r = 0 then tp
     else case fix_sizes av (re_addr r) (re_end r) of
       None \<Rightarrow> find_top_loop av sz align limit l tp
     | Some (s, e) \<Rightarrow>
         if e - s \<ge> sz then
           let chk = if align \<noteq> 0 then TRUNC (e - sz) (ucast align) else e - sz
           in if chk \<ge> s \<and> chk > tp then
                if chk + sz \<ge> limit then
                  if limit - sz < s then tp else limit - sz
                else find_top_loop av sz align limit l chk
              else find_top_loop av sz align limit l tp
         else find_top_loop av sz align limit l tp)"

definition find_top_ram_aligned_limit ::
  "avoid_entry list \<Rightarrow> ram_entry list \<Rightarrow> paddr \<Rightarrow> u32 \<Rightarrow> u32 \<Rightarrow> paddr \<Rightarrow> paddr" where
  "find_top_ram_aligned_limit av l sz align pagesize limit =
    (if limit < sz then NULL_PADDR
     else let tp = find_top_loop av (ROUND sz (ucast pagesize)) align limit l 0
          in if tp = 0 then NULL_PADDR else tp)"

definition find_top_ram_aligned ::
  "avoid_entry list \<Rightarrow> ram_entry list \<Rightarrow> paddr \<Rightarrow> u32 \<Rightarrow> u32 \<Rightarrow> paddr" where
  "find_top_ram_aligned av l sz align pagesize =
    find_top_ram_aligned_limit av l sz align pagesize (NOT 0)"

definition find_top_ram :: "avoid_entry list \<Rightarrow> ram_entry list \<Rightarrow> u32 \<Rightarrow> paddr \<Rightarrow> paddr" where
  "find_top_ram av l pagesize sz = find_top_ram_aligned av l sz 0 pagesize"

section \<open>What the tables mean\<close>

definition ent :: "ram_entry \<Rightarrow> paddr set" where
  "ent r = {re_addr r ..< re_end r}"

definition covered :: "ram_entry list \<Rightarrow> paddr set" where
  "covered l = (\<Union>r\<in>set l. ent r)"

definition ent_ok :: "ram_entry \<Rightarrow> bool" where
  "ent_ok r \<longleftrightarrow> re_addr r < re_end r"

text \<open>The invariant: no entry is empty or wraps around, and there is a gap between the end
  of each entry and the start of the next one.\<close>

definition ram_ok :: "ram_entry list \<Rightarrow> bool" where
  "ram_ok l \<longleftrightarrow> (\<forall>r\<in>set l. ent_ok r) \<and> sorted_wrt (\<lambda>a b. re_end a < re_addr b) l"

definition avoided :: "avoid_entry list \<Rightarrow> paddr set" where
  "avoided av = (\<Union>a\<in>set (takeWhile (\<lambda>a. av_end a \<noteq> 0) av). {av_start a ..< av_end a})"

lemma covered_simps [simp, seg_simps]:
  "covered [] = {}"
  "covered (r # rs) = ent r \<union> covered rs"
  "covered (xs @ ys) = covered xs \<union> covered ys"
  by (auto simp: covered_def)

lemma avoided_simps [simp]:
  "avoided [] = {}"
  "avoided (a # as) =
    (if av_end a = 0 then {} else {av_start a ..< av_end a} \<union> avoided as)"
  by (auto simp: avoided_def)

lemma mem_ent [seg_simps]: "x \<in> ent r \<longleftrightarrow> re_addr r \<le> x \<and> x < re_end r"
  by (simp add: ent_def)

lemma mk_ram_sel [simp]:
  "re_addr (mk_ram a s) = a" "re_size (mk_ram a s) = s" "re_end (mk_ram a s) = a + s"
  by (simp_all add: mk_ram_def re_end_def)

lemma re_end_set_size [simp]: "re_end (p\<lparr>re_size := e - re_addr p\<rparr>) = e"
  by (simp add: re_end_def)

lemma ent_ok_size: "ent_ok r \<Longrightarrow> re_size r \<noteq> 0"
  by (auto simp: ent_ok_def re_end_def)

lemma ram_ok_simps [simp]:
  "ram_ok []"
  "ram_ok (r # rs) \<longleftrightarrow> ent_ok r \<and> (\<forall>x\<in>set rs. re_end r < re_addr x) \<and> ram_ok rs"
  "ram_ok (xs @ ys) \<longleftrightarrow>
    ram_ok xs \<and> ram_ok ys \<and> (\<forall>x\<in>set xs. \<forall>y\<in>set ys. re_end x < re_addr y)"
  by (auto simp: ram_ok_def sorted_wrt_append)

section \<open>add\_mem keeps the invariant and adds exactly the given range\<close>

lemma ram_ok_ent: "ram_ok l \<Longrightarrow> r \<in> set l \<Longrightarrow> ent_ok r"
  by (auto simp: ram_ok_def)

lemma ent_okD: "ent_ok r \<Longrightarrow> re_addr r < re_end r"
  by (simp add: ent_ok_def)

lemma ent_merge:
  assumes "ent_ok p" "ent_ok r" "re_addr p \<le> re_addr r" "re_addr r \<le> re_end p"
  shows "ent p \<union> ent r =
    ent (p\<lparr>re_size := (if re_end p < re_end r then re_end r else re_end p) - re_addr p\<rparr>)"
  using assms by (auto simp: ent_def ent_ok_def)

lemma coalesce_spec:
  assumes "ent_ok p" "\<forall>r\<in>set rs. ent_ok r" "sorted_wrt (\<lambda>a b. re_addr a \<le> re_addr b) (p # rs)"
  shows "ram_ok (coalesce p rs) \<and> covered (coalesce p rs) = ent p \<union> covered rs
    \<and> (\<forall>x\<in>set (coalesce p rs). re_addr p \<le> re_addr x)"
  using assms
proof (induction rs arbitrary: p)
  case Nil
  then show ?case by simp
next
  case (Cons r rs)
  have nz: "re_size r \<noteq> 0"
    using Cons.prems by (simp add: ent_ok_size)
  show ?case
  proof (cases "re_addr r \<le> re_end p")
    case True
    define e where "e = (if re_end p < re_end r then re_end r else re_end p)"
    define q where "q = p\<lparr>re_size := e - re_addr p\<rparr>"
    have q: "re_addr q = re_addr p" "re_end q = e"
      by (simp_all add: q_def)
    have "ent_ok q"
      using Cons.prems by (auto simp: ent_ok_def q e_def)
    moreover have "sorted_wrt (\<lambda>a b. re_addr a \<le> re_addr b) (q # rs)"
      using Cons.prems by (simp add: q)
    ultimately have IH: "ram_ok (coalesce q rs) \<and> covered (coalesce q rs) = ent q \<union> covered rs
        \<and> (\<forall>x\<in>set (coalesce q rs). re_addr p \<le> re_addr x)"
      using Cons.IH [of q] Cons.prems by (simp add: q)
    have "ent p \<union> ent r = ent q"
      using Cons.prems True by (simp add: ent_merge q_def e_def)
    moreover have "coalesce p (r # rs) = coalesce q rs"
      using nz True by (simp add: q_def e_def)
    ultimately show ?thesis
      using IH by (simp add: Un_assoc [symmetric])
  next
    case False
    have "ram_ok (coalesce r rs) \<and> covered (coalesce r rs) = ent r \<union> covered rs
        \<and> (\<forall>x\<in>set (coalesce r rs). re_addr r \<le> re_addr x)"
      using Cons.IH [of r] Cons.prems by simp
    with False nz Cons.prems show ?thesis
      by (fastforce simp: ent_ok_def)
  qed
qed

lemma ins_mem_spec:
  assumes "ram_ok l"
  shows "set (ins_mem a s l) = insert (mk_ram a s) (set l)"
    and "sorted_wrt (\<lambda>x y. re_addr x \<le> re_addr y) (ins_mem a s l)"
proof -
  show set: "set (ins_mem a s l) = insert (mk_ram a s) (set l)" for l
    by (induction l) auto
  show "sorted_wrt (\<lambda>x y. re_addr x \<le> re_addr y) (ins_mem a s l)"
    using assms
  proof (induction l)
    case (Cons r rs)
    then have "\<forall>x\<in>set rs. re_addr r \<le> re_addr x"
      by (auto simp: ent_ok_def)
    moreover have "sorted_wrt (\<lambda>x y. re_addr x \<le> re_addr y) rs"
      using Cons.prems by (induction rs) (auto simp: ent_ok_def)
    ultimately show ?case
      using Cons by (auto simp: set ent_ok_size)
  qed simp
qed

lemma length_ins_mem [simp]: "length (ins_mem a s l) = Suc (length l)"
  by (induction l) auto

lemma length_coalesce: "length (coalesce p rs) \<le> Suc (length rs)"
  by (induction rs arbitrary: p) (auto simp: Let_def intro: le_SucI)

lemma add_mem_covered:
  assumes "ram_ok l" "add_mem start sz l = ok l'" "sz = 0 \<or> start < start + sz"
  shows "ram_ok l'" "covered l' = covered l \<union> {start ..< start + sz}"
proof -
  have "ram_ok l' \<and> covered l' = covered l \<union> {start ..< start + sz}"
  proof (cases "sz = 0")
    case True
    with assms show ?thesis by (simp add: add_mem_def)
  next
    case False
    obtain p rs where prs: "ins_mem start sz l = p # rs"
      by (cases "ins_mem start sz l") (use length_ins_mem [of start sz l] in auto)
    have ok: "\<forall>r\<in>set (p # rs). ent_ok r"
      using assms False ram_ok_ent [OF assms(1)]
      by (auto simp: prs [symmetric] ins_mem_spec(1) ent_ok_def)
    have cov: "covered (p # rs) = covered l \<union> {start ..< start + sz}"
      using assms(1) by (auto simp: prs [symmetric] covered_def ins_mem_spec(1) ent_def)
    have l': "l' = coalesce p rs"
      using assms(2) False by (auto simp: add_mem_def prs word_gt_0 split: if_splits)
    show ?thesis
      using coalesce_spec [of p rs] ok ins_mem_spec(2) [OF assms(1), of start sz] cov
      by (simp add: l' prs)
  qed
  then show "ram_ok l'" "covered l' = covered l \<union> {start ..< start + sz}"
    by auto
qed


section \<open>The searches return free memory outside every avoided range\<close>

lemma fix_size_spec:
  assumes "fix_size s e as ae = Some (s', e')"
  shows "s \<le> s'" "e' \<le> e" "{s' ..< e'} \<inter> {as ..< ae} = {}" "s < e \<Longrightarrow> s' < e'"
proof -
  show "s < e \<Longrightarrow> s' < e'"
    using assms by (cases "e = ae") (auto simp: fix_size.simps word_gt_0 split: if_splits)
qed (use assms in \<open>auto simp: fix_size.simps split: if_splits\<close>)

lemma fix_size_None:
  assumes "fix_size s e as ae = None"
  shows "{s ..< e} \<subseteq> {as ..< ae}"
  using assms by (auto simp: fix_size.simps split: if_splits)

lemma fix_sizes_spec:
  assumes "fix_sizes av s e = Some (s', e')"
  shows "s \<le> s' \<and> e' \<le> e \<and> {s' ..< e'} \<inter> avoided av = {} \<and> (s < e \<longrightarrow> s' < e')"
  using assms
proof (induction av arbitrary: s e)
  case Nil
  then show ?case by simp
next
  case (Cons a av)
  show ?case
  proof (cases "av_end a = 0")
    case True
    with Cons.prems show ?thesis by simp
  next
    case False
    with Cons.prems obtain t f where fx: "fix_size s e (av_start a) (av_end a) = Some (t, f)"
      and rest: "fix_sizes av t f = Some (s', e')"
      by (auto split: option.splits)
    have le: "s \<le> t" "f \<le> e" and dis: "{t ..< f} \<inter> {av_start a ..< av_end a} = {}"
      and ne: "s < e \<Longrightarrow> t < f"
      using fix_size_spec [OF fx] by auto
    have IH: "t \<le> s'" "e' \<le> f" "{s' ..< e'} \<inter> avoided av = {}" "t < f \<Longrightarrow> s' < e'"
      using Cons.IH [OF rest] by auto
    have "{s' ..< e'} \<subseteq> {t ..< f}"
      using IH by (auto intro: order.trans order.strict_trans2)
    with le ne dis IH False show ?thesis
      by (auto intro: order.trans simp: Int_Un_distrib)
  qed
qed

lemma fix_sizes_sub:
  assumes "fix_sizes av (re_addr r) (re_end r) = Some (s, e)"
  shows "{s ..< e} \<subseteq> ent r - avoided av"
  using fix_sizes_spec [OF assms] by (auto simp: ent_def)

lemma fit_candidate_spec:
  assumes "fit_candidate rs re sz align colour msk s e = Some addr"
    and "s \<le> colour_adjust (ROUND s (ucast align)) colour msk"
  shows "s \<le> addr" "addr + sz \<le> e" "addr \<le> addr + sz"
    "rs \<le> addr" "re \<noteq> 0 \<longrightarrow> addr + sz \<le> re"
proof -
  define f where "f = (if re \<noteq> 0 \<and> re < e then re else e)"
  have f: "addr < f" "sz \<le> f - addr" "s \<le> addr" "rs \<le> addr"
    using assms by (auto simp: fit_candidate_def Let_def f_def not_le split: if_splits)
  then have "addr \<le> addr + sz \<and> addr + sz \<le> f"
    using word_fit [of addr f sz] by auto
  with f show "s \<le> addr" "addr + sz \<le> e" "addr \<le> addr + sz"
    "rs \<le> addr" "re \<noteq> 0 \<longrightarrow> addr + sz \<le> re"
    by (auto simp: f_def split: if_splits)
qed

lemma find_ram_in_range_region:
  assumes "find_ram_in_range av l rs re sz align colour msk = addr" "addr \<noteq> NULL_PADDR"
    and "\<And>r s. r \<in> set l \<Longrightarrow> re_addr r \<le> s \<Longrightarrow> s < re_end r \<Longrightarrow>
      s \<le> colour_adjust (ROUND s (ucast align)) colour msk"
    and "ram_ok l"
  shows "\<exists>r\<in>set l. \<exists>s e. {addr ..< addr + sz} \<subseteq> {s ..< e} \<and> {s ..< e} \<subseteq> ent r - avoided av
     \<and> fit_candidate rs re sz align colour msk s e = Some addr
     \<and> s \<le> colour_adjust (ROUND s (ucast align)) colour msk"
  using assms
proof (induction l)
  case Nil
  then show ?case by simp
next
  case (Cons r l)
  have nz: "re_size r \<noteq> 0" and rok: "re_addr r < re_end r"
    using Cons.prems(4) by (auto simp: ent_ok_size dest: ent_okD)
  show ?case
  proof (cases "\<exists>s e. fix_sizes av (re_addr r) (re_end r) = Some (s, e)
      \<and> fit_candidate rs re sz align colour msk s e = Some addr")
    case True
    then obtain s e where fs: "fix_sizes av (re_addr r) (re_end r) = Some (s, e)"
      and fc: "fit_candidate rs re sz align colour msk s e = Some addr"
      by blast
    have "re_addr r \<le> s" "s < re_end r"
      using fix_sizes_spec [OF fs] rok by auto
    then have ca: "s \<le> colour_adjust (ROUND s (ucast align)) colour msk"
      by (intro Cons.prems(3)) auto
    have "{addr ..< addr + sz} \<subseteq> {s ..< e}"
      using fit_candidate_spec [OF fc ca] by (auto intro: order.trans order.strict_trans2)
    then show ?thesis
      using fix_sizes_sub [OF fs] fc ca by auto
  next
    case False
    then have "find_ram_in_range av l rs re sz align colour msk = addr"
      using Cons.prems(1) nz by (auto split: option.splits)
    from Cons.IH [OF this Cons.prems(2)] Cons.prems(3,4) show ?thesis
      by fastforce
  qed
qed

definition top_region :: "avoid_entry list \<Rightarrow> ram_entry list \<Rightarrow> paddr \<Rightarrow> paddr \<Rightarrow> bool" where
  "top_region av l sz t \<longleftrightarrow>
    t \<le> t + sz \<and> (\<exists>r\<in>set l. {t ..< t + sz} \<subseteq> ent r - avoided av \<and> t + sz \<le> re_end r)"

lemma top_region_intro:
  assumes "fix_sizes av (re_addr r) (re_end r) = Some (s, e)" "r \<in> set l"
    and "s \<le> t" "t \<le> t + sz" "t + sz \<le> e"
  shows "top_region av l sz t"
proof -
  have "{t ..< t + sz} \<subseteq> {s ..< e}"
    using assms by (auto intro: order.trans order.strict_trans2)
  then have "{t ..< t + sz} \<subseteq> ent r - avoided av"
    using fix_sizes_sub [OF assms(1)] by blast
  moreover have "t + sz \<le> re_end r"
    using fix_sizes_spec [OF assms(1)] assms(5) by auto
  ultimately show ?thesis
    using assms(2,4) by (auto simp: top_region_def)
qed

lemma top_region_mono:
  "top_region av l sz t \<Longrightarrow> set l \<subseteq> set l' \<Longrightarrow> top_region av l' sz t"
  by (fastforce simp: top_region_def)

lemma chk_fits:
  fixes e sz :: paddr
  assumes "sz \<le> e - s" "s \<le> e" "chk \<le> e - sz"
  shows "chk \<le> chk + sz \<and> chk + sz \<le> e"
  using assms by unat_arith

lemma limit_fits:
  fixes limit sz :: paddr
  assumes "sz \<le> limit" "limit \<le> chk + sz" "chk \<le> chk + sz"
  shows "limit - sz \<le> chk" "limit - sz + sz = limit" "limit - sz \<le> limit"
proof -
  show "limit - sz \<le> chk" "limit - sz \<le> limit"
    using assms by unat_arith+
qed simp

lemma find_top_loop_region:
  assumes "ram_ok l" "sz \<le> limit" "find_top_loop av sz align limit l tp = t"
  shows "t = tp \<or> top_region av l sz t"
  using assms
proof (induction l arbitrary: tp)
  case Nil
  then show ?case by simp
next
  case (Cons r l)
  have nz: "re_size r \<noteq> 0" and rok: "re_addr r < re_end r"
    using Cons.prems(1) by (auto simp: ent_ok_size dest: ent_okD)
  have IH: "t = tp' \<or> top_region av (r # l) sz t"
    if "find_top_loop av sz align limit l tp' = t" for tp'
    using Cons.IH [of tp'] Cons.prems that by (auto intro: top_region_mono)
  show ?case
  proof (cases "fix_sizes av (re_addr r) (re_end r)")
    case None
    with Cons.prems(3) nz IH [of tp] show ?thesis by auto
  next
    case (Some se)
    obtain s e where fs: "fix_sizes av (re_addr r) (re_end r) = Some (s, e)"
      using Some by (cases se) auto
    have se: "s < e"
      using fix_sizes_spec [OF fs] rok by auto
    define chk where "chk = (if align \<noteq> 0 then TRUNC (e - sz) (ucast align) else e - sz)"
    show ?thesis
    proof (cases "sz \<le> e - s \<and> s \<le> chk \<and> tp < chk")
      case False
      with Cons.prems(3) nz fs IH [of tp] show ?thesis
        by (auto simp: Let_def chk_def split: if_splits)
    next
      case True
      have "chk \<le> e - sz"
        by (simp add: chk_def TRUNC_le)
      with True se have chk: "chk \<le> chk + sz" "chk + sz \<le> e"
        using chk_fits [of sz e s chk] by auto
      have step: "t = (if chk + sz \<ge> limit then if limit - sz < s then tp else limit - sz
          else find_top_loop av sz align limit l chk)"
        using Cons.prems(3) [symmetric] nz fs True by (simp add: Let_def flip: chk_def)
      have "top_region av (r # l) sz chk"
        using True chk by (intro top_region_intro [OF fs]) auto
      moreover have "top_region av (r # l) sz (limit - sz)" if "limit \<le> chk + sz" "s \<le> limit - sz"
        using limit_fits [OF Cons.prems(2) that(1) chk(1)] that chk
        by (intro top_region_intro [OF fs]) auto
      ultimately show ?thesis
        using step IH [of chk] by (auto simp: not_less split: if_splits)
    qed
  qed
qed

section \<open>Properties\<close>

text \<open>C10: add\_mem keeps the table sorted, disjoint and coalesced and makes exactly the new
  range free in addition to what was free.\<close>

theorem add_mem_adds:
  assumes "ram_ok l" "add_mem start sz l = ok l'" "start \<le> start + sz"
  shows "ram_ok l' \<and> covered l' = covered l \<union> {start ..< start + sz}"
proof -
  have "sz = 0 \<or> start < start + sz"
    using assms(3) by (metis add_cancel_left_right less_le)
  then show ?thesis
    using add_mem_covered [OF assms(1,2)] by blast
qed

lemma add_mem_adds_witness:
  "covered [mk_ram 0x1000 0x5000] = covered [mk_ram 0x1000 0x1000, mk_ram 0x4000 0x1000]
     \<union> {0x1800 ..< 0x1800 + 0x4800}"
proof -
  have "add_mem 0x1800 0x4800 [mk_ram 0x1000 0x1000, mk_ram 0x4000 0x1000] = ok [mk_ram 0x1000 0x5000]"
    by code_simp
  then show ?thesis
    using add_mem_adds [where l = "[mk_ram 0x1000 0x1000, mk_ram 0x4000 0x1000]"]
    by (fastforce simp: ent_ok_def simp del: covered_simps)
qed

text \<open>C11: a block that find\_top\_ram\_aligned\_limit finds (when the limit is not below the
  rounded size) lies in one free entry, outside every avoided range, and does not wrap.\<close>

theorem find_top_in_memory:
  assumes "ram_ok l" "find_top_ram_aligned_limit av l sz align pagesize limit = t"
    and "t \<noteq> NULL_PADDR" "ROUND sz (ucast pagesize) \<le> limit"
  shows "t \<le> t + ROUND sz (ucast pagesize)
    \<and> {t ..< t + ROUND sz (ucast pagesize)} \<subseteq> covered l - avoided av"
proof -
  let ?sz = "ROUND sz (ucast pagesize)"
  have "t = find_top_loop av ?sz align limit l 0" "t \<noteq> 0"
    using assms(2,3) by (auto simp: find_top_ram_aligned_limit_def Let_def split: if_splits)
  then have "top_region av l ?sz t"
    using find_top_loop_region [OF assms(1,4)] by metis
  then show ?thesis by (auto simp: top_region_def covered_def)
qed

lemma find_top_in_memory_witness:
  "{0x3000 ..< 0x3000 + ROUND 0x800 (ucast (0x1000 :: u32))} \<subseteq>
     covered [mk_ram 0x1000 0x4000] - avoided [\<lparr>av_start = 0x4000, av_end = 0x5000\<rparr>]"
proof -
  have "find_top_ram_aligned_limit [\<lparr>av_start = 0x4000, av_end = 0x5000\<rparr>] [mk_ram 0x1000 0x4000]
      0x800 0x1000 0x1000 (NOT 0) = 0x3000"
    by code_simp
  from find_top_in_memory [OF _ this] show ?thesis
    by (simp add: ent_ok_def NULL_PADDR_def)
qed

end
