(* ===== verification/Asinfo.thy ===== *)
theory Asinfo
  imports Strings
begin

text \<open>
  The table of address-space entries (startup/lib/as\_*.c). An entry is a record, the table
  a list; the byte offset of an entry in the section stands for its index in the list, and
  AS\_NULL\_OFF for None. The attribute bits and the size of an entry come from
  sys/syspage.h, which is not part of the tree: they are the fields of the record as\_abi.
\<close>

section \<open>Data\<close>

record asinfo_entry =
  as_start :: paddr
  as_end :: paddr
  as_owner :: "nat option"
  as_name :: nat
  as_attr :: u32
  as_priority :: u32

record lsp =
  asinfo :: "asinfo_entry list"
  strs :: "char list"
  sbud :: budget

record as_abi =
  AS_ATTR_CONTINUED :: u32
  AS_ATTR_KIDS :: u32
  AS_PRIORITY_DEFAULT :: u32
  sz_asinfo :: nat

definition AS_OVERLAY_IO :: u32 where
  "AS_OVERLAY_IO = 0x80000000"

definition AS_ATTR_RAM :: u32 where
  "AS_ATTR_RAM = 0"

text \<open>as\_off2info and as\_info2off: the entry at an offset and the offset of an entry.\<close>

definition as_off2info :: "lsp \<Rightarrow> nat \<Rightarrow> asinfo_entry res" where
  "as_off2info s i = (if i < length (asinfo s) then ok (asinfo s ! i) else stray)"

definition upd_as :: "nat \<Rightarrow> (asinfo_entry \<Rightarrow> asinfo_entry) \<Rightarrow> lsp \<Rightarrow> lsp res" where
  "upd_as i f s =
    (if i < length (asinfo s) then ok (s\<lparr>asinfo := (asinfo s)[i := f (asinfo s ! i)]\<rparr>) else stray)"

section \<open>Adding one entry\<close>

text \<open>as\_add64 up to the test of the overlay bit: name, space, fields, and the mark in the
  owner.\<close>

definition as_add_entry ::
  "as_abi \<Rightarrow> paddr \<Rightarrow> paddr \<Rightarrow> u32 \<Rightarrow> string \<Rightarrow> nat option \<Rightarrow> lsp \<Rightarrow> (nat \<times> lsp) res" where
  "as_add_entry abi start end attr name owner s =
    and_then (add_string name (strs s) (sbud s)) (\<lambda>(name_off, bs, b1).
    and_then (request (sz_asinfo abi) b1) (\<lambda>(_, b2).
      let e = \<lparr>as_start = start, as_end = end, as_owner = owner, as_name = name_off,
               as_attr = attr AND 0xffff, as_priority = AS_PRIORITY_DEFAULT abi\<rparr>;
          off = length (asinfo s);
          s' = \<lparr>asinfo = asinfo s @ [e], strs = bs, sbud = b2\<rparr>
      in case owner of
           None \<Rightarrow> ok (off, s')
         | Some ow \<Rightarrow>
             and_then (upd_as ow (\<lambda>a. a\<lparr>as_attr := as_attr a OR AS_ATTR_KIDS abi\<rparr>) s')
               (\<lambda>s''. ok (off, s''))))"

function as_add64 ::
  "as_abi \<Rightarrow> paddr \<Rightarrow> paddr \<Rightarrow> u32 \<Rightarrow> string \<Rightarrow> nat option \<Rightarrow> lsp \<Rightarrow> (nat \<times> lsp) res" where
  "as_add64 abi start end attr name owner s =
    (case as_add_entry abi start end attr name owner s of
       Inl e \<Rightarrow> Inl e
     | Inr (off, s1) \<Rightarrow>
         if attr AND AS_OVERLAY_IO \<noteq> 0 then
           case as_add64 abi start end (attr AND NOT AS_OVERLAY_IO) ''io'' (Some off) s1 of
             Inl e \<Rightarrow> Inl e
           | Inr (_, s2) \<Rightarrow> ok (off, s2)
         else ok (off, s1))"
  by auto
termination
  by (relation "measure (\<lambda>(_, _, _, attr, _). if attr AND AS_OVERLAY_IO = 0 then 0 else 1)")
    (auto simp: and.assoc)

declare as_add64.simps [simp del]

definition as_add ::
  "as_abi \<Rightarrow> paddr \<Rightarrow> paddr \<Rightarrow> u32 \<Rightarrow> string \<Rightarrow> nat option \<Rightarrow> lsp \<Rightarrow> (nat \<times> lsp) res" where
  "as_add = as_add64"

section \<open>Searching\<close>

text \<open>match\_name follows the owners; the fuel is the number of entries, which every walk
  without a repetition stays below (see match\_name\_total).\<close>

fun match_name_n :: "nat \<Rightarrow> lsp \<Rightarrow> nat \<Rightarrow> string \<Rightarrow> bool res" where
  "match_name_n 0 s i name = stray"
| "match_name_n (Suc n) s i name =
    (if i < length (asinfo s) then
       if cstr_at (strs s) (as_name (asinfo s ! i)) = name then ok True
       else case as_owner (asinfo s ! i) of
              None \<Rightarrow> ok False
            | Some ow \<Rightarrow> match_name_n n s ow name
     else stray)"

definition match_name :: "lsp \<Rightarrow> nat \<Rightarrow> string \<Rightarrow> bool res" where
  "match_name s i name = match_name_n (length (asinfo s)) s i name"

text \<open>The three tests of as\_find\_containing, in their order.\<close>

definition range_hits :: "paddr \<Rightarrow> paddr \<Rightarrow> asinfo_entry \<Rightarrow> bool" where
  "range_hits start end a \<longleftrightarrow>
    (start \<ge> as_start a \<and> start \<le> as_end a) \<or>
    (end \<ge> as_start a \<and> end \<le> as_end a) \<or>
    (start \<le> as_start a \<and> end \<ge> as_end a)"

function find_containing_from :: "lsp \<Rightarrow> nat \<Rightarrow> paddr \<Rightarrow> paddr \<Rightarrow> string \<Rightarrow> nat option res" where
  "find_containing_from s i start end container =
    (if i \<ge> length (asinfo s) then ok None
     else case match_name s i container of
       Inl e \<Rightarrow> Inl e
     | Inr m \<Rightarrow>
         if m \<and> range_hits start end (asinfo s ! i) then ok (Some i)
         else find_containing_from s (i + 1) start end container)"
  by auto
termination
  by (relation "measure (\<lambda>(s, i, _). length (asinfo s) - i)") auto

declare find_containing_from.simps [simp del]

definition next_index :: "nat option \<Rightarrow> nat" where
  "next_index off = (case off of None \<Rightarrow> 0 | Some i \<Rightarrow> i + 1)"

definition as_find_containing ::
  "lsp \<Rightarrow> nat option \<Rightarrow> paddr \<Rightarrow> paddr \<Rightarrow> string \<Rightarrow> nat option res" where
  "as_find_containing s off start end container =
    find_containing_from s (next_index off) start end container"

definition hwi_find_as :: "lsp \<Rightarrow> paddr \<Rightarrow> bool \<Rightarrow> nat option res" where
  "hwi_find_as s bs mmap =
    as_find_containing s None bs (bs + 1) (if mmap then ''memory'' else ''io'')"

text \<open>as\_find: the names are given from the outermost owner to the entry itself; the list
  that match\_item walks is their reverse.\<close>

fun match_item :: "lsp \<Rightarrow> nat \<Rightarrow> string list \<Rightarrow> bool res" where
  "match_item s i [] = ok True"
| "match_item s i (n # ns) =
    (if i < length (asinfo s) then
       if cstr_at (strs s) (as_name (asinfo s ! i)) \<noteq> n then ok False
       else if ns = [] then ok True
       else case as_owner (asinfo s ! i) of
              None \<Rightarrow> ok False
            | Some ow \<Rightarrow> match_item s ow ns
     else stray)"

function find_from :: "lsp \<Rightarrow> nat \<Rightarrow> string list \<Rightarrow> nat option res" where
  "find_from s i ns =
    (if i \<ge> length (asinfo s) then ok None
     else case match_item s i ns of
       Inl e \<Rightarrow> Inl e
     | Inr m \<Rightarrow> if m then ok (Some i) else find_from s (i + 1) ns)"
  by auto
termination
  by (relation "measure (\<lambda>(s, i, _). length (asinfo s) - i)") auto

declare find_from.simps [simp del]

definition as_find :: "lsp \<Rightarrow> nat option \<Rightarrow> string list \<Rightarrow> nat option res" where
  "as_find s start names =
    (if names = [] then crash ''NULL name argument''
     else find_from s (next_index start) (rev names))"

section \<open>Adding a range inside its containers\<close>

text \<open>struct as\_range: a piece of the new range and the entry that will own it.\<close>

record as_range =
  ar_start :: paddr
  ar_end :: paddr
  ar_owner :: nat

text \<open>The inner loop of as\_add\_containing: a piece that starts inside one already in the
  list replaces its owner, or is cut out of it; any other piece goes to the end.\<close>

fun put_piece :: "as_range \<Rightarrow> as_range list \<Rightarrow> as_range list" where
  "put_piece p [] = [p]"
| "put_piece p (c # cs) =
    (if ar_start c \<le> ar_start p \<and> ar_end c \<ge> ar_start p then
       if ar_start c = ar_start p \<and> ar_end c = ar_end p then c\<lparr>ar_owner := ar_owner p\<rparr> # cs
       else if ar_start c = ar_start p then p # c\<lparr>ar_start := ar_end p + 1\<rparr> # cs
       else c\<lparr>ar_end := ar_start p - 1\<rparr> # p #
         (if ar_end c \<noteq> ar_end p
          then \<lparr>ar_start = ar_end p + 1, ar_end = ar_end c, ar_owner = ar_owner c\<rparr> # cs
          else cs)
     else c # put_piece p cs)"

text \<open>One container: the part of the range that lies in it.\<close>

definition piece_of :: "paddr \<Rightarrow> paddr \<Rightarrow> nat \<Rightarrow> asinfo_entry \<Rightarrow> as_range" where
  "piece_of start end owner a =
    \<lparr>ar_start = (if as_start a > start then as_start a else start),
     ar_end = (if as_end a < end then as_end a else end), ar_owner = owner\<rparr>"

lemma find_containing_ge: "find_containing_from s i start end c = ok (Some j) \<Longrightarrow>
    i \<le> j \<and> j < length (asinfo s)"
proof (induction s i start "end" c rule: find_containing_from.induct)
  case (1 s i start "end" c)
  from 1(2) have "\<not> length (asinfo s) \<le> i \<and> (\<exists>m. match_name s i c = ok m \<and>
      (if m \<and> range_hits start end (asinfo s ! i) then j = i
       else find_containing_from s (i + 1) start end c = ok (Some j)))"
    by (subst (asm) find_containing_from.simps) (auto split: if_splits sum.splits)
  with 1(1) show ?case by (fastforce split: if_splits)
qed

text \<open>The outer loop: all containers, in the order of the table.\<close>

function collect_pieces ::
  "lsp \<Rightarrow> nat option \<Rightarrow> paddr \<Rightarrow> paddr \<Rightarrow> string \<Rightarrow> as_range list \<Rightarrow> as_range list res" where
  "collect_pieces s owner start end container l =
    (case as_find_containing s owner start end container of
       Inl e \<Rightarrow> Inl e
     | Inr None \<Rightarrow> ok l
     | Inr (Some i) \<Rightarrow>
         collect_pieces s (Some i) start end container
           (put_piece (piece_of start end i (asinfo s ! i)) l))"
  by auto
termination
  by (relation "measure (\<lambda>(s, off, _). length (asinfo s) - next_index off)")
    (auto simp: as_find_containing_def next_index_def dest!: find_containing_ge split: option.splits)

declare collect_pieces.simps [simp del]

text \<open>The loop that adds an entry for every piece that is not empty; the accumulator is
  start\_off and off.\<close>

fun add_pieces ::
  "as_abi \<Rightarrow> u32 \<Rightarrow> string \<Rightarrow> as_range list \<Rightarrow> (nat \<times> nat) option \<Rightarrow> lsp
    \<Rightarrow> ((nat \<times> nat) option \<times> lsp) res" where
  "add_pieces abi attr name [] acc s = ok (acc, s)"
| "add_pieces abi attr name (p # ps) acc s =
    (if ar_start p \<le> ar_end p then
       and_then (as_add abi (ar_start p) (ar_end p) attr name (Some (ar_owner p)) s)
         (\<lambda>(off, s'). add_pieces abi attr name ps
            (Some (case acc of None \<Rightarrow> (off, off) | Some (st, _) \<Rightarrow> (st, off))) s')
     else add_pieces abi attr name ps acc s)"

text \<open>The loop that adds the overlay entries: it ends at the first entry without the
  continuation bit. The fuel is the distance to the last piece (see overlay\_pieces).\<close>

fun overlay_n :: "nat \<Rightarrow> as_abi \<Rightarrow> u32 \<Rightarrow> string \<Rightarrow> nat \<Rightarrow> lsp \<Rightarrow> lsp res" where
  "overlay_n 0 abi attr name off s = stray"
| "overlay_n (Suc n) abi attr name off s =
    and_then (as_off2info s off) (\<lambda>a.
    and_then (as_add abi (as_start a) (as_end a) (attr AND NOT AS_OVERLAY_IO) name (Some off) s)
      (\<lambda>(_, s'). and_then (as_off2info s' off) (\<lambda>a'.
         if as_attr a' AND AS_ATTR_CONTINUED abi = 0 then ok s'
         else overlay_n n abi attr name (off + 1) s')))"

definition as_add_containing ::
  "as_abi \<Rightarrow> paddr \<Rightarrow> paddr \<Rightarrow> u32 \<Rightarrow> string \<Rightarrow> string \<Rightarrow> lsp \<Rightarrow> (nat option \<times> lsp) res" where
  "as_add_containing abi start end attr name container s =
    and_then (collect_pieces s None start end container []) (\<lambda>l.
    and_then (add_pieces abi ((attr AND NOT AS_OVERLAY_IO) OR AS_ATTR_CONTINUED abi) name l None s)
      (\<lambda>(acc, s1).
        case acc of
          None \<Rightarrow> ok (None, s1)
        | Some (start_off, off) \<Rightarrow>
            and_then (upd_as off (\<lambda>a. a\<lparr>as_attr := as_attr a AND NOT (AS_ATTR_CONTINUED abi)\<rparr>) s1)
              (\<lambda>s2. if attr AND AS_OVERLAY_IO \<noteq> 0 then
                        and_then (overlay_n (off - start_off + 1) abi attr name start_off s2)
                          (\<lambda>s3. ok (Some start_off, s3))
                      else ok (Some start_off, s2))))"

text \<open>as\_set\_priority: the entry and the ones that continue it; running off the table is
  stray.\<close>

function as_set_priority :: "as_abi \<Rightarrow> nat \<Rightarrow> u32 \<Rightarrow> lsp \<Rightarrow> lsp res" where
  "as_set_priority abi i prio s =
    (if i < length (asinfo s) then
       let s' = s\<lparr>asinfo := (asinfo s)[i := (asinfo s ! i)\<lparr>as_priority := prio\<rparr>]\<rparr>
       in if as_attr (asinfo s ! i) AND AS_ATTR_CONTINUED abi = 0 then ok s'
          else as_set_priority abi (i + 1) prio s'
     else stray)"
  by auto
termination
  by (relation "measure (\<lambda>(abi, i, prio, s). length (asinfo s) - i)") auto

declare as_set_priority.simps [simp del]

text \<open>aarch64/as\_default.c: the memory entry, sized by the physical address bits that the
  id register reports.\<close>

definition pa_bits :: "nat list" where
  "pa_bits = [32, 36, 40, 42, 44, 48, 48, 48]"

definition as_default :: "as_abi \<Rightarrow> u64 \<Rightarrow> lsp \<Rightarrow> (nat \<times> lsp) res" where
  "as_default abi mmfr0 s =
    as_add abi 0 (2 ^ (pa_bits ! unat (mmfr0 AND 7)) - 1) 0 ''memory'' None s"

section \<open>The invariant of the table\<close>

definition entry_name :: "lsp \<Rightarrow> nat \<Rightarrow> string" where
  "entry_name s i = cstr_at (strs s) (as_name (asinfo s ! i))"

text \<open>Every owner comes before its entry, and every name is in the string section.\<close>

definition owners_ok :: "asinfo_entry list \<Rightarrow> bool" where
  "owners_ok es \<longleftrightarrow> (\<forall>i<length es. \<forall>ow. as_owner (es ! i) = Some ow \<longrightarrow> ow < i)"

definition as_inv :: "lsp \<Rightarrow> string list \<Rightarrow> bool" where
  "as_inv s ns \<longleftrightarrow> str_inv (strs s, sbud s) ns \<and> owners_ok (asinfo s) \<and>
    (\<forall>a\<in>set (asinfo s). \<exists>n\<in>set ns. as_name a = offset_of ns n)"

text \<open>What an addition leaves alone in the old entries: all but the attributes.\<close>

definition same_entry :: "asinfo_entry \<Rightarrow> asinfo_entry \<Rightarrow> bool" where
  "same_entry a b \<longleftrightarrow> as_start a = as_start b \<and> as_end a = as_end b \<and> as_owner a = as_owner b
    \<and> as_name a = as_name b \<and> as_priority a = as_priority b"

definition extends :: "lsp \<Rightarrow> lsp \<Rightarrow> bool" where
  "extends s s' \<longleftrightarrow> length (asinfo s) \<le> length (asinfo s') \<and>
    (\<forall>i<length (asinfo s). same_entry (asinfo s ! i) (asinfo s' ! i) \<and> entry_name s' i = entry_name s i)"

lemma same_entry_refl [simp]: "same_entry a a"
  by (simp add: same_entry_def)

lemma same_entry_attr [simp]: "same_entry a (b\<lparr>as_attr := v\<rparr>) = same_entry a b"
  by (simp add: same_entry_def)

lemma extends_refl [simp]: "extends s s"
  by (simp add: extends_def)

lemma extends_trans: "extends s t \<Longrightarrow> extends t u \<Longrightarrow> extends s u"
  by (auto simp: extends_def same_entry_def)

lemma as_inv_update_attr:
  assumes "as_inv s ns" "upd_as i f s = ok s'" "\<And>a. \<exists>v. f a = a\<lparr>as_attr := v\<rparr>"
  shows "as_inv s' ns" "extends s s'" "length (asinfo s') = length (asinfo s)"
proof -
  obtain v where v: "f (asinfo s ! i) = (asinfo s ! i)\<lparr>as_attr := v\<rparr>" using assms(3) by blast
  have s': "i < length (asinfo s)" "s' = s\<lparr>asinfo := (asinfo s)[i := f (asinfo s ! i)]\<rparr>"
    using assms(2) by (auto simp: upd_as_def split: if_splits)
  have "\<exists>n\<in>set ns. as_name a = offset_of ns n" if "a \<in> set (asinfo s')" for a
  proof -
    have "a = f (asinfo s ! i) \<or> a \<in> set (asinfo s)"
      using that set_update_subset_insert by (fastforce simp: s')
    then show ?thesis using assms(1) s'(1) by (auto simp: as_inv_def v)
  qed
  then show "as_inv s' ns"
    using assms(1) s'(1) by (auto simp: as_inv_def owners_ok_def s'(2) nth_list_update v)
  show "extends s s'" "length (asinfo s') = length (asinfo s)"
    using s'(1) by (auto simp: extends_def s'(2) nth_list_update v entry_name_def)
qed

lemma names_kept:
  assumes "as_inv s ns" "str_name_ok name" "add_string name (strs s) (sbud s) = ok (off, bs, b)"
  defines "ns' \<equiv> strs.names_after ns name"
  shows "str_inv (bs, b) ns'" "off = offset_of ns' name" "name \<in> set ns'" "cstr_at bs off = name"
    "\<And>m. m \<in> set ns \<Longrightarrow> offset_of ns' m = offset_of ns m \<and> m \<in> set ns'
      \<and> cstr_at bs (offset_of ns m) = cstr_at (strs s) (offset_of ns m)"
proof -
  have inv: "str_inv (strs s, sbud s) ns" and run: "add_string_p name (strs s, sbud s) = ok (off, bs, b)"
    using assms(1,3) by (simp_all add: as_inv_def add_string_p_def)
  note step = strs.intern_step [OF inv assms(2) run]
  show "str_inv (bs, b) ns'" "off = offset_of ns' name" "name \<in> set ns'"
    using step strs.in_names_after(1) by (simp_all add: ns'_def)
  show "cstr_at bs off = name"
    using strs.intern_get [OF inv assms(2) run] by simp
  fix m assume m: "m \<in> set ns"
  then show "offset_of ns' m = offset_of ns m \<and> m \<in> set ns'
      \<and> cstr_at bs (offset_of ns m) = cstr_at (strs s) (offset_of ns m)"
    using strs.intern_keeps [OF inv assms(2) run m] strs.get [OF inv m]
    by (simp add: ns'_def strs.pos_names_after strs.in_names_after(2))
qed

lemma as_inv_push:
  assumes inv: "as_inv s ns" and nm: "str_name_ok name"
    and add: "add_string name (strs s) (sbud s) = ok (off, bs, b1)"
    and rq: "request n b1 = ok (m, b2)" and ow: "\<And>o'. as_owner e = Some o' \<Longrightarrow> o' < length (asinfo s)"
    and e: "as_name e = off"
  defines "s' \<equiv> \<lparr>asinfo = asinfo s @ [e], strs = bs, sbud = b2\<rparr>"
  shows "as_inv s' (strs.names_after ns name)" "extends s s'" "entry_name s' (length (asinfo s)) = name"
proof -
  note k = names_kept [OF inv nm add]
  have s1: "str_inv (bs, b2) (strs.names_after ns name)"
    using k(1) request_budget [OF rq] by (simp add: str_inv_def)
  have names: "\<exists>n\<in>set (strs.names_after ns name). as_name a = offset_of (strs.names_after ns name) n"
    if a: "a \<in> set (asinfo s')" for a
  proof (cases "a = e")
    case True
    then show ?thesis using k(2,3) e by auto
  next
    case False
    then obtain n where "n \<in> set ns" "as_name a = offset_of ns n"
      using a inv by (auto simp: s'_def as_inv_def)
    then show ?thesis using k(5) [of n] by (intro bexI [of _ n]) simp_all
  qed
  have "owners_ok (asinfo s')"
    using inv ow by (auto simp: as_inv_def owners_ok_def s'_def nth_append less_Suc_eq)
  then show "as_inv s' (strs.names_after ns name)"
    using s1 names by (auto simp: as_inv_def s'_def)
  have "entry_name s' i = entry_name s i" if i: "i < length (asinfo s)" for i
  proof -
    have "asinfo s ! i \<in> set (asinfo s)" using i by simp
    then obtain n where "n \<in> set ns" "as_name (asinfo s ! i) = offset_of ns n"
      using inv by (auto simp: as_inv_def)
    then show ?thesis
      using i k(5) [of n] by (simp add: entry_name_def s'_def nth_append)
  qed
  then show "extends s s'" by (simp add: extends_def s'_def nth_append)
  show "entry_name s' (length (asinfo s)) = name"
    using k(4) e by (simp add: entry_name_def s'_def)
qed

text \<open>What an addition promises: the new entry is the last one, with the given range, name
  and owner, and the invariant and the old entries are kept.\<close>

definition added ::
  "lsp \<Rightarrow> paddr \<Rightarrow> paddr \<Rightarrow> string \<Rightarrow> nat option \<Rightarrow> nat \<Rightarrow> lsp \<Rightarrow> bool" where
  "added s start end name owner off s' \<longleftrightarrow>
    off = length (asinfo s) \<and> off < length (asinfo s') \<and> extends s s' \<and>
    as_start (asinfo s' ! off) = start \<and> as_end (asinfo s' ! off) = end \<and>
    as_owner (asinfo s' ! off) = owner \<and> entry_name s' off = name"

lemma as_add_entry_ok:
  assumes inv: "as_inv s ns" and nm: "str_name_ok name"
    and run: "as_add_entry abi start end attr name owner s = ok (off, s')"
    and ow: "\<And>o'. owner = Some o' \<Longrightarrow> o' < length (asinfo s)"
  shows "as_inv s' (strs.names_after ns name) \<and> added s start end name owner off s'
    \<and> length (asinfo s') = Suc (length (asinfo s))"
proof -
  define e where "e = (\<lambda>noff. \<lparr>as_start = start, as_end = end, as_owner = owner, as_name = noff,
      as_attr = attr AND 0xffff, as_priority = AS_PRIORITY_DEFAULT abi\<rparr>)"
  obtain noff bs b1 m b2 where add: "add_string name (strs s) (sbud s) = ok (noff, bs, b1)"
    and rq: "request (sz_asinfo abi) b1 = ok (m, b2)"
    using run by (auto simp: as_add_entry_def elim!: and_then_okE)
  let ?t = "\<lparr>asinfo = asinfo s @ [e noff], strs = bs, sbud = b2\<rparr>"
  have e: "as_owner (e noff) = Some o' \<Longrightarrow> o' < length (asinfo s)" "as_name (e noff) = noff" for o'
    using ow by (auto simp: e_def)
  note p = as_inv_push [OF inv nm add rq e]
  show ?thesis
  proof (cases owner)
    case None
    then have "s' = ?t" "off = length (asinfo s)"
      using run add rq by (auto simp: as_add_entry_def e_def Let_def)
    then show ?thesis using p None by (auto simp: added_def e_def)
  next
    case (Some o')
    then have o': "o' < length (asinfo s)" using ow by simp
    from Some obtain upd: "upd_as o' (\<lambda>a. a\<lparr>as_attr := as_attr a OR AS_ATTR_KIDS abi\<rparr>) ?t = ok s'"
      and off: "off = length (asinfo s)"
      using run add rq by (auto simp: as_add_entry_def e_def Let_def elim!: and_then_okE)
    have ex: "\<exists>v. (\<lambda>a. a\<lparr>as_attr := as_attr a OR AS_ATTR_KIDS abi\<rparr>) a = a\<lparr>as_attr := v\<rparr>" for a
      by auto
    note u = as_inv_update_attr [OF p(1) upd ex]
    have "same_entry (e noff) (asinfo s' ! off)" "entry_name s' off = name"
      using u(2) p(3) by (auto simp: extends_def off nth_append dest: spec [of _ "length (asinfo s)"])
    then show ?thesis
      using u(1,3) extends_trans [OF p(2) u(2)] Some
      by (auto simp: added_def off same_entry_def e_def)
  qed
qed

lemma added_mono: "added s start end name owner off t \<Longrightarrow> extends t u \<Longrightarrow>
    added s start end name owner off u"
  by (auto simp: added_def same_entry_def intro: extends_trans) (auto simp: extends_def same_entry_def)

lemma io_name_ok: "str_name_ok ''io''"
  by (simp add: str_name_ok_def cstr_def)

lemma as_add64_ok:
  assumes inv: "as_inv s ns" and nm: "str_name_ok name"
    and run: "as_add64 abi start end attr name owner s = ok (off, s')"
    and ow: "\<And>o'. owner = Some o' \<Longrightarrow> o' < length (asinfo s)"
  shows "\<exists>ns'. as_inv s' ns' \<and> set ns \<subseteq> set ns' \<and> added s start end name owner off s' \<and>
    (if attr AND AS_OVERLAY_IO = 0 then length (asinfo s') = Suc (length (asinfo s))
     else length (asinfo s') = Suc (Suc (length (asinfo s))) \<and>
       as_owner (asinfo s' ! Suc off) = Some off \<and> entry_name s' (Suc off) = ''io'')"
proof -
  obtain s1 where e1: "as_add_entry abi start end attr name owner s = ok (off, s1)"
    using run by (subst (asm) as_add64.simps) (auto split: sum.splits if_splits)
  note a1 = as_add_entry_ok [OF inv nm e1 ow]
  show ?thesis
  proof (cases "attr AND AS_OVERLAY_IO = 0")
    case True
    then have "s' = s1" using run e1 by (subst (asm) as_add64.simps) simp
    moreover have "set ns \<subseteq> set (strs.names_after ns name)" by (auto intro: strs.in_names_after)
    ultimately show ?thesis using a1 True by metis
  next
    case False
    let ?at = "attr AND NOT AS_OVERLAY_IO" and ?ns = "strs.names_after ns name"
    have at: "?at AND AS_OVERLAY_IO = 0" by (simp add: and.assoc)
    have off: "off < length (asinfo s1)" "off = length (asinfo s)" using a1 by (auto simp: added_def)
    obtain o2 where "as_add64 abi start end ?at ''io'' (Some off) s1 = ok (o2, s')"
      using run e1 False by (subst (asm) as_add64.simps) (auto split: sum.splits)
    then have e2: "as_add_entry abi start end ?at ''io'' (Some off) s1 = ok (o2, s')"
      by (subst (asm) as_add64.simps) (use at in \<open>auto split: sum.splits\<close>)
    have "o' < length (asinfo s1)" if "Some off = Some o'" for o'
      using that off by simp
    note a2 = as_add_entry_ok [OF conjunct1 [OF a1] io_name_ok e2 this]
    have "added s start end name owner off s'"
      using added_mono [of s start "end" name owner off s1 s'] a1 a2 by (auto simp: added_def)
    moreover have "as_owner (asinfo s' ! Suc off) = Some off" "entry_name s' (Suc off) = ''io''"
      "length (asinfo s') = Suc (Suc (length (asinfo s)))"
      using a1 a2 off by (auto simp: added_def)
    moreover have "set ns \<subseteq> set (strs.names_after ?ns ''io'')" by (auto intro: strs.in_names_after)
    ultimately show ?thesis using a2 False by (intro exI [of _ "strs.names_after ?ns ''io''"]) auto
  qed
qed

section \<open>The owner walk\<close>

inductive owned_by :: "lsp \<Rightarrow> nat \<Rightarrow> nat \<Rightarrow> bool" for s where
  self: "i < length (asinfo s) \<Longrightarrow> owned_by s i i"
| up: "i < length (asinfo s) \<Longrightarrow> as_owner (asinfo s ! i) = Some k \<Longrightarrow> owned_by s k j \<Longrightarrow> owned_by s i j"

inductive_cases owned_byE: "owned_by s i j"

definition in_container :: "lsp \<Rightarrow> nat \<Rightarrow> string \<Rightarrow> bool" where
  "in_container s i name \<longleftrightarrow> (\<exists>j. owned_by s i j \<and> entry_name s j = name)"

lemma in_container_unfold:
  assumes "i < length (asinfo s)"
  shows "in_container s i name \<longleftrightarrow> entry_name s i = name \<or>
    (\<exists>k. as_owner (asinfo s ! i) = Some k \<and> in_container s k name)"
  unfolding in_container_def using assms
  by (auto elim: owned_byE intro: owned_by.intros)

lemma match_name_n_total:
  assumes "owners_ok (asinfo s)" "i < length (asinfo s)" "i < n"
  shows "match_name_n n s i name = ok (in_container s i name)"
  using assms
proof (induction n arbitrary: i)
  case (Suc n)
  show ?case
  proof (cases "as_owner (asinfo s ! i)")
    case None
    then show ?thesis
      using Suc.prems in_container_unfold [OF Suc.prems(2), of name] by (simp add: entry_name_def)
  next
    case (Some k)
    then have "k < i" using Suc.prems by (auto simp: owners_ok_def)
    then have "match_name_n n s k name = ok (in_container s k name)"
      using Suc by auto
    then show ?thesis
      using Suc.prems in_container_unfold [OF Suc.prems(2), of name] Some
      by (simp add: entry_name_def)
  qed
qed simp

lemma match_name_total:
  assumes "owners_ok (asinfo s)" "i < length (asinfo s)"
  shows "match_name s i name = ok (in_container s i name)"
  using match_name_n_total [OF assms assms(2)] by (simp add: match_name_def)

definition hits :: "lsp \<Rightarrow> paddr \<Rightarrow> paddr \<Rightarrow> string \<Rightarrow> nat \<Rightarrow> bool" where
  "hits s start end name i \<longleftrightarrow> i < length (asinfo s) \<and> in_container s i name
    \<and> range_hits start end (asinfo s ! i)"

definition first_hit :: "lsp \<Rightarrow> paddr \<Rightarrow> paddr \<Rightarrow> string \<Rightarrow> nat \<Rightarrow> nat option \<Rightarrow> bool" where
  "first_hit s start end name i r \<longleftrightarrow>
    (case r of None \<Rightarrow> \<forall>j\<ge>i. \<not> hits s start end name j
     | Some j \<Rightarrow> i \<le> j \<and> hits s start end name j \<and> (\<forall>k. i \<le> k \<and> k < j \<longrightarrow> \<not> hits s start end name k))"

lemma first_hit_step:
  assumes "first_hit s start end name (i + 1) r" "\<not> hits s start end name i"
  shows "first_hit s start end name i r"
  using assms by (auto simp: first_hit_def split: option.splits) (metis Suc_leI le_neq_implies_less)+

lemma find_containing_total:
  assumes "owners_ok (asinfo s)"
  shows "\<exists>r. find_containing_from s i start end name = ok r \<and> first_hit s start end name i r"
  using assms
proof (induction s i start "end" name rule: find_containing_from.induct)
  case (1 s i start "end" name)
  show ?case
  proof (cases "i < length (asinfo s)")
    case False
    then show ?thesis
      by (subst find_containing_from.simps) (auto simp: first_hit_def hits_def)
  next
    case True
    note m = match_name_total [OF 1(2) True, of name]
    show ?thesis
    proof (cases "in_container s i name \<and> range_hits start end (asinfo s ! i)")
      case hit: True
      then show ?thesis
        using True m by (subst find_containing_from.simps) (auto simp: first_hit_def hits_def)
    next
      case False
      have "find_containing_from s i start end name = find_containing_from s (i + 1) start end name"
        using True m False by (subst find_containing_from.simps) auto
      moreover have "\<not> hits s start end name i" using False by (simp add: hits_def)
      ultimately show ?thesis
        using 1(1) [OF _ m False 1(2)] True first_hit_step by (metis not_le)
    qed
  qed
qed

section \<open>The pieces partition the range\<close>

definition seg :: "as_range \<Rightarrow> paddr set" where
  "seg p = {ar_start p .. ar_end p}"

text \<open>The owner that the list of pieces gives to an address.\<close>

fun owner_at :: "as_range list \<Rightarrow> paddr \<Rightarrow> nat option" where
  "owner_at [] x = None"
| "owner_at (p # ps) x = (if x \<in> seg p then Some (ar_owner p) else owner_at ps x)"

definition pieces_ok :: "as_range list \<Rightarrow> bool" where
  "pieces_ok ps \<longleftrightarrow> (\<forall>p\<in>set ps. ar_start p \<le> ar_end p) \<and>
    sorted_wrt (\<lambda>p q. seg p \<inter> seg q = {}) ps"

text \<open>A new piece lies inside one of the pieces or meets none of them.\<close>

definition nested :: "as_range \<Rightarrow> as_range list \<Rightarrow> bool" where
  "nested p ps \<longleftrightarrow> (\<forall>q\<in>set ps. seg p \<subseteq> seg q \<or> seg p \<inter> seg q = {})"

lemma mem_seg [seg_simps]: "x \<in> seg p \<longleftrightarrow> ar_start p \<le> x \<and> x \<le> ar_end p"
  by (simp add: seg_def)

lemma pieces_ok_Cons [simp]:
  "pieces_ok (p # ps) \<longleftrightarrow> ar_start p \<le> ar_end p \<and> (\<forall>q\<in>set ps. seg p \<inter> seg q = {}) \<and> pieces_ok ps"
  by (auto simp: pieces_ok_def)

lemma pieces_ok_Nil [simp]: "pieces_ok []"
  by (simp add: pieces_ok_def)

lemma seg_cut:
  fixes x y z :: paddr
  assumes "x < y"
  shows "x + 1 \<le> z \<longleftrightarrow> x < z" "z \<le> y - 1 \<longleftrightarrow> z < y"
  using assms by unat_arith+

lemma seg_nonempty: "ar_start p \<le> ar_end p \<Longrightarrow> ar_start p \<in> seg p"
  by (simp add: seg_def)

lemma nested_inside:
  assumes "ar_start p \<le> ar_end p" "ar_start c \<le> ar_start p" "ar_start p \<le> ar_end c"
    and "seg p \<subseteq> seg c \<or> seg p \<inter> seg c = {}"
  shows "ar_end p \<le> ar_end c"
  using assms by (auto simp: seg_def)

text \<open>What is left of a piece before and after the new one.\<close>

lemma seg_before:
  assumes "ar_start c < ar_start p" "ar_start p \<le> ar_end c"
  shows "seg (c\<lparr>ar_end := ar_start p - 1\<rparr>) = seg c \<inter> {..< ar_start p}"
    "ar_start c \<le> ar_start p - 1"
proof -
  have "z \<in> seg (c\<lparr>ar_end := ar_start p - 1\<rparr>) \<longleftrightarrow> ar_start c \<le> z \<and> z < ar_start p" for z
    by (simp add: mem_seg seg_cut(2) [OF assms(1)])
  moreover have "z \<in> seg c \<inter> {..< ar_start p} \<longleftrightarrow> ar_start c \<le> z \<and> z < ar_start p" for z
    using below_absorb [OF assms(2), of "ar_start c" z] by (simp add: mem_seg)
  ultimately show "seg (c\<lparr>ar_end := ar_start p - 1\<rparr>) = seg c \<inter> {..< ar_start p}"
    by (intro set_eqI) (simp only:)
  show "ar_start c \<le> ar_start p - 1"
    unfolding seg_cut(2) [OF assms(1)] by (rule assms(1))
qed

lemma seg_after:
  assumes "ar_end p < ar_end c" "ar_start c \<le> ar_start p" "ar_start p \<le> ar_end p"
  shows "seg \<lparr>ar_start = ar_end p + 1, ar_end = ar_end c, ar_owner = w\<rparr> = seg c \<inter> {ar_end p <..}"
    "seg (c\<lparr>ar_start := ar_end p + 1\<rparr>) = seg c \<inter> {ar_end p <..}"
    "ar_end p + 1 \<le> ar_end c"
proof -
  have "z \<in> seg c \<inter> {ar_end p <..} \<longleftrightarrow> ar_end p < z \<and> z \<le> ar_end c" for z
    using above_absorb [OF order.trans [OF assms(2,3)], of z "ar_end c"] by (simp add: mem_seg)
  then have cut: "seg c \<inter> {ar_end p <..} = {z. ar_end p < z \<and> z \<le> ar_end c}" by blast
  show "seg \<lparr>ar_start = ar_end p + 1, ar_end = ar_end c, ar_owner = w\<rparr> = seg c \<inter> {ar_end p <..}"
    "seg (c\<lparr>ar_start := ar_end p + 1\<rparr>) = seg c \<inter> {ar_end p <..}"
    unfolding cut by (intro set_eqI; simp add: mem_seg seg_cut(1) [OF assms(1)])+
  show "ar_end p + 1 \<le> ar_end c"
    unfolding seg_cut(1) [OF assms(1)] by (rule assms(1))
qed

lemma in_union_seg: "(\<Union>q\<in>set xs. seg q) = B \<Longrightarrow> q \<in> set xs \<Longrightarrow> x \<in> seg q \<Longrightarrow> x \<in> B"
  by blast

lemma put_piece_spec:
  assumes "pieces_ok ps" "nested p ps" "ar_start p \<le> ar_end p"
  shows "pieces_ok (put_piece p ps) \<and>
    (\<Union>q\<in>set (put_piece p ps). seg q) = seg p \<union> (\<Union>q\<in>set ps. seg q) \<and>
    (\<forall>x. owner_at (put_piece p ps) x = (if x \<in> seg p then Some (ar_owner p) else owner_at ps x))"
  using assms
proof (induction ps)
  case Nil
  then show ?case by simp
next
  case (Cons c cs)
  have nst: "seg p \<subseteq> seg c \<or> seg p \<inter> seg c = {}" and ncs: "nested p cs"
    using Cons.prems(2) by (auto simp: nested_def)
  show ?case
  proof (cases "ar_start c \<le> ar_start p \<and> ar_start p \<le> ar_end c")
    case False
    have dis: "seg p \<inter> seg c = {}"
      using nst False Cons.prems(3) seg_nonempty [of p] by (auto simp: seg_def)
    have "pieces_ok (put_piece p cs) \<and>
      (\<Union>q\<in>set (put_piece p cs). seg q) = seg p \<union> (\<Union>q\<in>set cs. seg q) \<and>
      (\<forall>x. owner_at (put_piece p cs) x = (if x \<in> seg p then Some (ar_owner p) else owner_at cs x))"
      using Cons ncs by simp
    moreover have "put_piece p (c # cs) = c # put_piece p cs"
      unfolding put_piece.simps using False by meson
    moreover have "\<forall>q\<in>set (put_piece p cs). seg c \<inter> seg q = {}"
      using calculation(1) dis Cons.prems(1) by (auto dest!: in_union_seg)
    ultimately show ?thesis using dis Cons.prems(1) by auto
  next
    case True
    have le: "ar_end p \<le> ar_end c" and sub: "seg p \<subseteq> seg c"
      using nested_inside [OF Cons.prems(3) _ _ nst] True by (auto simp: seg_def)
    have rest: "\<forall>q\<in>set cs. seg c \<inter> seg q = {}" "pieces_ok cs" using Cons.prems(1) by auto
    have dj: "q \<in> set cs \<Longrightarrow> x \<in> seg q \<Longrightarrow> x \<notin> seg c" for q x using rest(1) by blast
    have in_p: "x \<in> seg p \<longleftrightarrow> x \<in> seg c \<and> \<not> x < ar_start p \<and> \<not> ar_end p < x" for x
      using sub by (auto simp: seg_def)
    have c_bd: "x \<in> seg c \<Longrightarrow> \<not> x < ar_start c" "x \<in> seg c \<Longrightarrow> \<not> ar_end c < x" for x
      by (auto simp: seg_def)
    show ?thesis
    proof (cases "ar_start c = ar_start p")
      case eq: True
      show ?thesis
      proof (cases "ar_end c = ar_end p")
        case True
        then show ?thesis using eq rest Cons.prems by (auto simp: seg_def)
      next
        case False
        with le have lt: "ar_end p < ar_end c" by simp
        note a = seg_after [OF lt _ Cons.prems(3)]
        have "put_piece p (c # cs) = p # c\<lparr>ar_start := ar_end p + 1\<rparr> # cs"
          using True eq False by simp
        then show ?thesis
          using a(2,3) in_p c_bd dj rest(2) Cons.prems(3) eq by (auto simp del: put_piece.simps)
      qed
    next
      case False
      with True have lt: "ar_start c < ar_start p" by (simp add: less_le)
      note b = seg_before [OF lt conjunct2 [OF True]]
      show ?thesis
      proof (cases "ar_end c = ar_end p")
        case eq: True
        have "put_piece p (c # cs) = c\<lparr>ar_end := ar_start p - 1\<rparr> # p # cs"
          using True False eq by simp
        then show ?thesis
          using b in_p c_bd dj rest(2) Cons.prems(3) eq by (auto simp del: put_piece.simps)
      next
        case ne: False
        with le have lt2: "ar_end p < ar_end c" by (simp add: less_le)
        note a = seg_after [OF lt2 conjunct1 [OF True] Cons.prems(3)]
        have "put_piece p (c # cs) = c\<lparr>ar_end := ar_start p - 1\<rparr> # p #
            \<lparr>ar_start = ar_end p + 1, ar_end = ar_end c, ar_owner = ar_owner c\<rparr> # cs"
          using True False ne by simp
        then show ?thesis
          using a(1,3) b in_p dj rest(2) Cons.prems(3) by (auto simp del: put_piece.simps)
      qed
    qed
  qed
qed

section \<open>Containers that nest\<close>

text \<open>Two addresses lie in one piece.\<close>

definition together :: "as_range list \<Rightarrow> paddr \<Rightarrow> paddr \<Rightarrow> bool" where
  "together ps x y \<longleftrightarrow> (\<exists>q\<in>set ps. x \<in> seg q \<and> y \<in> seg q)"

lemma together_Cons [simp]:
  "together (p # ps) x y \<longleftrightarrow> x \<in> seg p \<and> y \<in> seg p \<or> together ps x y"
  "\<not> together [] x y"
  by (auto simp: together_def)

lemma together_self: "together ps x x \<longleftrightarrow> x \<in> (\<Union>q\<in>set ps. seg q)"
  by (auto simp: together_def)

text \<open>The new piece separates two addresses of one old piece only if it contains one of
  them, or an address between them.\<close>

lemma put_piece_together:
  assumes "pieces_ok ps" "nested p ps" "ar_start p \<le> ar_end p" "x \<le> y"
    and "x \<in> seg p \<and> y \<in> seg p \<or>
      together ps x y \<and> x \<notin> seg p \<and> y \<notin> seg p \<and> (\<forall>z. x \<le> z \<and> z \<le> y \<longrightarrow> z \<notin> seg p)"
  shows "together (put_piece p ps) x y"
  using assms
proof (induction ps)
  case (Cons c cs)
  have nst: "seg p \<subseteq> seg c \<or> seg p \<inter> seg c = {}" and ncs: "nested p cs"
    using Cons.prems(2) by (auto simp: nested_def)
  show ?case
  proof (cases "ar_start c \<le> ar_start p \<and> ar_start p \<le> ar_end c")
    case False
    then have "put_piece p (c # cs) = c # put_piece p cs"
      unfolding put_piece.simps by meson
    then show ?thesis
      using Cons.IH [OF _ ncs Cons.prems(3,4)] Cons.prems(1,5) by (auto simp del: put_piece.simps)
  next
    case True
    have le: "ar_end p \<le> ar_end c"
      using nested_inside [OF Cons.prems(3) _ _ nst] True by auto
    have out: "x < ar_start p \<and> y < ar_start p \<or> ar_end p < x \<and> ar_end p < y"
      if "x \<notin> seg p" "y \<notin> seg p" "\<forall>z. x \<le> z \<and> z \<le> y \<longrightarrow> z \<notin> seg p"
    proof (rule straddle [OF Cons.prems(4,3)])
      show "\<not> (x \<le> ar_start p \<and> ar_start p \<le> y)"
        using that(3) seg_nonempty [OF Cons.prems(3)] by blast
    qed (use that in \<open>simp_all add: mem_seg\<close>)
    have b: "z \<in> seg (c\<lparr>ar_end := ar_start p - 1\<rparr>) \<longleftrightarrow> z \<in> seg c \<and> z < ar_start p"
      if "ar_start c < ar_start p" for z
      using seg_before(1) [OF that conjunct2 [OF True]] by simp
    have a: "z \<in> seg (c\<lparr>ar_start := ar_end p + 1\<rparr>) \<longleftrightarrow> z \<in> seg c \<and> ar_end p < z"
      "z \<in> seg \<lparr>ar_start = ar_end p + 1, ar_end = ar_end c, ar_owner = w\<rparr> \<longleftrightarrow> z \<in> seg c \<and> ar_end p < z"
      if "ar_end p < ar_end c" for z w
      using seg_after(1,2) [OF that conjunct1 [OF True] Cons.prems(3)] by simp_all
    have c_bd: "z \<in> seg c \<Longrightarrow> \<not> z < ar_start c" "z \<in> seg c \<Longrightarrow> \<not> ar_end c < z" for z
      by (auto simp: seg_def)
    have eq: "seg (c\<lparr>ar_owner := w\<rparr>) = seg c" for w by (simp add: seg_def)
    consider "ar_start c = ar_start p" "ar_end c = ar_end p"
      | "ar_start c = ar_start p" "ar_end p < ar_end c"
      | "ar_start c < ar_start p" "ar_end c = ar_end p"
      | "ar_start c < ar_start p" "ar_end p < ar_end c"
      using True le by (metis less_le)
    then show ?thesis
    proof cases
      case 1
      then have "seg p = seg c" by (simp add: seg_def)
      then show ?thesis using 1 True Cons.prems(5) eq by auto
    next
      case 2
      then have "put_piece p (c # cs) = p # c\<lparr>ar_start := ar_end p + 1\<rparr> # cs" using True by auto
      then show ?thesis
        using a(1) [OF 2(2)] out c_bd(1) 2(1) Cons.prems(5) by (auto simp del: put_piece.simps)
    next
      case 3
      then have "put_piece p (c # cs) = c\<lparr>ar_end := ar_start p - 1\<rparr> # p # cs" using True by auto
      then show ?thesis
        using b [OF 3(1)] out c_bd(2) 3(2) Cons.prems(5) by (auto simp del: put_piece.simps)
    next
      case 4
      then have "put_piece p (c # cs) = c\<lparr>ar_end := ar_start p - 1\<rparr> # p #
          \<lparr>ar_start = ar_end p + 1, ar_end = ar_end c, ar_owner = ar_owner c\<rparr> # cs"
        using True by auto
      then show ?thesis
        using a(2) [OF 4(2)] b [OF 4(1)] out Cons.prems(5) by (auto simp del: put_piece.simps)
    qed
  qed
qed simp

definition put_pieces :: "as_range list \<Rightarrow> as_range list" where
  "put_pieces ps = fold put_piece ps []"

definition laminar :: "as_range list \<Rightarrow> bool" where
  "laminar ps \<longleftrightarrow> (\<forall>p\<in>set ps. ar_start p \<le> ar_end p) \<and>
    sorted_wrt (\<lambda>p q. seg q \<subseteq> seg p \<or> seg q \<inter> seg p = {}) ps"

definition last_owner :: "as_range list \<Rightarrow> paddr \<Rightarrow> nat option" where
  "last_owner ps x = fold (\<lambda>p r. if x \<in> seg p then Some (ar_owner p) else r) ps None"

abbreviation all_of :: "as_range list \<Rightarrow> paddr set" where
  "all_of ps \<equiv> (\<Union>q\<in>set ps. seg q)"

definition separated :: "as_range list \<Rightarrow> as_range list \<Rightarrow> bool" where
  "separated qs ps \<longleftrightarrow> (\<forall>x y. x \<le> y \<and> x \<in> all_of qs \<and> y \<in> all_of qs \<and> \<not> together qs x y \<longrightarrow>
    (\<exists>i\<in>set ps. \<exists>z. x \<le> z \<and> z \<le> y \<and> (z \<in> seg i) \<noteq> (x \<in> seg i)))"

lemma seg_convex: "x \<in> seg p \<Longrightarrow> y \<in> seg p \<Longrightarrow> x \<le> z \<Longrightarrow> z \<le> y \<Longrightarrow> z \<in> seg p"
  by (auto simp: seg_def)

lemma pieces_unique:
  "pieces_ok qs \<Longrightarrow> q \<in> set qs \<Longrightarrow> r \<in> set qs \<Longrightarrow> x \<in> seg q \<Longrightarrow> x \<in> seg r \<Longrightarrow> q = r"
  by (induction qs) auto

lemma nested_step:
  assumes ok: "pieces_ok qs" and sep: "separated qs ps" and un: "all_of qs = all_of ps"
    and lam: "\<forall>i\<in>set ps. seg p \<subseteq> seg i \<or> seg p \<inter> seg i = {}"
  shows "nested p qs"
  unfolding nested_def
proof (intro ballI disjCI)
  fix q assume q: "q \<in> set qs" and meet: "seg p \<inter> seg q \<noteq> {}"
  then obtain x where x: "x \<in> seg p" "x \<in> seg q" by blast
  have all: "seg p \<subseteq> all_of qs"
  proof -
    have "x \<in> all_of ps" using un q x(2) by blast
    then obtain i where i: "i \<in> set ps" "x \<in> seg i" by blast
    then have "seg p \<subseteq> seg i" using lam x(1) by blast
    then show ?thesis using i(1) un by blast
  qed
  have tog: "together qs a b" if ab: "a \<in> seg p" "b \<in> seg p" "a \<le> b" for a b
  proof (rule ccontr)
    assume "\<not> together qs a b"
    moreover have "a \<in> all_of qs" "b \<in> all_of qs" using all ab(1,2) by auto
    ultimately have "\<exists>i\<in>set ps. \<exists>z. a \<le> z \<and> z \<le> b \<and> (z \<in> seg i) \<noteq> (a \<in> seg i)"
      using sep [unfolded separated_def, rule_format, of a b] ab(3) by simp
    then obtain i z where i: "i \<in> set ps" "a \<le> z" "z \<le> b" "(z \<in> seg i) \<noteq> (a \<in> seg i)"
      by blast
    then have "z \<in> seg p" using seg_convex [OF ab(1,2)] by blast
    then show False using lam i ab(1) by blast
  qed
  show "seg p \<subseteq> seg q"
  proof
    fix y assume y: "y \<in> seg p"
    have "together qs x y \<or> together qs y x"
    proof (cases "x \<le> y")
      case True then show ?thesis using tog [OF x(1) y] by simp
    next
      case False then show ?thesis using tog [OF y x(1)] by simp
    qed
    then obtain r where "r \<in> set qs" "x \<in> seg r" "y \<in> seg r" unfolding together_def by blast
    then show "y \<in> seg q" using pieces_unique [OF ok q _ x(2)] by blast
  qed
qed

lemma separated_step:
  assumes ok: "pieces_ok qs" and ne: "nested p qs" "ar_start p \<le> ar_end p" and sep: "separated qs ps"
  shows "separated (put_piece p qs) (ps @ [p])"
  unfolding separated_def
proof (intro allI impI, elim conjE)
  fix x y assume xy: "x \<le> y" "x \<in> all_of (put_piece p qs)" "y \<in> all_of (put_piece p qs)"
    and nt: "\<not> together (put_piece p qs) x y"
  have un: "all_of (put_piece p qs) = seg p \<union> all_of qs"
    using put_piece_spec [OF ok ne] by blast
  note tog = put_piece_together [OF ok ne xy(1)]
  show "\<exists>i\<in>set (ps @ [p]). \<exists>z. x \<le> z \<and> z \<le> y \<and> (z \<in> seg i) \<noteq> (x \<in> seg i)"
  proof (cases "\<exists>z. x \<le> z \<and> z \<le> y \<and> (z \<in> seg p) \<noteq> (x \<in> seg p)")
    case True
    then show ?thesis by auto
  next
    case False
    then have const: "z \<in> seg p \<longleftrightarrow> x \<in> seg p" if "x \<le> z" "z \<le> y" for z using that by blast
    then have "x \<notin> seg p" "y \<notin> seg p" using tog nt const [OF xy(1) order.refl] by blast+
    then have "\<not> together qs x y" "x \<in> all_of qs" "y \<in> all_of qs"
      using tog nt const xy un by blast+
    then have "\<exists>i\<in>set ps. \<exists>z. x \<le> z \<and> z \<le> y \<and> (z \<in> seg i) \<noteq> (x \<in> seg i)"
      using sep xy(1) unfolding separated_def by blast
    then show ?thesis by auto
  qed
qed

lemma put_pieces_spec:
  assumes "laminar ps"
  shows "pieces_ok (put_pieces ps) \<and> all_of (put_pieces ps) = all_of ps
    \<and> (\<forall>x. owner_at (put_pieces ps) x = last_owner ps x) \<and> separated (put_pieces ps) ps"
  using assms
proof (induction ps rule: rev_induct)
  case Nil
  then show ?case by (simp add: put_pieces_def last_owner_def separated_def)
next
  case (snoc p ps)
  then have lam: "laminar ps" "ar_start p \<le> ar_end p"
    and nest: "\<forall>i\<in>set ps. seg p \<subseteq> seg i \<or> seg p \<inter> seg i = {}"
    by (auto simp: laminar_def sorted_wrt_append)
  from snoc.IH [OF lam(1)] have IH: "pieces_ok (put_pieces ps)" "all_of (put_pieces ps) = all_of ps"
    "\<forall>x. owner_at (put_pieces ps) x = last_owner ps x" "separated (put_pieces ps) ps" by blast+
  have put: "put_pieces (ps @ [p]) = put_piece p (put_pieces ps)" by (simp add: put_pieces_def)
  have ne: "nested p (put_pieces ps)" by (rule nested_step [OF IH(1,4,2) nest])
  show ?case
    using put_piece_spec [OF IH(1) ne lam(2)] separated_step [OF IH(1) ne lam(2) IH(4)] IH(2,3)
    by (simp add: put last_owner_def Un_commute)
qed

section \<open>as\_add\_containing as a whole\<close>

definition hits_from :: "lsp \<Rightarrow> paddr \<Rightarrow> paddr \<Rightarrow> string \<Rightarrow> nat \<Rightarrow> nat list" where
  "hits_from s start end c n = filter (hits s start end c) [n ..< length (asinfo s)]"

definition clips_from :: "lsp \<Rightarrow> paddr \<Rightarrow> paddr \<Rightarrow> string \<Rightarrow> nat \<Rightarrow> as_range list" where
  "clips_from s start end c n = map (\<lambda>i. piece_of start end i (asinfo s ! i)) (hits_from s start end c n)"

text \<open>The parts of the range that lie in the containers, in the order of the table.\<close>

definition clips :: "lsp \<Rightarrow> paddr \<Rightarrow> paddr \<Rightarrow> string \<Rightarrow> as_range list" where
  "clips s start end c = clips_from s start end c 0"

lemma hits_from_first:
  assumes "first_hit s start end c n r"
  shows "hits_from s start end c n = (case r of None \<Rightarrow> [] | Some j \<Rightarrow> j # hits_from s start end c (j + 1))"
proof (cases r)
  case None
  then show ?thesis
    using assms by (auto simp: first_hit_def hits_from_def filter_empty_conv)
next
  case (Some j)
  then have j: "n \<le> j" "hits s start end c j" "\<forall>k. n \<le> k \<and> k < j \<longrightarrow> \<not> hits s start end c k"
    using assms by (auto simp: first_hit_def)
  then have "j < length (asinfo s)" by (simp add: hits_def)
  then have "[n ..< length (asinfo s)] = [n ..< j] @ j # [j + 1 ..< length (asinfo s)]"
    using j(1) by (metis Suc_eq_plus1 upt_add_eq_append upt_conv_Cons le_add_diff_inverse less_imp_le_nat)
  then show ?thesis
    using j Some by (auto simp: hits_from_def filter_empty_conv)
qed

lemma collect_pieces_eq:
  assumes "owners_ok (asinfo s)"
  shows "collect_pieces s off start end c l =
    ok (fold put_piece (clips_from s start end c (next_index off)) l)"
  using assms
proof (induction s off start "end" c l rule: collect_pieces.induct)
  case (1 s off start "end" c l)
  obtain r where r: "as_find_containing s off start end c = ok r"
    "first_hit s start end c (next_index off) r"
    using find_containing_total [OF 1(2)] unfolding as_find_containing_def by blast
  show ?case
  proof (cases r)
    case None
    then show ?thesis
      using r hits_from_first [OF r(2)] by (subst collect_pieces.simps) (simp add: clips_from_def)
  next
    case (Some i)
    have "collect_pieces s off start end c l =
        collect_pieces s (Some i) start end c (put_piece (piece_of start end i (asinfo s ! i)) l)"
      using r Some by (subst collect_pieces.simps) simp
    also have "\<dots> = ok (fold put_piece (clips_from s start end c (next_index (Some i)))
        (put_piece (piece_of start end i (asinfo s ! i)) l))"
      using 1(1) [OF r(1) Some 1(2)] .
    finally show ?thesis
      using hits_from_first [OF r(2)] Some by (simp add: clips_from_def next_index_def)
  qed
qed

text \<open>The new entries stand for a list of pieces.\<close>

definition entries_for :: "string \<Rightarrow> as_range list \<Rightarrow> nat \<Rightarrow> lsp \<Rightarrow> bool" where
  "entries_for name ps n s \<longleftrightarrow> length (asinfo s) = n + length ps \<and> (\<forall>k<length ps.
     as_start (asinfo s ! (n + k)) = ar_start (ps ! k) \<and> as_end (asinfo s ! (n + k)) = ar_end (ps ! k)
     \<and> as_owner (asinfo s ! (n + k)) = Some (ar_owner (ps ! k)) \<and> entry_name s (n + k) = name)"

lemma entries_for_mono:
  assumes "entries_for name ps n s" "extends s s'" "length (asinfo s') = length (asinfo s)"
  shows "entries_for name ps n s'"
  using assms by (auto simp: entries_for_def extends_def same_entry_def)

lemma add_pieces_ok:
  assumes "as_inv s ns" "str_name_ok name" "attr AND AS_OVERLAY_IO = 0"
    and "\<forall>p\<in>set ps. ar_start p \<le> ar_end p \<and> ar_owner p < length (asinfo s)"
    and "add_pieces abi attr name ps acc s = ok (acc', s')"
  shows "\<exists>ns'. as_inv s' ns' \<and> set ns \<subseteq> set ns' \<and> extends s s'
    \<and> entries_for name ps (length (asinfo s)) s'
    \<and> acc' = (if ps = [] then acc
        else Some (case acc of None \<Rightarrow> length (asinfo s) | Some a \<Rightarrow> fst a, length (asinfo s') - 1))"
  using assms
proof (induction ps arbitrary: s ns acc)
  case Nil
  then show ?case by (auto simp: entries_for_def)
next
  case (Cons p ps)
  let ?ow = "Some (ar_owner p)"
  obtain off s1 where a: "as_add64 abi (ar_start p) (ar_end p) attr name ?ow s = ok (off, s1)"
    and rest: "add_pieces abi attr name ps
      (Some (case acc of None \<Rightarrow> (off, off) | Some (st, _) \<Rightarrow> (st, off))) s1 = ok (acc', s')"
    using Cons.prems by (auto simp: as_add_def elim!: and_then_okE split: if_splits)
  have "o' < length (asinfo s)" if "?ow = Some o'" for o' using that Cons.prems(4) by simp
  from as_add64_ok [OF Cons.prems(1,2) a this] obtain ns1 where
    n1: "as_inv s1 ns1" "set ns \<subseteq> set ns1" "added s (ar_start p) (ar_end p) name ?ow off s1"
      "length (asinfo s1) = Suc (length (asinfo s))"
    using Cons.prems(3) by auto
  have "\<forall>p\<in>set ps. ar_start p \<le> ar_end p \<and> ar_owner p < length (asinfo s1)"
    using Cons.prems(4) n1(4) by auto
  from Cons.IH [OF n1(1) Cons.prems(2,3) this rest] obtain ns2 where
    n2: "as_inv s' ns2" "set ns1 \<subseteq> set ns2" "extends s1 s'"
      "entries_for name ps (length (asinfo s1)) s'"
      "acc' = (if ps = [] then Some (case acc of None \<Rightarrow> (off, off) | Some (st, _) \<Rightarrow> (st, off))
        else Some (case acc of None \<Rightarrow> off | Some a \<Rightarrow> fst a, length (asinfo s') - 1))"
    by (auto split: option.splits)
  have ent: "added s (ar_start p) (ar_end p) name ?ow off s'" by (rule added_mono [OF n1(3) n2(3)])
  have "entries_for name (p # ps) (length (asinfo s)) s'"
    using n2(4) ent n1(4) by (auto simp: entries_for_def added_def nth_Cons split: nat.splits)
  moreover have "acc' = Some (case acc of None \<Rightarrow> length (asinfo s) | Some a \<Rightarrow> fst a, length (asinfo s') - 1)"
    using n2(4,5) n1(3,4) by (auto simp: added_def entries_for_def split: option.splits)
  ultimately show ?case
    using n1(2) n2(1,2,3) ent by (auto simp: added_def intro: extends_trans)
qed

lemma clips_owner: "p \<in> set (clips_from s start end c n) \<Longrightarrow> ar_owner p < length (asinfo s)"
  by (auto simp: clips_from_def hits_from_def piece_of_def hits_def)

lemma put_piece_owners:
  "q \<in> set (put_piece p ps) \<Longrightarrow> ar_owner q \<in> insert (ar_owner p) (ar_owner ` set ps)"
  by (induction ps) (auto split: if_splits)

lemma put_piece_ne: "put_piece p ps \<noteq> []"
  by (cases ps) auto

lemma put_pieces_owners:
  "q \<in> set (put_pieces ps) \<Longrightarrow> ar_owner q \<in> ar_owner ` set ps"
proof (induction ps arbitrary: q rule: rev_induct)
  case (snoc p ps)
  then have "ar_owner q \<in> insert (ar_owner p) (ar_owner ` set (put_pieces ps))"
    by (intro put_piece_owners) (simp add: put_pieces_def)
  then show ?case using snoc.IH by auto
qed (simp add: put_pieces_def)

lemma owner_at_iff:
  assumes "pieces_ok ps"
  shows "owner_at ps x = Some w \<longleftrightarrow> (\<exists>p\<in>set ps. x \<in> seg p \<and> ar_owner p = w)"
  using assms by (induction ps) auto

lemma piece_at:
  assumes "pieces_ok ps" "k < length ps" "x \<in> seg (ps ! k)"
  shows "owner_at ps x = Some (ar_owner (ps ! k))"
  using assms owner_at_iff [OF assms(1)] by (metis nth_mem)

lemma piece_index_unique:
  assumes "pieces_ok ps" "j < length ps" "k < length ps" "x \<in> seg (ps ! j)" "x \<in> seg (ps ! k)"
  shows "j = k"
  using assms
proof (induction ps arbitrary: j k)
  case (Cons p ps)
  then show ?case by (cases j; cases k) auto
qed simp

definition as_range_of :: "asinfo_entry \<Rightarrow> paddr set" where
  "as_range_of a = {as_start a .. as_end a}"

text \<open>The new entries from n on: each names the innermost container of its addresses, and
  each address of a container is in exactly one of them.\<close>

definition partitions :: "as_range list \<Rightarrow> string \<Rightarrow> nat \<Rightarrow> lsp \<Rightarrow> bool" where
  "partitions cl name n s \<longleftrightarrow>
    (\<forall>k. n \<le> k \<and> k < length (asinfo s) \<longrightarrow> entry_name s k = name \<and>
      (\<forall>x\<in>as_range_of (asinfo s ! k). as_owner (asinfo s ! k) = last_owner cl x)) \<and>
    (\<forall>x. last_owner cl x \<noteq> None \<longrightarrow>
      (\<exists>!k. n \<le> k \<and> k < length (asinfo s) \<and> x \<in> as_range_of (asinfo s ! k)))"

lemma entries_partition:
  assumes e: "entries_for name ps n s" and ok: "pieces_ok ps"
    and own: "\<forall>x. owner_at ps x = last_owner cl x"
  shows "partitions cl name n s"
proof -
  have seg: "as_range_of (asinfo s ! (n + k)) = seg (ps ! k)" if "k < length ps" for k
    using e that by (simp add: entries_for_def as_range_of_def seg_def)
  have idx: "n \<le> k \<and> k < length (asinfo s) \<longleftrightarrow> (\<exists>m<length ps. k = n + m)" for k
    using e by (auto simp: entries_for_def) presburger
  have "entry_name s (n + m) = name \<and>
      (\<forall>x\<in>as_range_of (asinfo s ! (n + m)). as_owner (asinfo s ! (n + m)) = last_owner cl x)"
    if m: "m < length ps" for m
    using e m own piece_at [OF ok m] unfolding seg [OF m] by (auto simp: entries_for_def)
  moreover have "\<exists>!k. n \<le> k \<and> k < length (asinfo s) \<and> x \<in> as_range_of (asinfo s ! k)"
    if x: "last_owner cl x \<noteq> None" for x
  proof -
    obtain w where "owner_at ps x = Some w" using x own by auto
    then obtain m where m: "m < length ps" "x \<in> seg (ps ! m)"
      using owner_at_iff [OF ok] by (auto simp: in_set_conv_nth)
    show ?thesis
    proof (rule ex1I [of _ "n + m"])
      show "n \<le> n + m \<and> n + m < length (asinfo s) \<and> x \<in> as_range_of (asinfo s ! (n + m))"
        using m idx [of "n + m"] seg [OF m(1)] by auto
      fix k assume k: "n \<le> k \<and> k < length (asinfo s) \<and> x \<in> as_range_of (asinfo s ! k)"
      then obtain j where j: "j < length ps" "k = n + j" using idx [of k] by auto
      then show "k = n + m"
        using piece_index_unique [OF ok j(1) m(1) _ m(2)] k seg [OF j(1)] by simp
    qed
  qed
  ultimately show ?thesis
    unfolding partitions_def using idx by (auto simp del: add_less_cancel_left)
qed

lemma partitions_mono:
  assumes "partitions cl name n s" "extends s s'" "length (asinfo s') = length (asinfo s)"
  shows "partitions cl name n s'"
proof -
  have "as_range_of (asinfo s' ! k) = as_range_of (asinfo s ! k) \<and>
      as_owner (asinfo s' ! k) = as_owner (asinfo s ! k) \<and> entry_name s' k = entry_name s k"
    if "k < length (asinfo s)" for k
    using assms(2) that by (simp add: extends_def same_entry_def as_range_of_def)
  then show ?thesis
    using assms(1,3) unfolding partitions_def by (simp cong: conj_cong)
qed

lemma as_add_containing_ok:
  assumes inv: "as_inv s ns" and nm: "str_name_ok name" and io: "attr AND AS_OVERLAY_IO = 0"
    and abi: "AS_ATTR_CONTINUED abi AND AS_OVERLAY_IO = 0"
    and lam: "laminar (clips s start end container)"
    and run: "as_add_containing abi start end attr name container s = ok (r, s')"
  shows "\<exists>ns'. as_inv s' ns' \<and> extends s s' \<and> set ns \<subseteq> set ns'
    \<and> partitions (clips s start end container) name (length (asinfo s)) s'
    \<and> r = (if clips s start end container = [] then None else Some (length (asinfo s)))"
proof -
  define cl where "cl = clips s start end container"
  define at where "at = (attr AND NOT AS_OVERLAY_IO) OR AS_ATTR_CONTINUED abi"
  have col: "collect_pieces s None start end container [] = ok (put_pieces cl)"
    using collect_pieces_eq [of s None start "end" container "[]"] inv
    by (simp add: as_inv_def cl_def clips_def put_pieces_def next_index_def)
  note pp = put_pieces_spec [OF lam [folded cl_def]]
  obtain acc s1 where ap: "add_pieces abi at name (put_pieces cl) None s = ok (acc, s1)"
    and rest: "(case acc of None \<Rightarrow> ok (None, s1) | Some (start_off, off) \<Rightarrow>
      and_then (upd_as off (\<lambda>a. a\<lparr>as_attr := as_attr a AND NOT (AS_ATTR_CONTINUED abi)\<rparr>) s1)
        (\<lambda>s2. ok (Some start_off, s2))) = ok (r, s')"
    using run io unfolding as_add_containing_def col
    by (auto simp: at_def elim!: and_then_okE split: option.splits)
  have at: "at AND AS_OVERLAY_IO = 0"
    using abi by (simp add: at_def and.assoc bit.conj_disj_distrib2)
  have live: "\<forall>p\<in>set (put_pieces cl). ar_start p \<le> ar_end p \<and> ar_owner p < length (asinfo s)"
  proof
    fix p assume p: "p \<in> set (put_pieces cl)"
    then have "ar_owner p \<in> ar_owner ` set cl" by (rule put_pieces_owners)
    then show "ar_start p \<le> ar_end p \<and> ar_owner p < length (asinfo s)"
      using pp p clips_owner by (auto simp: pieces_ok_def cl_def clips_def)
  qed
  obtain ns' where n: "as_inv s1 ns'" "set ns \<subseteq> set ns'" "extends s s1"
    "entries_for name (put_pieces cl) (length (asinfo s)) s1"
    "acc = (if put_pieces cl = [] then None else Some (length (asinfo s), length (asinfo s1) - 1))"
    using add_pieces_ok [OF inv nm at live ap] by auto
  have part: "partitions cl name (length (asinfo s)) s1"
    using entries_partition [OF n(4)] pp by blast
  have ne: "put_pieces cl = [] \<longleftrightarrow> cl = []"
    by (cases cl rule: rev_cases) (auto simp: put_pieces_def put_piece_ne)
  show ?thesis
  proof (cases "cl = []")
    case True
    then show ?thesis using n rest part ne by (auto simp: cl_def)
  next
    case False
    then obtain s2 where u: "upd_as (length (asinfo s1) - 1)
        (\<lambda>a. a\<lparr>as_attr := as_attr a AND NOT (AS_ATTR_CONTINUED abi)\<rparr>) s1 = ok s'"
      and r: "r = Some (length (asinfo s))"
      using n(5) rest ne by (auto elim!: and_then_okE)
    note k = as_inv_update_attr [OF n(1) u]
    have ex: "\<exists>v. a\<lparr>as_attr := as_attr a AND NOT (AS_ATTR_CONTINUED abi)\<rparr> = a\<lparr>as_attr := v\<rparr>" for a
      by auto
    show ?thesis
      using k(1) [OF ex] extends_trans [OF n(3) k(2) [OF ex]] n(2) r False
        partitions_mono [OF part k(2) [OF ex] k(3) [OF ex]]
      unfolding cl_def by auto
  qed
qed

section \<open>Properties\<close>

text \<open>As\_find\_containing returns the first entry after the given one that overlaps the range
  and has the container's name or is owned, directly or not, by an entry of that name; it
  returns nothing exactly when there is none, and its walk along the owners ends.\<close>

lemma as_find_containing_first:
  assumes "owners_ok (asinfo s)"
  shows "\<exists>r. as_find_containing s off start end name = ok r \<and>
    (case r of
       None \<Rightarrow> \<forall>j\<ge>next_index off. j < length (asinfo s) \<longrightarrow>
         \<not> (in_container s j name \<and> range_hits start end (asinfo s ! j))
     | Some j \<Rightarrow> next_index off \<le> j \<and> j < length (asinfo s) \<and> in_container s j name
         \<and> range_hits start end (asinfo s ! j)
         \<and> (\<forall>k. next_index off \<le> k \<and> k < j \<longrightarrow>
              \<not> (in_container s k name \<and> range_hits start end (asinfo s ! k))))"
proof -
  obtain r where r: "as_find_containing s off start end name = ok r"
    "first_hit s start end name (next_index off) r"
    using find_containing_total [OF assms] unfolding as_find_containing_def by blast
  show ?thesis
  proof (cases r)
    case None
    with r show ?thesis by (auto simp: first_hit_def hits_def)
  next
    case (Some j)
    then show ?thesis
      using r by (auto simp: first_hit_def hits_def dest: less_trans)
  qed
qed

definition as_ex :: lsp where
  "as_ex = \<lparr>asinfo =
      [\<lparr>as_start = 0, as_end = 0xffff, as_owner = None, as_name = 0, as_attr = 0, as_priority = 100\<rparr>,
       \<lparr>as_start = 0x1000, as_end = 0x1fff, as_owner = Some 0, as_name = 7, as_attr = 0, as_priority = 100\<rparr>],
     strs = ''memory'' @ NUL # ''ram'' @ [NUL, NUL], sbud = \<lparr>bg_total = 200, bg_max = 4096\<rparr>\<rparr>"

lemma as_ex_owners: "owners_ok (asinfo as_ex)"
  by (simp add: owners_ok_def as_ex_def less_Suc_eq nth_Cons split: nat.splits)

lemma as_ex_container: "i < 2 \<Longrightarrow> in_container as_ex i ''memory''"
proof -
  have "match_name as_ex 0 ''memory'' = ok True" "match_name as_ex 1 ''memory'' = ok True"
    by code_simp+
  moreover have "length (asinfo as_ex) = 2" by (simp add: as_ex_def)
  ultimately show "i < 2 \<Longrightarrow> in_container as_ex i ''memory''"
    using match_name_total [OF as_ex_owners, of i "''memory''"]
    by (auto simp: numeral_2_eq_2 less_Suc_eq)
qed

lemma as_find_containing_first_witness:
  "as_find_containing as_ex None 0x1800 0x2800 ''ram'' = ok (Some 1) \<and> in_container as_ex 1 ''ram''"
proof -
  have "as_find_containing as_ex None 0x1800 0x2800 ''ram'' = ok (Some 1)" by code_simp
  then show ?thesis
    using as_find_containing_first [OF as_ex_owners, of None "0x1800" "0x2800" "''ram''"] by simp
qed

text \<open>C7: when the containers nest, as\_add\_containing cuts the new range into entries that do
  not overlap: every address of the range that lies in a container is in exactly one of them,
  and each entry is owned by the innermost container of its addresses. Old entries keep their
  range, owner and name.\<close>

theorem as_add_containing_partitions:
  assumes "as_inv s ns" "str_name_ok name" "attr AND AS_OVERLAY_IO = 0"
    and "AS_ATTR_CONTINUED abi AND AS_OVERLAY_IO = 0" "laminar (clips s start end container)"
    and "as_add_containing abi start end attr name container s = ok (r, s')"
  shows "(\<exists>ns'. as_inv s' ns') \<and> extends s s'
    \<and> partitions (clips s start end container) name (length (asinfo s)) s'
    \<and> r = (if clips s start end container = [] then None else Some (length (asinfo s)))"
  using as_add_containing_ok [OF assms] by blast

definition abi_ex :: as_abi where
  "abi_ex = \<lparr>AS_ATTR_CONTINUED = 0x200, AS_ATTR_KIDS = 0x400, AS_PRIORITY_DEFAULT = 100, sz_asinfo = 32\<rparr>"

lemma as_ex_clips:
  "clips as_ex 0x800 0x17ff ''memory'' =
    [\<lparr>ar_start = 0x800, ar_end = 0x17ff, ar_owner = 0\<rparr>, \<lparr>ar_start = 0x1000, ar_end = 0x17ff, ar_owner = 1\<rparr>]"
proof -
  have len: "length (asinfo as_ex) = 2" by (simp add: as_ex_def)
  have "range_hits 0x800 0x17ff (asinfo as_ex ! 0)" "range_hits 0x800 0x17ff (asinfo as_ex ! 1)"
    by code_simp+
  then have "hits_from as_ex 0x800 0x17ff ''memory'' 0 = [0, 1]"
    using as_ex_container by (simp add: hits_from_def hits_def len upt_rec)
  then show ?thesis
    by (simp add: clips_def clips_from_def as_ex_def piece_of_def)
qed

lemma as_ex_inv: "as_inv as_ex [''memory'', ''ram'']"
proof -
  have "str_inv (strs as_ex, sbud as_ex) [''memory'', ''ram'']"
    by (auto simp: str_inv_def holds_def cstr_def as_ex_def intro!: exI [of _ 1])
  then show ?thesis
    using as_ex_owners by (simp add: as_inv_def) (simp add: as_ex_def offset_of_def)
qed

lemma as_add_containing_partitions_witness:
  "\<exists>s'. as_add_containing abi_ex 0x800 0x17ff 0 ''dma'' ''memory'' as_ex = ok (Some 2, s')
    \<and> partitions (clips as_ex 0x800 0x17ff ''memory'') ''dma'' 2 s'"
proof -
  let ?run = "as_add_containing abi_ex 0x800 0x17ff 0 ''dma'' ''memory'' as_ex"
  have "case ?run of Inl _ \<Rightarrow> False | Inr x \<Rightarrow> fst x = Some 2" by code_simp
  then obtain s' where run: "?run = ok (Some 2, s')" by (cases ?run) auto
  have "laminar (clips as_ex 0x800 0x17ff ''memory'')"
    unfolding as_ex_clips by (simp add: laminar_def seg_def)
  moreover have "str_name_ok ''dma''" by (simp add: str_name_ok_def cstr_def)
  moreover have "AS_ATTR_CONTINUED abi_ex AND AS_OVERLAY_IO = 0" by code_simp
  moreover have "length (asinfo as_ex) = 2" by (simp add: as_ex_def)
  ultimately show ?thesis
    using as_add_containing_partitions [OF as_ex_inv _ _ _ _ run] run by simp
qed

end
