(* ===== verification/Ram.thy ===== *)
theory Ram
  imports Ramlist Asinfo
begin

text \<open>
  The memory manager of startup/lib/ram.c on its whole state: the table of free memory, the
  ranges to avoid, the early working storage, the watchers and the address-space entries.
  The watchers and init\_asinfo are code of the board; they are arguments, given by number.
\<close>

section \<open>State\<close>

record ram_state =
  rs_ram :: "ram_entry list"
  rs_avoid :: "avoid_entry list option"
  rs_ws_next :: paddr
  rs_sysram :: bool
  rs_temp :: paddr
  rs_watch :: "nat list"
  rs_zeroed :: "(paddr \<times> u64) list"
  rs_lsp :: lsp

text \<open>What the code reads but does not change: the image (full\_ram\_paddr and the startup
  header), the secure\_system flag, \_\_PAGESIZE and the constants of the system page.\<close>

record ram_env =
  full_ram_paddr :: paddr
  sh_ram_size :: paddr
  sh_startup_size :: paddr
  secure_system :: bool
  page_size :: u32
  env_abi :: as_abi
  env_mmfr0 :: u64

definition TEMP_SYSPAGE_SIZE :: u64 where
  "TEMP_SYSPAGE_SIZE = 48 * 1024"

definition ram_init :: "lsp \<Rightarrow> ram_state" where
  "ram_init s = \<lparr>rs_ram = [], rs_avoid = None, rs_ws_next = 0, rs_sysram = False,
     rs_temp = NULL_PADDR, rs_watch = [], rs_zeroed = [], rs_lsp = s\<rparr>"

section \<open>The ranges to avoid and the working storage\<close>

text \<open>avoid\_ram on an initialised list: a range that starts where the last one ends extends
  it, any other becomes a new entry.\<close>

definition avoid_add :: "paddr \<Rightarrow> u64 \<Rightarrow> avoid_entry list \<Rightarrow> avoid_entry list res" where
  "avoid_add start sz av =
    (let av' = (if av \<noteq> [] \<and> av_end (last av) = start
                then butlast av @ [(last av)\<lparr>av_end := av_end (last av) + sz\<rparr>]
                else av @ [\<lparr>av_start = start, av_end = start + sz\<rparr>])
     in if 16 * (length av' + 1) > MAX_AVOID_LIST_SIZE
        then crash ''Avoid RAM entry array overflow'' else ok av')"

definition avoid_list_of :: "ram_state \<Rightarrow> avoid_entry list" where
  "avoid_list_of st = (case rs_avoid st of None \<Rightarrow> [] | Some av \<Rightarrow> av)"

text \<open>ws\_init: the two lists are put behind the image; the first allocation of ws\_alloc
  (for ram\_list) takes the early path.\<close>

definition ws_init :: "ram_env \<Rightarrow> ram_state \<Rightarrow> ram_state res" where
  "ws_init env st =
    (let a0 = ROUND (full_ram_paddr env + sh_ram_size env) 8;
         a1 = a0 + ROUND (of_nat MAX_AVOID_LIST_SIZE) 8;
         rl = ROUND (of_nat MAX_RAM_LIST_SIZE) 8
     in and_then (avoid_add a1 rl [\<lparr>av_start = a0, av_end = a1\<rparr>]) (\<lambda>av.
        and_then (avoid_add (full_ram_paddr env) (sh_startup_size env) av) (\<lambda>av'.
          ok (st\<lparr>rs_avoid := Some av', rs_ws_next := a1 + rl, rs_ram := []\<rparr>))))"

definition ws_ready :: "ram_env \<Rightarrow> ram_state \<Rightarrow> ram_state res" where
  "ws_ready env st = (if rs_avoid st = None then ws_init env st else ok st)"

definition avoid_ram :: "ram_env \<Rightarrow> paddr \<Rightarrow> u64 \<Rightarrow> ram_state \<Rightarrow> ram_state res" where
  "avoid_ram env start sz st0 =
    and_then (ws_ready env st0) (\<lambda>st.
    and_then (avoid_add start sz (avoid_list_of st)) (\<lambda>av. ok (st\<lparr>rs_avoid := Some av\<rparr>)))"

text \<open>ws\_alloc: None is the NULL result.\<close>

definition ws_alloc :: "ram_env \<Rightarrow> u64 \<Rightarrow> ram_state \<Rightarrow> (paddr option \<times> ram_state) res" where
  "ws_alloc env sz0 st0 =
    and_then (ws_ready env st0) (\<lambda>st.
      let sz = ROUND sz0 8
      in if rs_ram st = [] then
           and_then (avoid_ram env (rs_ws_next st) sz (st\<lparr>rs_ws_next := rs_ws_next st + sz\<rparr>))
             (\<lambda>st'. ok (Some (rs_ws_next st), st'))
         else
           let p = find_ram (avoid_list_of st) (rs_ram st) sz 8 0 0
           in if p = NULL_PADDR then ok (None, st)
              else and_then (avoid_ram env p sz st) (\<lambda>st'. ok (Some p, st')))"

definition sz_watch_entry :: u64 where
  "sz_watch_entry = 16"

definition watch_add_ram :: "ram_env \<Rightarrow> nat \<Rightarrow> ram_state \<Rightarrow> ram_state res" where
  "watch_add_ram env func st =
    and_then (ws_alloc env sz_watch_entry st) (\<lambda>(p, st').
      if p = None then crash ''No memory for watcher''
      else ok (st'\<lparr>rs_watch := func # rs_watch st'\<rparr>))"

section \<open>Allocation\<close>

text \<open>The test of alloc\_ram whether the entry [s, e) meets or touches the range.\<close>

definition alloc_meets :: "paddr \<Rightarrow> paddr \<Rightarrow> paddr \<Rightarrow> paddr \<Rightarrow> bool" where
  "alloc_meets addr end s e \<longleftrightarrow>
    (addr \<le> s \<and> end > s) \<or> (addr \<ge> s \<and> addr < e) \<or> (end \<ge> s \<and> end < e)"

text \<open>The loop of alloc\_ram at entry i. Removing an entry leaves i where it is (--r and r++),
  splitting one inserts the rest through add\_mem. The fuel bounds the number of rounds.\<close>

primrec alloc_loop :: "nat \<Rightarrow> paddr \<Rightarrow> paddr \<Rightarrow> nat \<Rightarrow> ram_entry list \<Rightarrow> ram_entry list res" where
  "alloc_loop 0 addr end i l = stray"
| "alloc_loop (Suc n) addr end i l =
    (if i \<ge> length l \<or> re_size (l ! i) = 0 then ok l
     else let r = l ! i; s0 = re_addr r; e0 = re_end r
       in if alloc_meets addr end s0 e0 then
            let e = (if end > e0 then end else e0); s = (if addr < s0 then addr else s0)
            in if addr = s \<and> end = e then alloc_loop n addr end i (take i l @ drop (i + 1) l)
               else if addr = s then
                 alloc_loop n addr end (i + 1) (l[i := r\<lparr>re_size := e - end, re_addr := end\<rparr>])
               else
                 let l1 = l[i := r\<lparr>re_size := addr - s\<rparr>]
                 in if e \<noteq> end then
                      and_then (add_mem end (e - end) l1) (\<lambda>l2. alloc_loop n addr end (i + 1) l2)
                    else alloc_loop n addr end (i + 1) l1
          else alloc_loop n addr end (i + 1) l)"

text \<open>The second part of alloc\_ram: the sysram entries give up the range, whose end is now
  inclusive.\<close>

primrec sysram_loop :: "nat \<Rightarrow> as_abi \<Rightarrow> paddr \<Rightarrow> paddr \<Rightarrow> nat option \<Rightarrow> lsp \<Rightarrow> lsp res" where
  "sysram_loop 0 abi addr end off s = stray"
| "sysram_loop (Suc n) abi addr end off s =
    and_then (as_find_containing s off addr end ''sysram'') (\<lambda>r.
      case r of
        None \<Rightarrow> ok s
      | Some i \<Rightarrow>
          let a = asinfo s ! i; s0 = as_start a; e0 = as_end a;
              e = (if end > e0 then end else e0); st = (if addr < s0 then addr else s0)
          in if addr = st \<and> end = e then crash ''Can't remove whole sysram entry.''
             else if addr = st then
               and_then (upd_as i (\<lambda>a. a\<lparr>as_start := end + 1\<rparr>) s)
                 (\<lambda>s'. sysram_loop n abi addr end (Some i) s')
             else
               and_then (upd_as i (\<lambda>a. a\<lparr>as_end := addr - 1\<rparr>) s) (\<lambda>s'.
                 if e \<noteq> end then
                   and_then (as_add abi (end + 1) e AS_ATTR_RAM ''sysram'' (as_owner a) s')
                     (\<lambda>(_, s''). sysram_loop n abi addr end (Some i) s'')
                 else sysram_loop n abi addr end (Some i) s'))"

text \<open>alloc\_ram without the search: from the computation of end on.\<close>

definition take_ram :: "ram_env \<Rightarrow> paddr \<Rightarrow> paddr \<Rightarrow> ram_state \<Rightarrow> ram_state res" where
  "take_ram env addr sz st =
    (let end = addr + sz
     in and_then (alloc_loop (length (rs_ram st) + 3) addr end 0 (rs_ram st)) (\<lambda>l.
        let st1 = st\<lparr>rs_ram := l\<rparr>
        in if rs_sysram st1 then
             and_then (sysram_loop (length (asinfo (rs_lsp st1)) + 1) (env_abi env) addr (end - 1)
                 None (rs_lsp st1))
               (\<lambda>s. ok (st1\<lparr>rs_lsp := s\<rparr>))
           else ok st1))"

text \<open>On a secure system what was found is cleared; its address is cut to 32 bits.\<close>

definition zero_secure :: "ram_env \<Rightarrow> paddr \<Rightarrow> paddr \<Rightarrow> ram_state \<Rightarrow> ram_state" where
  "zero_secure env a sz st =
    (if secure_system env then st\<lparr>rs_zeroed := (a AND 0xffffffff, sz) # rs_zeroed st\<rparr> else st)"

definition alloc_ram ::
  "ram_env \<Rightarrow> paddr \<Rightarrow> paddr \<Rightarrow> u32 \<Rightarrow> ram_state \<Rightarrow> (paddr \<times> ram_state) res" where
  "alloc_ram env addr sz align st =
    (if addr = NULL_PADDR then
       let a = find_ram (avoid_list_of st) (rs_ram st) sz align 0 0
       in if a = NULL_PADDR then ok (NULL_PADDR, st)
          else and_then (take_ram env a sz (zero_secure env a sz st)) (\<lambda>st'. ok (a, st'))
     else and_then (take_ram env addr sz st) (\<lambda>st'. ok (addr, st')))"

definition calloc_ram ::
  "ram_env \<Rightarrow> u64 \<Rightarrow> u32 \<Rightarrow> ram_state \<Rightarrow> (paddr \<times> ram_state) res" where
  "calloc_ram env sz align st =
    and_then (alloc_ram env NULL_PADDR sz align st) (\<lambda>(a, st').
      if a \<noteq> NULL_PADDR \<and> \<not> secure_system env
      then ok (a, st'\<lparr>rs_zeroed := (a, sz) # rs_zeroed st'\<rparr>) else ok (a, st'))"

section \<open>Adding memory and the rest of the interface\<close>

fun run_watchers ::
  "(nat \<Rightarrow> paddr \<Rightarrow> paddr \<Rightarrow> ram_state \<Rightarrow> ram_state res) \<Rightarrow> paddr \<Rightarrow> paddr \<Rightarrow> nat list
    \<Rightarrow> ram_state \<Rightarrow> ram_state res" where
  "run_watchers call start sz [] st = ok st"
| "run_watchers call start sz (w # ws) st =
    and_then (call w start sz st) (run_watchers call start sz ws)"

text \<open>The first part of add\_ram: the default entries when the table is still empty.\<close>

definition asinfo_defaults ::
  "ram_env \<Rightarrow> (nat \<Rightarrow> lsp \<Rightarrow> lsp res) \<Rightarrow> lsp \<Rightarrow> lsp res" where
  "asinfo_defaults env init_asinfo s =
    (if asinfo s = [] then
       and_then (as_default (env_abi env) (env_mmfr0 env) s) (\<lambda>(mem, s1).
       and_then (as_add (env_abi env) 0 (GIG 4 - 1) 0 ''below4G'' (Some mem) s1) (\<lambda>(_, s2).
         init_asinfo mem s2))
     else ok s)"

definition find_temp_syspage :: "ram_env \<Rightarrow> ram_state \<Rightarrow> ram_state res" where
  "find_temp_syspage env st =
    (if rs_temp st = NULL_PADDR then
       let p = find_ram (avoid_list_of st) (rs_ram st) TEMP_SYSPAGE_SIZE (page_size env) 0 0
       in if p \<noteq> NULL_PADDR then
            and_then (avoid_ram env p TEMP_SYSPAGE_SIZE (st\<lparr>rs_temp := p\<rparr>)) (\<lambda>st1.
              ok (st1\<lparr>rs_lsp := (rs_lsp st1)\<lparr>sbud := (sbud (rs_lsp st1))
                \<lparr>bg_max := unat TEMP_SYSPAGE_SIZE\<rparr>\<rparr>\<rparr>))
          else ok (st\<lparr>rs_temp := p\<rparr>)
     else ok st)"

definition add_ram ::
  "ram_env \<Rightarrow> (nat \<Rightarrow> lsp \<Rightarrow> lsp res) \<Rightarrow> (nat \<Rightarrow> paddr \<Rightarrow> paddr \<Rightarrow> ram_state \<Rightarrow> ram_state res)
    \<Rightarrow> paddr \<Rightarrow> paddr \<Rightarrow> ram_state \<Rightarrow> ram_state res" where
  "add_ram env init_asinfo call start sz st =
    and_then (asinfo_defaults env init_asinfo (rs_lsp st)) (\<lambda>s1.
    and_then (as_add_containing (env_abi env) start (start + sz - 1) AS_ATTR_RAM ''ram'' ''memory'' s1)
      (\<lambda>(_, s2).
    and_then (add_mem start sz (rs_ram st)) (\<lambda>l.
    and_then (alloc_ram env (full_ram_paddr env + sh_startup_size env)
        (sh_ram_size env - sh_startup_size env) 1 (st\<lparr>rs_lsp := s2, rs_ram := l\<rparr>)) (\<lambda>(_, st1).
    and_then (find_temp_syspage env st1) (\<lambda>st2.
      run_watchers call start sz (rs_watch st2) st2)))))"

fun add_sysram_entries :: "as_abi \<Rightarrow> ram_entry list \<Rightarrow> lsp \<Rightarrow> lsp res" where
  "add_sysram_entries abi [] s = ok s"
| "add_sysram_entries abi (r # rs) s =
    (if re_size r = 0 then ok s
     else and_then (as_add_containing abi (re_addr r) (re_end r - 1) AS_ATTR_RAM ''sysram'' ''ram'' s)
       (\<lambda>(_, s'). add_sysram_entries abi rs s'))"

definition add_sysram ::
  "ram_env \<Rightarrow> (nat \<Rightarrow> paddr \<Rightarrow> paddr \<Rightarrow> ram_state \<Rightarrow> ram_state res) \<Rightarrow> ram_state \<Rightarrow> ram_state res" where
  "add_sysram env call st =
    and_then (run_watchers call 0 0 (rs_watch st) st) (\<lambda>st1.
    and_then (add_sysram_entries (env_abi env) (rs_ram st1) (rs_lsp st1)) (\<lambda>s.
      ok (st1\<lparr>rs_lsp := s, rs_sysram := True\<rparr>)))"

definition reserve_ram ::
  "ram_env \<Rightarrow> u32 \<Rightarrow> u32 \<Rightarrow> string option \<Rightarrow> u32 \<Rightarrow> bool \<Rightarrow> ram_state \<Rightarrow> ram_state res" where
  "reserve_ram env sz align name pagesize low_region st =
    (if sz = 0 then ok st
     else
       let al = (if align \<noteq> 0 then align else pagesize);
           res0 = (if low_region then NULL_PADDR
                   else find_top_ram_aligned (avoid_list_of st) (rs_ram st) (ucast sz) al pagesize);
           nm = (case name of None \<Rightarrow> ''reserved'' | Some n \<Rightarrow> if n = [] then ''reserved'' else n)
       in if \<not> low_region \<and> res0 = NULL_PADDR then crash ''Could not reserve bytes from top of memory''
          else and_then (alloc_ram env res0 (ucast sz) al st) (\<lambda>(p, st1).
            if p = NULL_PADDR then crash ''Could not reserve bytes of memory''
            else and_then (as_add_containing (env_abi env) p (p + ucast sz - 1) AS_ATTR_RAM nm ''ram''
                (rs_lsp st1)) (\<lambda>(_, s). ok (st1\<lparr>rs_lsp := s\<rparr>))))"

section \<open>The allocation loop removes exactly its range\<close>

lemma coalesce_id: "ram_ok (p # rs) \<Longrightarrow> coalesce p rs = p # rs"
  by (induction rs arbitrary: p) (auto simp: ent_ok_size)

lemma ins_mem_between:
  assumes "\<forall>r\<in>set xs. re_size r \<noteq> 0 \<and> re_addr r \<le> a" "\<forall>r\<in>set ys. a < re_addr r"
  shows "ins_mem a s (xs @ ys) = xs @ mk_ram a s # ys"
  using assms(1)
proof (induction xs)
  case Nil
  then show ?case using assms(2) by (cases ys) auto
qed auto

lemma add_mem_between:
  assumes ok: "ram_ok (xs @ mk_ram a s # ys)" and run: "add_mem a s (xs @ ys) = ok l"
  shows "l = xs @ mk_ram a s # ys"
proof -
  have "s \<noteq> 0" using ok ent_ok_size [of "mk_ram a s"] by simp
  have xs: "\<forall>r\<in>set xs. re_size r \<noteq> 0 \<and> re_addr r \<le> a"
  proof
    fix r assume r: "r \<in> set xs"
    then have e: "ent_ok r" using ram_ok_ent [OF ok] by simp
    have "re_end r < a" using ok r by simp
    with ent_okD [OF e] show "re_size r \<noteq> 0 \<and> re_addr r \<le> a" by (simp add: ent_ok_size [OF e])
  qed
  have ys: "\<forall>r\<in>set ys. a < re_addr r"
  proof
    fix r assume r: "r \<in> set ys"
    then have "a + s < re_addr r" "a < a + s" using ok by (auto dest!: ent_okD)
    then show "a < re_addr r" by simp
  qed
  have "l = coalesce_all (xs @ mk_ram a s # ys)"
    using run \<open>s \<noteq> 0\<close> ins_mem_between [OF xs ys] by (auto simp: add_mem_def word_gt_0 split: if_splits)
  also have "\<dots> = xs @ mk_ram a s # ys"
    using ok by (cases "xs @ mk_ram a s # ys") (auto simp: coalesce_id simp del: ram_ok_simps)
  finally show ?thesis .
qed

text \<open>Entries at or above the end of the range are left alone, also one that starts there.\<close>

lemma alloc_loop_past:
  assumes "ram_ok (xs @ ys)" "\<forall>r\<in>set ys. end \<le> re_addr r" "addr < end" "length ys < n"
  shows "alloc_loop n addr end (length xs) (xs @ ys) = ok (xs @ ys)"
  using assms
proof (induction ys arbitrary: xs n)
  case Nil
  then show ?case by (cases n) auto
next
  case (Cons r ys)
  obtain m where m: "n = Suc m" "length ys < m" using Cons.prems(4) by (cases n) auto
  have r: "re_size r \<noteq> 0" "re_addr r < re_end r" "end \<le> re_addr r"
    using Cons.prems by (auto simp: ent_ok_size dest: ent_okD)
  have IH: "alloc_loop m addr end (length (xs @ [r])) ((xs @ [r]) @ ys) = ok ((xs @ [r]) @ ys)"
    using Cons.prems m by (intro Cons.IH) auto
  show ?case
  proof (cases "re_addr r = end")
    case True
    then have "r\<lparr>re_size := re_end r - end, re_addr := end\<rparr> = r" by (simp add: re_end_def)
    then show ?thesis
      using IH r True Cons.prems(3)
      by (auto simp: m nth_append alloc_meets_def Let_def not_less)
  next
    case False
    then have "\<not> alloc_meets addr end (re_addr r) (re_end r)"
      using r Cons.prems(3) by (auto simp: alloc_meets_def)
    then show ?thesis using IH r by (simp add: m nth_append Let_def)
  qed
qed

lemma ram_ok_replace:
  assumes "ram_ok (xs @ r # ys)" "re_addr r \<le> re_addr q" "re_end q \<le> re_end r" "ent_ok q"
  shows "ram_ok (xs @ q # ys)"
  using assms by fastforce

lemma ram_ok_split:
  assumes "ram_ok (xs @ r # ys)" "ent_ok p" "ent_ok q" "re_addr r \<le> re_addr p" "re_end p < re_addr q"
    and "re_end q \<le> re_end r"
  shows "ram_ok (xs @ p # q # ys)"
  using assms by (auto dest!: ent_okD)

lemma add_mem_fails:
  assumes "add_mem a s l = Inl e"
  shows "e = Crash ''RAM entry array overflow'' \<and> 191 \<le> length l"
  using assms by (auto simp: add_mem_def ram_list_size_def MAX_RAM_LIST_SIZE_def split: if_splits)

definition alloc_result :: "paddr set \<Rightarrow> ram_entry list \<Rightarrow> ram_entry list res \<Rightarrow> bool" where
  "alloc_result A l x \<longleftrightarrow> (case x of
     Inl e \<Rightarrow> e = Crash ''RAM entry array overflow'' \<and> 191 \<le> length l
   | Inr l' \<Rightarrow> ram_ok l' \<and> covered l' = covered l - A)"

lemma alloc_result_trans:
  "alloc_result A l' x \<Longrightarrow> covered l' - A = covered l - A \<Longrightarrow> length l' \<le> length l \<Longrightarrow> alloc_result A l x"
  by (auto simp: alloc_result_def split: sum.splits)

text \<open>One round, by the position of the range relative to the entry.\<close>

lemma alloc_step:
  assumes r: "ent_ok r" and ae: "addr < end"
  shows "\<not> alloc_meets addr end (re_addr r) (re_end r) \<Longrightarrow>
      alloc_loop (Suc m) addr end (length xs) (xs @ r # ys) =
      alloc_loop m addr end (length (xs @ [r])) ((xs @ [r]) @ ys)"
    and "addr \<le> re_addr r \<Longrightarrow> re_end r \<le> end \<Longrightarrow>
      alloc_loop (Suc m) addr end (length xs) (xs @ r # ys) =
      alloc_loop m addr end (length xs) (xs @ ys)"
    and "addr \<le> re_addr r \<Longrightarrow> end < re_end r \<Longrightarrow> re_addr r \<le> end \<Longrightarrow>
      alloc_loop (Suc m) addr end (length xs) (xs @ r # ys) =
      (let q = r\<lparr>re_size := re_end r - end, re_addr := end\<rparr>
       in alloc_loop m addr end (length (xs @ [q])) ((xs @ [q]) @ ys))"
    and "re_addr r < addr \<Longrightarrow> addr < re_end r \<Longrightarrow> re_end r \<le> end \<Longrightarrow>
      alloc_loop (Suc m) addr end (length xs) (xs @ r # ys) =
      (let q = r\<lparr>re_size := addr - re_addr r\<rparr>
       in alloc_loop m addr end (length (xs @ [q])) ((xs @ [q]) @ ys))"
    and "re_addr r < addr \<Longrightarrow> end < re_end r \<Longrightarrow>
      alloc_loop (Suc m) addr end (length xs) (xs @ r # ys) =
      (let q = r\<lparr>re_size := addr - re_addr r\<rparr>
       in and_then (add_mem end (re_end r - end) ((xs @ [q]) @ ys))
            (alloc_loop m addr end (length (xs @ [q]))))"
  using ent_ok_size [OF r] ent_okD [OF r] ae
  by (auto simp: nth_append alloc_meets_def Let_def not_less not_le list_update_append)

lemma trim_front:
  assumes "addr \<le> re_addr r" "re_addr r \<le> end" "end < re_end r"
  defines "q \<equiv> r\<lparr>re_size := re_end r - end, re_addr := end\<rparr>"
  shows "re_addr q = end" "re_end q = re_end r" "ent_ok q" "ent q = ent r - {addr ..< end}"
  using assms by (auto simp: re_end_def ent_ok_def ent_def)

lemma trim_back:
  assumes "re_addr r < addr" "addr \<le> re_end r" "re_end r \<le> end"
  defines "q \<equiv> r\<lparr>re_size := addr - re_addr r\<rparr>"
  shows "re_addr q = re_addr r" "re_end q = addr" "ent_ok q" "ent q = ent r - {addr ..< end}"
  using assms by (auto simp: ent_ok_def ent_def re_end_def)

lemma cut_middle:
  assumes "re_addr r < addr" "addr < end" "end < re_end r"
  defines "q \<equiv> r\<lparr>re_size := addr - re_addr r\<rparr>" and "p \<equiv> mk_ram end (re_end r - end)"
  shows "re_addr q = re_addr r" "re_end q = addr" "ent_ok q" "re_addr p = end" "re_end p = re_end r"
    "ent_ok p" "ent q \<union> ent p = ent r - {addr ..< end}"
  using assms by (auto simp: ent_ok_def ent_def re_end_def mk_ram_def)

lemma no_meet: "\<not> alloc_meets addr end (re_addr r) (re_end r) \<Longrightarrow> ent r \<inter> {addr ..< end} = {}"
  by (auto simp: alloc_meets_def ent_def not_le not_less)

lemma alloc_position:
  assumes "s < e" "addr < end"
  shows "\<not> alloc_meets addr end s e \<or> addr \<le> s \<and> e \<le> end \<or> addr \<le> s \<and> s \<le> end \<and> end < e
    \<or> s < addr \<and> addr < e \<and> e \<le> end \<or> s < addr \<and> end < e"
proof (cases "addr \<le> s")
  case True
  with assms have "s \<le> end \<or> \<not> alloc_meets addr end s e"
    by (auto simp: alloc_meets_def)
  with True show ?thesis by (meson not_le)
next
  case False
  then have "addr < e \<or> end < e \<or> \<not> alloc_meets addr end s e"
    by (auto simp: alloc_meets_def)
  with False show ?thesis by (meson not_le)
qed

lemma alloc_loop_spec:
  assumes "ram_ok (xs @ ys)" "covered xs \<inter> {addr ..< end} = {}" "addr < end" "length ys + 1 < n"
  shows "alloc_result {addr ..< end} (xs @ ys) (alloc_loop n addr end (length xs) (xs @ ys))"
  using assms
proof (induction ys arbitrary: xs n)
  case Nil
  then show ?case by (cases n) (auto simp: alloc_result_def)
next
  case (Cons r ys)
  let ?A = "{addr ..< end}"
  obtain m where n: "n = Suc m" "length ys + 1 < m" using Cons.prems(4) by (cases n) auto
  have r: "ent_ok r" and ok: "ram_ok (xs @ r # ys)" and dis: "covered xs \<inter> ?A = {}"
    using Cons.prems by auto
  note step = alloc_step [OF r Cons.prems(3)]
  have keep: "alloc_result ?A (xs @ r # ys) (alloc_loop m addr end (length (xs @ [q])) ((xs @ [q]) @ ys))"
    if q: "ram_ok (xs @ q # ys)" "ent q = ent r - ?A" for q
  proof (rule alloc_result_trans)
    show "alloc_result ?A ((xs @ [q]) @ ys) (alloc_loop m addr end (length (xs @ [q])) ((xs @ [q]) @ ys))"
      using q dis Cons.prems(3) n by (intro Cons.IH) auto
  qed (use q(2) in auto)
  consider "\<not> alloc_meets addr end (re_addr r) (re_end r)" | "addr \<le> re_addr r" "re_end r \<le> end"
    | "addr \<le> re_addr r" "re_addr r \<le> end" "end < re_end r"
    | "re_addr r < addr" "addr < re_end r" "re_end r \<le> end" | "re_addr r < addr" "end < re_end r"
    using alloc_position [OF ent_okD [OF r] Cons.prems(3)] by blast
  then show ?case
  proof cases
    case 1
    then show ?thesis
      using keep [of r] ok no_meet [OF 1] unfolding n step(1) [OF 1] by (simp add: Diff_triv)
  next
    case 2
    have "alloc_result ?A (xs @ ys) (alloc_loop m addr end (length xs) (xs @ ys))"
      using Cons.IH [OF _ dis Cons.prems(3)] n ok by simp
    moreover have "ent r \<subseteq> ?A" using 2 by (auto simp: ent_def)
    ultimately show ?thesis
      unfolding n step(2) [OF 2] by - (erule alloc_result_trans, auto)
  next
    case 3
    note t = trim_front [OF 3]
    show ?thesis
      unfolding n step(3) [OF 3(1,3,2)] Let_def
      using 3 by (intro keep ram_ok_replace [OF ok] t) (simp_all add: t)
  next
    case 4
    note t = trim_back [OF 4(1) less_imp_le [OF 4(2)] 4(3)]
    show ?thesis
      unfolding n step(4) [OF 4] Let_def
      using 4 by (intro keep ram_ok_replace [OF ok] t) (simp_all add: t)
  next
    case 5
    note t = cut_middle [OF 5(1) Cons.prems(3) 5(2)]
    let ?q = "r\<lparr>re_size := addr - re_addr r\<rparr>" and ?p = "mk_ram end (re_end r - end)"
    have ok2: "ram_ok ((xs @ [?q]) @ ?p # ys)"
      using ram_ok_split [OF ok t(3,6)] t Cons.prems(3) by simp
    have past: "alloc_loop m addr end (length (xs @ [?q])) ((xs @ [?q]) @ ?p # ys) = ok ((xs @ [?q]) @ ?p # ys)"
      using ok ok2 5 n Cons.prems(3) by (intro alloc_loop_past) (auto dest: less_trans less_imp_le)
    have "\<forall>y\<in>set ys. end < re_addr y"
      using ok 5(2) by (auto intro: less_trans)
    then have later: "covered ys \<inter> ?A = {}"
      unfolding covered_def ent_def by (fastforce dest: order.trans)
    show ?thesis
    proof (cases "add_mem end (re_end r - end) ((xs @ [?q]) @ ys)")
      case (Inl e)
      then show ?thesis
        unfolding n step(5) [OF 5] Let_def using add_mem_fails [OF Inl] by (simp add: alloc_result_def)
    next
      case (Inr l)
      have "l = (xs @ [?q]) @ ?p # ys" by (rule add_mem_between [OF ok2 Inr])
      then show ?thesis
        unfolding n step(5) [OF 5] Let_def using Inr past ok2 t(7) dis later
        by (auto simp: alloc_result_def)
    qed
  qed
qed

section \<open>The contract of an allocator\<close>

text \<open>What the users of alloc\_ram and calloc\_ram rely on: a range that is returned was
  free, and is not free afterwards.\<close>

locale allocator =
  fixes free :: "'s \<Rightarrow> paddr set"
    and inv :: "'s \<Rightarrow> bool"
    and alloc :: "paddr \<Rightarrow> u32 \<Rightarrow> 's \<Rightarrow> (paddr \<times> 's) res"
    and request_ok :: "paddr \<Rightarrow> u32 \<Rightarrow> bool"
  assumes alloc_takes: "inv st \<Longrightarrow> request_ok sz al \<Longrightarrow> alloc sz al st = ok (a, st') \<Longrightarrow> a \<noteq> NULL_PADDR \<Longrightarrow>
      {a ..< a + sz} \<subseteq> free st \<and> free st' = free st - {a ..< a + sz} \<and> a \<le> a + sz \<and> inv st'"
    and alloc_fails: "alloc sz al st = ok (NULL_PADDR, st') \<Longrightarrow> st' = st"
begin

primrec alloc_all :: "(paddr \<times> u32) list \<Rightarrow> 's \<Rightarrow> ((paddr \<times> paddr) list \<times> 's) res" where
  "alloc_all [] st = ok ([], st)"
| "alloc_all (q # qs) st =
    and_then (alloc (fst q) (snd q) st) (\<lambda>(a, st1).
    and_then (alloc_all qs st1) (\<lambda>(rs, st2).
      ok (if a = NULL_PADDR then (rs, st2) else ((a, fst q) # rs, st2))))"

definition region :: "paddr \<times> paddr \<Rightarrow> paddr set" where
  "region p = {fst p ..< fst p + snd p}"

lemma alloc_all_regions:
  assumes "inv st" "\<forall>q\<in>set qs. request_ok (fst q) (snd q)" "alloc_all qs st = ok (rs, st')"
  shows "inv st' \<and> (\<forall>r\<in>set rs. region r \<subseteq> free st) \<and> free st' = free st - (\<Union>r\<in>set rs. region r)
    \<and> sorted_wrt (\<lambda>p q. region p \<inter> region q = {}) rs"
  using assms
proof (induction qs arbitrary: st rs)
  case (Cons q qs)
  obtain a st1 rs1 where a: "alloc (fst q) (snd q) st = ok (a, st1)"
    and r: "alloc_all qs st1 = ok (rs1, st')" "rs = (if a = NULL_PADDR then rs1 else (a, fst q) # rs1)"
    using Cons.prems(3) by (auto elim!: and_then_okE split: if_splits)
  show ?case
  proof (cases "a = NULL_PADDR")
    case True
    then have "st1 = st" using alloc_fails a by simp
    then show ?thesis using Cons.IH [OF _ _ r(1)] Cons.prems r(2) True by simp
  next
    case False
    then have t: "region (a, fst q) \<subseteq> free st" "free st1 = free st - region (a, fst q)" "inv st1"
      using alloc_takes [OF Cons.prems(1) _ a] Cons.prems(2) by (auto simp: region_def)
    have "inv st' \<and> (\<forall>r\<in>set rs1. region r \<subseteq> free st1) \<and> free st' = free st1 - (\<Union>r\<in>set rs1. region r)
        \<and> sorted_wrt (\<lambda>p q. region p \<inter> region q = {}) rs1"
      using Cons.IH [OF t(3) _ r(1)] Cons.prems(2) by simp
    then show ?thesis
      using t r(2) False by auto
  qed
qed simp

end

section \<open>alloc\_ram meets the contract\<close>

text \<open>Rounding a start address up to a 32-bit alignment must not wrap around: memory ends
  4 GB below the top of the address space.\<close>

definition RAM_TOP :: paddr where
  "RAM_TOP = - (2 ^ 32)"

definition ram_inv :: "ram_state \<Rightarrow> bool" where
  "ram_inv st \<longleftrightarrow> ram_ok (rs_ram st) \<and> covered (rs_ram st) \<subseteq> {..< RAM_TOP}"

definition ram_free :: "ram_state \<Rightarrow> paddr set" where
  "ram_free st = covered (rs_ram st) - avoided (avoid_list_of st)"

definition align_ok :: "paddr \<Rightarrow> u32 \<Rightarrow> bool" where
  "align_ok sz al \<longleftrightarrow> 0 < sz \<and> (\<exists>k<32. al = 2 ^ k)"

lemma ucast_pow2: "k < 32 \<Longrightarrow> (ucast ((2 :: u32) ^ k) :: u64) = 2 ^ k"
proof -
  assume k: "k < 32"
  have "(2 :: nat) ^ k < 2 ^ 64" using k by (intro power_strict_increasing) auto
  then have "unat (ucast ((2 :: u32) ^ k) :: u64) = unat ((2 :: u64) ^ k)"
    using k by (simp add: unsigned_ucast_eq unat_pow2 take_bit_nat_eq_self)
  then show ?thesis by (simp add: word_unat_eq_iff)
qed

lemma ROUND_below_top:
  assumes "s < RAM_TOP" "k < 32"
  shows "s \<le> ROUND s (2 ^ k)"
proof (rule ROUND_ge)
  have "unat s < 2 ^ 64 - 2 ^ 32"
    using assms(1) by (simp add: RAM_TOP_def word_less_nat_alt)
  moreover have "(2 :: nat) ^ k \<le> 2 ^ 32" by (rule power_increasing) (use assms(2) in auto)
  ultimately show "unat s + 2 ^ k \<le> 2 ^ 64" by linarith
qed (use assms in simp)

lemma colour_none [simp]: "colour_adjust a 0 0 = a"
  by (simp add: colour_adjust_def)

lemma find_ram_sound:
  assumes "ram_ok l" "covered l \<subseteq> {..< RAM_TOP}" "k < 32"
    and "find_ram av l sz (2 ^ k) 0 0 = a" "a \<noteq> NULL_PADDR"
  shows "{a ..< a + sz} \<subseteq> covered l - avoided av" "a \<le> a + sz"
proof -
  have s: "s \<le> colour_adjust (ROUND s (ucast ((2 :: u32) ^ k))) 0 0"
    if "r \<in> set l" "re_addr r \<le> s" "s < re_end r" for r s
  proof -
    have "s \<in> covered l" using that by (auto simp: covered_def ent_def)
    then have "s < RAM_TOP" using assms(2) by auto
    then show ?thesis using ROUND_below_top assms(3) by (simp add: ucast_pow2)
  qed
  have "\<exists>r\<in>set l. \<exists>s e. {a ..< a + sz} \<subseteq> {s ..< e} \<and> {s ..< e} \<subseteq> ent r - avoided av
     \<and> fit_candidate 0 (NOT 0) sz (2 ^ k) 0 0 s e = Some a
     \<and> s \<le> colour_adjust (ROUND s (ucast ((2 :: u32) ^ k))) 0 0"
    by (rule find_ram_in_range_region [OF assms(4) [unfolded find_ram_def] assms(5) _ assms(1)]) (rule s)
  then obtain r s e where f: "r \<in> set l" "{a ..< a + sz} \<subseteq> {s ..< e}" "{s ..< e} \<subseteq> ent r - avoided av"
      "fit_candidate 0 (NOT 0) sz (2 ^ k) 0 0 s e = Some a"
      "s \<le> colour_adjust (ROUND s (ucast ((2 :: u32) ^ k))) 0 0"
    by blast
  show "{a ..< a + sz} \<subseteq> covered l - avoided av"
    using order.trans [OF f(2,3)] f(1) unfolding covered_def by blast
  show "a \<le> a + sz" by (rule fit_candidate_spec(3) [OF f(4,5)])
qed

lemma take_ram_spec:
  assumes "ram_ok (rs_ram st)" "addr < addr + sz" "take_ram env addr sz st = ok st'"
  shows "ram_ok (rs_ram st')" "covered (rs_ram st') = covered (rs_ram st) - {addr ..< addr + sz}"
    "rs_avoid st' = rs_avoid st"
proof -
  obtain l where l: "alloc_loop (length (rs_ram st) + 3) addr (addr + sz) 0 (rs_ram st) = ok l"
    and st': "rs_ram st' = l" "rs_avoid st' = rs_avoid st"
    using assms(3) by (auto simp: take_ram_def Let_def elim!: and_then_okE split: if_splits)
  have "alloc_result {addr ..< addr + sz} (rs_ram st) (ok l)"
    using alloc_loop_spec [of "[]" "rs_ram st" addr "addr + sz" "length (rs_ram st) + 3"] assms l by simp
  then show "ram_ok (rs_ram st')" "covered (rs_ram st') = covered (rs_ram st) - {addr ..< addr + sz}"
    "rs_avoid st' = rs_avoid st"
    using st' by (auto simp: alloc_result_def)
qed

lemma avoid_list_same: "rs_avoid st' = rs_avoid st \<Longrightarrow> avoid_list_of st' = avoid_list_of st"
  by (simp add: avoid_list_of_def)

lemma le_add_pos:
  fixes a :: paddr
  shows "a \<le> a + sz \<Longrightarrow> 0 < sz \<Longrightarrow> a < a + sz"
  by (metis add_cancel_left_right less_le word_gt_0)

lemma alloc_any_spec:
  assumes inv: "ram_inv st" and req: "align_ok sz al"
    and run: "alloc_ram env NULL_PADDR sz al st = ok (a, st')" and a: "a \<noteq> NULL_PADDR"
  shows "{a ..< a + sz} \<subseteq> ram_free st" "ram_free st' = ram_free st - {a ..< a + sz}"
    "a \<le> a + sz" "ram_inv st'"
proof -
  obtain k where k: "k < 32" "al = 2 ^ k" and sz: "0 < sz" using req by (auto simp: align_ok_def)
  have f: "find_ram (avoid_list_of st) (rs_ram st) sz (2 ^ k) 0 0 = a"
    and t: "take_ram env a sz (zero_secure env a sz st) = ok st'"
    using run a k(2) by (auto simp: alloc_ram_def Let_def elim!: and_then_okE split: if_splits)
  have z: "rs_ram (zero_secure env a sz st) = rs_ram st" "rs_avoid (zero_secure env a sz st) = rs_avoid st"
    by (simp_all add: zero_secure_def)
  have inv': "ram_ok (rs_ram st)" "covered (rs_ram st) \<subseteq> {..< RAM_TOP}"
    using inv by (auto simp: ram_inv_def)
  note s = find_ram_sound [OF inv' k(1) f a]
  note w = take_ram_spec [OF _ le_add_pos [OF s(2) sz] t, unfolded z, OF inv'(1)]
  show "{a ..< a + sz} \<subseteq> ram_free st" "a \<le> a + sz"
    using s by (simp_all add: ram_free_def)
  show "ram_free st' = ram_free st - {a ..< a + sz}"
    using w avoid_list_same [OF w(3)] by (auto simp: ram_free_def)
  show "ram_inv st'" using w inv' by (auto simp: ram_inv_def)
qed

lemma alloc_none: "alloc_ram env NULL_PADDR sz al st = ok (NULL_PADDR, st') \<Longrightarrow> st' = st"
  by (auto simp: alloc_ram_def Let_def elim!: and_then_okE split: if_splits)

interpretation ram: allocator ram_free ram_inv "\<lambda>sz al. alloc_ram env NULL_PADDR sz al" align_ok
  for env :: ram_env
proof
  fix st sz al a and st' :: ram_state
  assume "ram_inv st" "align_ok sz al" "alloc_ram env NULL_PADDR sz al st = ok (a, st')" "a \<noteq> NULL_PADDR"
  then show "{a ..< a + sz} \<subseteq> ram_free st \<and> ram_free st' = ram_free st - {a ..< a + sz}
      \<and> a \<le> a + sz \<and> ram_inv st'"
    by (intro conjI) (rule alloc_any_spec; assumption)+
qed (rule alloc_none)

section \<open>Properties\<close>

text \<open>C8: alloc\_ram of a given range takes exactly that range out of the free memory, keeps the
  table sorted, disjoint and coalesced, and fails only when a split finds the table full.\<close>

theorem alloc_loop_removes:
  assumes "ram_ok l" "addr < addr + sz"
  shows "case alloc_loop (length l + 3) addr (addr + sz) 0 l of
      Inl e \<Rightarrow> e = Crash ''RAM entry array overflow'' \<and> 191 \<le> length l
    | Inr l' \<Rightarrow> ram_ok l' \<and> covered l' = covered l - {addr ..< addr + sz}"
  using alloc_loop_spec [where xs = "[]" and ys = l and n = "length l + 3"] assms
  by (simp add: alloc_result_def)

lemma alloc_loop_removes_witness:
  "case alloc_loop 4 0x1800 (0x1800 + 0x400) 0 [mk_ram 0x1000 0x1000] of
      Inl e \<Rightarrow> e = Crash ''RAM entry array overflow'' \<and> 191 \<le> length [mk_ram 0x1000 0x1000]
    | Inr l' \<Rightarrow> ram_ok l' \<and> covered l' = covered [mk_ram 0x1000 0x1000] - {0x1800 ..< 0x1800 + 0x400}"
  using alloc_loop_removes [where l = "[mk_ram 0x1000 0x1000]" and addr = "0x1800" and sz = "0x400"] by (simp add: ent_ok_def)

text \<open>A sequence of allocations, each of any range of the given size and alignment; the
  requests that fail are left out of the result.\<close>

primrec alloc_many ::
  "ram_env \<Rightarrow> (paddr \<times> u32) list \<Rightarrow> ram_state \<Rightarrow> ((paddr \<times> paddr) list \<times> ram_state) res" where
  "alloc_many env [] st = ok ([], st)"
| "alloc_many env (q # qs) st =
    and_then (alloc_ram env NULL_PADDR (fst q) (snd q) st) (\<lambda>(a, st1).
    and_then (alloc_many env qs st1) (\<lambda>(rs, st2).
      ok (if a = NULL_PADDR then (rs, st2) else ((a, fst q) # rs, st2))))"

lemma alloc_many_eq: "alloc_many env qs st = ram.alloc_all env qs st"
  by (induction qs arbitrary: st) (simp_all cong: prod.case_cong)

text \<open>C1: ranges that alloc\_ram finds one after the other lie in free memory outside every
  avoided range, do not overlap each other, and are no longer free afterwards.\<close>

theorem alloc_ram_disjoint:
  assumes "ram_inv st" "\<forall>q\<in>set qs. align_ok (fst q) (snd q)"
    and "alloc_many env qs st = ok (rs, st')"
  shows "(\<forall>r\<in>set rs. {fst r ..< fst r + snd r} \<subseteq> covered (rs_ram st) - avoided (avoid_list_of st))
    \<and> sorted_wrt (\<lambda>p q. {fst p ..< fst p + snd p} \<inter> {fst q ..< fst q + snd q} = {}) rs
    \<and> ram_free st' = ram_free st - (\<Union>r\<in>set rs. {fst r ..< fst r + snd r})"
  using ram.alloc_all_regions [OF assms(1,2)] assms(3)
  unfolding alloc_many_eq ram.region_def ram_free_def by blast

definition env_ex :: ram_env where
  "env_ex = \<lparr>full_ram_paddr = 0, sh_ram_size = 0, sh_startup_size = 0, secure_system = False,
     page_size = 4096,
     env_abi = \<lparr>AS_ATTR_CONTINUED = 0x200, AS_ATTR_KIDS = 0x400, AS_PRIORITY_DEFAULT = 100, sz_asinfo = 32\<rparr>,
     env_mmfr0 = 0\<rparr>"

definition ram_ex :: ram_state where
  "ram_ex = (ram_init \<lparr>asinfo = [], strs = [NUL], sbud = \<lparr>bg_total = 0, bg_max = 4096\<rparr>\<rparr>)
     \<lparr>rs_ram := [mk_ram 0x1000 0x4000], rs_avoid := Some [\<lparr>av_start = 0x1000, av_end = 0x1800\<rparr>]\<rparr>"

lemma ram_ex_inv: "ram_inv ram_ex"
proof -
  have "(0x5000 :: paddr) < RAM_TOP" by (simp add: RAM_TOP_def)
  then show ?thesis
    by (auto simp: ram_inv_def ram_ex_def ent_ok_def ent_def intro: less_trans)
qed

lemmas alloc_loop_numeral = alloc_loop.simps(2) [where n = "pred_numeral k" for k, folded numeral_eq_Suc]

lemmas find_eval = find_ram_def fix_size.simps fit_candidate_def ROUND_def TRUNC_def Let_def

lemmas alloc_eval = alloc_loop_numeral alloc_meets_def Let_def mk_ram_def re_end_def add_mem_def
  word_gt_0 ram_list_size_def MAX_RAM_LIST_SIZE_def

lemmas ram_ex_eval = alloc_ram_def take_ram_def zero_secure_def env_ex_def ram_ex_def ram_init_def
  avoid_list_of_def Let_def NULL_PADDR_def

lemma ram_ex_run1: "alloc_ram env_ex NULL_PADDR 0x100 0x1000 ram_ex =
    ok (0x2000, ram_ex\<lparr>rs_ram := [mk_ram 0x1000 0x1000, mk_ram 0x2100 0x2f00]\<rparr>)"
proof -
  have "find_ram [\<lparr>av_start = 0x1000, av_end = 0x1800\<rparr>] [mk_ram 0x1000 0x4000] 0x100 0x1000 0 0 = 0x2000"
    by (simp add: find_eval)
  moreover have "alloc_loop 4 0x2000 0x2100 0 [mk_ram 0x1000 0x4000] =
      ok [mk_ram 0x1000 0x1000, mk_ram 0x2100 0x2f00]"
    by (simp add: alloc_eval)
  ultimately show ?thesis by (simp add: ram_ex_eval)
qed

lemma ram_ex_run2:
  "alloc_ram env_ex NULL_PADDR 0x800 8 (ram_ex\<lparr>rs_ram := [mk_ram 0x1000 0x1000, mk_ram 0x2100 0x2f00]\<rparr>) =
    ok (0x1800, ram_ex\<lparr>rs_ram := [mk_ram 0x1000 0x800, mk_ram 0x2100 0x2f00]\<rparr>)"
proof -
  have "find_ram [\<lparr>av_start = 0x1000, av_end = 0x1800\<rparr>] [mk_ram 0x1000 0x1000, mk_ram 0x2100 0x2f00]
      0x800 8 0 0 = 0x1800"
    by (simp add: find_eval)
  moreover have "alloc_loop 5 0x1800 0x2000 0 [mk_ram 0x1000 0x1000, mk_ram 0x2100 0x2f00] =
      ok [mk_ram 0x1000 0x800, mk_ram 0x2100 0x2f00]"
    by (simp add: alloc_eval)
  ultimately show ?thesis by (simp add: ram_ex_eval)
qed

lemma alloc_ram_disjoint_witness:
  "\<exists>st'. alloc_many env_ex [(0x100, 0x1000), (0x800, 8)] ram_ex = ok ([(0x2000, 0x100), (0x1800, 0x800)], st')
    \<and> (\<forall>r\<in>set [(0x2000, 0x100), (0x1800, 0x800)].
        {fst r ..< fst r + snd r} \<subseteq> covered (rs_ram ram_ex) - avoided (avoid_list_of ram_ex))"
proof -
  let ?qs = "[(0x100, 0x1000), (0x800, 8)] :: (paddr \<times> u32) list"
  let ?st = "ram_ex\<lparr>rs_ram := [mk_ram 0x1000 0x800, mk_ram 0x2100 0x2f00]\<rparr>"
  have run: "alloc_many env_ex ?qs ram_ex = ok ([(0x2000, 0x100), (0x1800, 0x800)], ?st)"
    using ram_ex_run1 ram_ex_run2 by (simp add: NULL_PADDR_def)
  have "align_ok 0x100 0x1000" "align_ok 0x800 8"
    unfolding align_ok_def by (auto intro: exI [of _ 12] exI [of _ 3])
  then have "\<forall>q\<in>set ?qs. align_ok (fst q) (snd q)" by simp
  from alloc_ram_disjoint [OF ram_ex_inv this run] run show ?thesis by blast
qed

end
