(* ===== verification/Aarch64_Map.thy ===== *)
theory Aarch64_Map
  imports Ram
begin

text \<open>
  Page tables: startup/lib/aarch64/aarch64\_map.c, the mapping functions of map\_callout\_io.c,
  map\_callout\_mem.c and elf\_map.c, and init\_mmu.c.  The tables live in RAM and are reached at
  their physical addresses: memory is a function from addresses to 64 bit words, of which the
  code only touches multiples of 8.  The descriptor bits, table indices and address limits come
  from the header aarch64/mmu.h, which is not part of the repository: they are the fields of
  mmu\_abi, an argument of the definitions.
\<close>

section \<open>The constants of the architecture header\<close>

record mmu_abi =
  PTE_VALID :: u64
  PTE_AF :: u64
  PTE_URW :: u64
  PTE_KRW :: u64
  PTE_URO :: u64
  PTE_KRO :: u64
  PTE_UXN :: u64
  PTE_PXN :: u64
  PTE_SODEV :: u64
  PTE_DEV :: u64
  PTE_NC :: u64
  PTE_WBWA :: u64
  PTE_ISH :: u64
  PTE_nG :: u64
  PTE_CONTIG :: u64
  PTP_VALID :: u64
  PTP_TYPE :: "u64 \<Rightarrow> u64"
  PTP_BLOCK :: u64
  USER_END :: u64
  STARTUP_BASE :: u64
  STARTUP_BASE_64K :: u64
  L1_IDX :: "u64 \<Rightarrow> nat"
  L2_IDX :: "u64 \<Rightarrow> nat"
  L3_IDX :: "u64 \<Rightarrow> nat"
  L2_IDX_64K :: "u64 \<Rightarrow> nat"
  L3_IDX_64K :: "u64 \<Rightarrow> nat"
  L1_VOFF :: "u64 \<Rightarrow> u64"
  L2_VOFF :: "u64 \<Rightarrow> u64"
  L3_VOFF :: "u64 \<Rightarrow> u64"
  L2_VOFF_64K :: "u64 \<Rightarrow> u64"
  L3_VOFF_64K :: "u64 \<Rightarrow> u64"
  L1_L1_IDX :: nat
  L1_L2_IDX :: nat
  L2_L2_IDX :: nat

text \<open>The protection flags of mmap, as a set of bits.\<close>
record prot_abi =
  PROT_READ :: u32
  PROT_WRITE :: u32
  PROT_EXEC :: u32
  PROT_USER :: u32
  PROT_NOCACHE :: u32
  PROT_DEVICE :: u32

record mmu_env =
  me_ram :: ram_env
  me_abi :: mmu_abi
  me_prot :: prot_abi
  page :: u64
  virtual_startup :: bool
  me_cpus :: u32
  meltdown :: bool

record vm =
  vm_ram :: ram_state
  vm_mem :: "paddr \<Rightarrow> u64"
  vm_free :: u64
  L1_ttbr0 :: paddr
  L1_ttbr1 :: paddr
  vm_ttbr0 :: u64
  vm_ttbr1 :: "u64 list"
  L0_vaddr :: u64

definition TRUNCPG :: "mmu_env \<Rightarrow> u64 \<Rightarrow> u64" where
  "TRUNCPG env x = TRUNC x (page env)"

definition ROUNDPG :: "mmu_env \<Rightarrow> u64 \<Rightarrow> u64" where
  "ROUNDPG env x = ROUND x (page env)"

definition PTP_PADDR :: "mmu_env \<Rightarrow> u64 \<Rightarrow> paddr" where
  "PTP_PADDR env ptp = (ptp AND 0x0000fffffffff000) AND NOT (page env - 1)"

definition CONTIG_PAGES :: nat where "CONTIG_PAGES = 16"
definition CONTIG_PAGES_64K :: nat where "CONTIG_PAGES_64K = 32"

definition USE_CONTIG :: "u64 \<Rightarrow> u64 \<Rightarrow> u64 \<Rightarrow> u64 \<Rightarrow> bool" where
  "USE_CONTIG v p s c \<longleftrightarrow> c \<le> s \<and> (v OR p) AND (c - 1) = 0"

definition USE_LARGE_PAGE :: "mmu_env \<Rightarrow> bool" where
  "USE_LARGE_PAGE env \<longleftrightarrow> 0x1000 < page env"

definition NPTE_PTBL :: "mmu_env \<Rightarrow> nat" where
  "NPTE_PTBL env = unat (page env) div 8"

section \<open>Descriptors and table allocation\<close>

definition has :: "u32 \<Rightarrow> u32 \<Rightarrow> bool" where
  "has flags b \<longleftrightarrow> flags AND b \<noteq> 0"

definition set_pte :: "mmu_env \<Rightarrow> paddr \<Rightarrow> u32 \<Rightarrow> u64" where
  "set_pte env paddr flags =
    (let a = me_abi env; f = me_prot env;
         pte = paddr OR PTE_VALID a OR PTE_AF a;
         pte = pte OR (if has flags (PROT_WRITE f)
                       then (if has flags (PROT_USER f) then PTE_URW a else PTE_KRW a)
                       else (if has flags (PROT_USER f) then PTE_URO a else PTE_KRO a));
         pte = (if has flags (PROT_EXEC f) then pte else pte OR (PTE_UXN a OR PTE_PXN a));
         pte = (if has flags (PROT_DEVICE f)
                then pte OR (if has flags (PROT_NOCACHE f) then PTE_SODEV a else PTE_DEV a)
                else (let pte = pte OR (if has flags (PROT_NOCACHE f) then PTE_NC a else PTE_WBWA a)
                      in if 1 < me_cpus env then pte OR PTE_ISH a else pte))
     in if meltdown env then pte OR PTE_nG a else pte)"

text \<open>calloc\_ram of the RAM manager, with the clearing of what it returns.\<close>
definition vm_calloc :: "mmu_env \<Rightarrow> u64 \<Rightarrow> u32 \<Rightarrow> vm \<Rightarrow> (paddr \<times> vm) res" where
  "vm_calloc env sz al s =
    and_then (calloc_ram (me_ram env) sz al (vm_ram s)) (\<lambda>(a, r).
      ok (a, s\<lparr>vm_ram := r, vm_mem := (\<lambda>x. if a \<noteq> NULL_PADDR \<and> x - a < sz then 0 else vm_mem s x)\<rparr>))"

definition pt_alloc :: "mmu_env \<Rightarrow> vm \<Rightarrow> (u64 \<times> vm) res" where
  "pt_alloc env s =
    and_then (vm_calloc env (page env) (ucast (page env)) s) (\<lambda>(pa, s).
      if pa = NULL_PADDR then crash ''pt_alloc: calloc_ram failed''
      else ok (set_pte env pa (PROT_READ (me_prot env) OR PROT_WRITE (me_prot env)), s))"

text \<open>Entry i of the table at t.\<close>
definition slot :: "paddr \<Rightarrow> nat \<Rightarrow> paddr" where
  "slot t i = t + 8 * of_nat i"

definition put_entry :: "paddr \<Rightarrow> nat \<Rightarrow> u64 \<Rightarrow> vm \<Rightarrow> vm" where
  "put_entry t i v s = s\<lparr>vm_mem := (vm_mem s)(slot t i := v)\<rparr>"

section \<open>Filling the tables\<close>

text \<open>The variables of the innermost loop of aarch64\_map: memory, L3i, va and pte.\<close>
record walk =
  wk_mem :: "paddr \<Rightarrow> u64"
  wk_i :: nat
  wk_va :: u64
  wk_pte :: u64

primrec put_ptes :: "nat \<Rightarrow> u64 \<Rightarrow> paddr \<Rightarrow> walk \<Rightarrow> walk" where
  "put_ptes 0 pg l3 w = w"
| "put_ptes (Suc n) pg l3 w =
    put_ptes n pg l3
      \<lparr>wk_mem = (wk_mem w)(slot l3 (wk_i w) := wk_pte w), wk_i = wk_i w + 1,
       wk_va = wk_va w + pg, wk_pte = wk_pte w + pg\<rparr>"

definition contig_pages :: "mmu_env \<Rightarrow> nat" where
  "contig_pages env = (if USE_LARGE_PAGE env then CONTIG_PAGES_64K else CONTIG_PAGES)"

text \<open>One pass of the while loop: a group with the contiguous hint, or a single page.\<close>
definition l3_step :: "mmu_env \<Rightarrow> paddr \<Rightarrow> u64 \<Rightarrow> walk \<Rightarrow> walk" where
  "l3_step env l3 end w =
    (let cp = contig_pages env; c = PTE_CONTIG (me_abi env);
         big = USE_CONTIG (wk_va w) (TRUNCPG env (wk_pte w)) (end - wk_va w) (of_nat cp * page env);
         w1 = put_ptes (if big then cp else 1) (page env) l3
                (if big then w\<lparr>wk_pte := wk_pte w OR c\<rparr> else w)
     in if big then w1\<lparr>wk_pte := wk_pte w1 AND NOT c\<rparr> else w1)"

lemma put_ptes_i: "wk_i (put_ptes n pg l3 w) = wk_i w + n"
  by (induction n arbitrary: w) auto

lemma contig_pages_pos: "0 < contig_pages env"
  by (simp add: contig_pages_def CONTIG_PAGES_def CONTIG_PAGES_64K_def)

lemma l3_step_i: "wk_i w < wk_i (l3_step env l3 end w)"
  using contig_pages_pos [of env] by (simp add: l3_step_def Let_def put_ptes_i)

function l3_loop :: "mmu_env \<Rightarrow> paddr \<Rightarrow> u64 \<Rightarrow> walk \<Rightarrow> walk" where
  "l3_loop env l3 end w =
    (if wk_i w < NPTE_PTBL env \<and> wk_va w < end then l3_loop env l3 end (l3_step env l3 end w) else w)"
  by auto
termination
  by (relation "measure (\<lambda>(env, l3, end, w). NPTE_PTBL env - wk_i w)")
    (auto intro: diff_less_mono2 l3_step_i)

declare l3_loop.simps [simp del]

text \<open>A missing table is allocated.\<close>
definition need_table :: "mmu_env \<Rightarrow> paddr \<Rightarrow> nat \<Rightarrow> vm \<Rightarrow> vm res" where
  "need_table env t i s =
    (if vm_mem s (slot t i) = 0
     then and_then (pt_alloc env s) (\<lambda>(e, s). ok (put_entry t i e s))
     else ok s)"

function l2_loop :: "mmu_env \<Rightarrow> paddr \<Rightarrow> nat \<Rightarrow> u64 \<Rightarrow> u64 \<Rightarrow> u64 \<Rightarrow> vm \<Rightarrow> (u64 \<times> u64 \<times> vm) res" where
  "l2_loop env l2 i end va pte s =
    (if i < NPTE_PTBL env \<and> va < end then
       and_then (need_table env l2 i s) (\<lambda>s.
         let l3 = PTP_PADDR env (vm_mem s (slot l2 i));
             j = (if USE_LARGE_PAGE env then L3_IDX_64K (me_abi env) va else L3_IDX (me_abi env) va);
             w = l3_loop env l3 end \<lparr>wk_mem = vm_mem s, wk_i = j, wk_va = va, wk_pte = pte\<rparr>
         in l2_loop env l2 (i + 1) end (wk_va w) (wk_pte w) (s\<lparr>vm_mem := wk_mem w\<rparr>))
     else ok (va, pte, s))"
  by auto
termination
  by (relation "measure (\<lambda>(env, l2, i, end, va, pte, s). NPTE_PTBL env - i)") auto

declare l2_loop.simps [simp del]

function l1_loop :: "mmu_env \<Rightarrow> paddr \<Rightarrow> nat \<Rightarrow> u64 \<Rightarrow> u64 \<Rightarrow> u64 \<Rightarrow> vm \<Rightarrow> (u64 \<times> u64 \<times> vm) res" where
  "l1_loop env l1 i end va pte s =
    (if i < NPTE_PTBL env \<and> va < end then
       and_then
         (if USE_LARGE_PAGE env then l2_loop env l1 (L2_IDX_64K (me_abi env) va) end va pte s
          else and_then (need_table env l1 i s) (\<lambda>s.
            l2_loop env (PTP_PADDR env (vm_mem s (slot l1 i))) (L2_IDX (me_abi env) va) end va pte s))
         (\<lambda>(va, pte, s). l1_loop env l1 (i + 1) end va pte s)
     else ok (va, pte, s))"
  by auto
termination
  by (relation "measure (\<lambda>(env, l1, i, end, va, pte, s). NPTE_PTBL env - i)") auto

declare l1_loop.simps [simp del]

section \<open>Mapping a range\<close>

text \<open>The virtual address: the next free one when the caller passes all ones.\<close>
definition pick_vaddr :: "mmu_env \<Rightarrow> u64 \<Rightarrow> u64 \<Rightarrow> u64 \<Rightarrow> vm \<Rightarrow> (u64 \<times> vm) res" where
  "pick_vaddr env vaddr off sz s =
    (if vaddr = NOT 0 then ok (vm_free s, s\<lparr>vm_free := vm_free s + sz\<rparr>)
     else if vaddr AND (page env - 1) \<noteq> off then crash ''aarch64_map: bad alignment''
     else ok (vaddr, s))"

definition pick_table :: "mmu_env \<Rightarrow> u64 \<Rightarrow> u64 \<Rightarrow> vm \<Rightarrow> paddr res" where
  "pick_table env va end s =
    (let a = me_abi env; base = (if USE_LARGE_PAGE env then STARTUP_BASE_64K a else STARTUP_BASE a) in
     if va < USER_END a then
       (if USER_END a \<le> end then crash ''aarch64_map: end of the user range'' else ok (L1_ttbr0 s))
     else if va < base then crash ''aarch64_map: below the startup range''
     else ok (L1_ttbr1 s))"

definition aarch64_map :: "mmu_env \<Rightarrow> u64 \<Rightarrow> paddr \<Rightarrow> u64 \<Rightarrow> u32 \<Rightarrow> vm \<Rightarrow> (paddr \<times> vm) res" where
  "aarch64_map env vaddr paddr len flags s =
    (if \<not> virtual_startup env then ok (paddr, s)
     else
       let off = paddr AND (page env - 1);
           pa = paddr AND NOT (page env - 1);
           sz = ROUNDPG env (len + off)
       in and_then (pick_vaddr env vaddr off sz s) (\<lambda>(vaddr, s).
          let va = TRUNCPG env vaddr; end = va + sz in
          if end < va then crash ''aarch64_map: range wraps''
          else and_then (pick_table env va end s) (\<lambda>l1.
            and_then (l1_loop env l1 (if USE_LARGE_PAGE env then 0 else L1_IDX (me_abi env) va) end va
                (set_pte env pa flags) s)
              (\<lambda>(_, _, s). ok (vaddr + off, s)))))"

definition callout_io_map :: "mmu_env \<Rightarrow> u32 \<Rightarrow> paddr \<Rightarrow> vm \<Rightarrow> (u64 \<times> vm) res" where
  "callout_io_map env len phys s =
    (let f = me_prot env in
     aarch64_map env (NOT 0) phys (ucast len)
       (PROT_READ f OR PROT_WRITE f OR PROT_NOCACHE f OR PROT_DEVICE f) s)"

definition callout_memory_map :: "mmu_env \<Rightarrow> u32 \<Rightarrow> paddr \<Rightarrow> u32 \<Rightarrow> vm \<Rightarrow> (u64 \<times> vm) res" where
  "callout_memory_map env len phys prot_flags s = aarch64_map env (NOT 0) phys (ucast len) prot_flags s"

text \<open>elf\_map: the segment's permission bits PF\_R, PF\_W and PF\_X are 4, 2 and 1.\<close>
definition elf_prot :: "mmu_env \<Rightarrow> u32 \<Rightarrow> u32" where
  "elf_prot env flags =
    (let f = me_prot env in
     (if has flags 4 then PROT_READ f else 0) OR (if has flags 2 then PROT_WRITE f else 0) OR
     (if has flags 1 then PROT_EXEC f else 0))"

definition elf_map :: "mmu_env \<Rightarrow> u64 \<Rightarrow> paddr \<Rightarrow> u64 \<Rightarrow> u32 \<Rightarrow> vm \<Rightarrow> vm res" where
  "elf_map env vaddr paddr len flags s =
    and_then (aarch64_map env vaddr paddr len (elf_prot env flags) s) (\<lambda>(_, s). ok s)"

section \<open>Walking the tables\<close>

definition elf_vaddr_to_paddr :: "mmu_env \<Rightarrow> u64 \<Rightarrow> vm \<Rightarrow> paddr res" where
  "elf_vaddr_to_paddr env vaddr s =
    (let a = me_abi env; large = USE_LARGE_PAGE env;
         base = (if large then STARTUP_BASE_64K a else STARTUP_BASE a) in
     and_then
       (if vaddr < USER_END a then ok (L1_ttbr0 s)
        else if vaddr < base then crash ''elf_vaddr_to_paddr: bad address''
        else ok (L1_ttbr1 s))
       (\<lambda>l1.
     let e1 = vm_mem s (slot l1 (L1_IDX a vaddr)) in
     if \<not> large \<and> e1 AND PTP_VALID a = 0 then ok NULL_PADDR
     else if \<not> large \<and> PTP_TYPE a e1 = PTP_BLOCK a then ok (PTP_PADDR env e1 OR L1_VOFF a vaddr)
     else
       let l2 = (if large then l1 else PTP_PADDR env e1);
           e2 = vm_mem s (slot l2 (if large then L2_IDX_64K a vaddr else L2_IDX a vaddr)) in
       if e2 AND PTP_VALID a = 0 then ok NULL_PADDR
       else if PTP_TYPE a e2 = PTP_BLOCK a
       then ok (PTP_PADDR env e2 OR (if large then L2_VOFF_64K a vaddr else L2_VOFF a vaddr))
       else
         let l3 = PTP_PADDR env e2;
             e3 = vm_mem s (slot l3 (if large then L3_IDX_64K a vaddr else L3_IDX a vaddr)) in
         if e3 AND PTE_VALID a \<noteq> PTE_VALID a then ok NULL_PADDR
         else ok (PTP_PADDR env e3 OR (if large then L3_VOFF_64K a vaddr else L3_VOFF a vaddr))))"

section \<open>The initial tables and the control register\<close>

text \<open>Entry 1 of every processor's 64 byte L0 table names the kernel's L1 table.\<close>
definition l0_tables :: "paddr \<Rightarrow> u64 \<Rightarrow> vm \<Rightarrow> vm" where
  "l0_tables l0 l1pte s =
    fold (\<lambda>i s. let t = l0 + 64 * of_nat i in put_entry t 1 l1pte (s\<lparr>vm_ttbr1 := vm_ttbr1 s @ [t]\<rparr>))
      [0 ..< 64] (s\<lparr>vm_ttbr1 := []\<rparr>)"

definition aarch64_map_init :: "mmu_env \<Rightarrow> vm \<Rightarrow> vm res" where
  "aarch64_map_init env s =
    (let a = me_abi env; f = me_prot env in
     and_then (vm_calloc env (page env) (ucast (page env)) s) (\<lambda>(t0, s).
     and_then (pt_alloc env (s\<lparr>vm_ttbr0 := t0, L1_ttbr0 := PTP_PADDR env t0\<rparr>)) (\<lambda>(l1pte, s).
     let l1 = PTP_PADDR env l1pte;
         s = put_entry l1 (L1_L1_IDX a) l1pte (s\<lparr>L1_ttbr1 := l1\<rparr>) in
     and_then
       (if \<not> USE_LARGE_PAGE env then
          and_then (pt_alloc env s) (\<lambda>(l2pte, s).
            ok (put_entry (PTP_PADDR env l2pte) (L2_L2_IDX a) l1pte
                 (put_entry l1 (L1_L2_IDX a) l2pte s)\<lparr>vm_free := STARTUP_BASE a\<rparr>))
        else ok (s\<lparr>vm_free := STARTUP_BASE_64K a\<rparr>))
       (\<lambda>s.
     let l0size = ROUNDPG env (64 * 64) in
     and_then (vm_calloc env l0size (ucast (page env)) s) (\<lambda>(l0, s).
     and_then (aarch64_map env (NOT 0) l0 l0size (PROT_READ f OR PROT_WRITE f) s) (\<lambda>(v, s).
       ok (l0_tables l0 l1pte (s\<lparr>L0_vaddr := v\<rparr>))))))))"

record tcr_abi =
  TCR_T0SZ :: "nat \<Rightarrow> u64"
  TCR_T1SZ :: "nat \<Rightarrow> u64"
  TCR_TG_64K :: u64
  TCR_AS :: u64
  TCR_IPS :: "u64 \<Rightarrow> u64"
  TCR_SH_ISH :: u64

definition MMFR0_ASIDBITS :: "u64 \<Rightarrow> u64" where
  "MMFR0_ASIDBITS x = drop_bit 4 x AND 0xF"

definition MMFR0_PARANGE :: "u64 \<Rightarrow> u64" where
  "MMFR0_PARANGE x = x AND 7"

text \<open>The fields of TCR\_EL1 for the page size and the processor's identification register.  The
  integer constants of the mask (0x3f OR 3 shifted by 30 OR by 14) are 64 bits wide.\<close>
definition tcr_for :: "tcr_abi \<Rightarrow> u64 \<Rightarrow> u64 \<Rightarrow> u64 \<Rightarrow> u64" where
  "tcr_for c pg mmfr0 tcr =
    (let tcr = (if 0x1000 < pg
                then (tcr AND NOT (0x3f OR push_bit 30 3 OR push_bit 14 3))
                       OR TCR_T0SZ c 42 OR TCR_T1SZ c 43 OR TCR_TG_64K c
                else tcr OR TCR_T1SZ c 40);
         tcr = (if MMFR0_ASIDBITS mmfr0 \<noteq> 0 then tcr OR TCR_AS c else tcr)
     in tcr OR TCR_IPS c (MMFR0_PARANGE mmfr0) OR TCR_SH_ISH c)"

text \<open>init\_mmu: the image is mapped at its own addresses, readable, writable and executable.\<close>
definition init_mmu ::
  "mmu_env \<Rightarrow> tcr_abi \<Rightarrow> u64 \<Rightarrow> u64 \<Rightarrow> paddr \<Rightarrow> u64 \<Rightarrow> vm \<Rightarrow> (u64 \<times> vm) res" where
  "init_mmu env c mmfr0 tcr img startup_size s =
    and_then (aarch64_map_init env s) (\<lambda>s.
    let f = me_prot env; start = TRUNCPG env img; end = ROUNDPG env (img + startup_size) in
    and_then (aarch64_map env start start (end - start) (PROT_READ f OR PROT_WRITE f OR PROT_EXEC f) s)
      (\<lambda>(_, s). ok (tcr_for c (page env) mmfr0 tcr, s)))"

section \<open>A concrete setting\<close>

text \<open>The descriptor format of the architecture with a 4 KB granule, for the examples.\<close>
definition mmu_abi_ex :: mmu_abi where
  "mmu_abi_ex = \<lparr>PTE_VALID = 3, PTE_AF = 0x400, PTE_URW = 0x40, PTE_KRW = 0, PTE_URO = 0xC0, PTE_KRO = 0x80,
     PTE_UXN = push_bit 54 1, PTE_PXN = push_bit 53 1, PTE_SODEV = 0, PTE_DEV = 4, PTE_NC = 0x10,
     PTE_WBWA = 0x1C, PTE_ISH = 0x300, PTE_nG = 0x800, PTE_CONTIG = push_bit 52 1,
     PTP_VALID = 1, PTP_TYPE = (\<lambda>x. x AND 3), PTP_BLOCK = 1,
     USER_END = push_bit 39 1, STARTUP_BASE = 0xFFFFFFFF80000000, STARTUP_BASE_64K = 0xFFFFFFFF80000000,
     L1_IDX = (\<lambda>v. unat (drop_bit 30 v AND 0x1FF)), L2_IDX = (\<lambda>v. unat (drop_bit 21 v AND 0x1FF)),
     L3_IDX = (\<lambda>v. unat (drop_bit 12 v AND 0x1FF)),
     L2_IDX_64K = (\<lambda>v. unat (drop_bit 29 v AND 0x1FFF)), L3_IDX_64K = (\<lambda>v. unat (drop_bit 16 v AND 0x1FFF)),
     L1_VOFF = (\<lambda>v. v AND 0x3FFFFFFF), L2_VOFF = (\<lambda>v. v AND 0x1FFFFF), L3_VOFF = (\<lambda>v. v AND 0xFFF),
     L2_VOFF_64K = (\<lambda>v. v AND 0x1FFFFFFF), L3_VOFF_64K = (\<lambda>v. v AND 0xFFFF),
     L1_L1_IDX = 511, L1_L2_IDX = 510, L2_L2_IDX = 511\<rparr>"

definition prot_ex :: prot_abi where
  "prot_ex = \<lparr>PROT_READ = 0x100, PROT_WRITE = 0x200, PROT_EXEC = 0x400, PROT_USER = 0x800,
     PROT_NOCACHE = 0x1000, PROT_DEVICE = 0x2000\<rparr>"

definition mmu_ex :: mmu_env where
  "mmu_ex = \<lparr>me_ram = env_ex, me_abi = mmu_abi_ex, me_prot = prot_ex, page = 0x1000,
     virtual_startup = False, me_cpus = 4, meltdown = False\<rparr>"

definition vm_ex :: vm where
  "vm_ex = \<lparr>vm_ram = ram_ex, vm_mem = (\<lambda>_. 0), vm_free = 0, L1_ttbr0 = 0, L1_ttbr1 = 0,
     vm_ttbr0 = 0, vm_ttbr1 = [], L0_vaddr = 0\<rparr>"

end
