(* ===== verification/Page_Fill.thy ===== *)
theory Page_Fill
  imports Aarch64_Map
begin

text \<open>
  The innermost loop of startup/lib/aarch64/aarch64\_map.c, which fills one table: groups of pages with the
  contiguous hint and single pages amount to one page after the other.
\<close>

unbundle bit_operations_syntax

section \<open>Filling one table\<close>

text \<open>A granule of 2 to the p bytes, in which groups of 2 to the q pages may have the contiguous hint; the code
  supports 4 KB and 64 KB.\<close>
definition granule :: "mmu_env \<Rightarrow> nat \<Rightarrow> nat \<Rightarrow> bool" where
  "granule env p q \<longleftrightarrow> page env = 2 ^ p \<and> (p = 12 \<and> q = 4 \<or> p = 16 \<and> q = 5)"

lemma granule_facts:
  assumes "granule env p q"
  shows "page env = 2 ^ p" "unat (page env) = 2 ^ p" "NPTE_PTBL env = 2 ^ (p - 3)" "contig_pages env = 2 ^ q"
    "3 \<le> p" "p \<le> 16" "q \<le> p - 3" "p < 64" "q \<le> 5"
  using assms by (auto simp: granule_def NPTE_PTBL_def contig_pages_def USE_LARGE_PAGE_def CONTIG_PAGES_def
      CONTIG_PAGES_64K_def)

text \<open>Entries i to i + n - 1 of the table at t map n pages from the descriptor pte on, with or without the
  hint c; the rest of memory is as it was.\<close>
definition filled :: "paddr \<Rightarrow> u64 \<Rightarrow> u64 \<Rightarrow> nat \<Rightarrow> nat \<Rightarrow> u64 \<Rightarrow> (paddr \<Rightarrow> u64) \<Rightarrow> (paddr \<Rightarrow> u64) \<Rightarrow> bool" where
  "filled t pg c i n pte m m' \<longleftrightarrow>
     (\<forall>k < n. m' (slot t (i + k)) \<in> {pte + of_nat k * pg, (pte + of_nat k * pg) OR c}) \<and>
     (\<forall>a. a \<notin> slot t ` {i ..< i + n} \<longrightarrow> m' a = m a)"

lemma slot_inj: "i < 2 ^ 60 \<Longrightarrow> j < 2 ^ 60 \<Longrightarrow> slot t i = slot t j \<longleftrightarrow> i = j"
proof -
  assume ij: "i < 2 ^ 60" "j < 2 ^ 60"
  have u: "unat (8 * of_nat k :: u64) = 8 * k" if "k < 2 ^ 60" for k
  proof -
    have "(8 * of_nat k :: u64) = of_nat (8 * k)" by simp
    moreover have "unat (of_nat (8 * k) :: u64) = 8 * k" using that by (intro unat_of_nat_small) simp
    ultimately show ?thesis by simp
  qed
  have "slot t i = slot t j \<longleftrightarrow> (8 * of_nat i :: u64) = 8 * of_nat j" by (simp add: slot_def)
  also have "\<dots> \<longleftrightarrow> unat (8 * of_nat i :: u64) = unat (8 * of_nat j :: u64)" by (rule word_unat_eq_iff)
  finally show ?thesis using ij by (simp add: u)
qed

lemma filled_none: "filled t pg c i 0 pte m m"
  by (simp add: filled_def)

lemma filled_trans:
  assumes a: "filled t pg c i n pte m m1" and b: "filled t pg c (i + n) k (pte + of_nat n * pg) m1 m2"
    and small: "i + n + k \<le> 2 ^ 60"
  shows "filled t pg c i (n + k) pte m m2"
  unfolding filled_def
proof (intro conjI allI impI)
  fix j assume j: "j < n + k"
  show "m2 (slot t (i + j)) \<in> {pte + of_nat j * pg, (pte + of_nat j * pg) OR c}"
  proof (cases "j < n")
    case True
    then have "slot t (i + j) \<notin> slot t ` {i + n ..< i + n + k}"
      using small by (auto simp: slot_inj)
    then show ?thesis using a b True by (simp add: filled_def)
  next
    case False
    then obtain l where l: "j = n + l" by (metis le_Suc_ex not_less)
    then have "m2 (slot t (i + n + l)) \<in> {pte + of_nat n * pg + of_nat l * pg, (pte + of_nat n * pg + of_nat l * pg) OR c}"
      using b j by (simp add: filled_def)
    then show ?thesis by (simp add: l algebra_simps)
  qed
next
  fix x assume "x \<notin> slot t ` {i ..< i + (n + k)}"
  then have "x \<notin> slot t ` {i ..< i + n}" "x \<notin> slot t ` {i + n ..< i + n + k}" by auto
  then show "m2 x = m x" using a b by (simp add: filled_def)
qed

lemma put_ptes_fills:
  assumes "wk_i w + n \<le> 2 ^ 60"
  shows "(\<forall>k < n. wk_mem (put_ptes n pg t w) (slot t (wk_i w + k)) = wk_pte w + of_nat k * pg) \<and>
    (\<forall>a. a \<notin> slot t ` {wk_i w ..< wk_i w + n} \<longrightarrow> wk_mem (put_ptes n pg t w) a = wk_mem w a) \<and>
    wk_i (put_ptes n pg t w) = wk_i w + n \<and> wk_va (put_ptes n pg t w) = wk_va w + of_nat n * pg \<and>
    wk_pte (put_ptes n pg t w) = wk_pte w + of_nat n * pg"
  using assms
proof (induction n arbitrary: w)
  case 0
  then show ?case by simp
next
  case (Suc n)
  let ?w = "\<lparr>wk_mem = (wk_mem w)(slot t (wk_i w) := wk_pte w), wk_i = wk_i w + 1, wk_va = wk_va w + pg, wk_pte = wk_pte w + pg\<rparr>"
  have ih: "(\<forall>k < n. wk_mem (put_ptes n pg t ?w) (slot t (wk_i w + 1 + k)) = wk_pte w + pg + of_nat k * pg) \<and>
    (\<forall>a. a \<notin> slot t ` {wk_i w + 1 ..< wk_i w + 1 + n} \<longrightarrow> wk_mem (put_ptes n pg t ?w) a = wk_mem ?w a) \<and>
    wk_i (put_ptes n pg t ?w) = wk_i w + 1 + n \<and> wk_va (put_ptes n pg t ?w) = wk_va w + pg + of_nat n * pg \<and>
    wk_pte (put_ptes n pg t ?w) = wk_pte w + pg + of_nat n * pg"
    using Suc.IH [of ?w] Suc.prems by simp
  have "wk_mem (put_ptes n pg t ?w) (slot t (wk_i w + k)) = wk_pte w + of_nat k * pg" if k: "k < Suc n" for k
  proof (cases k)
    case 0
    have "slot t (wk_i w) \<notin> slot t ` {wk_i w + 1 ..< wk_i w + 1 + n}"
      using Suc.prems by (auto simp: slot_inj)
    then show ?thesis using ih 0 by simp
  next
    case (Suc j)
    then show ?thesis using ih k by (simp add: algebra_simps)
  qed
  moreover have "wk_mem (put_ptes n pg t ?w) a = wk_mem w a" if "a \<notin> slot t ` {wk_i w ..< wk_i w + Suc n}" for a
  proof -
    have "a \<notin> slot t ` {wk_i w + 1 ..< wk_i w + 1 + n}" "a \<noteq> slot t (wk_i w)" using that by auto
    then show ?thesis using ih by simp
  qed
  ultimately show ?case using ih by (simp add: algebra_simps)
qed
lemma or_plus: "x AND c = 0 \<Longrightarrow> x OR c = x + (c :: 'a :: len word)"
  by (simp add: disjunctive_add_eq_or)

lemma and_zero_bit: "x AND c = (0 :: 'a :: len word) \<Longrightarrow> bit x i \<Longrightarrow> \<not> bit c i"
  by (metis bit_and_iff bit_0_eq bot_apply bot_bool_def)

lemma or_and_not: "x AND c = 0 \<Longrightarrow> (x OR c) AND NOT c = (x :: 'a :: len word)"
  by (rule bit_word_eqI) (auto simp: bit_or_iff bit_and_iff bit_not_iff dest: and_zero_bit)

lemma unat_low_zero:
  fixes v :: u64
  assumes "v AND (2 ^ n - 1) = 0"
  shows "unat v mod 2 ^ n = 0"
proof -
  have "take_bit n v = 0" using assms(1) by (simp only: take_bit_eq_mask mask_eq_exp_minus_1)
  then have "unat (take_bit n v) = 0" by simp
  then have "take_bit n (unat v) = 0" by (simp only: unsigned_take_bit_eq)
  then show ?thesis by (simp only: take_bit_eq_mod)
qed

text \<open>What holds at each pass: the index and the address agree modulo a group, n pages remain, and no
  descriptor of theirs has the hint.\<close>
definition walk_ok :: "mmu_env \<Rightarrow> nat \<Rightarrow> nat \<Rightarrow> u64 \<Rightarrow> nat \<Rightarrow> walk \<Rightarrow> bool" where
  "walk_ok env p q end n w \<longleftrightarrow> wk_i w \<le> 2 ^ (p - 3) \<and> wk_i w mod 2 ^ q = unat (wk_va w) div 2 ^ p mod 2 ^ q \<and>
     unat (wk_va w) + n * 2 ^ p = unat end \<and>
     (\<forall>k \<le> n. (wk_pte w + of_nat k * page env) AND PTE_CONTIG (me_abi env) = 0)"

definition advanced :: "mmu_env \<Rightarrow> paddr \<Rightarrow> nat \<Rightarrow> walk \<Rightarrow> walk \<Rightarrow> bool" where
  "advanced env t k w w' \<longleftrightarrow> wk_i w' = wk_i w + k \<and> wk_va w' = wk_va w + of_nat k * page env \<and>
     wk_pte w' = wk_pte w + of_nat k * page env \<and>
     filled t (page env) (PTE_CONTIG (me_abi env)) (wk_i w) k (wk_pte w) (wk_mem w) (wk_mem w')"

lemma unat_va_advance:
  assumes "granule env p q" "unat va + n * 2 ^ p = unat (end :: u64)" "k \<le> n"
  shows "unat (va + of_nat k * page env) = unat va + k * 2 ^ p"
proof -
  note g = granule_facts [OF assms(1)]
  have "k * 2 ^ p \<le> n * 2 ^ p" using assms(3) by simp
  then have "unat va + k * 2 ^ p \<le> unat end" using assms(2) by linarith
  also have "unat end < 2 ^ 64" using unsigned_less [of "end", where ?'a = nat] by simp
  finally have le: "unat va + k * 2 ^ p < 2 ^ 64" .
  have "(of_nat k * page env :: u64) = of_nat (k * 2 ^ p)" by (simp add: g(1))
  moreover have "unat (of_nat (k * 2 ^ p) :: u64) = k * 2 ^ p" using le by (intro unat_of_nat_small) simp
  ultimately show ?thesis
    using le by (simp add: unat_add_lem [THEN iffD1])
qed

lemma l3_step_fills:
  assumes g: "granule env p q" and w: "walk_ok env p q end n w" and more: "wk_i w < 2 ^ (p - 3)" "0 < n"
  shows "\<exists>k. 0 < k \<and> k \<le> n \<and> wk_i w + k \<le> 2 ^ (p - 3) \<and> advanced env t k w (l3_step env t end w) \<and>
    walk_ok env p q end (n - k) (l3_step env t end w)"
proof -
  note gf = granule_facts [OF g]
  let ?c = "PTE_CONTIG (me_abi env)" and ?i = "wk_i w" and ?va = "wk_va w" and ?pte = "wk_pte w" and ?pg = "page env"
  let ?big = "USE_CONTIG ?va (TRUNCPG env ?pte) (end - ?va) (of_nat (contig_pages env) * ?pg)"
  have sum: "unat ?va + n * 2 ^ p = unat end" and mods: "?i mod 2 ^ q = unat ?va div 2 ^ p mod 2 ^ q"
    and hint: "\<And>k. k \<le> n \<Longrightarrow> (?pte + of_nat k * ?pg) AND ?c = 0"
    using w by (auto simp: walk_ok_def)
  have small: "(2 :: nat) ^ (p - 3) \<le> 2 ^ 60" by (rule power_increasing) (use gf in auto)
  have c: "of_nat (contig_pages env) * ?pg = 2 ^ (q + p)" by (simp add: gf power_add)
  have uc: "unat ((2 :: u64) ^ (q + p)) = 2 ^ (q + p)" using gf by (intro unat_pow2) auto
  have rest: "unat (end - ?va) = n * 2 ^ p"
    using sum by (subst unat_sub) (auto simp: word_le_nat_alt)
  define k where "k = (if ?big then 2 ^ q else 1 :: nat)"
  have k: "0 < k" "k \<le> n" "?i + k \<le> 2 ^ (p - 3)" "k \<noteq> 1 \<Longrightarrow> k = 2 ^ q"
  proof -
    show "0 < k" "k \<noteq> 1 \<Longrightarrow> k = 2 ^ q" by (auto simp: k_def)
    have "k \<le> n \<and> ?i + k \<le> 2 ^ (p - 3)"
    proof (cases ?big)
      case True
      then have "2 ^ (q + p) \<le> end - ?va" and low: "(?va OR TRUNCPG env ?pte) AND (2 ^ (q + p) - 1) = 0"
        by (simp_all add: USE_CONTIG_def c)
      then have "2 ^ (q + p) \<le> n * 2 ^ p" by (simp add: word_le_nat_alt uc rest)
      then have n: "2 ^ q \<le> n" by (simp add: power_add)
      have "?va AND (2 ^ (q + p) - 1) = 0"
        using low by (simp add: bit.conj_disj_distrib2 or_eq_0_iff)
      then have "unat ?va mod 2 ^ (q + p) = 0" by (rule unat_low_zero)
      then have "unat ?va div 2 ^ p mod 2 ^ q = 0"
      proof -
        assume "unat ?va mod 2 ^ (q + p) = 0"
        then obtain d where "unat ?va = 2 ^ (q + p) * d" by (metis mod_eq_0_iff_dvd dvdE)
        then have "unat ?va = (2 ^ q * d) * 2 ^ p" by (simp add: power_add)
        then have "unat ?va div 2 ^ p = 2 ^ q * d" by simp
        then show ?thesis by simp
      qed
      then have i: "?i mod 2 ^ q = 0" using mods by simp
      have "(2 :: nat) ^ (p - 3) = 2 ^ q * 2 ^ (p - 3 - q)" using gf(7) by (simp add: power_add [symmetric])
      then have "?i + 2 ^ q \<le> 2 ^ (p - 3)"
        using more(1) i by (metis Suc_leI add.commute div_mult_mod_eq less_mult_imp_div_less mult.commute mult_Suc mult_le_mono1 add_0_right)
      with n True show ?thesis by (simp add: k_def)
    next
      case False
      then show ?thesis using more by (simp add: k_def)
    qed
    then show "k \<le> n" "?i + k \<le> 2 ^ (p - 3)" by simp_all
  qed
  have le60: "?i + k \<le> 2 ^ 60" using k(3) small by linarith
  let ?w = "if ?big then w\<lparr>wk_pte := ?pte OR ?c\<rparr> else w"
  have w': "wk_i ?w = ?i" "wk_va ?w = ?va" "wk_mem ?w = wk_mem w" by simp_all
  note f = put_ptes_fills [of ?w k ?pg t, unfolded w', OF le60]
  let ?r = "l3_step env t end w"
  have n: "(if ?big then contig_pages env else 1) = k" by (simp add: k_def gf(4))
  have r: "?r = (if ?big then (put_ptes k ?pg t ?w)\<lparr>wk_pte := wk_pte (put_ptes k ?pg t ?w) AND NOT ?c\<rparr> else put_ptes k ?pg t ?w)"
    unfolding l3_step_def Let_def by (simp add: n [symmetric])
  have pte: "wk_pte ?w + of_nat j * ?pg = (if ?big then (?pte + of_nat j * ?pg) OR ?c else ?pte + of_nat j * ?pg)" if "j \<le> k" for j
    using hint [of 0] hint [of j] that k(2) by (simp add: or_plus)
  have adv: "advanced env t k w ?r"
    unfolding advanced_def filled_def
  proof (intro conjI allI impI)
    show "wk_i ?r = ?i + k" "wk_va ?r = ?va + of_nat k * ?pg"
      using f unfolding r by (simp_all split: if_splits)
    show "wk_pte ?r = ?pte + of_nat k * ?pg"
      using f pte [of k] or_and_not [OF hint [OF k(2)]] unfolding r by (simp split: if_splits)
    show "wk_mem ?r (slot t (?i + j)) \<in> {?pte + of_nat j * ?pg, (?pte + of_nat j * ?pg) OR ?c}" if "j < k" for j
      using f pte [of j] that unfolding r by (simp split: if_splits)
    show "wk_mem ?r a = wk_mem w a" if "a \<notin> slot t ` {?i ..< ?i + k}" for a
      using f that unfolding r by (simp split: if_splits)
  qed
  have va: "unat (wk_va ?r) = unat ?va + k * 2 ^ p"
    using adv unat_va_advance [OF g sum k(2)] by (simp add: advanced_def)
  have "walk_ok env p q end (n - k) ?r"
    unfolding walk_ok_def
  proof (intro conjI allI impI)
    show "wk_i ?r \<le> 2 ^ (p - 3)" using adv k(3) by (simp add: advanced_def)
    have "(unat ?va + k * 2 ^ p) div 2 ^ p = unat ?va div 2 ^ p + k" by simp
    then show "wk_i ?r mod 2 ^ q = unat (wk_va ?r) div 2 ^ p mod 2 ^ q"
      unfolding va using adv mod_add_cong [OF mods refl, of k] by (simp add: advanced_def add.commute)
    have "k * 2 ^ p + (n - k) * 2 ^ p = n * 2 ^ p" using k(2) by (simp add: add_mult_distrib [symmetric])
    then show "unat (wk_va ?r) + (n - k) * 2 ^ p = unat end" unfolding va using sum by linarith
    fix j assume "j \<le> n - k"
    then have "(?pte + of_nat (k + j) * ?pg) AND ?c = 0" using k(2) by (intro hint) simp
    then show "(wk_pte ?r + of_nat j * ?pg) AND ?c = 0" using adv by (simp add: advanced_def algebra_simps)
  qed
  with adv show ?thesis using k by blast
qed

lemma advanced_trans:
  assumes "advanced env t k w w1" "advanced env t l w1 w2" "wk_i w + k + l \<le> 2 ^ 60"
  shows "advanced env t (k + l) w w2"
  using assms filled_trans [of t "page env" "PTE_CONTIG (me_abi env)" "wk_i w" k "wk_pte w" "wk_mem w" "wk_mem w1" l "wk_mem w2"]
  by (simp add: advanced_def algebra_simps)

lemma l3_loop_fills:
  assumes "granule env p q" "walk_ok env p q end n w"
  shows "advanced env t (min n (2 ^ (p - 3) - wk_i w)) w (l3_loop env t end w)"
  using assms(2)
proof (induction "2 ^ (p - 3) - wk_i w" arbitrary: w n rule: less_induct)
  case less
  note gf = granule_facts [OF assms(1)]
  have small: "(2 :: nat) ^ (p - 3) \<le> 2 ^ 60" by (rule power_increasing) (use gf in auto)
  have lt: "wk_va w < end \<longleftrightarrow> 0 < n"
  proof -
    have "unat (wk_va w) + n * 2 ^ p = unat end" using less.prems by (simp add: walk_ok_def)
    moreover have "0 < n * 2 ^ p \<longleftrightarrow> 0 < n" by simp
    ultimately show ?thesis unfolding word_less_nat_alt by linarith
  qed
  have le: "wk_i w \<le> 2 ^ (p - 3)" using less.prems by (simp add: walk_ok_def)
  show ?case
  proof (cases "wk_i w < 2 ^ (p - 3) \<and> 0 < n")
    case True
    let ?r = "l3_step env t end w"
    obtain k where k: "0 < k" "k \<le> n" "wk_i w + k \<le> 2 ^ (p - 3)" "advanced env t k w ?r"
      "walk_ok env p q end (n - k) ?r"
      using l3_step_fills [OF assms(1) less.prems, of t] True by blast
    have i: "wk_i ?r = wk_i w + k" using k(4) by (simp add: advanced_def)
    have "2 ^ (p - 3) - wk_i ?r < 2 ^ (p - 3) - wk_i w" using i k(1,3) by simp
    from less.hyps [OF this k(5)]
    have "advanced env t (k + min (n - k) (2 ^ (p - 3) - wk_i ?r)) w (l3_loop env t end ?r)"
      by (rule advanced_trans [OF k(4)]) (use i k small in auto)
    moreover have "k + min (n - k) (2 ^ (p - 3) - wk_i ?r) = min n (2 ^ (p - 3) - wk_i w)"
      using i k by auto
    moreover have "l3_loop env t end w = l3_loop env t end ?r"
      using True lt by (subst l3_loop.simps) (simp add: gf)
    ultimately show ?thesis by simp
  next
    case False
    then have "l3_loop env t end w = w" using lt by (subst l3_loop.simps) (auto simp: gf)
    moreover have "min n (2 ^ (p - 3) - wk_i w) = 0" using False le by auto
    ultimately show ?thesis by (simp add: advanced_def filled_none)
  qed
qed

text \<open>The loop that fills a table, which writes groups of pages with the contiguous hint when it can, does
  what the loop over single pages does: it maps the pages that remain, as many as the table has entries
  for, one after the other, sets nothing but the hint beside, and writes no entry past the end of the
  table.\<close>
lemma l3_loop_pages:
  assumes "granule env p q" "walk_ok env p q end n w"
  shows "\<exists>k w'. w' = l3_loop env t end w \<and> k = min n (2 ^ (p - 3) - wk_i w) \<and>
    wk_i w' = wk_i w + k \<and> wk_va w' = wk_va w + of_nat k * page env \<and> wk_pte w' = wk_pte w + of_nat k * page env \<and>
    (\<forall>j < k. wk_mem w' (slot t (wk_i w + j)) AND NOT (PTE_CONTIG (me_abi env)) =
       wk_pte w + of_nat j * page env) \<and>
    (\<forall>a. a \<notin> slot t ` {wk_i w ..< wk_i w + k} \<longrightarrow> wk_mem w' a = wk_mem w a)"
proof -
  let ?k = "min n (2 ^ (p - 3) - wk_i w)" and ?w = "l3_loop env t end w" and ?c = "PTE_CONTIG (me_abi env)"
  have adv: "advanced env t ?k w ?w" by (rule l3_loop_fills [OF assms])
  have "wk_mem ?w (slot t (wk_i w + j)) AND NOT ?c = wk_pte w + of_nat j * page env" if j: "j < ?k" for j
  proof -
    have z: "(wk_pte w + of_nat j * page env) AND ?c = 0" using assms(2) j by (simp add: walk_ok_def)
    then have "(wk_pte w + of_nat j * page env) AND NOT ?c = wk_pte w + of_nat j * page env"
      by (intro bit_word_eqI) (auto simp: bit_and_iff bit_not_iff dest: and_zero_bit)
    with adv j or_and_not [OF z] show ?thesis by (auto simp: advanced_def filled_def)
  qed
  with adv show ?thesis by (intro exI [of _ ?k] exI [of _ ?w]) (simp add: advanced_def filled_def)
qed

lemma l3_loop_pages_witness:
  "\<exists>w'. w' = l3_loop mmu_ex 0x4000 0x40202000 \<lparr>wk_mem = \<lambda>_. 0, wk_i = 1, wk_va = 0x40201000, wk_pte = 0x80000403\<rparr> \<and>
     wk_i w' = 2 \<and> wk_va w' = 0x40202000"
proof -
  have g: "granule mmu_ex 12 4" by (simp add: granule_def mmu_ex_def)
  have "walk_ok mmu_ex 12 4 0x40202000 1 \<lparr>wk_mem = \<lambda>_. 0, wk_i = 1, wk_va = 0x40201000, wk_pte = 0x80000403\<rparr>"
    unfolding walk_ok_def by (simp add: mmu_ex_def mmu_abi_ex_def le_Suc_eq)
  from l3_loop_pages [OF g this, of "0x4000"] show ?thesis by (simp add: mmu_ex_def)
qed

end
