(* ===== verification/Page_Walk.thy ===== *)
theory Page_Walk
  imports Page_Fill
begin

text \<open>
  aarch64\_map against elf\_vaddr\_to\_paddr (startup/lib/aarch64/aarch64\_map.c) for the 4 KB granule: the tables
  below an L1 table form a tree of pages of their own, every call keeps it, and the walk finds what the
  call mapped.  The header aarch64/mmu.h is described by arch\_4k: what the architecture documents of
  descriptors and table indices.
\<close>

unbundle bit_operations_syntax

section \<open>The architecture with the 4 KB granule\<close>

text \<open>The descriptor format and the table indices that the architecture documents: indices of nine bits, a
  table or page descriptor has the low bits 11, and the attributes lie outside the address field and
  the low bits.\<close>
definition pte_attrs :: "mmu_abi \<Rightarrow> u64 list" where
  "pte_attrs a = [PTE_AF a, PTE_URW a, PTE_KRW a, PTE_URO a, PTE_KRO a, PTE_UXN a, PTE_PXN a, PTE_SODEV a, PTE_DEV a,
     PTE_NC a, PTE_WBWA a, PTE_ISH a, PTE_nG a]"

definition clean :: "mmu_abi \<Rightarrow> u64 \<Rightarrow> bool" where
  "clean a x \<longleftrightarrow> x AND 0xFFFFFFFFF003 = 0 \<and> x AND PTE_CONTIG a = 0"

definition arch_4k :: "mmu_env \<Rightarrow> bool" where
  "arch_4k env \<longleftrightarrow> page env = 0x1000 \<and>
     (let a = me_abi env in
      (\<forall>v. L1_IDX a v = unat v div 2 ^ 30 mod 512) \<and> (\<forall>v. L2_IDX a v = unat v div 2 ^ 21 mod 512) \<and>
      (\<forall>v. L3_IDX a v = unat v div 2 ^ 12 mod 512) \<and> (\<forall>v. L3_VOFF a v = v AND 0xFFF) \<and>
      PTE_VALID a = 3 \<and> PTP_VALID a = 1 \<and> PTP_BLOCK a = 1 \<and> (\<forall>x. PTP_TYPE a x = x AND 3) \<and>
      (\<forall>x \<in> set (pte_attrs a). clean a x) \<and> PTE_CONTIG a AND 0xFFFFFFFFF003 = 0)"

lemma clean_or: "clean a x \<Longrightarrow> clean a y \<Longrightarrow> clean a (x OR y)"
  by (simp add: clean_def bit.conj_disj_distrib2)

lemma clean_0: "clean a 0"
  by (simp add: clean_def)

lemma if_or: "(if c then x OR y else x) = x OR (if c then y else (0 :: u64))"
  "(if c then x else x OR y) = x OR (if c then 0 else y)" "(if c then x OR y else x OR z) = x OR (if c then y else z)"
  by simp_all

text \<open>A descriptor is the address with attributes that do not depend on it.\<close>
lemma set_pte_form:
  assumes "arch_4k env"
  obtains c where "\<And>pa. set_pte env pa flags = pa OR (3 OR c)" "clean (me_abi env) c"
proof -
  let ?a = "me_abi env" and ?f = "me_prot env"
  define c where "c = PTE_AF ?a OR
    (if has flags (PROT_WRITE ?f) then (if has flags (PROT_USER ?f) then PTE_URW ?a else PTE_KRW ?a)
     else (if has flags (PROT_USER ?f) then PTE_URO ?a else PTE_KRO ?a)) OR
    (if has flags (PROT_EXEC ?f) then 0 else PTE_UXN ?a OR PTE_PXN ?a) OR
    (if has flags (PROT_DEVICE ?f) then (if has flags (PROT_NOCACHE ?f) then PTE_SODEV ?a else PTE_DEV ?a)
     else (if has flags (PROT_NOCACHE ?f) then PTE_NC ?a else PTE_WBWA ?a) OR (if 1 < me_cpus env then PTE_ISH ?a else 0)) OR
    (if meltdown env then PTE_nG ?a else 0)"
  have "set_pte env pa flags = pa OR (3 OR c)" for pa
    using assms unfolding set_pte_def Let_def c_def arch_4k_def by (simp only: if_or or.assoc)
  moreover have "clean ?a c"
    using assms unfolding c_def arch_4k_def Let_def pte_attrs_def by (auto intro!: clean_or clean_0)
  ultimately show thesis by (rule that)
qed

text \<open>Addresses of pages below 2 to the 48.\<close>
definition ptp :: "u64 \<Rightarrow> paddr" where
  "ptp e = e AND 0xFFFFFFFFF000"

definition good :: "paddr \<Rightarrow> bool" where
  "good t \<longleftrightarrow> ptp t = t"

lemma PTP_PADDR_4k: "arch_4k env \<Longrightarrow> PTP_PADDR env e = ptp e"
proof -
  assume "arch_4k env"
  then have "page env = 0x1000" by (simp add: arch_4k_def)
  moreover have "(0xFFFFFFFFF000 AND NOT 0xFFF :: u64) = 0xFFFFFFFFF000" by simp
  ultimately show ?thesis by (simp add: PTP_PADDR_def ptp_def and.assoc)
qed

lemma good_ptp [simp]: "good (ptp e)"
  by (simp add: good_def ptp_def and.assoc)

lemma addr_mask: "(0xFFFFFFFFF000 :: u64) = push_bit 12 (mask 36)"
  by (simp add: mask_eq_exp_minus_1 push_bit_eq_mult)

lemma unat_take_bit: "unat (take_bit n (t :: 'a :: len word)) = unat t mod 2 ^ n"
  by (simp only: unsigned_take_bit_eq) (simp only: take_bit_eq_mod)

lemma good_iff: "good t \<longleftrightarrow> unat t mod 4096 = 0 \<and> unat t < 2 ^ 48"
proof -
  have "good t \<longleftrightarrow> take_bit 12 t = 0 \<and> take_bit 48 t = t"
    unfolding good_def ptp_def addr_mask bit_eq_iff by (auto simp: bit_simps)
  also have "take_bit 12 t = 0 \<longleftrightarrow> unat t mod 4096 = 0"
    using unat_take_bit [of 12 t] by (simp add: word_unat_eq_iff)
  also have "take_bit 48 t = t \<longleftrightarrow> unat t mod 2 ^ 48 = unat t"
    using unat_take_bit [of 48 t] by (simp add: word_unat_eq_iff)
  also have "unat t mod 2 ^ 48 = unat t \<longleftrightarrow> unat t < 2 ^ 48"
    by (simp add: mod_eq_self_iff_div_eq_0 div_eq_0_iff)
  finally show ?thesis .
qed

text \<open>The slots of a table lie in its page, and those of different tables are different.\<close>
lemma unat_slot:
  assumes "good t" "i < 512"
  shows "unat (slot t i) = unat t + 8 * i"
proof -
  have "unat (8 * of_nat i :: u64) = 8 * i"
  proof -
    have "unat (of_nat (8 * i) :: u64) = 8 * i" using assms(2) by (intro unat_of_nat_small) simp
    then show ?thesis by simp
  qed
  then show ?thesis
    using assms by (simp add: slot_def good_iff unat_add_lem [THEN iffD1])
qed

lemma slot_eq_iff:
  assumes "good t" "good u" "i < 512" "j < 512"
  shows "slot t i = slot u j \<longleftrightarrow> t = u \<and> i = j"
proof
  assume "slot t i = slot u j"
  then have e: "unat t + 8 * i = unat u + 8 * j" using unat_slot assms by metis
  have "(unat t + 8 * i) div 4096 * 4096 = unat t" "(unat u + 8 * j) div 4096 * 4096 = unat u"
    using assms by (auto simp: good_iff elim!: dvdE simp: dvd_eq_mod_eq_0 [symmetric])
  then have "unat t = unat u" using e by simp
  then show "t = u \<and> i = j" using e by (simp add: word_unat_eq_iff)
qed simp

lemma slot_in_page:
  assumes "good t" "i < 512"
  shows "slot t i \<in> {t ..< t + 0x1000}"
proof -
  have "unat t + 4096 < 2 ^ 64" using assms(1) by (simp add: good_iff)
  then have "unat (t + 0x1000) = unat t + 4096" by (simp add: unat_add_lem [THEN iffD1])
  then show ?thesis using unat_slot [OF assms] assms(2) by (simp add: word_le_nat_alt word_less_nat_alt)
qed

text \<open>What a table or page descriptor holds.\<close>
lemma desc_fields:
  assumes "arch_4k env" "clean (me_abi env) c" "good pa" "x = pa OR (3 OR c) \<or> x = (pa OR (3 OR c)) OR PTE_CONTIG (me_abi env)"
  shows "ptp x = pa" "x AND 3 = 3"
proof -
  have c: "c AND 0xFFFFFFFFF003 = 0" and k: "PTE_CONTIG (me_abi env) AND 0xFFFFFFFFF003 = 0"
    using assms(1,2) by (simp_all add: clean_def arch_4k_def Let_def)
  have m: "y AND 0xFFFFFFFFF000 = 0 \<and> y AND 3 = 0" if "y AND 0xFFFFFFFFF003 = 0" for y :: u64
  proof -
    have "y AND 0xFFFFFFFFF000 = (y AND 0xFFFFFFFFF003) AND 0xFFFFFFFFF000" "y AND 3 = (y AND 0xFFFFFFFFF003) AND 3"
      by (simp_all add: and.assoc)
    then show ?thesis using that by simp
  qed
  have p: "pa AND 0xFFFFFFFFF000 = pa" using assms(3) by (simp add: good_def ptp_def)
  have "pa AND 3 = 0"
  proof -
    have "(pa AND 0xFFFFFFFFF000) AND 3 = 0" by (simp add: and.assoc)
    then show ?thesis using p by simp
  qed
  then show "ptp x = pa" "x AND 3 = 3"
    using assms(4) m [OF c] m [OF k] p by (auto simp: ptp_def bit.conj_disj_distrib2)
qed
section \<open>Pages for tables\<close>

lemma find_ram_aligned:
  "find_ram_in_range av l 0 re sz al 0 0 = a \<Longrightarrow> a \<noteq> NULL_PADDR \<Longrightarrow> \<exists>s. a = ROUND s (ucast al)"
proof (induction l)
  case (Cons r l)
  have fit: "fit_candidate 0 re sz al 0 0 s e = Some x \<Longrightarrow> x = ROUND s (ucast al)" for s e x
    by (auto simp: fit_candidate_def Let_def split: if_splits)
  have fit': "fit_candidate 0 re sz al 0 0 s e = Some a \<Longrightarrow> \<exists>s. a = ROUND s (ucast al)" for s e
    using fit by blast
  show ?case using Cons fit' by (auto split: if_splits option.splits)
qed simp

definition owned :: "vm \<Rightarrow> paddr \<Rightarrow> bool" where
  "owned s t \<longleftrightarrow> good t \<and> {t ..< t + 0x1000} \<inter> ram_free (vm_ram s) = {}"

text \<open>Memory that is free lies below 2 to the 48, the limit of the physical addresses.\<close>
definition mem_ok :: "vm \<Rightarrow> bool" where
  "mem_ok s \<longleftrightarrow> ram_inv (vm_ram s) \<and> ram_free (vm_ram s) \<subseteq> {..< 2 ^ 48}"

lemma page_diff: "good a \<Longrightarrow> x - a < 0x1000 \<longleftrightarrow> x \<in> {a ..< a + 0x1000}"
proof -
  assume "good a"
  then have "unat a + 4096 < 2 ^ 64" by (simp add: good_iff)
  then have s: "unat (a + 0x1000) = unat a + 4096" by (simp add: unat_add_lem [THEN iffD1])
  show ?thesis
  proof (cases "a \<le> x")
    case True
    then have "unat (x - a) = unat x - unat a" by (simp add: unat_sub)
    then show ?thesis using True s by (auto simp: word_less_nat_alt word_le_nat_alt)
  next
    case False
    then have lt: "unat x < unat a" by (simp add: word_le_nat_alt)
    have "unat (x - a) = 2 ^ 64 + unat x - unat a"
      using lt by (simp add: unat_sub_if_size word_size)
    moreover have "unat a < 2 ^ 48" using \<open>good a\<close> by (simp add: good_iff)
    ultimately show ?thesis using False lt by (auto simp: word_less_nat_alt)
  qed
qed

lemma page_calloc:
  assumes "mem_ok s" "vm_calloc env 0x1000 0x1000 s = ok (a, s')" "a \<noteq> NULL_PADDR"
  obtains r where "s' = s\<lparr>vm_ram := r, vm_mem := (\<lambda>x. if x \<in> {a ..< a + 0x1000} then 0 else vm_mem s x)\<rparr>"
    "good a" "{a ..< a + 0x1000} \<subseteq> ram_free (vm_ram s)" "ram_free r = ram_free (vm_ram s) - {a ..< a + 0x1000}"
    "mem_ok s'" "owned s' a"
proof -
  obtain r where ca: "calloc_ram (me_ram env) 0x1000 0x1000 (vm_ram s) = ok (a, r)"
    and s': "s' = s\<lparr>vm_ram := r, vm_mem := (\<lambda>x. if a \<noteq> NULL_PADDR \<and> x - a < 0x1000 then 0 else vm_mem s x)\<rparr>"
    using assms(2) by (auto simp: vm_calloc_def elim!: and_then_okE)
  obtain r0 where al: "alloc_ram (me_ram env) NULL_PADDR 0x1000 0x1000 (vm_ram s) = ok (a, r0)"
    and rr: "r = r0 \<or> r = r0\<lparr>rs_zeroed := (a, 0x1000) # rs_zeroed r0\<rparr>"
    using ca by (auto simp: calloc_ram_def elim!: and_then_okE split: if_splits)
  have r: "rs_ram r = rs_ram r0" "rs_avoid r = rs_avoid r0" using rr by auto
  have ok: "align_ok 0x1000 0x1000" unfolding align_ok_def by (intro conjI exI [of _ 12]) simp_all
  have inv: "ram_inv (vm_ram s)" and below: "ram_free (vm_ram s) \<subseteq> {..< 2 ^ 48}" using assms(1) by (simp_all add: mem_ok_def)
  note sp = alloc_any_spec [OF inv ok al assms(3)]
  have same: "ram_free r = ram_free r0" "ram_inv r = ram_inv r0"
    by (simp_all only: ram_free_def ram_inv_def avoid_list_of_def r)
  have f: "find_ram_in_range (avoid_list_of (vm_ram s)) (rs_ram (vm_ram s)) 0 (NOT 0) 0x1000 0x1000 0 0 = a"
    using al assms(3) unfolding find_ram_def [symmetric] by (auto simp: alloc_ram_def Let_def elim!: and_then_okE split: if_splits)
  obtain x where "a = ROUND x 0x1000"
    using find_ram_aligned [OF f assms(3)] by auto
  then have "a = TRUNC (x + 0xFFF) (2 ^ 12)" by (simp add: ROUND_def)
  then have al: "unat a mod 4096 = 0" using unat_TRUNC_pow2 [of 12 "x + 0xFFF"] by simp
  have "a \<in> ram_free (vm_ram s)"
    using sp(1,3) le_add_pos [OF sp(3)] by auto
  then have "a < 2 ^ 48" using below by auto
  then have g: "good a" using al by (simp add: good_iff word_less_nat_alt)
  have mem: "(\<lambda>x. if a \<noteq> NULL_PADDR \<and> x - a < 0x1000 then 0 else vm_mem s x) =
      (\<lambda>x. if x \<in> {a ..< a + 0x1000} then 0 else vm_mem s x)"
    using assms(3) page_diff [OF g] by auto
  show thesis
  proof (rule that)
    show "s' = s\<lparr>vm_ram := r, vm_mem := (\<lambda>x. if x \<in> {a ..< a + 0x1000} then 0 else vm_mem s x)\<rparr>"
      using s' mem by simp
    then show "mem_ok s'" "owned s' a" using sp same below g by (auto simp: mem_ok_def owned_def)
    show "ram_free r = ram_free (vm_ram s) - {a ..< a + 0x1000}" using sp same by simp
  qed (use g sp in auto)
qed

lemma page_pt_alloc:
  assumes "arch_4k env" "mem_ok s" "pt_alloc env s = ok (e, s')"
  obtains a r where "s' = s\<lparr>vm_ram := r, vm_mem := (\<lambda>x. if x \<in> {a ..< a + 0x1000} then 0 else vm_mem s x)\<rparr>"
    "ptp e = a" "e AND 3 = 3" "good a" "{a ..< a + 0x1000} \<subseteq> ram_free (vm_ram s)"
    "ram_free r = ram_free (vm_ram s) - {a ..< a + 0x1000}" "mem_ok s'" "owned s' a"
proof -
  have pg: "page env = 0x1000" using assms(1) by (simp add: arch_4k_def)
  obtain a s1 where al: "vm_calloc env 0x1000 0x1000 s = ok (a, s1)" "a \<noteq> NULL_PADDR" "s' = s1"
    and e: "e = set_pte env a (PROT_READ (me_prot env) OR PROT_WRITE (me_prot env))"
    using assms(3) by (auto simp: pt_alloc_def pg res_simps split: if_splits)
  obtain c where c: "\<And>pa. set_pte env pa (PROT_READ (me_prot env) OR PROT_WRITE (me_prot env)) = pa OR (3 OR c)"
    "clean (me_abi env) c"
    using set_pte_form [OF assms(1)] by blast
  show thesis
    by (rule page_calloc [OF assms(2) al(1,2)])
      (use desc_fields [OF assms(1) c(2)] al(3) e c(1) that in blast)
qed

text \<open>What need\_table does when the entry is empty: a cleared page that was free becomes the table of the
  entry.\<close>
lemma need_table_new:
  assumes a4: "arch_4k env" and m: "mem_ok s" and t: "owned s t" and i: "i < 512"
    and z: "vm_mem s (slot t i) = 0" and run: "need_table env t i s = ok s'"
  obtains a where "mem_ok s'" "owned s' a" "\<And>u. owned s u \<Longrightarrow> owned s' u \<and> u \<noteq> a"
    "ptp (vm_mem s' (slot t i)) = a" "vm_mem s' (slot t i) AND 3 = 3"
    "\<And>u j. owned s u \<Longrightarrow> j < 512 \<Longrightarrow> (u, j) \<noteq> (t, i) \<Longrightarrow> vm_mem s' (slot u j) = vm_mem s (slot u j)"
    "\<And>j. j < 512 \<Longrightarrow> vm_mem s' (slot a j) = 0" "L1_ttbr0 s' = L1_ttbr0 s" "L1_ttbr1 s' = L1_ttbr1 s"
proof -
  obtain e s1 where pa: "pt_alloc env s = ok (e, s1)" and s': "s' = put_entry t i e s1"
    using run z by (auto simp: need_table_def elim!: and_then_okE)
  obtain a r where s1: "s1 = s\<lparr>vm_ram := r, vm_mem := (\<lambda>x. if x \<in> {a ..< a + 0x1000} then 0 else vm_mem s x)\<rparr>"
    and e: "ptp e = a" "e AND 3 = 3" and a: "good a" "{a ..< a + 0x1000} \<subseteq> ram_free (vm_ram s)"
      "ram_free r = ram_free (vm_ram s) - {a ..< a + 0x1000}" and ok: "mem_ok s1" "owned s1 a"
    by (rule page_pt_alloc [OF a4 m pa])
  have apart: "slot u j \<notin> {a ..< a + 0x1000}" if "owned s u" "j < 512" for u j
  proof -
    have "slot u j \<in> {u ..< u + 0x1000}" using that by (intro slot_in_page) (simp_all add: owned_def)
    moreover have "{u ..< u + 0x1000} \<inter> ram_free (vm_ram s) = {}" using that by (simp add: owned_def)
    ultimately show ?thesis using a(2) by blast
  qed
  have apart': "slot u j \<noteq> slot a k" if "owned s u" "j < 512" "k < 512" for u j k
    using apart [OF that(1,2)] slot_in_page [OF a(1) that(3)] by metis
  have ne: "u \<noteq> a" if "owned s u" for u using apart' [OF that, of 0 0] by auto
  have mem: "vm_mem s' = (\<lambda>x. if x \<in> {a ..< a + 0x1000} then 0 else vm_mem s x)(slot t i := e)"
    by (simp add: s' s1 put_entry_def)
  have ram: "vm_ram s' = r" by (simp add: s' s1 put_entry_def)
  show thesis
  proof (rule that)
    show "mem_ok s'" "owned s' a" using ok by (simp_all add: mem_ok_def owned_def ram s1)
    show "owned s' u \<and> u \<noteq> a" if "owned s u" for u
      using that ne [OF that] a(3) by (auto simp: owned_def ram)
    show "ptp (vm_mem s' (slot t i)) = a" "vm_mem s' (slot t i) AND 3 = 3" using e by (simp_all add: mem)
    show "vm_mem s' (slot u j) = vm_mem s (slot u j)" if "owned s u" "j < 512" "(u, j) \<noteq> (t, i)" for u j
    proof -
      have "slot u j \<noteq> slot t i" using slot_eq_iff [of u t j i] that t i by (auto simp: owned_def)
      then show ?thesis using apart [OF that(1,2)] by (auto simp: mem)
    qed
    show "vm_mem s' (slot a j) = 0" if "j < 512" for j
      using apart' [OF t i that] slot_in_page [OF a(1) that] by (simp add: mem)
  qed (simp_all add: s' s1 put_entry_def)
qed

section \<open>The tree of tables\<close>

text \<open>An entry that is empty, or that names a table.\<close>
definition link :: "u64 \<Rightarrow> paddr option \<Rightarrow> bool" where
  "link e t = (case t of None \<Rightarrow> e = 0 | Some u \<Rightarrow> ptp e = u \<and> e AND 3 = 3)"

lemma link_simps [simp]:
  "link e None \<longleftrightarrow> e = 0" "link e (Some u) \<longleftrightarrow> ptp e = u \<and> e AND 3 = 3"
  by (simp_all add: link_def)

text \<open>The tables below l1 for the 1 GB blocks S: T2 gives the table of a block, T3 that of a 2 MB chunk.  All
  tables are different.\<close>
definition shape :: "paddr \<Rightarrow> nat set \<Rightarrow> (nat \<rightharpoonup> paddr) \<Rightarrow> (nat \<rightharpoonup> paddr) \<Rightarrow> bool" where
  "shape l1 S T2 T3 \<longleftrightarrow> l1 \<notin> ran T2 \<union> ran T3 \<and> ran T2 \<inter> ran T3 = {} \<and> inj_on T2 (dom T2) \<and> inj_on T3 (dom T3) \<and>
     dom T2 \<subseteq> S \<and> (\<forall>c \<in> dom T3. c div 512 \<in> dom T2) \<and> (\<exists>B. S \<subseteq> {512 * B ..< 512 * B + 512})"

definition links :: "paddr \<Rightarrow> nat set \<Rightarrow> (nat \<rightharpoonup> paddr) \<Rightarrow> (nat \<rightharpoonup> paddr) \<Rightarrow> (paddr \<Rightarrow> u64) \<Rightarrow> bool" where
  "links l1 S T2 T3 m \<longleftrightarrow> (\<forall>b \<in> S. link (m (slot l1 (b mod 512))) (T2 b)) \<and>
     (\<forall>c t. T2 (c div 512) = Some t \<longrightarrow> link (m (slot t (c mod 512))) (T3 c))"

text \<open>Every table has a page of its own, which is not free.\<close>
definition tree :: "paddr \<Rightarrow> nat set \<Rightarrow> (nat \<rightharpoonup> paddr) \<Rightarrow> (nat \<rightharpoonup> paddr) \<Rightarrow> vm \<Rightarrow> bool" where
  "tree l1 S T2 T3 s \<longleftrightarrow> mem_ok s \<and> (\<forall>t \<in> insert l1 (ran T2 \<union> ran T3). owned s t) \<and>
     shape l1 S T2 T3 \<and> links l1 S T2 T3 (vm_mem s)"

text \<open>The descriptor of a page.\<close>
definition leaf :: "(paddr \<Rightarrow> u64) \<Rightarrow> (nat \<rightharpoonup> paddr) \<Rightarrow> nat \<Rightarrow> u64" where
  "leaf m T3 P = (case T3 (P div 512) of None \<Rightarrow> 0 | Some u \<Rightarrow> m (slot u (P mod 512)))"

lemma block_mod_inj:
  assumes "S \<subseteq> {512 * B ..< 512 * B + 512}" "b \<in> S" "c \<in> S" "b mod 512 = (c :: nat) mod 512"
  shows "b = c"
proof -
  have "b div 512 = B" "c div 512 = B" using assms(1-3) by (auto intro!: div_nat_eqI)
  then show ?thesis using assms(4) by (metis div_mult_mod_eq)
qed

lemma inj_on_upd:
  assumes "inj_on T (dom T)" "a \<notin> ran T"
  shows "inj_on (T(b \<mapsto> a)) (dom (T(b \<mapsto> a)))"
proof (rule inj_onI)
  fix x y assume xy: "x \<in> dom (T(b \<mapsto> a))" "y \<in> dom (T(b \<mapsto> a))" "(T(b \<mapsto> a)) x = (T(b \<mapsto> a)) y"
  have "T z \<noteq> Some a" for z using assms(2) by (auto simp: ran_def)
  then show "x = y" using xy inj_onD [OF assms(1), of x y] by (auto simp: dom_def split: if_splits)
qed

lemma tree_owned:
  assumes "tree l1 S T2 T3 s"
  shows "owned s l1" "T2 b = Some t \<Longrightarrow> owned s t" "T3 c = Some u \<Longrightarrow> owned s u"
  using assms by (auto simp: tree_def intro: ranI)

lemma linksD:
  assumes "links l1 S T2 T3 m"
  shows "b \<in> S \<Longrightarrow> link (m (slot l1 (b mod 512))) (T2 b)"
    "T2 (c div 512) = Some t \<Longrightarrow> link (m (slot t (c mod 512))) (T3 c)"
  using assms by (auto simp: links_def)

lemma links_cong:
  assumes l: "links l1 S T2 T3 m"
    and same: "\<And>j. j < 512 \<Longrightarrow> m' (slot l1 j) = m (slot l1 j)" "\<And>b t j. T2 b = Some t \<Longrightarrow> j < 512 \<Longrightarrow> m' (slot t j) = m (slot t j)"
  shows "links l1 S T2 T3 m'"
  unfolding links_def
proof (intro conjI ballI allI impI)
  show "link (m' (slot l1 (b mod 512))) (T2 b)" if "b \<in> S" for b
    using linksD(1) [OF l that] same(1) [of "b mod 512"] by simp
  show "link (m' (slot t (c mod 512))) (T3 c)" if "T2 (c div 512) = Some t" for c t
    using linksD(2) [OF l that] same(2) [OF that, of "c mod 512"] by simp
qed

text \<open>A missing table of a block.\<close>
lemma need_block_table:
  assumes a4: "arch_4k env" and tr: "tree l1 S T2 T3 s" and b: "b \<in> S"
    and run: "need_table env l1 (b mod 512) s = ok s'"
  obtains T2' t where "tree l1 S T2' T3 s'" "T2' b = Some t" "ptp (vm_mem s' (slot l1 (b mod 512))) = t"
    "\<And>P. leaf (vm_mem s') T3 P = leaf (vm_mem s) T3 P" "L1_ttbr0 s' = L1_ttbr0 s" "L1_ttbr1 s' = L1_ttbr1 s"
proof -
  have shp: "shape l1 S T2 T3" and lks: "links l1 S T2 T3 (vm_mem s)" using tr by (auto simp: tree_def)
  have i: "b mod 512 < 512" by simp
  show thesis
proof (cases "T2 b")
  case (Some t)
  have l: "ptp (vm_mem s (slot l1 (b mod 512))) = t" "vm_mem s (slot l1 (b mod 512)) AND 3 = 3"
    using linksD(1) [OF lks b] Some by simp_all
  then have "vm_mem s (slot l1 (b mod 512)) \<noteq> 0" by auto
  then have "s' = s" using run by (simp add: need_table_def)
  then show thesis using that [of T2 t] tr Some l(1) by simp
next
  case None
  have z: "vm_mem s (slot l1 (b mod 512)) = 0"
    using linksD(1) [OF lks b] None by simp
  have mok: "mem_ok s" using tr by (simp add: tree_def)
  obtain a where a: "mem_ok s'" "owned s' a" "\<And>u. owned s u \<Longrightarrow> owned s' u \<and> u \<noteq> a"
    "ptp (vm_mem s' (slot l1 (b mod 512))) = a" "vm_mem s' (slot l1 (b mod 512)) AND 3 = 3"
    "\<And>u j. owned s u \<Longrightarrow> j < 512 \<Longrightarrow> (u, j) \<noteq> (l1, b mod 512) \<Longrightarrow> vm_mem s' (slot u j) = vm_mem s (slot u j)"
    "\<And>j. j < 512 \<Longrightarrow> vm_mem s' (slot a j) = 0" "L1_ttbr0 s' = L1_ttbr0 s" "L1_ttbr1 s' = L1_ttbr1 s"
    by (rule need_table_new [OF a4 mok tree_owned(1) [OF tr] i z run]) (rule that; assumption | simp)
  note own = tree_owned [OF tr]
  obtain B where B: "S \<subseteq> {512 * B ..< 512 * B + 512}" using shp by (auto simp: shape_def)
  have fresh: "a \<notin> ran T2" "a \<notin> ran T3" "a \<noteq> l1"
    using a(3) [OF own(1)] a(3) [OF own(2)] a(3) [OF own(3)] by (auto simp: ran_def) (blast+)?
  have ran: "ran (T2(b \<mapsto> a)) = insert a (ran T2)" using None by simp
  have "shape l1 S (T2(b \<mapsto> a)) T3"
    using shp fresh b inj_on_upd [of T2 a b] unfolding shape_def ran by auto
  moreover have "links l1 S (T2(b \<mapsto> a)) T3 (vm_mem s')"
    unfolding links_def
  proof (intro conjI ballI allI impI)
    fix x assume x: "x \<in> S"
    show "link (vm_mem s' (slot l1 (x mod 512))) ((T2(b \<mapsto> a)) x)"
    proof (cases "x = b")
      case False
      then have "x mod 512 \<noteq> b mod 512" using block_mod_inj [OF B x b] by auto
      then show ?thesis using False linksD(1) [OF lks x] a(6) [OF own(1), of "x mod 512"] by simp
    qed (simp add: link_def a)
  next
    fix c t assume c: "(T2(b \<mapsto> a)) (c div 512) = Some t"
    show "link (vm_mem s' (slot t (c mod 512))) (T3 c)"
    proof (cases "c div 512 = b")
      case True
      then have "T3 c = None" using shp None by (auto simp: shape_def)
      then show ?thesis using True c a(7) by simp
    next
      case False
      then have T: "T2 (c div 512) = Some t" using c by simp
      then have "t \<noteq> l1" using shp by (auto simp: shape_def intro: ranI)
      then show ?thesis using linksD(2) [OF lks T] a(6) [OF own(2) [OF T], of "c mod 512"] by simp
    qed
  qed
  ultimately have "tree l1 S (T2(b \<mapsto> a)) T3 s'"
    using a(1,2,3) tr unfolding tree_def ran by auto
  moreover have "leaf (vm_mem s') T3 P = leaf (vm_mem s) T3 P" for P
  proof (cases "T3 (P div 512)")
    case (Some u)
    then have "u \<noteq> l1" using shp by (auto simp: shape_def intro: ranI)
    then show ?thesis using Some a(6) [OF own(3) [OF Some], of "P mod 512"] by (simp add: leaf_def)
  qed (simp add: leaf_def)
  ultimately show thesis using that [of "T2(b \<mapsto> a)" a] a by simp
qed
qed

text \<open>A missing table of a chunk.\<close>
lemma need_chunk_table:
  assumes a4: "arch_4k env" and tr: "tree l1 S T2 T3 s" and t: "T2 (c div 512) = Some t"
    and run: "need_table env t (c mod 512) s = ok s'"
  obtains T3' u where "tree l1 S T2 T3' s'" "T3' c = Some u" "ptp (vm_mem s' (slot t (c mod 512))) = u"
    "\<And>P. leaf (vm_mem s') T3' P = leaf (vm_mem s) T3 P" "L1_ttbr0 s' = L1_ttbr0 s" "L1_ttbr1 s' = L1_ttbr1 s"
proof -
  have shp: "shape l1 S T2 T3" and lks: "links l1 S T2 T3 (vm_mem s)" using tr by (auto simp: tree_def)
  have i: "c mod 512 < 512" by simp
  show thesis
proof (cases "T3 c")
  case (Some u)
  have l: "ptp (vm_mem s (slot t (c mod 512))) = u" "vm_mem s (slot t (c mod 512)) AND 3 = 3"
    using linksD(2) [OF lks t] Some by simp_all
  then have "vm_mem s (slot t (c mod 512)) \<noteq> 0" by auto
  then have "s' = s" using run by (simp add: need_table_def)
  then show thesis using that [of T3 u] tr Some l(1) by simp
next
  case None
  have z: "vm_mem s (slot t (c mod 512)) = 0"
    using linksD(2) [OF lks t] None by simp
  have mok: "mem_ok s" using tr by (simp add: tree_def)
  note own = tree_owned [OF tr]
  obtain a where a: "mem_ok s'" "owned s' a" "\<And>u. owned s u \<Longrightarrow> owned s' u \<and> u \<noteq> a"
    "ptp (vm_mem s' (slot t (c mod 512))) = a" "vm_mem s' (slot t (c mod 512)) AND 3 = 3"
    "\<And>u j. owned s u \<Longrightarrow> j < 512 \<Longrightarrow> (u, j) \<noteq> (t, c mod 512) \<Longrightarrow> vm_mem s' (slot u j) = vm_mem s (slot u j)"
    "\<And>j. j < 512 \<Longrightarrow> vm_mem s' (slot a j) = 0" "L1_ttbr0 s' = L1_ttbr0 s" "L1_ttbr1 s' = L1_ttbr1 s"
    by (rule need_table_new [OF a4 mok own(2) [OF t] i z run]) (rule that; assumption | simp)
  have fresh: "a \<notin> ran T2" "a \<notin> ran T3" "a \<noteq> l1"
    using a(3) [OF own(1)] a(3) [OF own(2)] a(3) [OF own(3)] by (auto simp: ran_def) (blast+)?
  have ran: "ran (T3(c \<mapsto> a)) = insert a (ran T3)" using None by simp
  have "shape l1 S T2 (T3(c \<mapsto> a))"
    using shp fresh t inj_on_upd [of T3 a c] unfolding shape_def ran by auto
  moreover have "links l1 S T2 (T3(c \<mapsto> a)) (vm_mem s')"
    unfolding links_def
  proof (intro conjI ballI allI impI)
    fix x assume x: "x \<in> S"
    have "l1 \<noteq> t" using shp t by (auto simp: shape_def intro: ranI)
    then show "link (vm_mem s' (slot l1 (x mod 512))) (T2 x)"
      using linksD(1) [OF lks x] a(6) [OF own(1), of "x mod 512"] by simp
  next
    fix d v assume d: "T2 (d div 512) = Some v"
    show "link (vm_mem s' (slot v (d mod 512))) ((T3(c \<mapsto> a)) d)"
    proof (cases "d = c")
      case True
      then show ?thesis using d t a(4,5) by simp
    next
      case False
      have "(v, d mod 512) \<noteq> (t, c mod 512)"
      proof
        assume e: "(v, d mod 512) = (t, c mod 512)"
        then have "d div 512 = c div 512"
          using shp d t inj_onD [of T2 "dom T2" "d div 512" "c div 512"] by (auto simp: shape_def)
        then show False using e False by (metis div_mult_mod_eq prod.inject)
      qed
      then show ?thesis using False linksD(2) [OF lks d] a(6) [OF own(2) [OF d], of "d mod 512"] by simp
    qed
  qed
  ultimately have "tree l1 S T2 (T3(c \<mapsto> a)) s'"
    using a(1,2,3) tr unfolding tree_def ran by auto
  moreover have "leaf (vm_mem s') (T3(c \<mapsto> a)) P = leaf (vm_mem s) T3 P" for P
  proof (cases "P div 512 = c")
    case True
    then show ?thesis using None a(7) by (simp add: leaf_def)
  next
    case False
    show ?thesis
    proof (cases "T3 (P div 512)")
      case (Some u)
      then have "u \<noteq> t" using shp t by (auto simp: shape_def ran_def)
      then show ?thesis using Some False a(6) [OF own(3) [OF Some], of "P mod 512"] by (simp add: leaf_def)
    qed (simp add: leaf_def False)
  qed
  ultimately show thesis using that [of "T3(c \<mapsto> a)" a] a by simp
qed
qed

section \<open>Mapping through the tree\<close>

text \<open>n pages from the page number V on have the descriptors from pte on, with or without the hint, and every
  other page has the descriptor it had.\<close>
definition mapped :: "mmu_env \<Rightarrow> nat \<Rightarrow> nat \<Rightarrow> u64 \<Rightarrow> (nat \<Rightarrow> u64) \<Rightarrow> (nat \<Rightarrow> u64) \<Rightarrow> bool" where
  "mapped env V n pte f f' \<longleftrightarrow>
     (\<forall>k < n. f' (V + k) \<in> {pte + of_nat k * page env, (pte + of_nat k * page env) OR PTE_CONTIG (me_abi env)}) \<and>
     (\<forall>P. P \<notin> {V ..< V + n} \<longrightarrow> f' P = f P)"

lemma mapped_trans:
  assumes a: "mapped env V n pte f f1" and b: "mapped env (V + n) k (pte + of_nat n * page env) f1 f2"
  shows "mapped env V (n + k) pte f f2"
  unfolding mapped_def
proof (intro conjI allI impI)
  fix j assume j: "j < n + k"
  show "f2 (V + j) \<in> {pte + of_nat j * page env, (pte + of_nat j * page env) OR PTE_CONTIG (me_abi env)}"
  proof (cases "j < n")
    case True
    then show ?thesis using a b by (simp add: mapped_def)
  next
    case False
    then obtain l where l: "j = n + l" by (metis le_Suc_ex not_less)
    have d: "pte + of_nat n * page env + of_nat l * page env = pte + of_nat j * page env" by (simp add: l algebra_simps)
    have "f2 (V + n + l) \<in> {pte + of_nat n * page env + of_nat l * page env,
        (pte + of_nat n * page env + of_nat l * page env) OR PTE_CONTIG (me_abi env)}"
      using b j l unfolding mapped_def by (metis add_less_cancel_left)
    then show ?thesis unfolding d l by (simp add: add.assoc)
  qed
next
  fix P assume "P \<notin> {V ..< V + (n + k)}"
  then show "f2 P = f P" using a b by (auto simp: mapped_def)
qed

lemma mapped_none: "mapped env V 0 pte f f"
  by (simp add: mapped_def)

text \<open>Where a walk stands: at page V of the address space, n pages before the end.\<close>
definition at_page :: "mmu_env \<Rightarrow> u64 \<Rightarrow> nat \<Rightarrow> nat \<Rightarrow> u64 \<Rightarrow> u64 \<Rightarrow> bool" where
  "at_page env end V n va pte \<longleftrightarrow> unat va = V * 4096 \<and> unat end = (V + n) * 4096 \<and>
     (\<forall>k \<le> n. (pte + of_nat k * page env) AND PTE_CONTIG (me_abi env) = 0)"

lemma arch_granule: "arch_4k env \<Longrightarrow> granule env 12 4"
  by (simp add: granule_def arch_4k_def)

lemma at_page_step:
  assumes a4: "arch_4k env" and at: "at_page env end V n va pte" and k: "k \<le> n"
  shows "at_page env end (V + k) (n - k) (va + of_nat k * page env) (pte + of_nat k * page env)"
proof -
  have v: "unat (va + of_nat k * page env) = unat va + k * 2 ^ 12"
  proof (rule unat_va_advance [OF arch_granule [OF a4] _ k])
    show "unat va + n * 2 ^ 12 = unat end" using at by (simp add: at_page_def algebra_simps)
  qed
  have "(pte + of_nat k * page env + of_nat j * page env) AND PTE_CONTIG (me_abi env) = 0" if "j \<le> n - k" for j
  proof -
    have "(pte + of_nat (k + j) * page env) AND PTE_CONTIG (me_abi env) = 0"
      using at k that unfolding at_page_def by (metis add.commute le_diff_conv2)
    then show ?thesis by (simp add: algebra_simps)
  qed
  then show ?thesis using at v k by (simp add: at_page_def algebra_simps)
qed

lemma at_page_more: "at_page env end V n va pte \<Longrightarrow> va < end \<longleftrightarrow> 0 < n"
  by (simp add: at_page_def word_less_nat_alt)

lemma at_page_idx:
  assumes "arch_4k env" "at_page env end V n va pte"
  shows "L1_IDX (me_abi env) va = V div 512 div 512 mod 512" "L2_IDX (me_abi env) va = V div 512 mod 512"
    "L3_IDX (me_abi env) va = V mod 512"
proof -
  have va: "unat va = V * 4096" using assms(2) by (simp add: at_page_def)
  have d: "V * 4096 div 2 ^ 30 = V div 512 div 512" "V * 4096 div 2 ^ 21 = V div 512" "V * 4096 div 2 ^ 12 = V"
    using div_mult_mult2 [of 4096 V "262144 :: nat"] div_mult_mult2 [of 4096 V "512 :: nat"]
    by (simp_all add: div_mult2_eq [symmetric])
  show "L1_IDX (me_abi env) va = V div 512 div 512 mod 512" "L2_IDX (me_abi env) va = V div 512 mod 512"
    "L3_IDX (me_abi env) va = V mod 512"
    using assms(1) by (simp_all only: arch_4k_def Let_def va d)
qed

text \<open>One table: the pages that remain, as far as the chunk of 2 MB goes.\<close>
lemma l3_loop_chunk:
  assumes a4: "arch_4k env" and tr: "tree l1 S T2 T3 s" and u: "T3 (V div 512) = Some u"
    and at: "at_page env end V n va pte"
    and w: "w = l3_loop env u end \<lparr>wk_mem = vm_mem s, wk_i = V mod 512, wk_va = va, wk_pte = pte\<rparr>"
    and k: "k = min n (512 - V mod 512)"
  shows "tree l1 S T2 T3 (s\<lparr>vm_mem := wk_mem w\<rparr>)" "wk_va w = va + of_nat k * page env"
    "wk_pte w = pte + of_nat k * page env" "mapped env V k pte (leaf (vm_mem s) T3) (leaf (wk_mem w) T3)"
proof -
  let ?w = "\<lparr>wk_mem = vm_mem s, wk_i = V mod 512, wk_va = va, wk_pte = pte\<rparr>"
  note g = arch_granule [OF a4]
  have va: "unat va = V * 4096" using at by (simp add: at_page_def)
  have "V * 4096 div 2 ^ 12 mod 2 ^ 4 = V mod 512 mod 2 ^ 4" by (simp add: mod_mod_cancel)
  then have "walk_ok env 12 4 end n ?w"
    using at by (simp add: walk_ok_def at_page_def algebra_simps)
  from l3_loop_fills [OF g this, of u]
  have adv: "advanced env u k ?w w" by (simp add: k w)
  then show "wk_va w = va + of_nat k * page env" "wk_pte w = pte + of_nat k * page env"
    by (simp_all add: advanced_def)
  have fl: "filled u (page env) (PTE_CONTIG (me_abi env)) (V mod 512) k pte (vm_mem s) (wk_mem w)"
    using adv by (simp add: advanced_def)
  note own = tree_owned [OF tr]
  have shp: "shape l1 S T2 T3" and lks: "links l1 S T2 T3 (vm_mem s)" using tr by (auto simp: tree_def)
  have gd: "good t" if "owned s t" for t using that by (simp add: owned_def)
  have other: "wk_mem w (slot t j) = vm_mem s (slot t j)" if t: "owned s t" "j < 512" "t \<noteq> u" for t j
  proof -
    have "slot t j \<notin> slot u ` {V mod 512 ..< V mod 512 + k}"
    proof
      assume "slot t j \<in> slot u ` {V mod 512 ..< V mod 512 + k}"
      then obtain i where "slot t j = slot u i" "i < 512" using k by auto
      then show False using slot_eq_iff [OF gd [OF t(1)] gd [OF own(3) [OF u]] t(2)] t(3) by simp
    qed
    then show ?thesis using fl by (simp add: filled_def)
  qed
  have ne: "l1 \<noteq> u" "T2 b = Some t \<Longrightarrow> t \<noteq> u" for b t
    using shp u by (auto simp: shape_def ran_def)
  have "links l1 S T2 T3 (wk_mem w)"
    by (rule links_cong [OF lks]) (use other own ne in auto)
  then show "tree l1 S T2 T3 (s\<lparr>vm_mem := wk_mem w\<rparr>)"
    using tr by (simp add: tree_def mem_ok_def owned_def)
  show "mapped env V k pte (leaf (vm_mem s) T3) (leaf (wk_mem w) T3)"
    unfolding mapped_def
  proof (intro conjI allI impI)
    fix j assume j: "j < k"
    have r: "V mod 512 + j < 512" using j k by linarith
    have "V + j = (V mod 512 + j) + V div 512 * 512" using div_mult_mod_eq [of V 512] by linarith
    then have "(V + j) div 512 = V div 512" "(V + j) mod 512 = V mod 512 + j"
      using r by (simp_all only: div_mult_self1 mod_mult_self1 mod_less div_less add_0)
    then show "leaf (wk_mem w) T3 (V + j) \<in> {pte + of_nat j * page env, (pte + of_nat j * page env) OR PTE_CONTIG (me_abi env)}"
      using fl j u by (simp add: leaf_def filled_def)
  next
    fix P assume P: "P \<notin> {V ..< V + k}"
    show "leaf (wk_mem w) T3 P = leaf (vm_mem s) T3 P"
    proof (cases "P div 512 = V div 512")
      case True
      have "P mod 512 \<notin> {V mod 512 ..< V mod 512 + k}"
      proof
        assume "P mod 512 \<in> {V mod 512 ..< V mod 512 + k}"
        moreover have "P = V div 512 * 512 + P mod 512" "V = V div 512 * 512 + V mod 512" using True by (metis div_mult_mod_eq)+
        ultimately show False using P unfolding atLeastLessThan_iff by linarith
      qed
      then have "slot u (P mod 512) \<notin> slot u ` {V mod 512 ..< V mod 512 + k}"
      proof (rule contrapos_nn)
        assume "slot u (P mod 512) \<in> slot u ` {V mod 512 ..< V mod 512 + k}"
        then obtain x where x: "slot u (P mod 512) = slot u x" "x \<in> {V mod 512 ..< V mod 512 + k}" by auto
        have "P mod 512 < 512" by simp
        moreover have "x < 512" using x(2) k by auto
        ultimately have "P mod 512 = x" using x(1) slot_inj [of "P mod 512" x u] by simp
        then show "P mod 512 \<in> {V mod 512 ..< V mod 512 + k}" using x(2) by simp
      qed
      then show ?thesis using fl u True by (simp add: leaf_def filled_def)
    next
      case False
      show ?thesis
      proof (cases "T3 (P div 512)")
        case (Some t)
        have "t \<noteq> u" using shp u Some False inj_onD [of T3 "dom T3" "P div 512" "V div 512"] by (auto simp: shape_def)
        then show ?thesis using other [OF own(3) [OF Some], of "P mod 512"] Some by (simp add: leaf_def)
      qed (simp add: leaf_def)
    qed
  qed
qed

text \<open>The result of a loop: k pages are mapped, the tree stands, and the address and the descriptor are k pages
  further.\<close>
definition goes :: "mmu_env \<Rightarrow> paddr \<Rightarrow> nat set \<Rightarrow> nat \<Rightarrow> nat \<Rightarrow> u64 \<Rightarrow> u64 \<Rightarrow> (nat \<rightharpoonup> paddr) \<Rightarrow> vm \<Rightarrow> u64 \<times> u64 \<times> vm \<Rightarrow> bool" where
  "goes env l1 S V k va pte T3 s r \<longleftrightarrow> (case r of (va', pte', s') \<Rightarrow>
     va' = va + of_nat k * page env \<and> pte' = pte + of_nat k * page env \<and>
     L1_ttbr0 s' = L1_ttbr0 s \<and> L1_ttbr1 s' = L1_ttbr1 s \<and>
     (\<exists>T2' T3'. tree l1 S T2' T3' s' \<and> mapped env V k pte (leaf (vm_mem s) T3) (leaf (vm_mem s') T3')))"

lemma goes_then:
  assumes "va1 = va + of_nat k * page env" "pte1 = pte + of_nat k * page env"
    "L1_ttbr0 s1 = L1_ttbr0 s" "L1_ttbr1 s1 = L1_ttbr1 s" "mapped env V k pte (leaf (vm_mem s) T3) (leaf (vm_mem s1) T3')"
    "goes env l1 S (V + k) j va1 pte1 T3' s1 r"
  shows "goes env l1 S V (k + j) va pte T3 s r"
proof -
  obtain va2 pte2 s2 where r: "r = (va2, pte2, s2)" by (cases r)
  then obtain T2' T3'' where t: "tree l1 S T2' T3'' s2"
    and m: "mapped env (V + k) j pte1 (leaf (vm_mem s1) T3') (leaf (vm_mem s2) T3'')"
    using assms(6) by (auto simp: goes_def)
  have "mapped env V (k + j) pte (leaf (vm_mem s) T3) (leaf (vm_mem s2) T3'')"
    by (rule mapped_trans [OF assms(5)]) (use m assms(2) in simp)
  then show ?thesis using assms t r by (auto simp: goes_def algebra_simps)
qed

lemma goes_none: "tree l1 S T2 T3 s \<Longrightarrow> goes env l1 S V 0 va pte T3 s (va, pte, s)"
  unfolding goes_def by simp (blast intro: mapped_none)

text \<open>The pages that remain in the block of 1 GB.\<close>
definition in_block :: "nat \<Rightarrow> nat \<Rightarrow> nat \<Rightarrow> nat" where
  "in_block b V n = min n (512 * 512 * (b + 1) - V)"

lemma min_split: "V + r \<le> M \<Longrightarrow> min n r + min (n - min n r) (M - (V + min n r)) = min n (M - (V :: nat))"
  by auto

lemma large_4k: "arch_4k env \<Longrightarrow> \<not> USE_LARGE_PAGE env"
  by (simp add: arch_4k_def USE_LARGE_PAGE_def)

lemma npte_4k: "arch_4k env \<Longrightarrow> NPTE_PTBL env = 512"
  using granule_facts(3) [OF arch_granule] by simp

lemma l2_loop_goes:
  assumes a4: "arch_4k env"
  shows "tree l1 S T2 T3 s \<Longrightarrow> T2 b = Some l2 \<Longrightarrow> at_page env end V n va pte \<Longrightarrow>
     n = 0 \<or> V div 512 = 512 * b + i \<and> i \<le> 512 \<Longrightarrow> l2_loop env l2 i end va pte s = ok r \<Longrightarrow>
     goes env l1 S V (in_block b V n) va pte T3 s r"
proof (induction "512 - i" arbitrary: i V n va pte s T2 T3 r rule: less_induct)
  case less
  note npte = npte_4k [OF a4] and more = at_page_more [OF less.prems(3)]
  show ?case
  proof (cases "i < 512 \<and> 0 < n")
    case False
    then have r: "r = (va, pte, s)" using less.prems(5) by (subst (asm) l2_loop.simps) (auto simp: npte more)
    have "in_block b V n = 0" using False less.prems(4) by (auto simp: in_block_def)
    then show ?thesis using goes_none [OF less.prems(1)] r by simp
  next
    case True
    then have V: "V div 512 = 512 * b + i" using less.prems(4) by simp
    then have i: "V div 512 mod 512 = i" and b: "V div 512 div 512 = b" using True by auto
    obtain s1 where need: "need_table env l2 i s = ok s1"
      and rest: "l2_loop env l2 (i + 1) end
        (wk_va (l3_loop env (PTP_PADDR env (vm_mem s1 (slot l2 i))) end
          \<lparr>wk_mem = vm_mem s1, wk_i = L3_IDX (me_abi env) va, wk_va = va, wk_pte = pte\<rparr>))
        (wk_pte (l3_loop env (PTP_PADDR env (vm_mem s1 (slot l2 i))) end
          \<lparr>wk_mem = vm_mem s1, wk_i = L3_IDX (me_abi env) va, wk_va = va, wk_pte = pte\<rparr>))
        (s1\<lparr>vm_mem := wk_mem (l3_loop env (PTP_PADDR env (vm_mem s1 (slot l2 i))) end
          \<lparr>wk_mem = vm_mem s1, wk_i = L3_IDX (me_abi env) va, wk_va = va, wk_pte = pte\<rparr>)\<rparr>) = ok r"
      using less.prems(5) True
      by (subst (asm) l2_loop.simps) (auto simp: npte more large_4k [OF a4] Let_def elim!: and_then_okE)
    have tb: "T2 (V div 512 div 512) = Some l2" using less.prems(2) b by simp
    obtain T3' u where t1: "tree l1 S T2 T3' s1" "T3' (V div 512) = Some u"
      "ptp (vm_mem s1 (slot l2 (V div 512 mod 512))) = u"
      "\<And>P. leaf (vm_mem s1) T3' P = leaf (vm_mem s) T3 P" "L1_ttbr0 s1 = L1_ttbr0 s" "L1_ttbr1 s1 = L1_ttbr1 s"
      by (rule need_chunk_table [OF a4 less.prems(1) tb need [folded i]]) (rule that; assumption | simp)
    define w where "w = l3_loop env u end \<lparr>wk_mem = vm_mem s1, wk_i = V mod 512, wk_va = va, wk_pte = pte\<rparr>"
    define k where "k = min n (512 - V mod 512)"
    note c = l3_loop_chunk [OF a4 t1(1,2) less.prems(3) w_def k_def]
    have rest': "l2_loop env l2 (i + 1) end (wk_va w) (wk_pte w) (s1\<lparr>vm_mem := wk_mem w\<rparr>) = ok r"
      using rest t1(3) i by (simp add: PTP_PADDR_4k [OF a4] at_page_idx [OF a4 less.prems(3)] w_def)
    have "k \<le> n" by (simp add: k_def)
    then have at: "at_page env end (V + k) (n - k) (wk_va w) (wk_pte w)"
      unfolding c(2,3) by (rule at_page_step [OF a4 less.prems(3)])
    have nxt: "n - k = 0 \<or> (V + k) div 512 = 512 * b + (i + 1) \<and> i + 1 \<le> 512"
    proof (cases "n \<le> 512 - V mod 512")
      case False
      then have "V + k = (512 * b + (i + 1)) * 512"
        using V div_mult_mod_eq [of V 512] mod_less_divisor [of 512 V] by (simp add: k_def algebra_simps)
      then show ?thesis using True by simp
    qed (simp add: k_def)
    have "512 - (i + 1) < 512 - i" using True by linarith
    from less.hyps [OF this c(1) less.prems(2) at nxt rest']
    have "goes env l1 S (V + k) (in_block b (V + k) (n - k)) (wk_va w) (wk_pte w) T3' (s1\<lparr>vm_mem := wk_mem w\<rparr>) r" .
    then have "goes env l1 S V (k + in_block b (V + k) (n - k)) va pte T3 s r"
      by (rule goes_then [OF c(2,3), rotated 3]) (use c(4) t1(4,5,6) in \<open>simp_all add: mapped_def\<close>)
    moreover have "k + in_block b (V + k) (n - k) = in_block b V n"
    proof -
      have "V + (512 - V mod 512) \<le> 512 * 512 * (b + 1)"
      proof -
        have "V = (512 * b + i) * 512 + V mod 512" using div_mult_mod_eq [of V 512] unfolding V by simp
        moreover have "V mod 512 + (512 - V mod 512) = 512" by simp
        ultimately have "V + (512 - V mod 512) = (512 * b + i) * 512 + 512" by (metis add.assoc)
        then show ?thesis using True by (simp add: algebra_simps)
      qed
      then show ?thesis unfolding in_block_def k_def by (rule min_split)
    qed
    ultimately show ?thesis by simp
  qed
qed

lemma l1_loop_goes:
  assumes a4: "arch_4k env" and S: "S \<subseteq> {512 * B ..< 512 * B + 512}"
  shows "tree l1 S T2 T3 s \<Longrightarrow> at_page env end V n va pte \<Longrightarrow>
     (\<forall>P \<in> {V ..< V + n}. P div 512 div 512 \<in> S) \<Longrightarrow> n = 0 \<or> V div 512 div 512 = 512 * B + i \<Longrightarrow>
     l1_loop env l1 i end va pte s = ok r \<Longrightarrow> goes env l1 S V n va pte T3 s r"
proof (induction "512 - i" arbitrary: i V n va pte s T2 T3 r rule: less_induct)
  case less
  note npte = npte_4k [OF a4] and more = at_page_more [OF less.prems(2)]
  show ?case
  proof (cases "0 < n")
    case False
    then have "r = (va, pte, s)" using less.prems(5) by (subst (asm) l1_loop.simps) (auto simp: npte more)
    then show ?thesis using goes_none [OF less.prems(1)] False by simp
  next
    case True
    define b where "b = V div 512 div 512"
    have b: "b = 512 * B + i" "b \<in> S"
      using less.prems(4) True bspec [OF less.prems(3), of V] by (simp_all add: b_def)
    then have i: "i < 512" "b mod 512 = i" using S by auto
    obtain s1 q where need: "need_table env l1 i s = ok s1"
      and l2: "l2_loop env (PTP_PADDR env (vm_mem s1 (slot l1 i))) (L2_IDX (me_abi env) va) end va pte s1 = ok q"
      and rest: "(case q of (va, pte, s) \<Rightarrow> l1_loop env l1 (i + 1) end va pte s) = ok r"
      using less.prems(5) True i(1)
      by (subst (asm) l1_loop.simps) (auto simp: npte more large_4k [OF a4] Let_def elim!: and_then_okE)
    obtain T2' t where t1: "tree l1 S T2' T3 s1" "T2' b = Some t" "ptp (vm_mem s1 (slot l1 (b mod 512))) = t"
      "\<And>P. leaf (vm_mem s1) T3 P = leaf (vm_mem s) T3 P" "L1_ttbr0 s1 = L1_ttbr0 s" "L1_ttbr1 s1 = L1_ttbr1 s"
      by (rule need_block_table [OF a4 less.prems(1) b(2) need [folded i(2)]]) (rule that; assumption | simp)
    define j where "j = V div 512 mod 512"
    have j: "n = 0 \<or> V div 512 = 512 * b + j \<and> j \<le> 512"
      using div_mult_mod_eq [of "V div 512" 512] mod_less_divisor [of 512 "V div 512"] by (simp add: b_def j_def)
    have l2': "l2_loop env t j end va pte s1 = ok q"
      using l2 t1(3) i by (simp add: PTP_PADDR_4k [OF a4] at_page_idx [OF a4 less.prems(2)] j_def)
    define k where "k = in_block b V n"
    have g: "goes env l1 S V k va pte T3 s1 q"
      using l2_loop_goes [OF a4 t1(1,2) less.prems(2) j l2'] by (simp add: k_def)
    obtain va2 pte2 s2 where q: "q = (va2, pte2, s2)" by (cases q)
    have w: "va2 = va + of_nat k * page env" "pte2 = pte + of_nat k * page env"
      and tt: "L1_ttbr0 s2 = L1_ttbr0 s" "L1_ttbr1 s2 = L1_ttbr1 s"
      using g t1(5,6) by (simp_all add: goes_def q)
    obtain T2'' T3'' where t2: "tree l1 S T2'' T3'' s2" "mapped env V k pte (leaf (vm_mem s1) T3) (leaf (vm_mem s2) T3'')"
      using g by (auto simp: goes_def q)
    have "k \<le> n" by (simp add: k_def in_block_def)
    then have at: "at_page env end (V + k) (n - k) va2 pte2"
      unfolding w by (rule at_page_step [OF a4 less.prems(2)])
    have nxt: "n - k = 0 \<or> (V + k) div 512 div 512 = 512 * B + (i + 1)"
    proof (cases "n \<le> 512 * 512 * (b + 1) - V")
      case False
      have "V < 512 * 512 * (b + 1)" unfolding b_def
        by (metis Suc_eq_plus1 div_mult2_eq dividend_less_times_div mult_Suc_right zero_less_numeral mult_pos_pos)
      then have "V + k = (b + 1) * (512 * 512)" using False by (simp add: k_def in_block_def)
      then show ?thesis using b(1) by (simp add: div_mult2_eq [symmetric])
    qed (simp add: k_def in_block_def)
    have sub: "\<forall>P \<in> {V + k ..< V + k + (n - k)}. P div 512 div 512 \<in> S" using less.prems(3) \<open>k \<le> n\<close> by auto
    have dec: "512 - (i + 1) < 512 - i" using i by simp
    have rest': "l1_loop env l1 (i + 1) end va2 pte2 s2 = ok r" using rest by (simp add: q)
    have "goes env l1 S (V + k) (n - k) va2 pte2 T3'' s2 r"
      by (rule less.hyps [OF dec t2(1) at sub nxt rest'])
    then have "goes env l1 S V (k + (n - k)) va pte T3 s r"
      by (rule goes_then [OF w tt, rotated]) (use t2(2) t1(4) in \<open>simp add: mapped_def\<close>)
    then show ?thesis using \<open>k \<le> n\<close> by simp
  qed
qed

section \<open>The walk\<close>

text \<open>elf\_vaddr\_to\_paddr reads the descriptor of the page.\<close>
definition translate :: "u64 \<Rightarrow> u64 \<Rightarrow> paddr" where
  "translate e va = (if e AND 3 = 3 then ptp e OR (va AND 0xFFF) else NULL_PADDR)"

definition walk_from :: "mmu_env \<Rightarrow> u64 \<Rightarrow> vm \<Rightarrow> paddr res" where
  "walk_from env va s =
    (let a = me_abi env in
     if va < USER_END a then ok (L1_ttbr0 s)
     else if va < STARTUP_BASE a then crash ''elf_vaddr_to_paddr: bad address'' else ok (L1_ttbr1 s))"

lemma walk_4k:
  assumes a4: "arch_4k env" and l1: "walk_from env va s = ok l1" and c: "c = unat va div 4096 div 512"
  shows "elf_vaddr_to_paddr env va s =
    (let e1 = vm_mem s (slot l1 (c div 512 mod 512));
         e2 = vm_mem s (slot (ptp e1) (c mod 512));
         e3 = vm_mem s (slot (ptp e2) (unat va div 4096 mod 512)) in
     if e1 AND 1 = 0 then ok NULL_PADDR
     else if e1 AND 3 = 1 then ok (ptp e1 OR L1_VOFF (me_abi env) va)
     else if e2 AND 1 = 0 then ok NULL_PADDR
     else if e2 AND 3 = 1 then ok (ptp e2 OR L2_VOFF (me_abi env) va)
     else ok (translate e3 va))"
proof -
  have a: "PTP_VALID (me_abi env) = 1" "PTE_VALID (me_abi env) = 3" "PTP_BLOCK (me_abi env) = 1"
    "\<And>x. PTP_TYPE (me_abi env) x = x AND 3" "\<And>v. L3_VOFF (me_abi env) v = v AND 0xFFF"
    using a4 by (auto simp: arch_4k_def Let_def)
  have idx: "L1_IDX (me_abi env) va = c div 512 mod 512" "L2_IDX (me_abi env) va = c mod 512"
    "L3_IDX (me_abi env) va = unat va div 4096 mod 512"
    using a4 by (simp_all add: arch_4k_def Let_def c div_mult2_eq [symmetric])
  have start: "(if va < USER_END (me_abi env) then ok (L1_ttbr0 s)
      else if va < STARTUP_BASE (me_abi env) then crash ''elf_vaddr_to_paddr: bad address'' else ok (L1_ttbr1 s)) = ok l1"
    using l1 by (simp only: walk_from_def Let_def)
  show ?thesis
    unfolding elf_vaddr_to_paddr_def Let_def large_4k [OF a4, THEN eq_False [THEN iffD2]] if_False start idx a
      not_False_eq_True simp_thms PTP_PADDR_4k [OF a4]
    by (simp only: and_then.simps translate_def if_not_P split: if_split) simp
qed

lemma table_desc:
  assumes "e AND 3 = (3 :: u64)"
  shows "e AND 1 \<noteq> 0" "e AND 3 \<noteq> 1"
proof -
  have "(e AND 3) AND 1 = e AND 1" by (simp add: and.assoc)
  then show "e AND 1 \<noteq> 0" "e AND 3 \<noteq> 1" using assms by auto
qed

lemma walk_leaf:
  assumes a4: "arch_4k env" and tr: "tree l1 S T2 T3 s" and l1: "walk_from env va s = ok l1"
    and c: "c = unat va div 4096 div 512" "c div 512 \<in> S"
  shows "elf_vaddr_to_paddr env va s = ok (translate (leaf (vm_mem s) T3 (unat va div 4096)) va)"
proof -
  have lks: "links l1 S T2 T3 (vm_mem s)" and shp: "shape l1 S T2 T3" using tr by (auto simp: tree_def)
  note w = walk_4k [OF a4 l1 c(1)]
  have leaf: "leaf (vm_mem s) T3 (unat va div 4096) =
      (case T3 c of None \<Rightarrow> 0 | Some u \<Rightarrow> vm_mem s (slot u (unat va div 4096 mod 512)))"
    unfolding leaf_def c(1) by (rule refl)
  show ?thesis
  proof (cases "T2 (c div 512)")
    case None
    then have "T3 c = None" using shp unfolding shape_def by blast
    then show ?thesis using linksD(1) [OF lks c(2)] None by (simp add: w leaf translate_def)
  next
    case (Some t)
    note e1 = linksD(1) [OF lks c(2), unfolded Some link_simps]
    note l2 = linksD(2) [OF lks Some]
    show ?thesis
    proof (cases "T3 c")
      case None
      then show ?thesis using l2 e1 table_desc [OF e1 [THEN conjunct2]]
        by (simp add: w leaf translate_def)
    next
      case (Some u)
      then show ?thesis using l2 e1 table_desc [OF e1 [THEN conjunct2]] table_desc [of "vm_mem s (slot t (c mod 512))"]
        by (simp add: w leaf)
    qed
  qed
qed

section \<open>What aarch64\_map achieves\<close>

text \<open>Tables below l1 for the blocks S, whatever they are.\<close>
definition tables :: "paddr \<Rightarrow> nat set \<Rightarrow> vm \<Rightarrow> bool" where
  "tables l1 S s \<longleftrightarrow> (\<exists>T2 T3. tree l1 S T2 T3 s)"

lemma good_and: "good t \<Longrightarrow> c AND 0xFFFFFFFFF000 = 0 \<Longrightarrow> t AND c = 0"
proof -
  assume g: "good t" and c: "c AND 0xFFFFFFFFF000 = 0"
  have "t AND c = (t AND 0xFFFFFFFFF000) AND c" using g by (simp add: good_def ptp_def)
  also have "\<dots> = t AND (c AND 0xFFFFFFFFF000)" by (simp only: and.assoc and.commute and.left_commute)
  finally show ?thesis using c by simp
qed

lemma good_step:
  assumes "good pa" "unat pa + k * 4096 < 2 ^ 48"
  shows "good (pa + of_nat k * 0x1000)" "unat (pa + of_nat k * 0x1000) = unat pa + k * 4096"
proof -
  have e: "(of_nat k * 0x1000 :: u64) = of_nat (k * 4096)" by simp
  have "unat (of_nat (k * 4096) :: u64) = k * 4096" using assms(2) by (intro unat_of_nat_small) simp
  then show "unat (pa + of_nat k * 0x1000) = unat pa + k * 4096"
    using assms(2) unfolding e by (simp add: unat_add_lem [THEN iffD1])
  then show "good (pa + of_nat k * 0x1000)" using assms by (simp add: good_iff mod_add_eq)
qed

text \<open>Adding pages to a descriptor adds them to its address.\<close>
lemma desc_step:
  assumes a4: "arch_4k env" and c: "clean (me_abi env) c" and pa: "good pa" "unat pa + k * 4096 < 2 ^ 48"
  shows "(pa OR (3 OR c)) + of_nat k * page env = (pa + of_nat k * 0x1000) OR (3 OR c)"
    "((pa OR (3 OR c)) + of_nat k * page env) AND PTE_CONTIG (me_abi env) = 0"
proof -
  let ?p = "pa + of_nat k * 0x1000 :: u64" and ?C = "PTE_CONTIG (me_abi env)"
  have pg: "page env = 0x1000" using a4 by (simp add: arch_4k_def)
  have part: "y AND 0xFFFFFFFFF000 = 0 \<and> y AND 3 = 0" if "y AND 0xFFFFFFFFF003 = 0" for y :: u64
  proof -
    have "y AND 0xFFFFFFFFF000 = (y AND 0xFFFFFFFFF003) AND 0xFFFFFFFFF000" "y AND 3 = (y AND 0xFFFFFFFFF003) AND 3"
      by (simp_all add: and.assoc)
    then show ?thesis using that by simp
  qed
  have c': "c AND 0xFFFFFFFFF000 = 0" "c AND ?C = 0" and C: "?C AND 0xFFFFFFFFF000 = 0" "?C AND 3 = 0"
    using c part [of c] part [of ?C] a4 by (auto simp: clean_def arch_4k_def Let_def)
  have z: "(3 OR c) AND 0xFFFFFFFFF000 = 0" using c' by (simp add: bit.conj_disj_distrib2)
  have "(pa OR (3 OR c)) + of_nat k * 0x1000 = pa + (3 OR c) + of_nat k * 0x1000"
    using or_plus [OF good_and [OF pa(1) z]] by simp
  also have "\<dots> = ?p + (3 OR c)" by (simp add: algebra_simps)
  also have "\<dots> = ?p OR (3 OR c)" using or_plus [OF good_and [OF good_step(1) [OF pa] z]] by simp
  finally show d: "(pa OR (3 OR c)) + of_nat k * page env = ?p OR (3 OR c)" by (simp add: pg)
  show "((pa OR (3 OR c)) + of_nat k * page env) AND ?C = 0"
    unfolding d using good_and [OF good_step(1) [OF pa] C(1)] C(2) [unfolded and.commute [of ?C]] c'(2)
    by (simp add: bit.conj_disj_distrib2)
qed

lemma and_low12: "unat (x AND 0xFFF :: u64) = unat x mod 4096"
proof -
  have "(x AND 0xFFF) = take_bit 12 x" by (simp add: take_bit_eq_mask mask_eq_exp_minus_1)
  then show ?thesis using unat_take_bit [of 12 x] by simp
qed

text \<open>The address that a page's descriptor gives.\<close>
lemma translate_page:
  assumes a4: "arch_4k env" and c: "clean (me_abi env) c" and pa: "good pa" "unat pa + k * 4096 < 2 ^ 48"
    and e: "e \<in> {(pa OR (3 OR c)) + of_nat k * page env, ((pa OR (3 OR c)) + of_nat k * page env) OR PTE_CONTIG (me_abi env)}"
    and x: "unat x mod 4096 = unat y mod 4096" "unat y div 4096 = k"
  shows "translate e x = pa + y"
proof -
  let ?p = "pa + of_nat k * 0x1000 :: u64"
  note g = good_step [OF pa] and d = desc_step [OF a4 c pa]
  have "ptp e = ?p" "e AND 3 = 3"
    using desc_fields [OF a4 c g(1), of e] e unfolding d by auto
  then have "translate e x = ?p OR (x AND 0xFFF)" by (simp add: translate_def)
  also have "\<dots> = ?p + (x AND 0xFFF)"
    by (rule or_plus, rule good_and [OF g(1)]) (simp add: and.assoc)
  also have "\<dots> = pa + (of_nat k * 0x1000 + (x AND 0xFFF))" by (simp add: add.assoc)
  also have "of_nat k * 0x1000 + (x AND 0xFFF) = y"
  proof -
    have "(x AND 0xFFF) = of_nat (unat y mod 4096)" using and_low12 [of x] x(1) by (metis of_nat_unat ucast_id)
    then have "of_nat k * 0x1000 + (x AND 0xFFF) = (of_nat (k * 4096 + unat y mod 4096) :: u64)" by simp
    also have "k * 4096 + unat y mod 4096 = unat y" using x(2) by (metis div_mult_mod_eq)
    finally show ?thesis by simp
  qed
  finally show ?thesis .
qed

lemma TRUNC_twice: "TRUNC (TRUNC x (2 ^ k)) (2 ^ k) = TRUNC x (2 ^ k)"
  by (rule bit_word_eqI) (auto simp: TRUNC_pow2 bit_simps)

text \<open>The steps of a successful call.\<close>
lemma aarch64_map_steps:
  assumes a4: "arch_4k env" and v: "virtual_startup env"
    and run: "aarch64_map env vaddr paddr len flags s = ok (r, s')"
    and va: "va = TRUNCPG env (if vaddr = NOT 0 then vm_free s else vaddr)"
    and sz: "sz = ROUNDPG env (len + (paddr AND 0xFFF))"
  obtains s0 l1 q w where "vm_ram s0 = vm_ram s" "vm_mem s0 = vm_mem s" "L1_ttbr0 s0 = L1_ttbr0 s" "L1_ttbr1 s0 = L1_ttbr1 s"
    "va \<le> va + sz" "pick_table env va (va + sz) s = ok l1"
    "l1_loop env l1 (L1_IDX (me_abi env) va) (va + sz) va (set_pte env (paddr AND NOT 0xFFF) flags) s0 = ok (q, w, s')"
proof -
  have pg: "page env - 1 = 0xFFF" using a4 by (simp add: arch_4k_def)
  have sz': "ROUNDPG env (len + (paddr AND (page env - 1))) = sz" by (simp add: pg sz)
  obtain va0 s0 where pv: "pick_vaddr env vaddr (paddr AND (page env - 1)) sz s = ok (va0, s0)"
    and rest: "(let va = TRUNCPG env va0; end = va + sz in
          if end < va then crash ''aarch64_map: range wraps''
          else and_then (pick_table env va end s0) (\<lambda>l1.
            and_then (l1_loop env l1 (if USE_LARGE_PAGE env then 0 else L1_IDX (me_abi env) va) end va
                (set_pte env (paddr AND NOT (page env - 1)) flags) s0)
              (\<lambda>(_, _, s). ok (va0 + (paddr AND (page env - 1)), s)))) = ok (r, s')"
    using run v unfolding aarch64_map_def Let_def sz' by (auto elim!: and_then_okE)
  have va0: "va0 = (if vaddr = NOT 0 then vm_free s else vaddr)" "vm_ram s0 = vm_ram s" "vm_mem s0 = vm_mem s"
    "L1_ttbr0 s0 = L1_ttbr0 s" "L1_ttbr1 s0 = L1_ttbr1 s"
    using pv by (auto simp: pick_vaddr_def split: if_splits)
  have pt: "pick_table env a b s0 = pick_table env a b s" for a b
    by (simp add: pick_table_def va0 Let_def)
  have va': "TRUNCPG env va0 = va" by (simp add: va va0)
  have le: "\<not> va + sz < va" using rest by (auto simp: Let_def va' split: if_splits)
  obtain l1 q w where "pick_table env va (va + sz) s = ok l1"
    "l1_loop env l1 (L1_IDX (me_abi env) va) (va + sz) va (set_pte env (paddr AND NOT 0xFFF) flags) s0 = ok (q, w, s')"
    using rest le by (auto simp: Let_def va' pt large_4k [OF a4] pg elim!: and_then_okE)
  then show thesis using le va0 by (intro that) auto
qed

lemma walk_from_range:
  assumes "arch_4k env" "pick_table env va end s = ok l1" "va \<le> x" "x < end"
  shows "walk_from env x s = ok l1"
  using assms(2-4) by (auto simp: pick_table_def walk_from_def Let_def large_4k [OF assms(1)] split: if_splits)

text \<open>The call and the walk are inverse: what the property below states, for use by the loader.\<close>
lemma map_translates:
  assumes a4: "arch_4k env" and v: "virtual_startup env"
    and run: "aarch64_map env vaddr paddr len flags s = ok (r, s')"
    and va: "va = TRUNCPG env (if vaddr = NOT 0 then vm_free s else vaddr)" and l1: "walk_from env va s = ok l1"
    and tb: "tables l1 S s" and small: "unat paddr + unat len + 4096 \<le> 2 ^ 48"
    and n: "n = (unat paddr mod 4096 + unat len + 4095) div 4096"
    and S: "\<forall>P \<in> {unat va div 4096 ..< unat va div 4096 + n}. P div 512 div 512 \<in> S"
  shows "(\<forall>x. unat x < n * 4096 \<longrightarrow> elf_vaddr_to_paddr env (va + x) s' = ok ((paddr AND NOT 0xFFF) + x)) \<and>
    (\<forall>x. unat x div 4096 \<notin> {unat va div 4096 ..< unat va div 4096 + n} \<and> unat x div 4096 div 512 div 512 \<in> S \<and>
       walk_from env x s = ok l1 \<longrightarrow> elf_vaddr_to_paddr env x s' = elf_vaddr_to_paddr env x s) \<and>
    tables l1 S s'"
proof -
  define sz where "sz = ROUNDPG env (len + (paddr AND 0xFFF))"
  define pa where "pa = paddr AND NOT 0xFFF"
  define V where "V = unat va div 4096"
  have pg: "page env = 2 ^ 12" using a4 by (simp add: arch_4k_def)
  obtain T2 T3 where tr: "tree l1 S T2 T3 s" using tb by (auto simp: tables_def)
  obtain B where B: "S \<subseteq> {512 * B ..< 512 * B + 512}" using tr by (auto simp: tree_def shape_def)
  obtain s0 l1' q w where s0: "vm_ram s0 = vm_ram s" "vm_mem s0 = vm_mem s" "L1_ttbr0 s0 = L1_ttbr0 s" "L1_ttbr1 s0 = L1_ttbr1 s"
    and le: "va \<le> va + sz" and pt: "pick_table env va (va + sz) s = ok l1'"
    and lp: "l1_loop env l1' (L1_IDX (me_abi env) va) (va + sz) va (set_pte env pa flags) s0 = ok (q, w, s')"
    by (rule aarch64_map_steps [OF a4 v run va sz_def, folded pa_def])
  have same: "l1' = l1" using pt l1 by (auto simp: pick_table_def walk_from_def Let_def large_4k [OF a4] split: if_splits)
  have tr0: "tree l1 S T2 T3 s0" using tr by (simp add: tree_def mem_ok_def owned_def s0)
  have low: "unat (paddr AND 0xFFF) = unat paddr mod 4096" by (rule and_low12)
  have lo: "unat (len + (paddr AND 0xFFF)) = unat paddr mod 4096 + unat len"
    using small mod_less_eq_dividend [of "unat paddr" 4096] by (simp add: unat_add_lem [THEN iffD1] low)
  have sz: "unat sz = n * 4096"
    unfolding sz_def ROUNDPG_def pg n by (subst unat_ROUND_pow2) (use small lo mod_less_eq_dividend [of "unat paddr" 4096] in simp_all)
  have va12: "unat va = V * 4096"
    using unat_TRUNC_pow2 [of 12 "if vaddr = NOT 0 then vm_free s else vaddr"] unfolding V_def va TRUNCPG_def pg by simp
  have fin: "unat (va + sz) = (V + n) * 4096"
    using unat_plus_simple [THEN iffD1, OF le] va12 sz by simp
  have upa: "good pa" "unat pa = unat paddr div 4096 * 4096"
  proof -
    have "pa = TRUNC paddr (2 ^ 12)" by (simp add: pa_def TRUNC_def)
    then show u: "unat pa = unat paddr div 4096 * 4096" using unat_TRUNC_pow2 [of 12 paddr] by simp
    have "unat paddr div 4096 * 4096 \<le> unat paddr" by simp
    then have "unat paddr div 4096 * 4096 < 2 ^ 48" using small by linarith
    then show "good pa" using u by (simp add: good_iff)
  qed
  obtain c where c: "\<And>pa. set_pte env pa flags = pa OR (3 OR c)" "clean (me_abi env) c"
    using set_pte_form [OF a4] by blast
  have lim: "unat pa + k * 4096 < 2 ^ 48" if "k \<le> n" for k
  proof -
    have "n * 4096 \<le> unat paddr mod 4096 + unat len + 4095" unfolding n by simp
    moreover have "k * 4096 \<le> n * 4096" using that by simp
    moreover have "unat paddr div 4096 * 4096 + unat paddr mod 4096 = unat paddr" by simp
    ultimately show ?thesis using small unfolding upa(2) by linarith
  qed
  let ?e = "set_pte env pa flags"
  have at: "at_page env (va + sz) V n va ?e"
    unfolding at_page_def using va12 fin desc_step(2) [OF a4 c(2) upa(1) lim] by (simp add: c(1))
  have S': "\<forall>P \<in> {V ..< V + n}. P div 512 div 512 \<in> S" using S by (simp add: V_def)
  have i: "n = 0 \<or> V div 512 div 512 = 512 * B + L1_IDX (me_abi env) va"
  proof (cases "n = 0")
    case False
    then have "V div 512 div 512 \<in> S" using S' by simp
    then have "V div 512 div 512 div 512 = B" using B by (auto intro!: div_nat_eqI)
    then show ?thesis using div_mult_mod_eq [of "V div 512 div 512" 512] by (simp add: at_page_idx [OF a4 at])
  qed simp
  have g: "goes env l1 S V n va ?e T3 s0 (q, w, s')"
    by (rule l1_loop_goes [OF a4 B tr0 at S' i lp [unfolded same]])
  then obtain T2' T3' where tr': "tree l1 S T2' T3' s'"
    and m: "mapped env V n ?e (leaf (vm_mem s) T3) (leaf (vm_mem s') T3')"
    and tt: "L1_ttbr0 s' = L1_ttbr0 s" "L1_ttbr1 s' = L1_ttbr1 s" by (auto simp: goes_def s0)
  have wf: "walk_from env x s' = walk_from env x s" for x by (simp add: walk_from_def Let_def tt)
  show ?thesis
  proof (intro conjI allI impI)
    fix x :: u64 assume x: "unat x < n * 4096"
    show "elf_vaddr_to_paddr env (va + x) s' = ok ((paddr AND NOT 0xFFF) + x)"
    proof -
      have lt: "x < sz" using x sz by (simp add: word_less_nat_alt)
      have ux: "unat (va + x) = V * 4096 + unat x"
        using x fin va12 unsigned_less [of "va + sz", where ?'a = nat] by (simp add: unat_plus_if')
      have pge: "unat (va + x) div 4096 = V + unat x div 4096" "unat (va + x) mod 4096 = unat x mod 4096"
        unfolding ux by simp_all
      have k: "unat x div 4096 < n" using x by (simp add: less_mult_imp_div_less)
      have "walk_from env (va + x) s = ok l1"
      proof (rule walk_from_range [OF a4 pt [unfolded same]])
        show "va \<le> va + x" "va + x < va + sz" using ux va12 fin x by (simp_all add: word_le_nat_alt word_less_nat_alt)
      qed
      then have "walk_from env (va + x) s' = ok l1" by (simp add: wf)
      moreover have "unat (va + x) div 4096 div 512 div 512 \<in> S" using S' k unfolding pge by simp
      ultimately have "elf_vaddr_to_paddr env (va + x) s' = ok (translate (leaf (vm_mem s') T3' (unat (va + x) div 4096)) (va + x))"
        by (intro walk_leaf [OF a4 tr' _ refl])
      also have "translate (leaf (vm_mem s') T3' (unat (va + x) div 4096)) (va + x) = pa + x"
      proof (rule translate_page [OF a4 c(2) upa(1) lim])
        show "leaf (vm_mem s') T3' (unat (va + x) div 4096) \<in>
            {(pa OR (3 OR c)) + of_nat (unat x div 4096) * page env,
             ((pa OR (3 OR c)) + of_nat (unat x div 4096) * page env) OR PTE_CONTIG (me_abi env)}"
          using m k unfolding pge by (simp add: mapped_def c(1))
      qed (use k pge in simp_all)
      finally show ?thesis by (simp add: pa_def)
    qed
  next
    fix x :: u64 assume x: "unat x div 4096 \<notin> {unat va div 4096 ..< unat va div 4096 + n} \<and> unat x div 4096 div 512 div 512 \<in> S \<and>
       walk_from env x s = ok l1"
    then have "leaf (vm_mem s') T3' (unat x div 4096) = leaf (vm_mem s) T3 (unat x div 4096)"
      using m by (simp add: mapped_def V_def)
    then show "elf_vaddr_to_paddr env x s' = elf_vaddr_to_paddr env x s"
      using walk_leaf [OF a4 tr _ refl] walk_leaf [OF a4 tr' _ refl] x wf by simp
  qed (use tr' in \<open>auto simp: tables_def\<close>)
qed


text \<open>With an address of the caller's, which has the offset of the physical address in its page, the result has
  that offset twice.\<close>
lemma aarch64_map_explicit:
  assumes "arch_4k env" "virtual_startup env" "vaddr \<noteq> NOT 0" "aarch64_map env vaddr paddr len flags s = ok (r, s')"
  shows "vaddr AND 0xFFF = paddr AND 0xFFF" "r = vaddr + (paddr AND 0xFFF)"
proof -
  have pg: "page env - 1 = 0xFFF" using assms(1) by (simp add: arch_4k_def)
  have "vaddr AND 0xFFF = paddr AND 0xFFF \<and> r = vaddr + (paddr AND 0xFFF)"
    using assms(2,3,4) unfolding aarch64_map_def pick_vaddr_def Let_def pg
    by (auto elim!: and_then_okE split: if_split_asm)
  then show "vaddr AND 0xFFF = paddr AND 0xFFF" "r = vaddr + (paddr AND 0xFFF)" by simp_all
qed

section \<open>Examples\<close>

text \<open>A running startup with the tables of one 2 MB chunk in place, and no RAM left to give out.\<close>
definition mmu_virt :: mmu_env where
  "mmu_virt = mmu_ex\<lparr>virtual_startup := True\<rparr>"

definition vm_virt :: vm where
  "vm_virt = vm_ex\<lparr>vm_ram := ram_ex\<lparr>rs_ram := []\<rparr>, L1_ttbr0 := 0x2000,
     vm_mem := (\<lambda>_. 0)(slot 0x2000 1 := 0x3003, slot 0x3000 1 := 0x4003)\<rparr>"

lemma arch_virt: "arch_4k mmu_virt"
proof -
  have "drop_bit 30 v AND 0x1FF = take_bit 9 (drop_bit 30 v)" "drop_bit 21 v AND 0x1FF = take_bit 9 (drop_bit 21 v)"
    "drop_bit 12 v AND 0x1FF = take_bit 9 (drop_bit 12 v)" for v :: u64
    by (simp_all add: take_bit_eq_mask mask_eq_exp_minus_1)
  then show ?thesis
    by (simp add: arch_4k_def Let_def mmu_virt_def mmu_ex_def mmu_abi_ex_def pte_attrs_def clean_def unat_take_bit
        unat_div drop_bit_eq_div)
qed

lemma virt_tables: "tables 0x2000 {1} vm_virt"
proof -
  have free: "ram_free (vm_ram vm_virt) = {}" by (simp add: vm_virt_def ram_free_def)
  have ok: "mem_ok vm_virt" using free by (simp add: mem_ok_def ram_inv_def vm_virt_def ram_ok_def)
  have "tree 0x2000 {1} [1 \<mapsto> 0x3000] [513 \<mapsto> 0x4000] vm_virt"
    unfolding tree_def
  proof (intro conjI ok)
    show "\<forall>t \<in> insert 0x2000 (ran [1 \<mapsto> 0x3000] \<union> ran [513 \<mapsto> 0x4000]). owned vm_virt t"
      by (simp add: owned_def free good_def ptp_def)
    have "{1 :: nat} \<subseteq> {512 * 0 ..< 512 * 0 + 512}" by simp
    then show "shape 0x2000 {1} [1 \<mapsto> 0x3000] [513 \<mapsto> 0x4000]"
      unfolding shape_def by (intro conjI exI [of _ 0]) simp_all
    show "links 0x2000 {1} [1 \<mapsto> 0x3000] [513 \<mapsto> 0x4000] (vm_mem vm_virt)"
      unfolding links_def
    proof (intro conjI ballI allI impI)
      show "link (vm_mem vm_virt (slot 0x2000 (b mod 512))) ([1 \<mapsto> 0x3000] b)" if "b \<in> {1}" for b
        using that by (simp add: vm_virt_def slot_def ptp_def)
      show "link (vm_mem vm_virt (slot t (c mod 512))) ([513 \<mapsto> 0x4000] c)" if t: "[1 \<mapsto> 0x3000] (c div 512) = Some t" for c t
      proof -
        have c: "c div 512 = 1" and "t = 0x3000" using t by (simp_all split: if_splits)
        have "c = 513 \<longleftrightarrow> c mod 512 = 1" using c div_mult_mod_eq [of c 512] by auto
        moreover have "slot 0x3000 (c mod 512) = slot 0x2000 1 \<longleftrightarrow> False" "slot 0x3000 (c mod 512) = slot 0x3000 1 \<longleftrightarrow> c mod 512 = 1"
          using slot_eq_iff [of "0x3000" "0x2000" "c mod 512" 1] slot_eq_iff [of "0x3000" "0x3000" "c mod 512" 1]
          by (simp_all add: good_def ptp_def)
        ultimately show ?thesis by (simp add: vm_virt_def \<open>t = 0x3000\<close> ptp_def)
      qed
    qed
  qed
  then show ?thesis by (auto simp: tables_def)
qed

lemma virt_env:
  "page mmu_virt = 0x1000" "virtual_startup mmu_virt" "me_abi mmu_virt = mmu_abi_ex" "\<not> USE_LARGE_PAGE mmu_virt"
  "NPTE_PTBL mmu_virt = 512"
  using large_4k [OF arch_virt] npte_4k [OF arch_virt] by (simp_all add: mmu_virt_def mmu_ex_def)

lemma virt_l3:
  assumes "w = l3_loop mmu_virt 0x4000 0x40202000 \<lparr>wk_mem = m, wk_i = 1, wk_va = 0x40201000, wk_pte = 0x6000008000071F\<rparr>"
  shows "wk_va w = 0x40202000"
proof -
  have "walk_ok mmu_virt 12 4 0x40202000 1 \<lparr>wk_mem = m, wk_i = 1, wk_va = 0x40201000, wk_pte = 0x6000008000071F\<rparr>"
    unfolding walk_ok_def by (simp add: virt_env mmu_abi_ex_def le_Suc_eq)
  from l3_loop_fills [OF arch_granule [OF arch_virt] this, of "0x4000"]
  show ?thesis by (simp add: advanced_def assms virt_env)
qed

lemma virt_map: "\<exists>r s. aarch64_map mmu_virt 0x40201000 0x80000000 0x1000 0x200 vm_virt = ok (r, s)"
proof -
  let ?a = "\<lambda>w. \<lparr>wk_mem = vm_mem vm_virt, wk_i = 1, wk_va = 0x40201000, wk_pte = 0x6000008000071F\<rparr>"
  have ne: "slot 0x2000 1 \<noteq> slot 0x3000 1" by (simp add: slot_def)
  have mem: "vm_mem vm_virt = (\<lambda>_. 0)(slot 0x2000 1 := 0x3003, slot 0x3000 1 := 0x4003)" by (simp add: vm_virt_def)
  have m1: "vm_mem vm_virt (slot 0x2000 1) = 0x3003" and m2: "vm_mem vm_virt (slot 0x3000 1) = 0x4003"
    unfolding mem using ne by (simp_all only: fun_upd_apply if_True if_False refl)
  have n: "need_table mmu_virt 0x2000 1 vm_virt = ok vm_virt" "need_table mmu_virt 0x3000 1 vm_virt = ok vm_virt"
    by (simp_all only: need_table_def m1 m2) simp_all
  have p: "PTP_PADDR mmu_virt 0x3003 = 0x3000" "PTP_PADDR mmu_virt 0x4003 = 0x4000"
    by (simp_all add: PTP_PADDR_4k [OF arch_virt] ptp_def)
  define w where "w = l3_loop mmu_virt 0x4000 0x40202000
    \<lparr>wk_mem = vm_mem vm_virt, wk_i = 1, wk_va = 0x40201000, wk_pte = 0x6000008000071F\<rparr>"
  have va: "wk_va w = 0x40202000" by (rule virt_l3 [OF w_def])
  have idx: "L1_IDX mmu_abi_ex 0x40201000 = 1" "L2_IDX mmu_abi_ex 0x40201000 = 1" "L3_IDX mmu_abi_ex 0x40201000 = 1"
    by (simp_all add: mmu_abi_ex_def)
  have stop: "l2_loop mmu_virt t i x x q s = ok (x, q, s)" "l1_loop mmu_virt t i x x q s = ok (x, q, s)" for t i x q s
    by (subst l2_loop.simps l1_loop.simps, simp)+
  have l2: "l2_loop mmu_virt 0x3000 1 0x40202000 0x40201000 0x6000008000071F vm_virt =
      ok (0x40202000, wk_pte w, vm_virt\<lparr>vm_mem := wk_mem w\<rparr>)"
    by (subst l2_loop.simps) (simp only: n m2 p and_then.simps virt_env idx Let_def if_False w_def [symmetric] va stop, simp)
  have l1: "l1_loop mmu_virt 0x2000 1 0x40202000 0x40201000 0x6000008000071F vm_virt =
      ok (0x40202000, wk_pte w, vm_virt\<lparr>vm_mem := wk_mem w\<rparr>)"
    by (subst l1_loop.simps) (simp only: n m1 p and_then.simps virt_env idx Let_def if_False l2 prod.case stop, simp)
  have e: "set_pte mmu_virt 0x80000000 0x200 = 0x6000008000071F"
    by (simp add: set_pte_def Let_def has_def virt_env mmu_abi_ex_def) (simp add: mmu_virt_def mmu_ex_def prot_ex_def)
  have sz: "ROUNDPG mmu_virt (0x1000 + (0x80000000 AND 0xFFF)) = 0x1000" "TRUNCPG mmu_virt 0x40201000 = 0x40201000"
    by (simp_all add: ROUNDPG_def ROUND_def TRUNCPG_def TRUNC_def virt_env)
  have pk: "pick_vaddr mmu_virt 0x40201000 0 0x1000 vm_virt = ok (0x40201000, vm_virt)"
    "pick_table mmu_virt 0x40201000 0x40202000 vm_virt = ok 0x2000"
    by (simp_all add: pick_vaddr_def pick_table_def virt_env Let_def mmu_abi_ex_def) (simp add: vm_virt_def)
  have "aarch64_map mmu_virt 0x40201000 0x80000000 0x1000 0x200 vm_virt =
      ok (0x40201000, vm_virt\<lparr>vm_mem := wk_mem w\<rparr>)"
    using sz pk e l1 by (simp add: aarch64_map_def virt_env idx)
  then show ?thesis by blast
qed


end
