(* ===== verification/Callouts.thy ===== *)
theory Callouts
  imports Ram
begin

text \<open>
  Callouts (startup/lib/callouts.c) and the interrupt section (startup/lib/add\_interrupt.c,
  interrupt\_valid.c).  A callout is a routine of the startup program that the kernel will run:
  its code is copied behind the system page and its slot, in the callout section or in an entry of
  the interrupt section, gets the address of the copy.  Slots are named by section and index, which
  the moves of callout\_reloc\_data (theory Syspage) do not change.  The lists of struct co\_info
  are lists with the newest first.
\<close>

section \<open>Routines, slots and interrupt entries\<close>

text \<open>The routines that slots name; those of the GICv3 have their own names.\<close>
datatype callout =
    Interrupt_id_ppi_sr | Interrupt_id_ppi_mm | Interrupt_id_spi | Interrupt_id_espi | Interrupt_id_lpi
  | Interrupt_eoi_ppi_sr | Interrupt_eoi_ppi_mm | Interrupt_eoi_spi_sr | Interrupt_eoi_spi_mm
  | Interrupt_eoi_lpi_sr | Interrupt_eoi_lpi_mm
  | Interrupt_mask_ppi | Interrupt_mask_spi | Interrupt_mask_espi | Interrupt_mask_lpi_its
  | Interrupt_mask_lpi_direct
  | Interrupt_unmask_ppi | Interrupt_unmask_spi | Interrupt_unmask_espi | Interrupt_unmask_lpi_its
  | Interrupt_unmask_lpi_direct
  | Interrupt_config_ppi | Sendipi_sr | Sendipi_mm | Routine nat

text \<open>The patch data of SPIs and ESPIs, and the union for LPIs; both members of the union start
  with the same field.\<close>
record spi_patch =
  sp_gicc_base_vaddr :: u64
  sp_gicd_base_vaddr :: u64
  sp_vec_off :: u32

record lpi_its_patch =
  li_gits_base_vaddr :: u64
  li_lpi_cfgtbl_vaddr :: u64
  li_cmd_q_vaddr :: u64
  li_cmd_q_lock_vaddr :: u64
  li_RDbase :: u64
  li_RDbase_offset :: u32
  li_cmd_q_last_offset :: u32
  li_num_collections :: u32
  li_vec_off :: u32

record lpi_patch =
  lp_gicc_base_vaddr :: u64
  lp_its :: lpi_its_patch

datatype patch =
    Ppi_patch u64 u64 nat
  | Spi_patch spi_patch
  | Lpi_patch lpi_patch
  | Dbg_device nat

record intrgen =
  ig_genflags :: u16
  ig_size :: u16
  ig_rtn :: "callout option"

record intrinfo =
  vector_base :: u32
  num_vectors :: u32
  cascade_vector :: u32
  cpu_intr_base :: u32
  cpu_intr_stride :: u16
  in_flags :: u16
  in_id :: intrgen
  in_eoi :: intrgen
  in_mask :: "callout option"
  in_unmask :: "callout option"
  in_config :: "callout option"
  in_patch :: "patch option"
  local_stride :: u32

text \<open>struct callout\_rtn: the pointer rw\_size is a number that identifies the word it points to.\<close>
record callout_rtn =
  rtn_rw :: "nat option"
  rtn_patcher :: bool
  rtn_size :: u32
  rtn_code :: "nat \<Rightarrow> u8"

text \<open>A slot of entry i of the interrupt section (id.rtn, eoi.rtn, mask, unmask, config are 0 to 4), or
  of the callout section.  What it holds is NULL, a routine, or after the output the address of
  the copy.\<close>
datatype slot = Intr nat nat | Co nat
datatype fp = Null | Rtn callout | At u64

text \<open>The entry of the system page, without its slots.\<close>
record intr_entry =
  ie_vector_base :: u32
  ie_num_vectors :: u32
  ie_cascade_vector :: u32
  ie_cpu_intr_base :: u32
  ie_cpu_intr_stride :: u16
  ie_flags :: u16
  ie_local_stride :: u32
  ie_id_genflags :: u16
  ie_id_size :: u16
  ie_eoi_genflags :: u16
  ie_eoi_size :: u16

type_synonym page_image = "nat \<Rightarrow> u8"

text \<open>What the code reads: the routines, the words that rw\_size points to, the patchers (assembly),
  the sizes of structures, and the number of slots in struct callout\_entry with the first slots of
  the two debug channels and the slot after them.\<close>
record co_env =
  ce_rtn :: "callout \<Rightarrow> callout_rtn"
  ce_rw :: "nat \<Rightarrow> u32"
  ce_patcher :: "callout \<Rightarrow> u32 \<Rightarrow> u32 \<Rightarrow> patch option \<Rightarrow> page_image \<Rightarrow> page_image"
  ce_pagesize :: u64
  ce_vaddr :: u64
  ce_slots :: nat
  ce_debug :: "nat \<times> nat \<times> nat"
  sz_intrinfo :: nat
  sz_co_info :: u64

record co_state =
  co_intrs :: "intr_entry list"
  co_fp :: "slot \<Rightarrow> fp"
  co_hooked :: bool
  co_free :: nat
  co_rw :: "(nat \<times> u32) list"
  co_patch :: "(slot \<times> patch) list"
  co_rw_size :: u32
  co_rtn_size :: u32

definition co_init :: co_state where
  "co_init = \<lparr>co_intrs = [], co_fp = (\<lambda>_. Null), co_hooked = False, co_free = 0, co_rw = [],
     co_patch = [], co_rw_size = 0, co_rtn_size = 0\<rparr>"

definition INFO_BLOCK :: nat where "INFO_BLOCK = 20"

text \<open>get\_co\_info: a block of 20 from the working storage when the free list is empty.\<close>
definition get_co_info :: "ram_env \<Rightarrow> co_env \<Rightarrow> co_state \<Rightarrow> ram_state \<Rightarrow> (co_state \<times> ram_state) res" where
  "get_co_info re ce c r =
    and_then
      (if co_free c = 0 then
         and_then (ws_alloc re (sz_co_info ce * of_nat INFO_BLOCK) r) (\<lambda>(p, r).
           if p = None then crash ''No memory for callout information structure''
           else ok (INFO_BLOCK, r))
       else ok (co_free c, r))
      (\<lambda>(n, r). ok (c\<lparr>co_free := n - 1\<rparr>, r))"

section \<open>Filling slots\<close>

text \<open>The routine of a slot; a slot that already holds an address is not read as a routine.\<close>
definition rtn_at :: "co_state \<Rightarrow> slot \<Rightarrow> callout option res" where
  "rtn_at c s = (case co_fp c s of Null \<Rightarrow> ok None | Rtn x \<Rightarrow> ok (Some x) | At _ \<Rightarrow> stray)"

definition callout_register_data ::
  "ram_env \<Rightarrow> co_env \<Rightarrow> slot \<Rightarrow> patch option \<Rightarrow> co_state \<Rightarrow> ram_state \<Rightarrow> (co_state \<times> ram_state) res" where
  "callout_register_data re ce s data c r =
    and_then (rtn_at c s) (\<lambda>rtn.
    case (data, rtn) of
      (Some d, Some x) \<Rightarrow>
        if rtn_patcher (ce_rtn ce x) \<and> s \<notin> set (map fst (co_patch c)) then
          and_then (get_co_info re ce c r) (\<lambda>(c, r). ok (c\<lparr>co_patch := (s, d) # co_patch c\<rparr>, r))
        else ok (c, r)
    | _ \<Rightarrow> ok (c, r))"

definition fp_of :: "callout option \<Rightarrow> fp" where
  "fp_of x = (case x of None \<Rightarrow> Null | Some y \<Rightarrow> Rtn y)"

text \<open>add\_callout: the slot's number is the offset divided by the size of a pointer; the slots of a
  debug channel get that channel's device as data.\<close>
definition add_callout ::
  "ram_env \<Rightarrow> co_env \<Rightarrow> nat \<Rightarrow> callout option \<Rightarrow> co_state \<Rightarrow> ram_state \<Rightarrow> (co_state \<times> ram_state) res" where
  "add_callout re ce offset x c r =
    (let k = offset div 8; c = c\<lparr>co_fp := (co_fp c)(Co k := fp_of x)\<rparr>; (d0, d1, d2) = ce_debug ce in
     if d0 \<le> offset \<and> offset < d1 then callout_register_data re ce (Co k) (Some (Dbg_device 0)) c r
     else if d1 \<le> offset \<and> offset < d2 then callout_register_data re ce (Co k) (Some (Dbg_device 1)) c r
     else ok (c, r))"

text \<open>A loop with a state over the elements of a list.\<close>
primrec each :: "('a \<Rightarrow> 's \<Rightarrow> 's res) \<Rightarrow> 'a list \<Rightarrow> 's \<Rightarrow> 's res" where
  "each f [] s = ok s"
| "each f (x # xs) s = and_then (f x s) (each f xs)"

definition add_callout_array ::
  "ram_env \<Rightarrow> co_env \<Rightarrow> (nat \<times> callout option) list \<Rightarrow> co_state \<times> ram_state \<Rightarrow> (co_state \<times> ram_state) res" where
  "add_callout_array re ce = each (\<lambda>(offset, x) (c, r). add_callout re ce offset x c r)"

text \<open>The new entry: memory of the section is zero, and a size is only written for a routine.\<close>
definition entry_of :: "co_env \<Rightarrow> intrinfo \<Rightarrow> intr_entry" where
  "entry_of ce i =
    \<lparr>ie_vector_base = vector_base i, ie_num_vectors = num_vectors i, ie_cascade_vector = cascade_vector i,
     ie_cpu_intr_base = cpu_intr_base i, ie_cpu_intr_stride = cpu_intr_stride i, ie_flags = in_flags i,
     ie_local_stride = local_stride i,
     ie_id_genflags = ig_genflags (in_id i),
     ie_id_size = (case ig_rtn (in_id i) of None \<Rightarrow> 0 | Some x \<Rightarrow> ucast (rtn_size (ce_rtn ce x))),
     ie_eoi_genflags = ig_genflags (in_eoi i),
     ie_eoi_size = (case ig_rtn (in_eoi i) of None \<Rightarrow> 0 | Some x \<Rightarrow> ucast (rtn_size (ce_rtn ce x)))\<rparr>"

definition entry_rtns :: "intrinfo \<Rightarrow> callout option list" where
  "entry_rtns i = [ig_rtn (in_id i), ig_rtn (in_eoi i), in_mask i, in_unmask i, in_config i]"

text \<open>The section grows by one entry; lsp is the rest of the system page.\<close>
definition add_interrupt ::
  "ram_env \<Rightarrow> co_env \<Rightarrow> intrinfo \<Rightarrow> co_state \<times> ram_state \<Rightarrow> (co_state \<times> ram_state) res" where
  "add_interrupt re ce i cr =
    (case cr of (c, r) \<Rightarrow>
     and_then (request (sz_intrinfo ce) (sbud (rs_lsp r))) (\<lambda>(_, b).
     let n = length (co_intrs c);
         r = r\<lparr>rs_lsp := (rs_lsp r)\<lparr>sbud := b\<rparr>\<rparr>;
         c = c\<lparr>co_hooked := True, co_intrs := co_intrs c @ [entry_of ce i],
               co_fp := (\<lambda>s. case s of Intr m j \<Rightarrow>
                   if m = n \<and> j < 5 then fp_of (entry_rtns i ! j) else co_fp c s | Co _ \<Rightarrow> co_fp c s)\<rparr>
     in each (\<lambda>j (c, r). callout_register_data re ce (Intr n j) (in_patch i) c r) [0 ..< 5] (c, r)))"

definition add_interrupt_array ::
  "ram_env \<Rightarrow> co_env \<Rightarrow> intrinfo list \<Rightarrow> co_state \<times> ram_state \<Rightarrow> (co_state \<times> ram_state) res" where
  "add_interrupt_array re ce = each (add_interrupt re ce)"

text \<open>interrupt\_valid: the comparisons are unsigned.\<close>
fun interrupt_valid :: "u32 \<Rightarrow> intr_entry list \<Rightarrow> bool" where
  "interrupt_valid i [] = False"
| "interrupt_valid i (e # es) =
    (if ie_vector_base e \<le> i \<and> i < ie_vector_base e + ie_num_vectors e then True
     else interrupt_valid i es)"

section \<open>Sizing and writing\<close>

text \<open>The slots in the order of the output: the interrupt entries when there are any, then the
  callout section.\<close>
definition out_slots :: "co_env \<Rightarrow> co_state \<Rightarrow> slot list" where
  "out_slots ce c =
    (if co_hooked c then concat (map (\<lambda>i. map (Intr i) [0 ..< 5]) [0 ..< length (co_intrs c)]) else []) @
    map Co [0 ..< ce_slots ce]"

text \<open>callout\_output\_one with sizing set: one area of working data for each word rw\_size points to.\<close>
definition size_one :: "ram_env \<Rightarrow> co_env \<Rightarrow> slot \<Rightarrow> co_state \<times> ram_state \<Rightarrow> (co_state \<times> ram_state) res" where
  "size_one re ce s cr =
    (case cr of (c, r) \<Rightarrow>
     and_then (rtn_at c s) (\<lambda>x.
     case x of None \<Rightarrow> ok (c, r)
     | Some x \<Rightarrow>
        let rtn = ce_rtn ce x; c = c\<lparr>co_rtn_size := co_rtn_size c + rtn_size rtn\<rparr> in
        (case rtn_rw rtn of
           None \<Rightarrow> ok (c, r)
         | Some p \<Rightarrow>
             if p \<in> set (map fst (co_rw c)) then ok (c, r)
             else and_then (get_co_info re ce c r) (\<lambda>(c, r).
               ok (c\<lparr>co_rw := (p, co_rw_size c) # co_rw c, co_rw_size := co_rw_size c + ce_rw ce p\<rparr>, r)))))"

definition copy_to :: "nat \<Rightarrow> nat \<Rightarrow> (nat \<Rightarrow> u8) \<Rightarrow> page_image \<Rightarrow> page_image" where
  "copy_to off n src pg = (\<lambda>x. if off \<le> x \<and> x < off + n then src (x - off) else pg x)"

text \<open>callout\_output\_one when writing.  The first routine clears the working data and starts the
  code at the page after it; ts is the size of the system page.\<close>
definition write_one :: "co_env \<Rightarrow> u32 \<Rightarrow> slot \<Rightarrow> co_state \<times> page_image \<Rightarrow> (co_state \<times> page_image) res" where
  "write_one ce ts s cp =
    (case cp of (c, pg) \<Rightarrow>
     and_then (rtn_at c s) (\<lambda>x.
     case x of None \<Rightarrow> ok (c, pg)
     | Some x \<Rightarrow>
        let rtn = ce_rtn ce x;
            (off, pg) =
              (if co_rtn_size c = 0
               then (ucast (ROUND (ucast (ts + co_rw_size c)) (ce_pagesize ce)),
                     copy_to (unat ts) (unat (co_rw_size c)) (\<lambda>_. 0) pg)
               else (co_rtn_size c, pg));
            pg = copy_to (unat off) (unat (rtn_size rtn)) (rtn_code rtn) pg in
        and_then
          (case rtn_rw rtn of
             None \<Rightarrow> ok ts
           | Some p \<Rightarrow> (case map_of (co_rw c) p of None \<Rightarrow> stray | Some ro \<Rightarrow> ok (ts + ro)))
          (\<lambda>rw_off.
            let pg = (if rtn_patcher rtn then ce_patcher ce x off rw_off (map_of (co_patch c) s) pg else pg)
            in ok (c\<lparr>co_rtn_size := off + rtn_size rtn,
                      co_fp := (co_fp c)(s := At (ce_vaddr ce + ucast off))\<rparr>, pg))))"

text \<open>output\_callouts in its two uses.\<close>
definition size_callouts :: "ram_env \<Rightarrow> co_env \<Rightarrow> co_state \<times> ram_state \<Rightarrow> (u32 \<times> u32 \<times> co_state \<times> ram_state) res" where
  "size_callouts re ce cr =
    and_then (each (size_one re ce) (out_slots ce (fst cr)) cr) (\<lambda>(c, r).
      let rw = ucast (ROUND (ucast (co_rw_size c)) 8); sz = ucast (ROUND (ucast (co_rtn_size c)) 8)
      in ok (sz, rw, c\<lparr>co_rw_size := rw, co_rtn_size := 0\<rparr>, r))"

definition write_callouts :: "co_env \<Rightarrow> u32 \<Rightarrow> co_state \<times> page_image \<Rightarrow> (u32 \<times> co_state \<times> page_image) res" where
  "write_callouts ce ts cp =
    and_then (each (write_one ce ts) (out_slots ce (fst cp)) cp) (\<lambda>(c, pg).
      ok (ucast (ROUND (ucast (co_rtn_size c)) 8),
          c\<lparr>co_rw_size := ucast (ROUND (ucast (co_rw_size c)) 8)\<rparr>, pg))"

section \<open>The two passes agree\<close>

text \<open>The routines of the slots in the order of the output, the bytes of code and at most of working
  data they need, and where their copies lie from offset o on.\<close>
fun routines :: "(slot \<Rightarrow> fp) \<Rightarrow> slot list \<Rightarrow> (slot \<times> callout) list" where
  "routines f [] = []"
| "routines f (s # ss) = (case f s of Rtn x \<Rightarrow> (s, x) # routines f ss | _ \<Rightarrow> routines f ss)"

definition code_size :: "co_env \<Rightarrow> callout \<Rightarrow> nat" where
  "code_size ce x = unat (rtn_size (ce_rtn ce x))"

definition data_size :: "co_env \<Rightarrow> callout \<Rightarrow> nat" where
  "data_size ce x = (case rtn_rw (ce_rtn ce x) of None \<Rightarrow> 0 | Some p \<Rightarrow> unat (ce_rw ce p))"

definition code_len :: "co_env \<Rightarrow> (slot \<times> callout) list \<Rightarrow> nat" where
  "code_len ce xs = sum_list (map (code_size ce \<circ> snd) xs)"

definition data_len :: "co_env \<Rightarrow> (slot \<times> callout) list \<Rightarrow> nat" where
  "data_len ce xs = sum_list (map (data_size ce \<circ> snd) xs)"

fun place :: "co_env \<Rightarrow> nat \<Rightarrow> (slot \<times> callout) list \<Rightarrow> (slot \<times> callout \<times> nat) list" where
  "place ce off [] = []"
| "place ce off ((s, x) # xs) = (s, x, off) # place ce (off + code_size ce x) xs"

lemma code_len_simps [simp]:
  "code_len ce [] = 0" "code_len ce ((s, x) # xs) = code_size ce x + code_len ce xs"
  by (simp_all add: code_len_def)

lemma data_len_simps [simp]:
  "data_len ce [] = 0" "data_len ce ((s, x) # xs) = data_size ce x + data_len ce xs"
  by (simp_all add: data_len_def)

text \<open>The areas of working data, the newest first, fill the range below z without gaps.\<close>
fun rw_laid :: "co_env \<Rightarrow> (nat \<times> u32) list \<Rightarrow> u32 \<Rightarrow> bool" where
  "rw_laid ce [] z \<longleftrightarrow> z = 0"
| "rw_laid ce ((p, off) # l) z \<longleftrightarrow> unat z = unat off + unat (ce_rw ce p) \<and> rw_laid ce l off"

lemma rw_laid_below: "rw_laid ce l z \<Longrightarrow> (p, off) \<in> set l \<Longrightarrow> unat off + unat (ce_rw ce p) \<le> unat z"
  by (induction l arbitrary: z) fastforce+

lemma get_co_info_ok: "get_co_info re ce c r = ok (c', r') \<Longrightarrow> \<exists>n. c' = c\<lparr>co_free := n\<rparr>"
  by (auto simp: get_co_info_def res_simps split: if_splits)

lemma rtn_at_ok: "rtn_at c s = ok x \<Longrightarrow> co_fp c s = fp_of x"
  by (auto simp: rtn_at_def fp_of_def split: fp.splits)

text \<open>What a part of the sizing pass does to the state.\<close>
definition sized :: "co_env \<Rightarrow> (slot \<times> callout) list \<Rightarrow> co_state \<Rightarrow> co_state \<Rightarrow> bool" where
  "sized ce xs c c' \<longleftrightarrow>
    co_fp c' = co_fp c \<and> co_patch c' = co_patch c \<and> co_hooked c' = co_hooked c \<and> co_intrs c' = co_intrs c \<and>
    unat (co_rtn_size c') = unat (co_rtn_size c) + code_len ce xs \<and>
    unat (co_rw_size c') \<le> unat (co_rw_size c) + data_len ce xs \<and>
    rw_laid ce (co_rw c') (co_rw_size c') \<and> set (co_rw c) \<subseteq> set (co_rw c') \<and>
    (\<forall>(s, x) \<in> set xs. \<forall>p. rtn_rw (ce_rtn ce x) = Some p \<longrightarrow> p \<in> fst ` set (co_rw c'))"

lemma size_one_sized:
  assumes "size_one re ce s (c, r) = ok (c', r')" "rw_laid ce (co_rw c) (co_rw_size c)"
    and "unat (co_rw_size c) + data_len ce (routines (co_fp c) [s]) < 2 ^ 32"
    and "unat (co_rtn_size c) + code_len ce (routines (co_fp c) [s]) < 2 ^ 32"
  shows "sized ce (routines (co_fp c) [s]) c c' \<and> (\<forall>v. co_fp c s \<noteq> At v)"
proof -
  obtain x where x: "rtn_at c s = ok x" using assms(1) by (auto simp: size_one_def res_simps)
  show ?thesis
  proof (cases x)
    case None
    then show ?thesis
      using assms rtn_at_ok [OF x] x by (simp add: size_one_def sized_def fp_of_def)
  next
    case (Some y)
    note f = rtn_at_ok [OF x, unfolded Some fp_of_def, simplified]
    have sum: "unat (co_rtn_size c + rtn_size (ce_rtn ce y)) = unat (co_rtn_size c) + code_size ce y"
      using assms(4) f by (simp add: code_size_def unat_add_lem [THEN iffD1])
    show ?thesis
    proof (cases "rtn_rw (ce_rtn ce y)")
      case None
      then show ?thesis
        using assms(1,2) x Some f sum by (auto simp: size_one_def sized_def)
    next
      case (Some p)
      have dsum: "unat (co_rw_size c + ce_rw ce p) = unat (co_rw_size c) + unat (ce_rw ce p)"
        using assms(3) f Some by (simp add: data_size_def unat_add_lem [THEN iffD1])
      let ?c = "c\<lparr>co_rtn_size := co_rtn_size c + rtn_size (ce_rtn ce y)\<rparr>"
      show ?thesis
      proof (cases "p \<in> set (map fst (co_rw c))")
        case True
        then have "c' = ?c"
          using assms(1) x \<open>x = Some y\<close> Some by (auto simp: size_one_def Let_def)
        with True assms(2) f sum Some show ?thesis by (simp add: sized_def)
      next
        case False
        have "and_then (get_co_info re ce ?c r) (\<lambda>(c, r).
            ok (c\<lparr>co_rw := (p, co_rw_size c) # co_rw c, co_rw_size := co_rw_size c + ce_rw ce p\<rparr>, r)) = ok (c', r')"
          using assms(1) x \<open>x = Some y\<close> Some False by (simp add: size_one_def Let_def image_iff)
        then obtain n where "c' = ?c\<lparr>co_free := n, co_rw := (p, co_rw_size c) # co_rw c,
            co_rw_size := co_rw_size c + ce_rw ce p\<rparr>"
          by (auto simp: res_simps dest!: get_co_info_ok)
        with assms(2) f sum dsum Some show ?thesis by (auto simp: sized_def data_size_def)
      qed
    qed
  qed
qed

lemma len_append [simp]:
  "code_len ce (xs @ ys) = code_len ce xs + code_len ce ys" "data_len ce (xs @ ys) = data_len ce xs + data_len ce ys"
  by (simp_all add: code_len_def data_len_def)

lemma sized_trans:
  assumes "sized ce xs c c'" "sized ce ys c' c''"
  shows "sized ce (xs @ ys) c c''"
proof -
  have "fst ` set (co_rw c') \<subseteq> fst ` set (co_rw c'')"
    using assms(2) by (auto simp: sized_def)
  with assms show ?thesis
    unfolding sized_def len_append by (auto simp: subset_iff)
qed

lemma routines_Cons: "routines f (s # ss) = routines f [s] @ routines f ss"
  by (simp split: fp.splits)

lemma size_each_sized:
  assumes "each (size_one re ce) ss (c, r) = ok (c', r')" "rw_laid ce (co_rw c) (co_rw_size c)"
    and "unat (co_rw_size c) + data_len ce (routines (co_fp c) ss) < 2 ^ 32"
    and "unat (co_rtn_size c) + code_len ce (routines (co_fp c) ss) < 2 ^ 32"
  shows "sized ce (routines (co_fp c) ss) c c' \<and> (\<forall>s \<in> set ss. \<forall>v. co_fp c s \<noteq> At v)"
  using assms
proof (induction ss arbitrary: c r)
  case Nil
  then show ?case by (auto simp: sized_def)
next
  case (Cons s ss)
  obtain c1 r1 where one: "size_one re ce s (c, r) = ok (c1, r1)"
    and rest: "each (size_one re ce) ss (c1, r1) = ok (c', r')"
    using Cons.prems(1) by (auto simp: res_simps)
  note app = routines_Cons [of "co_fp c" s ss]
  have s1: "sized ce (routines (co_fp c) [s]) c c1" "\<forall>v. co_fp c s \<noteq> At v"
    using size_one_sized [OF one Cons.prems(2)] Cons.prems(3,4) unfolding app by auto
  then have f: "co_fp c1 = co_fp c" by (simp add: sized_def)
  have "sized ce (routines (co_fp c1) ss) c1 c' \<and> (\<forall>s \<in> set ss. \<forall>v. co_fp c1 s \<noteq> At v)"
    using Cons.IH [OF rest] s1(1) Cons.prems(3,4) unfolding app f sized_def by auto
  then show ?case
    using s1 sized_trans unfolding app f by auto
qed

text \<open>A patcher changes only the copy of its routine and the routine's working data.\<close>
definition patch_local :: "co_env \<Rightarrow> bool" where
  "patch_local ce \<longleftrightarrow> (\<forall>x off rw d pg a. ce_patcher ce x off rw d pg a \<noteq> pg a \<longrightarrow>
     unat off \<le> a \<and> a < unat off + code_size ce x \<or> unat rw \<le> a \<and> a < unat rw + data_size ce x)"

definition rw_below :: "co_env \<Rightarrow> u32 \<Rightarrow> (nat \<times> u32) list \<Rightarrow> nat \<Rightarrow> bool" where
  "rw_below ce ts l lim \<longleftrightarrow> (\<forall>(p, ro) \<in> set l. unat ts + unat ro + unat (ce_rw ce p) \<le> lim)"

definition has_data :: "co_env \<Rightarrow> callout \<Rightarrow> (nat \<times> u32) list \<Rightarrow> bool" where
  "has_data ce x l \<longleftrightarrow> (\<forall>p. rtn_rw (ce_rtn ce x) = Some p \<longrightarrow> p \<in> fst ` set l)"

text \<open>The bytes a part of the output leaves alone.\<close>
definition kept :: "nat \<Rightarrow> nat \<Rightarrow> nat \<Rightarrow> nat \<Rightarrow> page_image \<Rightarrow> page_image \<Rightarrow> bool" where
  "kept ts lim lo hi pg pg' \<longleftrightarrow> (\<forall>a. a < ts \<or> lim \<le> a \<and> a < lo \<or> hi \<le> a \<longrightarrow> pg' a = pg a)"

lemma write_one_step:
  assumes x: "co_fp c s = Rtn x" and run: "co_rtn_size c \<noteq> 0" and n: "n = unat (co_rtn_size c)"
    and fits: "n + code_size ce x < 2 ^ 32" and local: "patch_local ce"
    and rw: "rw_below ce ts (co_rw c) lim" "lim \<le> n" "unat ts \<le> lim" and data: "has_data ce x (co_rw c)"
  shows "\<exists>pg'. write_one ce ts s (c, pg) =
      ok (c\<lparr>co_rtn_size := co_rtn_size c + rtn_size (ce_rtn ce x),
            co_fp := (co_fp c)(s := At (ce_vaddr ce + of_nat n))\<rparr>, pg') \<and>
    kept (unat ts) lim n (n + code_size ce x) pg pg' \<and>
    (\<not> rtn_patcher (ce_rtn ce x) \<longrightarrow> (\<forall>k < code_size ce x. pg' (n + k) = rtn_code (ce_rtn ce x) k))"
proof -
  let ?r = "ce_rtn ce x"
  let ?cp = "copy_to n (unat (rtn_size ?r)) (rtn_code ?r) pg"
  obtain rw_off where off: "(case rtn_rw ?r of None \<Rightarrow> ok ts
        | Some p \<Rightarrow> (case map_of (co_rw c) p of None \<Rightarrow> stray | Some ro \<Rightarrow> ok (ts + ro))) = ok rw_off"
    and low: "unat ts \<le> unat rw_off" "unat rw_off + data_size ce x \<le> lim"
  proof (cases "rtn_rw ?r")
    case None
    then show ?thesis using that rw(3) by (simp add: data_size_def)
  next
    case (Some p)
    then obtain ro where ro: "map_of (co_rw c) p = Some ro"
      using data by (cases "map_of (co_rw c) p") (auto simp: has_data_def map_of_eq_None_iff)
    then have le: "unat ts + unat ro + unat (ce_rw ce p) \<le> lim"
      using rw(1) map_of_SomeD by (fastforce simp: rw_below_def)
    moreover have "lim < 2 ^ 32" using rw(2) fits by simp
    ultimately have "unat (ts + ro) = unat ts + unat ro"
      by (intro unat_add_lem [THEN iffD1]) simp
    then show ?thesis using that [of "ts + ro"] Some ro le by (simp add: data_size_def)
  qed
  let ?pg = "if rtn_patcher ?r then ce_patcher ce x (co_rtn_size c) rw_off (map_of (co_patch c) s) ?cp else ?cp"
  have "ucast (co_rtn_size c) = (of_nat n :: u64)"
    by (simp add: n)
  then have "write_one ce ts s (c, pg) =
      ok (c\<lparr>co_rtn_size := co_rtn_size c + rtn_size ?r,
            co_fp := (co_fp c)(s := At (ce_vaddr ce + of_nat n))\<rparr>, ?pg)"
    using run by (simp add: write_one_def rtn_at_def x off n [symmetric] Let_def)
  moreover have "kept (unat ts) lim n (n + code_size ce x) pg ?pg"
  proof -
    have "?pg a = pg a" if a: "a < unat ts \<or> lim \<le> a \<and> a < n \<or> n + code_size ce x \<le> a" for a
    proof -
      from a rw(2,3) have "a < n \<or> n + code_size ce x \<le> a" by linarith
      then have cp: "?cp a = pg a"
        by (auto simp: copy_to_def code_size_def)
      have "\<not> (n \<le> a \<and> a < n + code_size ce x \<or> unat rw_off \<le> a \<and> a < unat rw_off + data_size ce x)"
        using a low rw(2,3) by linarith
      then have "ce_patcher ce x (co_rtn_size c) rw_off d ?cp a = ?cp a" for d
        using local unfolding patch_local_def n by blast
      with cp show ?thesis by simp
    qed
    then show ?thesis unfolding kept_def by blast
  qed
  moreover have "\<forall>k < code_size ce x. ?cp (n + k) = rtn_code ?r k"
    by (simp add: copy_to_def code_size_def)
  ultimately show ?thesis by (intro exI [of _ ?pg]) simp
qed

lemma write_one_none:
  "co_fp c s = Null \<Longrightarrow> write_one ce ts s (c, pg) = ok (c, pg)"
  "co_fp c s = At v \<Longrightarrow> write_one ce ts s (c, pg) = stray"
  by (simp_all add: write_one_def rtn_at_def)

lemma kept_trans:
  "kept ts lim lo mid pg pg1 \<Longrightarrow> kept ts lim mid hi pg1 pg2 \<Longrightarrow> lim \<le> lo \<Longrightarrow> lo \<le> mid \<Longrightarrow> mid \<le> hi \<Longrightarrow>
    kept ts lim lo hi pg pg2"
  by (simp add: kept_def)

text \<open>Where the copies are and what they hold.\<close>
definition placed :: "co_env \<Rightarrow> nat \<Rightarrow> (slot \<times> callout) list \<Rightarrow> (slot \<Rightarrow> fp) \<Rightarrow> page_image \<Rightarrow> bool" where
  "placed ce n xs f pg \<longleftrightarrow> (\<forall>(s, x, off) \<in> set (place ce n xs).
     f s = At (ce_vaddr ce + of_nat off) \<and>
     (\<not> rtn_patcher (ce_rtn ce x) \<longrightarrow> (\<forall>k < code_size ce x. pg (off + k) = rtn_code (ce_rtn ce x) k)))"

lemma place_ge: "(s, x, off) \<in> set (place ce n xs) \<Longrightarrow> n \<le> off"
  by (induction xs arbitrary: n) fastforce+

lemma routines_upd: "s \<notin> set ss \<Longrightarrow> routines (f(s := v)) ss = routines f ss"
  by (induction ss) (auto split: fp.splits)

lemma place_slots: "(s, x, off) \<in> set (place ce n xs) \<Longrightarrow> (s, x) \<in> set xs"
  by (induction xs arbitrary: n) fastforce+

lemma routines_slots: "(s, x) \<in> set (routines f ss) \<Longrightarrow> s \<in> set ss \<and> f s = Rtn x"
  by (induction ss) (auto split: fp.splits)

lemma write_each:
  assumes "distinct ss" "\<forall>s \<in> set ss. \<forall>v. co_fp c s \<noteq> At v"
    and "co_rtn_size c \<noteq> 0" "n = unat (co_rtn_size c)" "n + code_len ce (routines (co_fp c) ss) < 2 ^ 32"
    and "patch_local ce" "rw_below ce ts (co_rw c) lim" "lim \<le> n" "unat ts \<le> lim"
    and "\<forall>(s, x) \<in> set (routines (co_fp c) ss). has_data ce x (co_rw c)"
  shows "\<exists>c' pg'. each (write_one ce ts) ss (c, pg) = ok (c', pg') \<and>
    unat (co_rtn_size c') = n + code_len ce (routines (co_fp c) ss) \<and> co_rw_size c' = co_rw_size c \<and>
    (\<forall>s. s \<notin> set ss \<longrightarrow> co_fp c' s = co_fp c s) \<and>
    kept (unat ts) lim n (n + code_len ce (routines (co_fp c) ss)) pg pg' \<and>
    placed ce n (routines (co_fp c) ss) (co_fp c') pg'"
  using assms
proof (induction ss arbitrary: c n pg)
  case Nil
  then show ?case by (simp add: kept_def placed_def)
next
  case (Cons s ss)
  show ?case
  proof (cases "co_fp c s")
    case Null
    then have "write_one ce ts s (c, pg) = ok (c, pg)" by (rule write_one_none)
    then show ?thesis using Cons.IH [of c n pg] Cons.prems Null by auto
  next
    case (At v)
    then show ?thesis using Cons.prems(2) by simp
  next
    case (Rtn x)
    let ?xs = "routines (co_fp c) ss" and ?m = "n + code_size ce x"
    let ?c = "c\<lparr>co_rtn_size := co_rtn_size c + rtn_size (ce_rtn ce x),
            co_fp := (co_fp c)(s := At (ce_vaddr ce + of_nat n))\<rparr>"
    have xs: "routines (co_fp ?c) ss = ?xs" using Cons.prems(1) by (simp add: routines_upd)
    have fit: "?m + code_len ce ?xs < 2 ^ 32" using Cons.prems(5) Rtn by simp
    obtain pg1 where one: "write_one ce ts s (c, pg) = ok (?c, pg1)" and k1: "kept (unat ts) lim n ?m pg pg1"
      and code: "\<not> rtn_patcher (ce_rtn ce x) \<Longrightarrow> k < code_size ce x \<Longrightarrow> pg1 (n + k) = rtn_code (ce_rtn ce x) k" for k
      using write_one_step [OF Rtn Cons.prems(3,4) _ Cons.prems(6-9)] Cons.prems(10) fit Rtn by fastforce
    have m: "?m = unat (co_rtn_size ?c)"
      using fit Cons.prems(4) by (simp add: code_size_def unat_add_lem [THEN iffD1])
    moreover have "0 < n" using Cons.prems(3,4) by (simp add: unat_gt_0)
    ultimately have nz: "co_rtn_size ?c \<noteq> 0" by (metis add_gr_0 less_irrefl unsigned_0)
    have na: "\<forall>t \<in> set ss. \<forall>v. co_fp ?c t \<noteq> At v" using Cons.prems(1,2) by auto
    obtain c' pg' where rest: "each (write_one ce ts) ss (?c, pg1) = ok (c', pg')"
      and len: "unat (co_rtn_size c') = ?m + code_len ce ?xs" and rws: "co_rw_size c' = co_rw_size c"
      and same: "\<forall>t. t \<notin> set ss \<longrightarrow> co_fp c' t = co_fp ?c t"
      and k2: "kept (unat ts) lim ?m (?m + code_len ce ?xs) pg1 pg'" and p2: "placed ce ?m ?xs (co_fp c') pg'"
      using Cons.IH [of ?c ?m pg1, unfolded xs, OF _ na nz m fit] Cons.prems Rtn by auto
    have "placed ce n ((s, x) # ?xs) (co_fp c') pg'"
    proof -
      have "co_fp c' s = At (ce_vaddr ce + of_nat n)" using same Cons.prems(1) by simp
      moreover have "pg' (n + k) = pg1 (n + k)" if "k < code_size ce x" for k
        using k2 that Cons.prems(8) by (simp add: kept_def)
      ultimately show ?thesis using code p2 by (simp add: placed_def)
    qed
    moreover have "kept (unat ts) lim n (?m + code_len ce ?xs) pg pg'"
      by (rule kept_trans [OF k1 k2]) (use Cons.prems(8) in auto)
    ultimately show ?thesis
      using one rest len rws same Rtn by (auto simp: add.assoc)
  qed
qed

text \<open>The first routine starts the code.\<close>
lemma write_each_start:
  assumes "co_rtn_size c = 0" "routines (co_fp c) ss \<noteq> []"
    and start: "start = ucast (ROUND (ucast (ts + co_rw_size c)) (ce_pagesize ce))" "start \<noteq> 0"
  shows "each (write_one ce ts) ss (c, pg) =
    each (write_one ce ts) ss (c\<lparr>co_rtn_size := start\<rparr>, copy_to (unat ts) (unat (co_rw_size c)) (\<lambda>_. 0) pg)"
  using assms(2)
proof (induction ss)
  case Nil
  then show ?case by simp
next
  case (Cons s ss)
  show ?case
  proof (cases "co_fp c s")
    case (Rtn x)
    have "write_one ce ts s (c, pg) =
      write_one ce ts s (c\<lparr>co_rtn_size := start\<rparr>, copy_to (unat ts) (unat (co_rw_size c)) (\<lambda>_. 0) pg)"
      using assms(1) start Rtn by (simp add: write_one_def rtn_at_def Let_def split: option.splits)
    then show ?thesis by simp
  qed (use Cons in \<open>simp_all add: write_one_none\<close>)
qed

lemma round32:
  fixes x :: u32
  assumes "n < 32" "unat x + 2 ^ n \<le> 2 ^ 32"
  shows "unat (ucast (ROUND (ucast x) (2 ^ n)) :: u32) = roundup (unat x) (2 ^ n)"
proof -
  have e: "unat (ucast x :: u64) = unat x"
    by (simp only: unsigned_ucast_eq) (rule take_bit_nat_eq_self, rule order_less_trans [OF unsigned_less], simp)
  have "unat (ROUND (ucast x) (2 ^ n)) = roundup (unat x) (2 ^ n)"
    using roundup_ROUND [of n "ucast x"] assms by (simp add: e)
  moreover have "roundup (unat x) (2 ^ n) < 2 ^ 32"
    using roundup_less [of "2 ^ n" "unat x"] assms(2) by simp
  ultimately show ?thesis
    by (simp only: unsigned_ucast_eq) (simp add: take_bit_nat_eq_self)
qed

lemma out_slots_distinct: "distinct (out_slots ce c)"
proof -
  have "distinct (concat (map (\<lambda>i. map (Intr i) [0 ..< 5]) [0 ..< k]))" for k
    by (induction k) (auto simp: distinct_map inj_on_def)
  then show ?thesis by (auto simp: out_slots_def distinct_map inj_on_def)
qed

lemma write_each_none:
  "\<forall>s \<in> set ss. \<forall>v. co_fp c s \<noteq> At v \<Longrightarrow> routines (co_fp c) ss = [] \<Longrightarrow> each (write_one ce ts) ss (c, pg) = ok (c, pg)"
proof (induction ss)
  case (Cons s ss)
  then show ?case by (cases "co_fp c s") (auto simp: write_one_none)
qed simp

text \<open>What the sizing pass leaves for the writing pass.\<close>
lemma size_callouts_ok:
  assumes run: "size_callouts re ce (c, r) = ok (sz, rw, c1, r1)"
    and fresh: "co_rtn_size c = 0" "co_rw c = []" "co_rw_size c = 0"
    and xs: "xs = routines (co_fp c) (out_slots ce c)"
    and fit: "data_len ce xs + 8 \<le> 2 ^ 32" "code_len ce xs + 8 \<le> 2 ^ 32"
  shows "unat sz = roundup (code_len ce xs) 8 \<and> unat rw \<le> roundup (data_len ce xs) 8 \<and>
    co_rtn_size c1 = 0 \<and> co_rw_size c1 = rw \<and> co_fp c1 = co_fp c \<and> out_slots ce c1 = out_slots ce c \<and>
    (\<forall>s \<in> set (out_slots ce c). \<forall>v. co_fp c s \<noteq> At v) \<and> (\<forall>(s, x) \<in> set xs. has_data ce x (co_rw c1)) \<and>
    (\<forall>ts. rw_below ce ts (co_rw c1) (unat ts + unat rw)) \<and> (\<exists>z. rw_laid ce (co_rw c1) z)"
proof -
  obtain c' where each: "each (size_one re ce) (out_slots ce c) (c, r) = ok (c', r1)"
    and sz: "sz = ucast (ROUND (ucast (co_rtn_size c')) 8)" and rw: "rw = ucast (ROUND (ucast (co_rw_size c')) 8)"
    and c1: "c1 = c'\<lparr>co_rw_size := rw, co_rtn_size := 0\<rparr>"
    using run by (auto simp: size_callouts_def res_simps Let_def)
  have s: "sized ce xs c c'" and na: "\<forall>s \<in> set (out_slots ce c). \<forall>v. co_fp c s \<noteq> At v"
    using size_each_sized [OF each] fresh fit unfolding xs by auto
  have code: "unat (co_rtn_size c') = code_len ce xs" and data: "unat (co_rw_size c') \<le> data_len ce xs"
    using s fresh by (simp_all add: sized_def)
  have szn: "unat sz = roundup (code_len ce xs) 8"
    using round32 [of 3 "co_rtn_size c'"] code fit by (simp add: sz)
  have rwn: "unat rw = roundup (unat (co_rw_size c')) 8"
    using round32 [of 3 "co_rw_size c'"] data fit by (simp add: rw)
  have up: "unat (co_rw_size c') \<le> unat rw" unfolding rwn by (rule roundup_ge) simp
  have laid: "rw_laid ce (co_rw c') (co_rw_size c')" using s by (simp add: sized_def)
  have "rw_below ce ts (co_rw c') (unat ts + unat rw)" for ts
    using rw_laid_below [OF laid] up by (fastforce simp: rw_below_def)
  moreover have "unat rw \<le> roundup (data_len ce xs) 8" unfolding rwn by (rule roundup_mono [OF data])
  ultimately show ?thesis
    using s szn na laid by (auto simp: c1 sized_def out_slots_def has_data_def)
qed



section \<open>Interrupt entries\<close>

lemma callout_register_data_ok:
  assumes "callout_register_data re ce s data c r = ok (c', r')"
  shows "co_intrs c' = co_intrs c \<and> co_fp c' = co_fp c \<and> co_hooked c' = co_hooked c \<and>
    (\<exists>l. co_patch c' = l @ co_patch c \<and> set (map fst l) \<subseteq> {s}) \<and>
    (\<forall>d x. data = Some d \<longrightarrow> co_fp c s = Rtn x \<longrightarrow> rtn_patcher (ce_rtn ce x) \<longrightarrow> s \<notin> fst ` set (co_patch c) \<longrightarrow>
       map_of (co_patch c') s = Some d)"
  using assms
  by (fastforce simp: callout_register_data_def res_simps rtn_at_def split: option.splits if_splits fp.splits
      dest!: get_co_info_ok)

text \<open>Registering data for the five slots of entry n.\<close>
definition reg_five :: "ram_env \<Rightarrow> co_env \<Rightarrow> nat \<Rightarrow> patch option \<Rightarrow> nat list \<Rightarrow> co_state \<times> ram_state \<Rightarrow> (co_state \<times> ram_state) res" where
  "reg_five re ce n data = each (\<lambda>j (c, r). callout_register_data re ce (Intr n j) data c r)"

lemma map_of_append_other: "k \<notin> fst ` set l \<Longrightarrow> map_of (l @ m) k = map_of m k"
  by (induction l) auto

lemma reg_five_ok:
  assumes "reg_five re ce n data js (c, r) = ok (c', r')" "distinct js" "\<forall>j \<in> set js. Intr n j \<notin> fst ` set (co_patch c)"
  shows "co_intrs c' = co_intrs c \<and> co_fp c' = co_fp c \<and> co_hooked c' = co_hooked c \<and>
    (\<exists>l. co_patch c' = l @ co_patch c \<and> fst ` set l \<subseteq> Intr n ` set js) \<and>
    (\<forall>d x j. j \<in> set js \<longrightarrow> data = Some d \<longrightarrow> co_fp c (Intr n j) = Rtn x \<longrightarrow> rtn_patcher (ce_rtn ce x) \<longrightarrow>
       map_of (co_patch c') (Intr n j) = Some d)"
  using assms
proof (induction js arbitrary: c r)
  case Nil
  then show ?case by (simp add: reg_five_def)
next
  case (Cons j js)
  obtain c1 r1 where one: "callout_register_data re ce (Intr n j) data c r = ok (c1, r1)"
    and rest: "reg_five re ce n data js (c1, r1) = ok (c', r')"
    using Cons.prems(1) by (auto simp: reg_five_def res_simps)
  note o = callout_register_data_ok [OF one]
  obtain l1 where l1: "co_patch c1 = l1 @ co_patch c" "fst ` set l1 \<subseteq> {Intr n j}" using o by auto
  have fresh: "\<forall>k \<in> set js. Intr n k \<notin> fst ` set (co_patch c1)"
    using Cons.prems(2,3) l1 by auto
  note i = Cons.IH [OF rest _ fresh]
  obtain l2 where l2: "co_patch c' = l2 @ co_patch c1" "fst ` set l2 \<subseteq> Intr n ` set js"
    using i Cons.prems(2) by auto
  have "map_of (co_patch c') (Intr n j) = map_of (co_patch c1) (Intr n j)"
    unfolding l2(1) by (rule map_of_append_other) (use l2(2) Cons.prems(2) in auto)
  moreover have "co_patch c' = (l2 @ l1) @ co_patch c" "fst ` set (l2 @ l1) \<subseteq> Intr n ` set (j # js)"
    using l1 l2 by auto
  ultimately show ?case
    using i o Cons.prems by (intro conjI) (auto intro: exI [of _ "l2 @ l1"])
qed

text \<open>Slots of entries that do not exist yet have no data.\<close>
definition patch_known :: "co_state \<Rightarrow> bool" where
  "patch_known c \<longleftrightarrow> (\<forall>m j. Intr m j \<in> fst ` set (co_patch c) \<longrightarrow> m < length (co_intrs c))"

lemma add_interrupt_ok:
  assumes "add_interrupt re ce i (c, r) = ok (c', r')" "patch_known c"
  shows "patch_known c' \<and> co_hooked c' \<and> co_intrs c' = co_intrs c @ [entry_of ce i] \<and>
    (\<forall>m j. m < length (co_intrs c) \<longrightarrow> co_fp c' (Intr m j) = co_fp c (Intr m j) \<and>
       map_of (co_patch c') (Intr m j) = map_of (co_patch c) (Intr m j)) \<and>
    (\<forall>j < 5. co_fp c' (Intr (length (co_intrs c)) j) = fp_of (entry_rtns i ! j) \<and>
      (\<forall>d x. in_patch i = Some d \<longrightarrow> entry_rtns i ! j = Some x \<longrightarrow> rtn_patcher (ce_rtn ce x) \<longrightarrow>
         map_of (co_patch c') (Intr (length (co_intrs c)) j) = Some d))"
proof -
  let ?n = "length (co_intrs c)"
  let ?c = "c\<lparr>co_hooked := True, co_intrs := co_intrs c @ [entry_of ce i],
               co_fp := (\<lambda>s. case s of Intr m j \<Rightarrow>
                   if m = ?n \<and> j < 5 then fp_of (entry_rtns i ! j) else co_fp c s | Co _ \<Rightarrow> co_fp c s)\<rparr>"
  obtain r2 where reg: "reg_five re ce ?n (in_patch i) [0 ..< 5] (?c, r2) = ok (c', r')"
    using assms(1) by (auto simp: add_interrupt_def reg_five_def res_simps Let_def)
  have "Intr ?n j \<notin> fst ` set (co_patch c)" for j
    using assms(2) unfolding patch_known_def by blast
  then have fresh: "\<forall>j \<in> set [0 ..< 5]. Intr ?n j \<notin> fst ` set (co_patch ?c)" by simp
  note f = reg_five_ok [OF reg _ fresh]
  obtain l where l: "co_patch c' = l @ co_patch c" "fst ` set l \<subseteq> Intr ?n ` {0 ..< 5}"
    using f by auto
  have "map_of (co_patch c') (Intr m j) = map_of (co_patch c) (Intr m j)" if "m < ?n" for m j
    unfolding l(1) by (rule map_of_append_other) (use l(2) that in auto)
  moreover have "patch_known c'"
  proof (unfold patch_known_def, intro allI impI)
    fix m j
    assume "Intr m j \<in> fst ` set (co_patch c')"
    then have "Intr m j \<in> fst ` set l \<or> Intr m j \<in> fst ` set (co_patch c)"
      unfolding l(1) by (simp add: image_Un)
    then have "m = ?n \<or> m < ?n"
      using l(2) assms(2) unfolding patch_known_def by blast
    then show "m < length (co_intrs c')" using f by auto
  qed
  ultimately show ?thesis using f by (auto simp: fp_of_def)
qed

text \<open>After an array of interrupt entries is added, an interrupt is valid exactly when it was
  before or lies in the range of one of them (ranges that wrap excepted).\<close>
lemma add_interrupts_valid:
  assumes "add_interrupt_array re ce is (c, r) = ok (c', r')" "patch_known c"
    and "\<forall>i \<in> set is. unat (vector_base i) + unat (num_vectors i) < 2 ^ 32"
  shows "interrupt_valid v (co_intrs c') \<longleftrightarrow> interrupt_valid v (co_intrs c) \<or>
    (\<exists>i \<in> set is. unat (vector_base i) \<le> unat v \<and> unat v < unat (vector_base i) + unat (num_vectors i))"
  using assms
proof (induction "is" arbitrary: c r)
  case Nil
  then show ?case by (simp add: add_interrupt_array_def)
next
  case (Cons i "is")
  obtain c1 r1 where one: "add_interrupt re ce i (c, r) = ok (c1, r1)"
    and rest: "add_interrupt_array re ce is (c1, r1) = ok (c', r')"
    using Cons.prems(1) by (auto simp: add_interrupt_array_def res_simps)
  note o = add_interrupt_ok [OF one Cons.prems(2)]
  have snoc: "interrupt_valid v (es @ [e]) \<longleftrightarrow> interrupt_valid v es \<or> interrupt_valid v [e]" for es e
    by (induction es) auto
  have "unat (vector_base i + num_vectors i) = unat (vector_base i) + unat (num_vectors i)"
    using Cons.prems(3) by (intro unat_add_lem [THEN iffD1]) simp
  then have "interrupt_valid v [entry_of ce i] \<longleftrightarrow>
      unat (vector_base i) \<le> unat v \<and> unat v < unat (vector_base i) + unat (num_vectors i)"
    by (simp add: entry_of_def word_le_nat_alt word_less_nat_alt)
  then show ?case
    using Cons.IH [OF rest] o Cons.prems(3) snoc by auto
qed

text \<open>Add\_interrupt puts the routines of the entry into the five slots of a new entry of the
  section, and registers the entry's patch data for every slot whose routine has a patcher; slots and
  data of earlier entries stay as they are.\<close>
lemma add_interrupt_registers:
  assumes "add_interrupt re ce i (c, r) = ok (c', r')" "patch_known c" "n = length (co_intrs c)"
  shows "length (co_intrs c') = n + 1 \<and>
    (\<forall>j < 5. co_fp c' (Intr n j) = fp_of (entry_rtns i ! j) \<and>
      (\<forall>d x. in_patch i = Some d \<longrightarrow> entry_rtns i ! j = Some x \<longrightarrow> rtn_patcher (ce_rtn ce x) \<longrightarrow>
         map_of (co_patch c') (Intr n j) = Some d)) \<and>
    (\<forall>m < n. \<forall>j. co_fp c' (Intr m j) = co_fp c (Intr m j) \<and>
       map_of (co_patch c') (Intr m j) = map_of (co_patch c) (Intr m j))"
  using add_interrupt_ok [OF assms(1,2)] by (simp add: assms(3))

section \<open>A concrete section\<close>

definition rtn_ex :: "callout \<Rightarrow> callout_rtn" where
  "rtn_ex x = (case x of
     Routine k \<Rightarrow> if k = 0 then \<lparr>rtn_rw = Some 7, rtn_patcher = False, rtn_size = 40, rtn_code = (\<lambda>i. of_nat i + 1)\<rparr>
       else \<lparr>rtn_rw = Some 8, rtn_patcher = True, rtn_size = 12, rtn_code = (\<lambda>_. 5)\<rparr>
   | _ \<Rightarrow> \<lparr>rtn_rw = None, rtn_patcher = False, rtn_size = 0, rtn_code = (\<lambda>_. 0)\<rparr>)"

definition co_env_ex :: co_env where
  "co_env_ex = \<lparr>ce_rtn = rtn_ex, ce_rw = (\<lambda>k. if k = 7 then 16 else 4),
     ce_patcher = (\<lambda>_ _ _ _ pg. pg), ce_pagesize = 2 ^ 12, ce_vaddr = 0xFFFFFF8000000000,
     ce_slots = 2, ce_debug = (0, 0, 0), sz_intrinfo = 64, sz_co_info = 24\<rparr>"

definition int_ex :: intrinfo where
  "int_ex = \<lparr>vector_base = 32, num_vectors = 8, cascade_vector = 0, cpu_intr_base = 0, cpu_intr_stride = 0,
     in_flags = 0, in_id = \<lparr>ig_genflags = 0, ig_size = 0, ig_rtn = Some (Routine 0)\<rparr>,
     in_eoi = \<lparr>ig_genflags = 0, ig_size = 0, ig_rtn = None\<rparr>, in_mask = Some (Routine 1), in_unmask = None,
     in_config = None, in_patch = Some (Dbg_device 3), local_stride = 0\<rparr>"

text \<open>One entry whose first slot and a slot of the callout section are filled.\<close>
definition co_ex :: co_state where
  "co_ex = co_init\<lparr>co_free := 20, co_hooked := True, co_intrs := [entry_of co_env_ex int_ex],
     co_fp := (\<lambda>s. if s = Intr 0 0 then Rtn (Routine 0) else if s = Co 1 then Rtn (Routine 1) else Null)\<rparr>"

definition co_ex_sized :: co_state where
  "co_ex_sized = co_ex\<lparr>co_free := 18, co_rw := [(8, 16), (7, 0)], co_rw_size := 24\<rparr>"

lemma upt_num: "[0 ..< 5] = [0, 1, 2, 3, 4 :: nat]" "[0 ..< 2] = [0, 1 :: nat]" "[0 ..< Suc 0] = [0 :: nat]"
  by (simp_all add: upt_rec)

lemma co_ex_slots: "out_slots co_env_ex co_ex = [Intr 0 0, Intr 0 1, Intr 0 2, Intr 0 3, Intr 0 4, Co 0, Co 1]"
  by (simp add: out_slots_def co_ex_def co_init_def co_env_ex_def upt_num)

lemma co_ex_routines: "routines (co_fp co_ex) (out_slots co_env_ex co_ex) = [(Intr 0 0, Routine 0), (Co 1, Routine 1)]"
  unfolding co_ex_slots by (simp add: co_ex_def co_init_def)

lemma co_ex_size: "size_callouts env_ex co_env_ex (co_ex, ram_ex) = ok (56, 24, co_ex_sized, ram_ex)"
  unfolding size_callouts_def fst_conv co_ex_slots
  by (simp add: size_one_def rtn_at_def get_co_info_def co_ex_def co_init_def co_env_ex_def rtn_ex_def
      co_ex_sized_def ROUND_def TRUNC_def)

lemma patch_local_ex: "patch_local co_env_ex"
  by (simp add: patch_local_def co_env_ex_def)



definition co_ex0 :: co_state where
  "co_ex0 = co_init\<lparr>co_free := 20\<rparr>"

lemma co_ex0_known: "patch_known co_ex0"
  by (simp add: patch_known_def co_ex0_def co_init_def)

lemma co_ex0_run: "\<exists>c' r'. add_interrupt env_ex co_env_ex int_ex (co_ex0, ram_ex) = ok (c', r')"
  by (simp add: add_interrupt_def request_def ram_ex_def ram_init_def as_ex_def upt_num callout_register_data_def rtn_at_def
      co_ex0_def co_init_def int_ex_def entry_rtns_def fp_of_def get_co_info_def co_env_ex_def rtn_ex_def
      roundup_def Let_def)

lemma add_interrupts_valid_witness:
  "\<exists>c' r'. add_interrupt_array env_ex co_env_ex [int_ex] (co_ex0, ram_ex) = ok (c', r') \<and>
     interrupt_valid 39 (co_intrs c') \<and> \<not> interrupt_valid 40 (co_intrs c')"
proof -
  obtain c' r' where run: "add_interrupt_array env_ex co_env_ex [int_ex] (co_ex0, ram_ex) = ok (c', r')"
    using co_ex0_run by (auto simp: add_interrupt_array_def)
  have "interrupt_valid v (co_intrs c') \<longleftrightarrow> 32 \<le> unat v \<and> unat v < 40" for v
    using add_interrupts_valid [OF run co_ex0_known] by (simp add: int_ex_def co_ex0_def co_init_def)
  then have "interrupt_valid 39 (co_intrs c')" "\<not> interrupt_valid 40 (co_intrs c')" by simp_all
  with run show ?thesis by blast
qed

lemma add_interrupt_registers_witness:
  "\<exists>c' r'. add_interrupt env_ex co_env_ex int_ex (co_ex0, ram_ex) = ok (c', r') \<and>
     co_fp c' (Intr 0 0) = Rtn (Routine 0) \<and> map_of (co_patch c') (Intr 0 2) = Some (Dbg_device 3)"
proof -
  obtain c' r' where run: "add_interrupt env_ex co_env_ex int_ex (co_ex0, ram_ex) = ok (c', r')"
    using co_ex0_run by blast
  have f: "\<forall>j < 5. co_fp c' (Intr 0 j) = fp_of (entry_rtns int_ex ! j) \<and>
      (\<forall>d x. in_patch int_ex = Some d \<longrightarrow> entry_rtns int_ex ! j = Some x \<longrightarrow> rtn_patcher (ce_rtn co_env_ex x) \<longrightarrow>
         map_of (co_patch c') (Intr 0 j) = Some d)"
    using add_interrupt_registers [OF run co_ex0_known, of 0] by (simp add: co_ex0_def co_init_def)
  from f [THEN spec, of 0] f [THEN spec, of 2] have
    "co_fp c' (Intr 0 0) = Rtn (Routine 0)" "map_of (co_patch c') (Intr 0 2) = Some (Dbg_device 3)"
    by (simp_all add: int_ex_def entry_rtns_def fp_of_def co_env_ex_def rtn_ex_def)
  with run show ?thesis by blast
qed

end
