(* ===== verification/Device.thy ===== *)
theory Device
  imports Prelude
begin

text \<open>
  Memory-mapped and system registers.  The code reads and writes device registers with
  in32, out32, in64 and out64 (startup/lib/public/aarch64/gic.h has the 64 bit pair) and
  the system registers with aa64_sr_rd64 and aa64_sr_wr32.  A bus is the list of all
  accesses made so far, the newest first.  The hardware is an argument: what a read
  returns may depend on every access before it.  A loop that polls a register follows
  the register for at most spins reads and is Hang after that.
\<close>

section \<open>Accesses and the hardware\<close>

datatype sysreg = MPIDR_EL1 | ID_AA64PFR0_EL1 | ICC_SRE_EL1 | ICC_PMR_EL1 | ICC_BPR1_EL1
  | ICC_CTLR_EL1 | ICC_IGRPEN1_EL1

datatype access =
    R32 paddr | R64 paddr | W32 paddr u32 | W64 paddr u64
  | RSys sysreg | WSys sysreg u32
  | Dsb | Isb | Fill paddr u8 u64 | Flush paddr u64

type_synonym bus = "access list"

record hw =
  rd32 :: "bus \<Rightarrow> paddr \<Rightarrow> u32"
  rd64 :: "bus \<Rightarrow> paddr \<Rightarrow> u64"
  rdsys :: "bus \<Rightarrow> sysreg \<Rightarrow> u64"
  spins :: nat

definition in32 :: "hw \<Rightarrow> paddr \<Rightarrow> bus \<Rightarrow> u32 \<times> bus" where
  "in32 d a b = (rd32 d b a, R32 a # b)"

definition in64 :: "hw \<Rightarrow> paddr \<Rightarrow> bus \<Rightarrow> u64 \<times> bus" where
  "in64 d a b = (rd64 d b a, R64 a # b)"

definition sr_rd64 :: "hw \<Rightarrow> sysreg \<Rightarrow> bus \<Rightarrow> u64 \<times> bus" where
  "sr_rd64 d r b = (rdsys d b r, RSys r # b)"

definition out32 :: "paddr \<Rightarrow> u32 \<Rightarrow> bus \<Rightarrow> bus" where
  "out32 a v b = W32 a v # b"

definition out64 :: "paddr \<Rightarrow> u64 \<Rightarrow> bus \<Rightarrow> bus" where
  "out64 a v b = W64 a v # b"

definition sr_wr32 :: "sysreg \<Rightarrow> u32 \<Rightarrow> bus \<Rightarrow> bus" where
  "sr_wr32 r v b = WSys r v # b"

definition dsb :: "bus \<Rightarrow> bus" where
  "dsb b = Dsb # b"

definition isb :: "bus \<Rightarrow> bus" where
  "isb b = Isb # b"

text \<open>The macro DCACHE\_FLUSH\_FOR\_GIC\_ITS flushes only a range that is not empty.\<close>
definition dcache_flush :: "paddr \<Rightarrow> u64 \<Rightarrow> bus \<Rightarrow> bus" where
  "dcache_flush a n b = (if 0 < n then Flush a n # b else b)"

section \<open>Polling\<close>

text \<open>do v = read; while not P v.\<close>
primrec poll :: "nat \<Rightarrow> hw \<Rightarrow> paddr \<Rightarrow> (u32 \<Rightarrow> bool) \<Rightarrow> bus \<Rightarrow> (u32 \<times> bus) res" where
  "poll 0 d a P b = hang"
| "poll (Suc n) d a P b =
    (if P (rd32 d b a) then ok (rd32 d b a, R32 a # b) else poll n d a P (R32 a # b))"

definition poll_reg :: "hw \<Rightarrow> paddr \<Rightarrow> (u32 \<Rightarrow> bool) \<Rightarrow> bus \<Rightarrow> (u32 \<times> bus) res" where
  "poll_reg d a P b = poll (spins d) d a P b"

definition wait_for_rwp :: "hw \<Rightarrow> paddr \<Rightarrow> u32 \<Rightarrow> bus \<Rightarrow> bus res" where
  "wait_for_rwp d a rwp_bit b =
    and_then (poll_reg d a (\<lambda>v. v AND rwp_bit = 0) b) (\<lambda>(_, b). ok b)"

text \<open>The hardware gives register a a value in P within the reads that are followed.\<close>
definition settles :: "hw \<Rightarrow> paddr \<Rightarrow> (u32 \<Rightarrow> bool) \<Rightarrow> bool" where
  "settles d a P \<longleftrightarrow> (\<forall>b. \<exists>k < spins d. P (rd32 d (replicate k (R32 a) @ b) a))"

lemma poll_total:
  assumes "k < n" "P (rd32 d (replicate k (R32 a) @ b) a)"
  shows "\<exists>j v. poll n d a P b = ok (v, replicate (Suc j) (R32 a) @ b) \<and> P v \<and> j \<le> k"
  using assms
proof (induction n arbitrary: k b)
  case 0
  then show ?case by simp
next
  case (Suc n)
  show ?case
  proof (cases "P (rd32 d b a)")
    case True
    then show ?thesis by (intro exI [of _ "0 :: nat"] exI [of _ "rd32 d b a"]) simp
  next
    case False
    then obtain k' where k: "k = Suc k'" using Suc.prems by (cases k) auto
    have "replicate k (R32 a) @ b = replicate k' (R32 a) @ R32 a # b"
      by (simp add: k replicate_app_Cons_same)
    then obtain j v where "poll n d a P (R32 a # b) = ok (v, replicate (Suc j) (R32 a) @ R32 a # b)"
      and "P v" "j \<le> k'"
      using Suc.IH [of k' "R32 a # b"] Suc.prems by (auto simp: k)
    then show ?thesis
      using False by (intro exI [of _ "Suc j"] exI [of _ v]) (simp add: k replicate_app_Cons_same)
  qed
qed

lemma poll_ok:
  "poll n d a P b = ok (v, b') \<Longrightarrow>
    \<exists>j < n. b' = replicate (Suc j) (R32 a) @ b \<and> v = rd32 d (replicate j (R32 a) @ b) a \<and> P v"
proof (induction n arbitrary: b)
  case 0
  then show ?case by simp
next
  case (Suc n)
  show ?case
  proof (cases "P (rd32 d b a)")
    case True
    then show ?thesis using Suc.prems by (intro exI [of _ 0]) auto
  next
    case False
    then obtain j where "j < n" "b' = replicate (Suc j) (R32 a) @ R32 a # b"
      "v = rd32 d (replicate j (R32 a) @ R32 a # b) a" "P v"
      using Suc by fastforce
    then show ?thesis
      by (intro exI [of _ "Suc j"]) (simp add: replicate_app_Cons_same)
  qed
qed

lemma poll_reg_total: "settles d a P \<Longrightarrow> \<exists>j v. poll_reg d a P b = ok (v, replicate j (R32 a) @ b) \<and> P v"
  unfolding settles_def poll_reg_def using poll_total by blast

lemma poll_reg_ok: "poll_reg d a P b = ok (v, b') \<Longrightarrow> (\<exists>j. b' = replicate j (R32 a) @ b) \<and> P v"
  unfolding poll_reg_def using poll_ok by blast

lemma wait_for_rwp_total:
  "settles d a (\<lambda>v. v AND m = 0) \<Longrightarrow> \<exists>j. wait_for_rwp d a m b = ok (replicate j (R32 a) @ b)"
  unfolding wait_for_rwp_def by (drule poll_reg_total [of _ _ _ b]) auto

lemma wait_for_rwp_ok: "wait_for_rwp d a m b = ok b' \<Longrightarrow> \<exists>j. b' = replicate j (R32 a) @ b"
  unfolding wait_for_rwp_def by (auto simp: res_simps dest: poll_reg_ok)

section \<open>What a register was last written\<close>

fun last32 :: "bus \<Rightarrow> paddr \<Rightarrow> u32 option" where
  "last32 [] a = None"
| "last32 (W32 a' v # b) a = (if a' = a then Some v else last32 b a)"
| "last32 (_ # b) a = last32 b a"

fun last64 :: "bus \<Rightarrow> paddr \<Rightarrow> u64 option" where
  "last64 [] a = None"
| "last64 (W64 a' v # b) a = (if a' = a then Some v else last64 b a)"
| "last64 (_ # b) a = last64 b a"

text \<open>The writes of a bus, the oldest first.\<close>
fun is_write :: "access \<Rightarrow> bool" where
  "is_write (W32 _ _) = True"
| "is_write (W64 _ _) = True"
| "is_write (WSys _ _) = True"
| "is_write (Fill _ _ _) = True"
| "is_write _ = False"

definition writes :: "bus \<Rightarrow> access list" where
  "writes b = rev (filter is_write b)"

named_theorems bus_simps \<open>effects of the bus operations\<close>

lemma last32_out32 [bus_simps]: "last32 (out32 a v b) a' = (if a = a' then Some v else last32 b a')"
  by (simp add: out32_def)

lemma last32_out64 [bus_simps]: "last32 (out64 a v b) a' = last32 b a'"
  by (simp add: out64_def)

lemma last64_out64 [bus_simps]: "last64 (out64 a v b) a' = (if a = a' then Some v else last64 b a')"
  by (simp add: out64_def)

lemma last64_out32 [bus_simps]: "last64 (out32 a v b) a' = last64 b a'"
  by (simp add: out32_def)

lemma last32_reads [simp]: "last32 (replicate j (R32 a) @ b) a' = last32 b a'"
  by (induction j) auto

lemma last64_reads [simp]: "last64 (replicate j (R32 a) @ b) a' = last64 b a'"
  by (induction j) auto

lemma writes_reads [simp]: "writes (replicate j (R32 a) @ b) = writes b"
  by (induction j) (auto simp: writes_def)

lemma writes_Cons [bus_simps]:
  "writes (x # b) = (if is_write x then writes b @ [x] else writes b)"
  by (simp add: writes_def)

lemma writes_out [bus_simps]:
  "writes (out32 a v b) = writes b @ [W32 a v]"
  "writes (out64 a w b) = writes b @ [W64 a w]"
  "writes (sr_wr32 r v b) = writes b @ [WSys r v]"
  "writes (dsb b) = writes b" "writes (isb b) = writes b"
  "writes (dcache_flush a w b) = writes b"
  by (simp_all add: out32_def out64_def sr_wr32_def dsb_def isb_def dcache_flush_def writes_Cons)

lemma bus_of_read [bus_simps]:
  "writes (snd (in32 d a b)) = writes b" "writes (snd (in64 d a b)) = writes b"
  "last32 (snd (in32 d a b)) = last32 b" "last32 (snd (in64 d a b)) = last32 b"
  "last64 (snd (in32 d a b)) = last64 b" "last64 (snd (in64 d a b)) = last64 b"
  by (auto simp: in32_def in64_def writes_def)

lemma wait_for_rwp_last32 [dest]: "wait_for_rwp d a m b = ok b' \<Longrightarrow> last32 b' = last32 b"
  by (drule wait_for_rwp_ok) auto

lemma wait_for_rwp_last64 [dest]: "wait_for_rwp d a m b = ok b' \<Longrightarrow> last64 b' = last64 b"
  by (drule wait_for_rwp_ok) auto

lemma wait_for_rwp_writes [dest]: "wait_for_rwp d a m b = ok b' \<Longrightarrow> writes b' = writes b"
  by (drule wait_for_rwp_ok) auto

section \<open>Loops over a bank of registers\<close>

text \<open>
  for (i = lo; i < hi; i++) writes one register of a bank: register i of a bank of 32 bit
  registers at base has the address base + 4 i.
\<close>
definition reg32 :: "paddr \<Rightarrow> nat \<Rightarrow> paddr" where
  "reg32 base i = base + of_nat (4 * i)"

definition reg64 :: "paddr \<Rightarrow> nat \<Rightarrow> paddr" where
  "reg64 base i = base + of_nat (8 * i)"

definition for_up :: "nat \<Rightarrow> nat \<Rightarrow> (nat \<Rightarrow> 'b \<Rightarrow> 'b) \<Rightarrow> 'b \<Rightarrow> 'b" where
  "for_up lo hi f b = fold f [lo ..< hi] b"

lemma for_up_rule:
  assumes "P lo b" "\<And>i b. lo \<le> i \<Longrightarrow> i < hi \<Longrightarrow> P i b \<Longrightarrow> P (Suc i) (f i b)" "lo \<le> hi"
  shows "P hi (for_up lo hi f b)"
proof -
  have "P (lo + n) (fold f [lo ..< lo + n] b)" if "lo + n \<le> hi" for n
    using that by (induction n) (auto intro: assms)
  from this [of "hi - lo"] show ?thesis using assms(3) by (simp add: for_up_def)
qed

lemma for_up_empty [simp]: "hi \<le> lo \<Longrightarrow> for_up lo hi f b = b"
  by (simp add: for_up_def)

lemma for_up_Suc: "lo \<le> hi \<Longrightarrow> for_up lo (Suc hi) f b = f hi (for_up lo hi f b)"
  by (simp add: for_up_def)

end
