(* ===== verification/Gic_Id.thy ===== *)
theory Gic_Id
  imports Device "HOL-Library.Char_ord"
begin

text \<open>
  Identification of the interrupt controller: the version types and the implementation
  constants of startup/lib/public/aarch64/gic.h, and gic\_init\_version\_info and
  gic\_get\_impl\_id of startup/lib/aarch64/gic\_v3.c.  A packed struct read as one
  integer is written out for the little-endian target.
\<close>

section \<open>Versions and identifiers\<close>

record arm_gic_version =
  ver_major :: u8
  ver_minor :: u8

definition arm_gic_version_is :: "arm_gic_version \<Rightarrow> u16" where
  "arm_gic_version_is v = ucast (ver_major v) OR push_bit 8 (ucast (ver_minor v))"

definition ARM_GIC_ARCH_VERSION_1_0 :: u16 where
  "ARM_GIC_ARCH_VERSION_1_0 = push_bit 0 1 OR push_bit 8 0"

definition ARM_GIC_ARCH_VERSION_2_0 :: u16 where
  "ARM_GIC_ARCH_VERSION_2_0 = push_bit 0 2 OR push_bit 8 0"

definition ARM_GIC_ARCH_VERSION_3_0 :: u16 where
  "ARM_GIC_ARCH_VERSION_3_0 = push_bit 0 3 OR push_bit 8 0"

definition ARM_GIC_ARCH_VERSION_3_1 :: u16 where
  "ARM_GIC_ARCH_VERSION_3_1 = push_bit 0 3 OR push_bit 8 1"

definition ARM_GIC_ARCH_VERSION_4_0 :: u16 where
  "ARM_GIC_ARCH_VERSION_4_0 = push_bit 0 4 OR push_bit 8 0"

record arm_gic_id =
  arch_version :: arm_gic_version
  impl_version :: arm_gic_version
  impl_company :: u16
  impl_product :: u8
  impl_resv :: u8

text \<open>The byte offsets of the fields are 0, 2, 4, 6 and 7.\<close>
definition gic_impl_id_is :: "arm_gic_id \<Rightarrow> u64" where
  "gic_impl_id_is i =
    ucast (arm_gic_version_is (arch_version i)) OR
    push_bit 16 (ucast (arm_gic_version_is (impl_version i))) OR
    push_bit 32 (ucast (impl_company i)) OR
    push_bit 48 (ucast (impl_product i)) OR
    push_bit 56 (ucast (impl_resv i))"

definition arm_gic_id_init :: arm_gic_id where
  "arm_gic_id_init = \<lparr>arch_version = \<lparr>ver_major = 255, ver_minor = 255\<rparr>,
     impl_version = \<lparr>ver_major = 255, ver_minor = 255\<rparr>, impl_company = 0,
     impl_product = 255, impl_resv = 0\<rparr>"

text \<open>The shape the constants of the implementations share: architecture version, company,
  product, revision and patch.\<close>
definition impl_id_value :: "u16 \<Rightarrow> u64 \<Rightarrow> u64 \<Rightarrow> u16 \<Rightarrow> u16 \<Rightarrow> u64" where
  "impl_id_value arch company product r p =
    push_bit 0 (ucast arch) OR push_bit 32 company OR push_bit 48 product OR
    push_bit 16 (ucast (push_bit 0 r OR push_bit 8 p))"

definition ARM_GIC_500_r0p0 :: u64 where
  "ARM_GIC_500_r0p0 = impl_id_value ARM_GIC_ARCH_VERSION_3_0 0x43B 0 0 0"

definition ARM_GIC_500_r0p1 :: u64 where
  "ARM_GIC_500_r0p1 = impl_id_value ARM_GIC_ARCH_VERSION_3_0 0x43B 0 0 1"

definition ARM_GIC_500_r1p0 :: u64 where
  "ARM_GIC_500_r1p0 = impl_id_value ARM_GIC_ARCH_VERSION_3_0 0x43B 0 1 0"

definition ARM_GIC_500_r1p1 :: u64 where
  "ARM_GIC_500_r1p1 = impl_id_value ARM_GIC_ARCH_VERSION_3_0 0x43B 0 1 1"

definition ARM_GIC_600_r0p0 :: u64 where
  "ARM_GIC_600_r0p0 = impl_id_value ARM_GIC_ARCH_VERSION_3_0 0x43B 2 0 1"

definition ARM_GIC_600_r0p1 :: u64 where
  "ARM_GIC_600_r0p1 = impl_id_value ARM_GIC_ARCH_VERSION_3_0 0x43B 2 0 3"

definition ARM_GIC_600_r0p2 :: u64 where
  "ARM_GIC_600_r0p2 = impl_id_value ARM_GIC_ARCH_VERSION_3_0 0x43B 2 0 4"

definition ARM_GIC_600_r0p3 :: u64 where
  "ARM_GIC_600_r0p3 = impl_id_value ARM_GIC_ARCH_VERSION_3_0 0x43B 2 0 5"

definition ARM_GIC_600_r1p2 :: u64 where
  "ARM_GIC_600_r1p2 = impl_id_value ARM_GIC_ARCH_VERSION_3_0 0x43B 2 1 4"

definition ARM_GIC_600_r1p3 :: u64 where
  "ARM_GIC_600_r1p3 = impl_id_value ARM_GIC_ARCH_VERSION_3_0 0x43B 2 1 5"

definition ARM_GIC_600_r1p4 :: u64 where
  "ARM_GIC_600_r1p4 = impl_id_value ARM_GIC_ARCH_VERSION_3_0 0x43B 2 1 6"

definition ARM_GIC_600_r1p6 :: u64 where
  "ARM_GIC_600_r1p6 = impl_id_value ARM_GIC_ARCH_VERSION_3_0 0x43B 2 1 7"

definition ARM_GIC_600AE_r0p0 :: u64 where
  "ARM_GIC_600AE_r0p0 = impl_id_value ARM_GIC_ARCH_VERSION_3_0 0x43B 3 0 1"

definition ARM_GIC_600AE_r0p1 :: u64 where
  "ARM_GIC_600AE_r0p1 = impl_id_value ARM_GIC_ARCH_VERSION_3_0 0x43B 3 0 3"

definition ARM_GIC_600AE_r0p2 :: u64 where
  "ARM_GIC_600AE_r0p2 = impl_id_value ARM_GIC_ARCH_VERSION_3_0 0x43B 3 0 4"

definition ARM_GIC_600AE_r0p3 :: u64 where
  "ARM_GIC_600AE_r0p3 = impl_id_value ARM_GIC_ARCH_VERSION_3_0 0x43B 3 0 5"

definition ARM_GIC_V3_700_r0p0 :: u64 where
  "ARM_GIC_V3_700_r0p0 = impl_id_value ARM_GIC_ARCH_VERSION_3_0 0x43B 4 0 0"

definition ARM_GIC_V3_700_r0p1 :: u64 where
  "ARM_GIC_V3_700_r0p1 = impl_id_value ARM_GIC_ARCH_VERSION_3_0 0x43B 4 0 1"

definition ARM_GIC_V3_700_r1p0 :: u64 where
  "ARM_GIC_V3_700_r1p0 = impl_id_value ARM_GIC_ARCH_VERSION_3_0 0x43B 4 1 0"

definition ARM_GIC_V3_700_r2p0 :: u64 where
  "ARM_GIC_V3_700_r2p0 = impl_id_value ARM_GIC_ARCH_VERSION_3_0 0x43B 4 2 0"

definition ARM_GIC_V3_700_r2p1 :: u64 where
  "ARM_GIC_V3_700_r2p1 = impl_id_value ARM_GIC_ARCH_VERSION_3_0 0x43B 4 2 1"

definition ARM_GIC_V3_720AE_r0p0 :: u64 where
  "ARM_GIC_V3_720AE_r0p0 = impl_id_value ARM_GIC_ARCH_VERSION_3_0 0x43B 7 0 0"

definition ARM_GIC_V3_720AE_r0p1 :: u64 where
  "ARM_GIC_V3_720AE_r0p1 = impl_id_value ARM_GIC_ARCH_VERSION_3_0 0x43B 7 0 1"

definition ARM_GIC_V3_720AE_r1p0 :: u64 where
  "ARM_GIC_V3_720AE_r1p0 = impl_id_value ARM_GIC_ARCH_VERSION_3_0 0x43B 7 1 0"

definition ARM_GIC_V3_720AE_r2p0 :: u64 where
  "ARM_GIC_V3_720AE_r2p0 = impl_id_value ARM_GIC_ARCH_VERSION_3_0 0x43B 7 2 0"

definition ARM_GIC_V3_720AE_r2p1 :: u64 where
  "ARM_GIC_V3_720AE_r2p1 = impl_id_value ARM_GIC_ARCH_VERSION_3_0 0x43B 7 2 1"

definition ARM_GIC_V4_700_r0p0 :: u64 where
  "ARM_GIC_V4_700_r0p0 = impl_id_value ARM_GIC_ARCH_VERSION_4_0 0x43B 4 0 0"

definition ARM_GIC_V4_700_r0p1 :: u64 where
  "ARM_GIC_V4_700_r0p1 = impl_id_value ARM_GIC_ARCH_VERSION_4_0 0x43B 4 0 1"

definition ARM_GIC_V4_700_r1p0 :: u64 where
  "ARM_GIC_V4_700_r1p0 = impl_id_value ARM_GIC_ARCH_VERSION_4_0 0x43B 4 1 0"

definition ARM_GIC_V4_700_r2p0 :: u64 where
  "ARM_GIC_V4_700_r2p0 = impl_id_value ARM_GIC_ARCH_VERSION_4_0 0x43B 4 2 0"

definition ARM_GIC_V4_700_r2p1 :: u64 where
  "ARM_GIC_V4_700_r2p1 = impl_id_value ARM_GIC_ARCH_VERSION_4_0 0x43B 4 2 1"

definition ARM_GIC_V4_720AE_r0p0 :: u64 where
  "ARM_GIC_V4_720AE_r0p0 = impl_id_value ARM_GIC_ARCH_VERSION_4_0 0x43B 7 0 0"

definition ARM_GIC_V4_720AE_r0p1 :: u64 where
  "ARM_GIC_V4_720AE_r0p1 = impl_id_value ARM_GIC_ARCH_VERSION_4_0 0x43B 7 0 1"

definition ARM_GIC_V4_720AE_r1p0 :: u64 where
  "ARM_GIC_V4_720AE_r1p0 = impl_id_value ARM_GIC_ARCH_VERSION_4_0 0x43B 7 1 0"

definition ARM_GIC_V4_720AE_r2p0 :: u64 where
  "ARM_GIC_V4_720AE_r2p0 = impl_id_value ARM_GIC_ARCH_VERSION_4_0 0x43B 7 2 0"

definition ARM_GIC_V4_720AE_r2p1 :: u64 where
  "ARM_GIC_V4_720AE_r2p1 = impl_id_value ARM_GIC_ARCH_VERSION_4_0 0x43B 7 2 1"

section \<open>The identification string\<close>

definition digit :: "u8 \<Rightarrow> char" where
  "digit v = char_of (unat (v + 48))"

definition gic_600_adjusted :: "u64 list" where
  "gic_600_adjusted = [ARM_GIC_600_r0p0, ARM_GIC_600_r1p6]"

definition gic_500_ids :: "u64 list" where
  "gic_500_ids = [ARM_GIC_500_r0p0, ARM_GIC_500_r0p1, ARM_GIC_500_r1p0, ARM_GIC_500_r1p1]"

definition gic_600_ids :: "u64 list" where
  "gic_600_ids = gic_600_adjusted @ [ARM_GIC_600_r0p1, ARM_GIC_600_r0p2, ARM_GIC_600_r0p3,
     ARM_GIC_600_r1p2, ARM_GIC_600_r1p3, ARM_GIC_600_r1p4]"

definition gic_600AE_ids :: "u64 list" where
  "gic_600AE_ids = [ARM_GIC_600AE_r0p0, ARM_GIC_600AE_r0p1, ARM_GIC_600AE_r0p2, ARM_GIC_600AE_r0p3]"

definition gic_720AE_ids :: "u64 list" where
  "gic_720AE_ids = [ARM_GIC_V3_720AE_r0p0, ARM_GIC_V3_720AE_r0p1, ARM_GIC_V3_720AE_r1p0,
     ARM_GIC_V3_720AE_r2p0, ARM_GIC_V3_720AE_r2p1, ARM_GIC_V4_720AE_r0p0, ARM_GIC_V4_720AE_r0p1,
     ARM_GIC_V4_720AE_r1p0, ARM_GIC_V4_720AE_r2p0, ARM_GIC_V4_720AE_r2p1]"

definition gic_700_ids :: "u64 list" where
  "gic_700_ids = [ARM_GIC_V3_700_r0p0, ARM_GIC_V3_700_r0p1, ARM_GIC_V3_700_r1p0,
     ARM_GIC_V3_700_r2p0, ARM_GIC_V3_700_r2p1, ARM_GIC_V4_700_r0p0, ARM_GIC_V4_700_r0p1,
     ARM_GIC_V4_700_r1p0, ARM_GIC_V4_700_r2p0, ARM_GIC_V4_700_r2p1]"

definition gic_id_str :: string where
  "gic_id_str = ''GIC-000 rmpn''"

definition gicae_id_str :: string where
  "gicae_id_str = ''GIC-000AE rmpn''"

text \<open>
  The string gic\_get\_impl\_id assembles.  The identifier does not change once it is set,
  so the static buffers still hold their initial contents, or the same result, on each call.
\<close>
definition gic_get_impl_id :: "arm_gic_id \<Rightarrow> string res" where
  "gic_get_impl_id i =
    (let k = gic_impl_id_is i; maj = ver_major (impl_version i); mnr = ver_minor (impl_version i) in
     if k \<in> set gic_500_ids then
       ok (gic_id_str [4 := CHR ''5'', 9 := digit maj, 11 := digit mnr])
     else if k \<in> set gic_600_ids then
       (let adj = (if k \<in> set gic_600_adjusted then - 1 else 0 :: int) + 2 in
        and_then (assert_that (1 \<le> adj)) (\<lambda>_.
        ok (gic_id_str [4 := CHR ''6'', 9 := digit maj, 11 := digit (mnr - word_of_int adj)])))
     else if k \<in> set gic_600AE_ids then
       (let adj = (if k = ARM_GIC_600AE_r0p0 then - 1 else 0 :: int) + 2 in
        and_then (assert_that (1 \<le> adj)) (\<lambda>_.
        ok (gicae_id_str [4 := CHR ''6'', 11 := digit maj, 13 := digit (mnr - word_of_int adj)])))
     else if k \<in> set gic_720AE_ids then
       ok (gicae_id_str [5 := CHR ''2'', 4 := CHR ''7'', 11 := digit maj, 13 := digit mnr])
     else if k \<in> set gic_700_ids then
       ok (gic_id_str [4 := CHR ''7'', 9 := digit maj, 11 := digit mnr])
     else ok (gic_id_str [4 := CHR ''?'', 9 := digit maj, 11 := digit mnr]))"

section \<open>Reading the identification registers\<close>

definition ARM_GICD_IIDR :: paddr where "ARM_GICD_IIDR = 0x8"
definition PIDR0 :: paddr where "PIDR0 = 0xFFE0"
definition PIDR1 :: paddr where "PIDR1 = 0xFFE4"
definition PIDR2 :: paddr where "PIDR2 = 0xFFE8"
definition PIDR3 :: paddr where "PIDR3 = 0xFFEC"
definition PIDR4 :: paddr where "PIDR4 = 0xFFD0"
definition PIDR5 :: paddr where "PIDR5 = 0xFFD4"
definition ARM_GICR_TYPER :: paddr where "ARM_GICR_TYPER = 0x8"

text \<open>The architecture's minor version: only version 3 looks at the number of PPIs.\<close>
definition arch_minor :: "hw \<Rightarrow> paddr \<Rightarrow> u8 \<Rightarrow> bus \<Rightarrow> (u8 \<times> bus) res" where
  "arch_minor d gicr major b =
    (if major = 1 \<or> major = 2 \<or> major = 4 then ok (0, b)
     else if major = 3 then
       and_then (assert_that (gicr \<noteq> NULL_PADDR)) (\<lambda>_.
         let (typer, b) = in64 d (gicr + ARM_GICR_TYPER) b in
         ok (if 0 < drop_bit 27 typer AND 0x1F then 1 else 0, b))
     else crash ''Unknown/Unhandled GIC version'')"

text \<open>With debug\_flag above 0 the function also reads PIDR0 to PIDR5 and prints them.\<close>
definition print_version :: "hw \<Rightarrow> nat \<Rightarrow> paddr \<Rightarrow> arm_gic_id \<Rightarrow> bus \<Rightarrow> bus res" where
  "print_version d debug_flag gicd i b =
    (if 0 < debug_flag then
       and_then (gic_get_impl_id i) (\<lambda>_.
         ok (fold (\<lambda>a b. snd (in32 d (gicd + a) b)) [PIDR0, PIDR1, PIDR2, PIDR3, PIDR4, PIDR5] b))
     else ok b)"

definition gic_init_version_info ::
  "hw \<Rightarrow> nat \<Rightarrow> paddr \<Rightarrow> paddr \<Rightarrow> arm_gic_id \<Rightarrow> bus \<Rightarrow> (arm_gic_id \<times> bus) res" where
  "gic_init_version_info d debug_flag gicd gicr i b =
    and_then (assert_that (gicd \<noteq> NULL_PADDR)) (\<lambda>_.
    let (iidr, b) = in32 d (gicd + ARM_GICD_IIDR) b;
        (pidr2, b) = in32 d (gicd + PIDR2) b;
        major = ucast (drop_bit 4 pidr2 AND 0xF);
        i = i\<lparr>arch_version := \<lparr>ver_major = major, ver_minor = 0\<rparr>,
              impl_company := ucast (iidr AND 0xFFF)\<rparr> in
    and_then
      (if impl_company i = 0x43B then
         (let i = i\<lparr>impl_product := ucast (drop_bit 24 iidr AND 0xFF),
                   impl_version := \<lparr>ver_major = ucast (drop_bit 16 iidr AND 0xF),
                                    ver_minor = ucast (drop_bit 12 iidr AND 0xF)\<rparr>\<rparr> in
          and_then (arch_minor d gicr major b) (\<lambda>(m, b).
          ok (i\<lparr>arch_version := \<lparr>ver_major = major, ver_minor = m\<rparr>\<rparr>, b)))
       else ok (i, b))
      (\<lambda>(i, b). and_then (print_version d debug_flag gicd i b) (\<lambda>b. ok (i, b))))"

section \<open>Identification strings\<close>

text \<open>An ARM implementation of product, revision and patch fields as they are read from IIDR.\<close>
definition detected :: "u8 \<Rightarrow> u8 \<Rightarrow> u8 \<Rightarrow> u8 \<Rightarrow> u8 \<Rightarrow> arm_gic_id" where
  "detected major mnr product r p = \<lparr>arch_version = \<lparr>ver_major = major, ver_minor = mnr\<rparr>,
     impl_version = \<lparr>ver_major = r, ver_minor = p\<rparr>, impl_company = 0x43B,
     impl_product = product, impl_resv = 0\<rparr>"

lemmas impl_id_shape = impl_id_value_def ARM_GIC_ARCH_VERSION_3_0_def ARM_GIC_ARCH_VERSION_4_0_def

lemma impl_id_values:
  "ARM_GIC_500_r0p0 = 0x43B00000003"
  "ARM_GIC_500_r0p1 = 0x43B01000003"
  "ARM_GIC_500_r1p0 = 0x43B00010003"
  "ARM_GIC_500_r1p1 = 0x43B01010003"
  "ARM_GIC_600_r0p0 = 0x2043B01000003"
  "ARM_GIC_600_r0p1 = 0x2043B03000003"
  "ARM_GIC_600_r0p2 = 0x2043B04000003"
  "ARM_GIC_600_r0p3 = 0x2043B05000003"
  "ARM_GIC_600_r1p2 = 0x2043B04010003"
  "ARM_GIC_600_r1p3 = 0x2043B05010003"
  "ARM_GIC_600_r1p4 = 0x2043B06010003"
  "ARM_GIC_600_r1p6 = 0x2043B07010003"
  "ARM_GIC_600AE_r0p0 = 0x3043B01000003"
  "ARM_GIC_600AE_r0p1 = 0x3043B03000003"
  "ARM_GIC_600AE_r0p2 = 0x3043B04000003"
  "ARM_GIC_600AE_r0p3 = 0x3043B05000003"
  "ARM_GIC_V3_700_r0p0 = 0x4043B00000003"
  "ARM_GIC_V3_700_r0p1 = 0x4043B01000003"
  "ARM_GIC_V3_700_r1p0 = 0x4043B00010003"
  "ARM_GIC_V3_700_r2p0 = 0x4043B00020003"
  "ARM_GIC_V3_700_r2p1 = 0x4043B01020003"
  "ARM_GIC_V3_720AE_r0p0 = 0x7043B00000003"
  "ARM_GIC_V3_720AE_r0p1 = 0x7043B01000003"
  "ARM_GIC_V3_720AE_r1p0 = 0x7043B00010003"
  "ARM_GIC_V3_720AE_r2p0 = 0x7043B00020003"
  "ARM_GIC_V3_720AE_r2p1 = 0x7043B01020003"
  "ARM_GIC_V4_700_r0p0 = 0x4043B00000004"
  "ARM_GIC_V4_700_r0p1 = 0x4043B01000004"
  "ARM_GIC_V4_700_r1p0 = 0x4043B00010004"
  "ARM_GIC_V4_700_r2p0 = 0x4043B00020004"
  "ARM_GIC_V4_700_r2p1 = 0x4043B01020004"
  "ARM_GIC_V4_720AE_r0p0 = 0x7043B00000004"
  "ARM_GIC_V4_720AE_r0p1 = 0x7043B01000004"
  "ARM_GIC_V4_720AE_r1p0 = 0x7043B00010004"
  "ARM_GIC_V4_720AE_r2p0 = 0x7043B00020004"
  "ARM_GIC_V4_720AE_r2p1 = 0x7043B01020004"
  by (simp_all add: impl_id_shape
    ARM_GIC_500_r0p0_def ARM_GIC_500_r0p1_def ARM_GIC_500_r1p0_def ARM_GIC_500_r1p1_def
    ARM_GIC_600_r0p0_def ARM_GIC_600_r0p1_def ARM_GIC_600_r0p2_def ARM_GIC_600_r0p3_def
    ARM_GIC_600_r1p2_def ARM_GIC_600_r1p3_def ARM_GIC_600_r1p4_def ARM_GIC_600_r1p6_def
    ARM_GIC_600AE_r0p0_def ARM_GIC_600AE_r0p1_def ARM_GIC_600AE_r0p2_def ARM_GIC_600AE_r0p3_def
    ARM_GIC_V3_700_r0p0_def ARM_GIC_V3_700_r0p1_def ARM_GIC_V3_700_r1p0_def ARM_GIC_V3_700_r2p0_def
    ARM_GIC_V3_700_r2p1_def ARM_GIC_V3_720AE_r0p0_def ARM_GIC_V3_720AE_r0p1_def
    ARM_GIC_V3_720AE_r1p0_def ARM_GIC_V3_720AE_r2p0_def ARM_GIC_V3_720AE_r2p1_def
    ARM_GIC_V4_700_r0p0_def ARM_GIC_V4_700_r0p1_def ARM_GIC_V4_700_r1p0_def ARM_GIC_V4_700_r2p0_def
    ARM_GIC_V4_700_r2p1_def ARM_GIC_V4_720AE_r0p0_def ARM_GIC_V4_720AE_r0p1_def
    ARM_GIC_V4_720AE_r1p0_def ARM_GIC_V4_720AE_r2p0_def ARM_GIC_V4_720AE_r2p1_def)

lemmas impl_id_sets = gic_500_ids_def gic_600_ids_def gic_600_adjusted_def gic_600AE_ids_def
  gic_720AE_ids_def gic_700_ids_def

lemmas impl_id_fields = gic_get_impl_id_def gic_impl_id_is_def detected_def arm_gic_version_is_def
  gic_id_str_def gicae_id_str_def digit_def

lemma digit_chars:
  "char_of (48 :: nat) = CHR ''0''"
  "char_of (49 :: nat) = CHR ''1''"
  "char_of (50 :: nat) = CHR ''2''"
  "char_of (51 :: nat) = CHR ''3''"
  "char_of (52 :: nat) = CHR ''4''"
  "char_of (53 :: nat) = CHR ''5''"
  "char_of (54 :: nat) = CHR ''6''"
  "char_of (55 :: nat) = CHR ''7''"
  "char_of (56 :: nat) = CHR ''8''"
  "char_of (57 :: nat) = CHR ''9''"
  by code_simp+

text \<open>Gic\_get\_impl\_id names every implementation that gic.h lists: the string has the
  product and the release rNpM of the constant's name, although the register counts the patches
  of the GIC-600 from 1 and skips a value.  An identifier that is not listed prints as "?".\<close>
lemma gic_get_impl_id_strings:
  "map gic_get_impl_id
     [detected 3 0 0 0 0, detected 3 0 0 0 1, detected 3 0 0 1 0, detected 3 0 0 1 1,
      detected 3 0 2 0 1, detected 3 0 2 0 3, detected 3 0 2 0 4, detected 3 0 2 0 5,
      detected 3 0 2 1 4, detected 3 0 2 1 5, detected 3 0 2 1 6, detected 3 0 2 1 7,
      detected 3 0 3 0 1, detected 3 0 3 0 3, detected 3 0 3 0 4, detected 3 0 3 0 5,
      detected 3 0 4 0 0, detected 3 0 4 0 1, detected 3 0 4 1 0, detected 3 0 4 2 0,
      detected 3 0 4 2 1, detected 3 0 7 0 0, detected 3 0 7 0 1, detected 3 0 7 1 0,
      detected 3 0 7 2 0, detected 3 0 7 2 1, detected 4 0 4 0 0, detected 4 0 4 0 1,
      detected 4 0 4 1 0, detected 4 0 4 2 0, detected 4 0 4 2 1, detected 4 0 7 0 0,
      detected 4 0 7 0 1, detected 4 0 7 1 0, detected 4 0 7 2 0, detected 4 0 7 2 1] =
   map ok
     [''GIC-500 r0p0'', ''GIC-500 r0p1'', ''GIC-500 r1p0'', ''GIC-500 r1p1'', ''GIC-600 r0p0'',
      ''GIC-600 r0p1'', ''GIC-600 r0p2'', ''GIC-600 r0p3'', ''GIC-600 r1p2'', ''GIC-600 r1p3'',
      ''GIC-600 r1p4'', ''GIC-600 r1p6'', ''GIC-600AE r0p0'', ''GIC-600AE r0p1'',
      ''GIC-600AE r0p2'', ''GIC-600AE r0p3'', ''GIC-700 r0p0'', ''GIC-700 r0p1'',
      ''GIC-700 r1p0'', ''GIC-700 r2p0'', ''GIC-700 r2p1'', ''GIC-720AE r0p0'',
      ''GIC-720AE r0p1'', ''GIC-720AE r1p0'', ''GIC-720AE r2p0'', ''GIC-720AE r2p1'',
      ''GIC-700 r0p0'', ''GIC-700 r0p1'', ''GIC-700 r1p0'', ''GIC-700 r2p0'', ''GIC-700 r2p1'',
      ''GIC-720AE r0p0'', ''GIC-720AE r0p1'', ''GIC-720AE r1p0'', ''GIC-720AE r2p0'',
      ''GIC-720AE r2p1''] \<and>
   gic_get_impl_id (detected 3 0 5 1 2) = ok ''GIC-?00 r1p2''"
  by (simp add: impl_id_fields impl_id_sets impl_id_values assert_that_def digit_chars)

section \<open>What the registers are decoded to\<close>

text \<open>The identification registers are read-only: every read returns the same value.\<close>
definition id_regs :: "hw \<Rightarrow> paddr \<Rightarrow> paddr \<Rightarrow> u32 \<Rightarrow> u32 \<Rightarrow> u64 \<Rightarrow> bool" where
  "id_regs d gicd gicr iidr pidr2 typer \<longleftrightarrow>
    (\<forall>b. rd32 d b (gicd + ARM_GICD_IIDR) = iidr \<and> rd32 d b (gicd + PIDR2) = pidr2 \<and>
         rd64 d b (gicr + ARM_GICR_TYPER) = typer)"

definition known_arch :: "u8 \<Rightarrow> bool" where
  "known_arch a \<longleftrightarrow> a = 1 \<or> a = 2 \<or> a = 3 \<or> a = 4"

lemma gic_get_impl_id_total: "\<exists>s. gic_get_impl_id i = ok s"
  by (simp add: gic_get_impl_id_def Let_def)

lemma print_version_total:
  "\<exists>b'. print_version d n gicd i b = ok b' \<and> writes b' = writes b"
proof (cases "0 < n")
  case True
  obtain s where "gic_get_impl_id i = ok s" using gic_get_impl_id_total by blast
  with True show ?thesis by (simp add: print_version_def bus_simps)
qed (simp add: print_version_def)

lemma arch_minor_known:
  assumes "known_arch a" "gicr \<noteq> NULL_PADDR" "\<forall>b. rd64 d b (gicr + ARM_GICR_TYPER) = typer"
  shows "\<exists>b'. arch_minor d gicr a b =
     ok (if a = 3 \<and> 0 < drop_bit 27 typer AND 0x1F then 1 else 0, b') \<and> writes b' = writes b"
  using assms by (auto simp: arch_minor_def known_arch_def in64_def bus_simps)

lemma arch_minor_unknown:
  "\<not> known_arch a \<Longrightarrow> arch_minor d gicr a b = crash ''Unknown/Unhandled GIC version''"
  by (simp add: arch_minor_def known_arch_def)

lemma gic_init_version_info_arm:
  assumes "\<And>b. rd32 d b (gicd + ARM_GICD_IIDR) = iidr" "\<And>b. rd32 d b (gicd + PIDR2) = pidr2"
    and "gicd \<noteq> NULL_PADDR" and c: "ucast (iidr AND 0xFFF) = (0x43B :: u16)"
    and f: "ucast (drop_bit 4 pidr2 AND 0xF) = major" "ucast (drop_bit 24 iidr AND 0xFF) = product"
      "ucast (drop_bit 16 iidr AND 0xF) = r" "ucast (drop_bit 12 iidr AND 0xF) = p"
  shows "gic_init_version_info d n gicd gicr i b =
    and_then (arch_minor d gicr major (R32 (gicd + PIDR2) # R32 (gicd + ARM_GICD_IIDR) # b))
      (\<lambda>(m, b). let j = i\<lparr>impl_company := 0x43B, impl_product := product,
                         impl_version := \<lparr>ver_major = r, ver_minor = p\<rparr>,
                         arch_version := \<lparr>ver_major = major, ver_minor = m\<rparr>\<rparr> in
        and_then (print_version d n gicd j b) (\<lambda>b. ok (j, b)))"
  unfolding gic_init_version_info_def in32_def Let_def prod.case assms(1,2) c f
  using assms(3) by (simp add: and_then_assoc split_def)

lemma gic_impl_id_is_pack:
  "gic_impl_id_is (i\<lparr>impl_company := c, impl_product := p,
      impl_version := \<lparr>ver_major = v, ver_minor = w\<rparr>, arch_version := a\<rparr>) =
    impl_id_value (arm_gic_version_is a) (ucast c) (ucast p) (ucast v) (ucast w) OR
    push_bit 56 (ucast (impl_resv i))"
proof -
  have *: "x OR y OR z OR u OR t = (x OR z OR u OR y) OR t" for x y z u t :: u64
    by (simp only: or.assoc or.commute or.left_commute)
  show ?thesis
    unfolding gic_impl_id_is_def impl_id_value_def
    by (cases i) (simp only: * arm_gic_id.select_convs arm_gic_id.update_convs arm_gic_version_is_def
        arm_gic_version.select_convs push_bit_0_id id_apply)
qed

text \<open>Gic\_init\_version\_info on an ARM implementation packs the fields of IIDR and PIDR2 into
  the identifier that the constants of gic.h are compared with (architecture version, company,
  product, revision, patch; minor version 1 exactly for a version 3 controller whose redistributor
  has extra PPIs), writes no register, and crashes exactly when the architecture version is none
  of 1 to 4.\<close>
lemma gic_init_version_info_decodes:
  assumes regs: "id_regs d gicd gicr iidr pidr2 typer"
    and set: "gicd \<noteq> NULL_PADDR" "gicr \<noteq> NULL_PADDR"
    and arm: "iidr AND 0xFFF = 0x43B" and new: "impl_resv i = 0"
    and maj: "major = ucast (drop_bit 4 pidr2 AND 0xF)"
  shows "if known_arch major
    then \<exists>j b'. gic_init_version_info d n gicd gicr i b = ok (j, b') \<and> writes b' = writes b \<and>
      gic_impl_id_is j =
        impl_id_value (arm_gic_version_is \<lparr>ver_major = major,
            ver_minor = (if major = 3 \<and> 0 < drop_bit 27 typer AND 0x1F then 1 else 0)\<rparr>)
          0x43B (ucast (ucast (drop_bit 24 iidr AND 0xFF) :: u8))
          (ucast (ucast (drop_bit 16 iidr AND 0xF) :: u8)) (ucast (ucast (drop_bit 12 iidr AND 0xF) :: u8))
    else gic_init_version_info d n gicd gicr i b = crash ''Unknown/Unhandled GIC version''"
proof -
  have r: "rd32 d b (gicd + ARM_GICD_IIDR) = iidr" "rd32 d b (gicd + PIDR2) = pidr2" for b
    using regs by (simp_all add: id_regs_def)
  have c: "ucast (iidr AND 0xFFF) = (0x43B :: u16)"
    unfolding arm by simp
  let ?b = "R32 (gicd + PIDR2) # R32 (gicd + ARM_GICD_IIDR) # b"
  define p where "p = (ucast (drop_bit 24 iidr AND 0xFF) :: u8)"
  define v where "v = (ucast (drop_bit 16 iidr AND 0xF) :: u8)"
  define w where "w = (ucast (drop_bit 12 iidr AND 0xF) :: u8)"
  define m where "m = (if major = 3 \<and> 0 < drop_bit 27 typer AND 0x1F then 1 else 0 :: u8)"
  note step = gic_init_version_info_arm [OF r set(1) c maj [symmetric] p_def [symmetric]
      v_def [symmetric] w_def [symmetric]]
  show ?thesis
  proof (cases "known_arch major")
    case True
    let ?j = "i\<lparr>impl_company := 0x43B, impl_product := p,
      impl_version := \<lparr>ver_major = v, ver_minor = w\<rparr>,
      arch_version := \<lparr>ver_major = major, ver_minor = m\<rparr>\<rparr>"
    have "\<forall>b. rd64 d b (gicr + ARM_GICR_TYPER) = typer"
      using regs by (simp add: id_regs_def)
    from arch_minor_known [OF True set(2) this, of ?b]
    obtain b1 where 1: "arch_minor d gicr major ?b = ok (m, b1)" "writes b1 = writes ?b"
      unfolding m_def by blast
    obtain b2 where 2: "print_version d n gicd ?j b1 = ok b2" "writes b2 = writes b1"
      using print_version_total by metis
    have "gic_init_version_info d n gicd gicr i b = ok (?j, b2)"
      by (simp only: step 1(1) 2(1) and_then.simps prod.case Let_def)
    moreover have "writes b2 = writes b"
      by (simp add: 1 2 bus_simps)
    moreover have "gic_impl_id_is ?j =
        impl_id_value (arm_gic_version_is \<lparr>ver_major = major, ver_minor = m\<rparr>)
          0x43B (ucast p) (ucast v) (ucast w)"
      by (simp only: gic_impl_id_is_pack) (simp add: new)
    ultimately show ?thesis
      unfolding m_def [symmetric] p_def [symmetric] v_def [symmetric] w_def [symmetric]
      by (simp only: True if_True) blast
  next
    case False
    then show ?thesis
      by (simp only: step arch_minor_unknown [OF False] and_then.simps if_False)
  qed
qed

definition id_ex :: hw where
  "id_ex = \<lparr>rd32 = (\<lambda>b a. if a = 0x1000008 then 0x0201743B else if a = 0x100FFE8 then 0x30 else 0),
     rd64 = (\<lambda>b a. 0), rdsys = (\<lambda>b r. 0), spins = 1\<rparr>"

lemma gic_init_version_info_decodes_witness:
  "\<exists>j b'. gic_init_version_info id_ex 0 0x1000000 0x1100000 arm_gic_id_init [] = ok (j, b') \<and>
    writes b' = [] \<and> gic_impl_id_is j = ARM_GIC_600_r1p6"
proof -
  have "id_regs id_ex 0x1000000 0x1100000 0x0201743B 0x30 0"
    by (simp add: id_regs_def id_ex_def ARM_GICD_IIDR_def PIDR2_def ARM_GICR_TYPER_def)
  from gic_init_version_info_decodes [OF this, of arm_gic_id_init 3 0 "[]"]
  show ?thesis
    by (simp add: NULL_PADDR_def arm_gic_id_init_def known_arch_def writes_def impl_id_values(12)
        impl_id_value_def arm_gic_version_is_def)
qed

end
