(* ===== verification/Gic_Its.thy ===== *)
theory Gic_Its
  imports Gic_Id Aarch64_Map
begin

text \<open>
  The interrupt translation service: startup/lib/aarch64/gic\_v3\_its.c and the table types of
  startup/lib/public/aarch64/gic.h.  The code keeps an array of one instance.  Table memory
  comes from calloc\_ram and is mapped for the callouts with aarch64\_map, as in the code; the
  two hwinfo tags of an instance are recorded in the state.  Printing for debug\_flag is left
  out, and so are the register reads that only serve it.
\<close>

section \<open>Table parameters\<close>

definition tbl_shareability_NONE :: u32 where "tbl_shareability_NONE = 0"
definition tbl_shareability_last :: u32 where "tbl_shareability_last = 3"
definition tbl_cacheability_NONE :: u32 where "tbl_cacheability_NONE = 1"
definition tbl_OUTER_IS_NORMAL_INNER :: u32 where "tbl_OUTER_IS_NORMAL_INNER = 0"
definition tbl_cacheability_last :: u32 where "tbl_cacheability_last = 7"

record gic_tbl_params =
  shareability :: u32
  cache_inner :: u32
  cache_outer :: u32

text \<open>The enumerations are unsigned and start at 0, so that the tests against the first value
  always hold.\<close>
definition tbl_params_valid :: "gic_tbl_params \<Rightarrow> bool" where
  "tbl_params_valid p \<longleftrightarrow> shareability p \<le> tbl_shareability_last \<and>
     cache_inner p \<le> tbl_cacheability_last \<and> cache_outer p \<le> tbl_cacheability_last"

definition tbl_params_dflt :: gic_tbl_params where
  "tbl_params_dflt = \<lparr>shareability = tbl_shareability_NONE, cache_inner = tbl_cacheability_NONE,
     cache_outer = tbl_cacheability_NONE\<rparr>"

text \<open>What the code falls back to when the shareability bits cannot be set.\<close>
definition tbl_params_uncached :: gic_tbl_params where
  "tbl_params_uncached = \<lparr>shareability = tbl_shareability_NONE, cache_inner = tbl_cacheability_NONE,
     cache_outer = tbl_OUTER_IS_NORMAL_INNER\<rparr>"

record its_params =
  gits_paddr_base :: paddr
  gits_vaddr_base :: u64
  its_num_collections :: u32
  dt_page_size :: u32
  dt_params :: gic_tbl_params
  ct_page_size :: u32
  ct_params :: gic_tbl_params
  ct_num_collections :: u32
  cq_num_4k_pages :: u32
  cq_params :: gic_tbl_params
  cq_mmap_flags :: u32
  cq_vaddr :: u64
  cq_lock_vaddr :: u64

definition its_params_dflt :: "prot_abi \<Rightarrow> its_params" where
  "its_params_dflt f = \<lparr>gits_paddr_base = NULL_PADDR, gits_vaddr_base = 0, its_num_collections = 0,
     dt_page_size = 4096, dt_params = tbl_params_dflt,
     ct_page_size = 4096, ct_params = tbl_params_dflt, ct_num_collections = 0,
     cq_num_4k_pages = 2, cq_params = tbl_params_dflt,
     cq_mmap_flags = PROT_READ f OR PROT_WRITE f OR PROT_NOCACHE f, cq_vaddr = 0, cq_lock_vaddr = 0\<rparr>"

record its_state =
  its_tab :: "its_params list"
  cmd_q_lock_base_vaddr :: u64
  cmd_q_lock_base_paddr :: paddr
  its_vm :: vm
  its_hwi :: "(string \<times> (paddr \<times> u32) list) list"
  its_bus :: bus

record its_env =
  ie_hw :: hw
  ie_mmu :: mmu_env
  ie_bias :: u64
  ie_num_cpu :: u32
  ie_hwidev :: bool
  ie_lock_version :: u64

definition its_state_init :: "prot_abi \<Rightarrow> vm \<Rightarrow> its_state" where
  "its_state_init f v = \<lparr>its_tab = [its_params_dflt f], cmd_q_lock_base_vaddr = 0,
     cmd_q_lock_base_paddr = NULL_PADDR, its_vm = v, its_hwi = [], its_bus = []\<rparr>"

text \<open>ASSERT(its\_num < NUM\_ELTS(its\_params)), then a change of that element.\<close>
definition with_its :: "nat \<Rightarrow> (its_params \<Rightarrow> its_params res) \<Rightarrow> its_state \<Rightarrow> its_state res" where
  "with_its n f s =
    and_then (assert_that (n < length (its_tab s))) (\<lambda>_.
    and_then (f (its_tab s ! n)) (\<lambda>p. ok (s\<lparr>its_tab := (its_tab s)[n := p]\<rparr>)))"

definition get_its :: "nat \<Rightarrow> its_state \<Rightarrow> its_params res" where
  "get_its n s = and_then (assert_that (n < length (its_tab s))) (\<lambda>_. ok (its_tab s ! n))"

section \<open>The parameter functions\<close>

definition gic_v3_its_set_paddr :: "nat \<Rightarrow> paddr \<Rightarrow> its_state \<Rightarrow> its_state res" where
  "gic_v3_its_set_paddr n gits = with_its n (\<lambda>p. ok (p\<lparr>gits_paddr_base := gits\<rparr>))"

text \<open>A NULL pointer is None.\<close>
definition checked_params :: "gic_tbl_params option \<Rightarrow> gic_tbl_params res" where
  "checked_params q =
    (case q of None \<Rightarrow> crash ''ASSERT''
     | Some x \<Rightarrow> and_then (assert_that (tbl_params_valid x)) (\<lambda>_. ok x))"

definition gic_v3_its_set_dt_params :: "nat \<Rightarrow> gic_tbl_params option \<Rightarrow> its_state \<Rightarrow> its_state res" where
  "gic_v3_its_set_dt_params n q =
    with_its n (\<lambda>p. and_then (checked_params q) (\<lambda>x. ok (p\<lparr>dt_params := x\<rparr>)))"

definition gic_v3_its_set_ct_params :: "nat \<Rightarrow> gic_tbl_params option \<Rightarrow> its_state \<Rightarrow> its_state res" where
  "gic_v3_its_set_ct_params n q =
    with_its n (\<lambda>p. and_then (checked_params q) (\<lambda>x. ok (p\<lparr>ct_params := x\<rparr>)))"

definition gic_v3_its_set_cmd_q_params ::
  "nat \<Rightarrow> gic_tbl_params option \<Rightarrow> u32 \<Rightarrow> its_state \<Rightarrow> its_state res" where
  "gic_v3_its_set_cmd_q_params n q mmap_flags =
    with_its n (\<lambda>p. and_then (checked_params q) (\<lambda>x.
      let p = p\<lparr>cq_params := x\<rparr> in
      ok (if mmap_flags \<noteq> 0 then p\<lparr>cq_mmap_flags := mmap_flags\<rparr> else p)))"

definition page_size_ok :: "u32 \<Rightarrow> bool" where
  "page_size_ok sz \<longleftrightarrow> sz = 4096 \<or> sz = 16384 \<or> sz = 65536"

definition gic_v3_its_set_dt_page_size :: "nat \<Rightarrow> u32 \<Rightarrow> its_state \<Rightarrow> its_state res" where
  "gic_v3_its_set_dt_page_size n sz =
    with_its n (\<lambda>p. and_then (assert_that (page_size_ok sz)) (\<lambda>_. ok (p\<lparr>dt_page_size := sz\<rparr>)))"

definition gic_v3_its_set_ct_page_size :: "nat \<Rightarrow> u32 \<Rightarrow> its_state \<Rightarrow> its_state res" where
  "gic_v3_its_set_ct_page_size n sz =
    with_its n (\<lambda>p. and_then (assert_that (page_size_ok sz)) (\<lambda>_. ok (p\<lparr>ct_page_size := sz\<rparr>)))"

definition gic_v3_its_set_ct_num_ids :: "nat \<Rightarrow> u32 \<Rightarrow> its_state \<Rightarrow> its_state res" where
  "gic_v3_its_set_ct_num_ids n num = with_its n (\<lambda>p. ok (p\<lparr>ct_num_collections := num\<rparr>))"

definition gic_v3_its_set_cmd_q_num_pages :: "nat \<Rightarrow> u32 \<Rightarrow> its_state \<Rightarrow> its_state res" where
  "gic_v3_its_set_cmd_q_num_pages n num = with_its n (\<lambda>p. ok (p\<lparr>cq_num_4k_pages := num\<rparr>))"

definition gic_v3_its_base_vaddr :: "nat \<Rightarrow> its_state \<Rightarrow> u64 res" where
  "gic_v3_its_base_vaddr n s = and_then (get_its n s) (\<lambda>p. ok (gits_vaddr_base p))"

definition gic_v3_its_cmd_q_vaddr :: "nat \<Rightarrow> its_state \<Rightarrow> u64 res" where
  "gic_v3_its_cmd_q_vaddr n s = and_then (get_its n s) (\<lambda>p. ok (cq_vaddr p))"

definition gic_v3_its_cmd_q_lock_vaddr :: "nat \<Rightarrow> its_state \<Rightarrow> u64 res" where
  "gic_v3_its_cmd_q_lock_vaddr n s = and_then (get_its n s) (\<lambda>p. ok (cq_lock_vaddr p))"

text \<open>The registers of an instance: CTLR 0, TYPER 8, CBASER 0x80, CWRITER 0x88, CREADR 0x90,
  BASER 0x100.\<close>
definition gic_v3_its_cmd_q_last_slot_offset :: "its_env \<Rightarrow> nat \<Rightarrow> its_state \<Rightarrow> (u32 \<times> its_state) res" where
  "gic_v3_its_cmd_q_last_slot_offset e n s =
    and_then (get_its n s) (\<lambda>p.
    and_then (assert_that (gits_paddr_base p \<noteq> 0)) (\<lambda>_.
    let (cbaser, b) = in64 (ie_hw e) (gits_paddr_base p + 0x80) (its_bus s);
        num_4k_pages = ucast (cbaser AND 0xFF) + 1 :: u32;
        num_slots = num_4k_pages * (4096 div 32) in
    and_then (assert_that (128 \<le> num_slots)) (\<lambda>_. ok ((num_slots - 1) * 32, s\<lparr>its_bus := b\<rparr>))))"

section \<open>Table memory\<close>

text \<open>max(1, (ids * entry\_size) / page\_size) in unsigned arithmetic.\<close>
definition table_pages :: "u32 \<Rightarrow> u32 \<Rightarrow> u32 \<Rightarrow> u32" where
  "table_pages ids entry_size pg = max 1 (ids * entry_size div pg)"

definition page_size_bits :: "u32 \<Rightarrow> u64 res" where
  "page_size_bits pg =
    (if pg = 4096 then ok 0 else if pg = 16384 then ok 1 else if pg = 65536 then ok 2
     else crash ''ASSERT'')"

text \<open>Allocation of a table: the value with page size and page count, checked against the sizes.\<close>
definition alloc_table :: "its_env \<Rightarrow> u32 \<Rightarrow> u32 \<Rightarrow> vm \<Rightarrow> (u64 \<times> u64 \<times> vm) res" where
  "alloc_table e pages pg v =
    and_then (assert_that (pages \<le> 0x100)) (\<lambda>_.
    and_then (vm_calloc (ie_mmu e) (ucast (pages * pg)) pg v) (\<lambda>(t, v).
    and_then (assert_that (t \<noteq> NULL_PADDR)) (\<lambda>_.
    and_then (assert_that (t AND 0xFFFFFFFFF000 = t)) (\<lambda>_.
    and_then (page_size_bits pg) (\<lambda>bits.
    let t = t OR push_bit 8 bits;
        t = t OR (ucast (pages - 1) AND 0xFF);
        got_size = push_bit (unat (drop_bit 8 t AND 3) * 2) 0x1000 :: u32;
        got_pages = ucast (t AND 0xFF) + 1 in
    and_then (assert_that (got_size * got_pages = pages * pg)) (\<lambda>_. ok (t, bits, v)))))))"

text \<open>Whether the shareability bits of a register can be set: they are written inverted and read
  back.\<close>
definition share_settable :: "hw \<Rightarrow> paddr \<Rightarrow> bus \<Rightarrow> bool \<times> bus" where
  "share_settable d a b =
    (let (v, b) = in64 d a b;
         flipped = NOT (drop_bit 10 v AND 3) AND 3;
         b = out64 a (push_bit 10 flipped) b;
         (v, b) = in64 d a b
     in (drop_bit 10 v AND 3 = flipped, b))"

text \<open>The attributes and the valid bit of GITS\_BASER; bit 62, the indirect bit, is cleared.\<close>
definition table_baser :: "gic_tbl_params \<Rightarrow> u64 \<Rightarrow> u64" where
  "table_baser q t =
    ((t OR push_bit 10 (ucast (shareability q)) OR push_bit 59 (ucast (cache_inner q))
        OR push_bit 53 (ucast (cache_outer q))) AND NOT (push_bit 62 1)) OR push_bit 63 1"

text \<open>The flush is given the register value, and the page size is read back.\<close>
definition write_baser :: "its_env \<Rightarrow> paddr \<Rightarrow> u64 \<Rightarrow> u64 \<Rightarrow> u32 \<Rightarrow> bus \<Rightarrow> bus res" where
  "write_baser e a t bits len b =
    (let b = out64 a t (dcache_flush (t + ie_bias e) (ucast len) b);
         (v, b) = in64 (ie_hw e) a b
     in and_then (assert_that (drop_bit 8 v AND 3 = bits)) (\<lambda>_. ok b))"

section \<open>Initialisation of an instance\<close>

text \<open>What the scan of the GITS\_BASER registers has found.\<close>
record baser_scan =
  dt_entry_size :: u32
  dt_idx :: int
  ct_entry_size :: u32
  ct_idx :: int

definition baser :: "paddr \<Rightarrow> int \<Rightarrow> paddr" where
  "baser base i = base + 0x100 + word_of_int (i * 8)"

definition scan_one :: "hw \<Rightarrow> paddr \<Rightarrow> nat \<Rightarrow> baser_scan \<Rightarrow> bus \<Rightarrow> (baser_scan \<times> bus) res" where
  "scan_one d base i c b =
    (let (v, b) = in64 d (baser base (int i)) b;
         table_type = drop_bit 56 v AND 7;
         entry = ucast (drop_bit 48 v AND 0x1F) + 1
     in if table_type = 1 then
          and_then (assert_that (dt_entry_size c = 0)) (\<lambda>_.
            ok (c\<lparr>dt_entry_size := entry, dt_idx := int i\<rparr>, b))
        else if table_type = 4 then
          and_then (assert_that (ct_entry_size c = 0)) (\<lambda>_.
            ok (c\<lparr>ct_entry_size := entry, ct_idx := int i\<rparr>, b))
        else ok (c, b))"

fun scan_basers :: "hw \<Rightarrow> paddr \<Rightarrow> nat list \<Rightarrow> baser_scan \<Rightarrow> bus \<Rightarrow> (baser_scan \<times> bus) res" where
  "scan_basers d base [] c b = ok (c, b)"
| "scan_basers d base (i # is) c b =
    and_then (scan_one d base i c b) (\<lambda>(c, b).
      if 0 < dt_idx c \<and> 0 < ct_idx c then ok (c, b) else scan_basers d base is c b)"

definition scan_init :: baser_scan where
  "scan_init = \<lparr>dt_entry_size = 0, dt_idx = - 1, ct_entry_size = 0, ct_idx = - 1\<rparr>"

text \<open>The ITS is disabled and the code waits for bit 31, quiescent.\<close>
definition its_disable :: "hw \<Rightarrow> paddr \<Rightarrow> bus \<Rightarrow> bus res" where
  "its_disable d base b =
    (let (ctlr, b) = in32 d base b;
         b = out32 base (ctlr AND NOT 1) b
     in and_then (poll_reg d base (\<lambda>v. v AND push_bit 31 1 \<noteq> 0) b) (\<lambda>(_, b). ok b))"

text \<open>The number of device identifiers: at most 31 bits of them.\<close>
definition num_device_ids :: "u64 \<Rightarrow> u32 res" where
  "num_device_ids typer =
    (let devid_bits = unat (drop_bit 13 typer AND 0x1F) + 1 in
     and_then (assert_that (devid_bits < 32)) (\<lambda>_. ok (push_bit devid_bits 1)))"

text \<open>Allocates a table of one kind and writes its GITS\_BASER; the parameters in use are returned.\<close>
definition setup_table ::
  "its_env \<Rightarrow> paddr \<Rightarrow> u32 \<Rightarrow> u32 \<Rightarrow> gic_tbl_params \<Rightarrow> its_state \<Rightarrow> (gic_tbl_params \<times> its_state) res" where
  "setup_table e a pages pg q s =
    and_then (alloc_table e pages pg (its_vm s)) (\<lambda>(t, bits, v).
    let (settable, b) = share_settable (ie_hw e) a (its_bus s);
        q = (if settable then q else tbl_params_uncached) in
    and_then (write_baser e a (table_baser q t) bits (pages * pg) b) (\<lambda>b.
      ok (q, s\<lparr>its_vm := v, its_bus := b\<rparr>)))"

definition its_device_table :: "its_env \<Rightarrow> nat \<Rightarrow> u32 \<Rightarrow> baser_scan \<Rightarrow> its_state \<Rightarrow> its_state res" where
  "its_device_table e n ids c s =
    (let p = its_tab s ! n; pg = dt_page_size p; pages = table_pages ids (dt_entry_size c) pg in
     and_then (setup_table e (baser (gits_paddr_base p) (dt_idx c)) pages pg (dt_params p) s) (\<lambda>(q, s).
       ok (s\<lparr>its_tab := (its_tab s)[n := (its_tab s ! n)\<lparr>dt_params := q\<rparr>]\<rparr>)))"

text \<open>min(2 to the power of the collection identifier bits, number of processors).\<close>
definition mem_collections :: "u64 \<Rightarrow> u32 \<Rightarrow> u32" where
  "mem_collections typer cpus =
    (let cid_bits = (if drop_bit 36 typer AND 1 = 1 then unat (drop_bit 32 typer AND 0xF) + 1 else 16)
     in min (push_bit cid_bits 1) cpus)"

definition its_collection_table :: "its_env \<Rightarrow> nat \<Rightarrow> u64 \<Rightarrow> baser_scan \<Rightarrow> its_state \<Rightarrow> its_state res" where
  "its_collection_table e n typer c s =
    (let hw_coll = ucast (drop_bit 24 typer AND 0xFF) :: u32;
         p = (its_tab s ! n)\<lparr>its_num_collections := hw_coll\<rparr> in
     if 0 \<le> ct_idx c then
       (let mem = mem_collections typer (ie_num_cpu e);
            p = p\<lparr>ct_num_collections := mem, its_num_collections := hw_coll + mem\<rparr>;
            pg = ct_page_size p; pages = table_pages mem (ct_entry_size c) pg in
        and_then (assert_that (hw_coll = 0)) (\<lambda>_.
        and_then (setup_table e (baser (gits_paddr_base p) (ct_idx c)) pages pg (ct_params p) s) (\<lambda>(q, s).
          ok (s\<lparr>its_tab := (its_tab s)[n := p\<lparr>ct_params := q\<rparr>]\<rparr>))))
     else ok (s\<lparr>its_tab := (its_tab s)[n := p]\<rparr>))"

text \<open>The page for the locks lies after the first queue; lock n has the 128 bytes at 128 n.\<close>
definition its_lock_page :: "its_env \<Rightarrow> nat \<Rightarrow> paddr \<Rightarrow> u64 \<Rightarrow> u64 \<Rightarrow> its_state \<Rightarrow> its_state res" where
  "its_lock_page e n q qsize extra s =
    and_then
      (if cmd_q_lock_base_vaddr s = 0 then
         and_then (assert_that (cmd_q_lock_base_paddr s = NULL_PADDR)) (\<lambda>_.
         and_then (assert_that (extra \<noteq> 0)) (\<lambda>_.
         let f = me_prot (ie_mmu e) in
         and_then (callout_memory_map (ie_mmu e) (ucast extra) (q + qsize) (PROT_READ f OR PROT_WRITE f) (its_vm s))
           (\<lambda>(va, v). ok (s\<lparr>cmd_q_lock_base_paddr := q + qsize, cmd_q_lock_base_vaddr := va, its_vm := v\<rparr>))))
       else ok s)
      (\<lambda>s. let off = of_nat (n * 128); p = its_tab s ! n in
        ok (s\<lparr>its_tab := (its_tab s)[n := p\<lparr>cq_lock_vaddr := cmd_q_lock_base_vaddr s + off\<rparr>],
              its_bus := out32 (cmd_q_lock_base_paddr s + off + ie_lock_version e) 1 (its_bus s)\<rparr>))"

text \<open>GITS\_CBASER: the queue's address, its pages less one, attributes and the valid bit.\<close>
definition cbaser_base :: "u64 \<Rightarrow> paddr \<Rightarrow> u32 \<Rightarrow> u64" where
  "cbaser_base old q pages =
    ((((old AND NOT 0xFFFFFFFFFF000) OR q) AND NOT 0xFF) OR ucast (pages - 1)) AND NOT (push_bit 10 3)"

definition cbaser_attr :: "gic_tbl_params \<Rightarrow> u64 \<Rightarrow> u64" where
  "cbaser_attr q c =
    (((((c OR push_bit 10 (ucast (shareability q))) AND NOT (push_bit 59 7))
         OR push_bit 59 (ucast (cache_inner q))) AND NOT (push_bit 53 7))
         OR push_bit 53 (ucast (cache_outer q))) OR push_bit 63 1"

definition its_cmd_queue :: "its_env \<Rightarrow> nat \<Rightarrow> its_state \<Rightarrow> its_state res" where
  "its_cmd_queue e n s =
    (let extra = (if cmd_q_lock_base_vaddr s = 0 then 4096 else 0 :: u64);
         p = its_tab s ! n; base = gits_paddr_base p;
         qsize = ucast (cq_num_4k_pages p * 4096) :: u64 in
     and_then (vm_calloc (ie_mmu e) (qsize + extra) 65536 (its_vm s)) (\<lambda>(q, v).
     and_then (assert_that (q \<noteq> NULL_PADDR)) (\<lambda>_.
     and_then (assert_that (q AND 0xFFFFFFFFF0000 = q)) (\<lambda>_.
     and_then (callout_memory_map (ie_mmu e) (ucast qsize) q (cq_mmap_flags p) v) (\<lambda>(va, v).
     and_then (its_lock_page e n q qsize extra
         (s\<lparr>its_vm := v, its_tab := (its_tab s)[n := p\<lparr>cq_vaddr := va\<rparr>]\<rparr>)) (\<lambda>s.
     let p = its_tab s ! n;
         (old, b) = in64 (ie_hw e) (base + 0x80) (its_bus s);
         cb = cbaser_base old q (cq_num_4k_pages p);
         (settable, b) = share_settable (ie_hw e) (base + 0x80) b;
         prm = (if settable then cq_params p else tbl_params_uncached);
         cb = cbaser_attr prm cb;
         b = dcache_flush (q + ie_bias e) (qsize + extra) b;
         b = out64 (base + 0x80) cb (out64 (base + 0x88) 0 b) in
     ok (s\<lparr>its_tab := (its_tab s)[n := p\<lparr>cq_params := prm\<rparr>], its_bus := b\<rparr>)))))))"

definition its_hwinfo :: "its_env \<Rightarrow> nat \<Rightarrow> its_state \<Rightarrow> its_state" where
  "its_hwinfo e n s =
    (if ie_hwidev e
     then s\<lparr>its_hwi := its_hwi s @ [(''GIC_ITS'',
            [(gits_paddr_base (its_tab s ! n), 0x20000), (cmd_q_lock_base_paddr s + of_nat (n * 128), 4)])]\<rparr>
     else s)"

definition gic_v3_its_initialize :: "its_env \<Rightarrow> nat \<Rightarrow> its_state \<Rightarrow> its_state res" where
  "gic_v3_its_initialize e n s =
    and_then (get_its n s) (\<lambda>p.
    and_then (assert_that (gits_paddr_base p \<noteq> 0)) (\<lambda>_.
    let base = gits_paddr_base p in
    and_then (callout_io_map (ie_mmu e) 0x10000 base (its_vm s)) (\<lambda>(va, v).
    and_then (its_disable (ie_hw e) base (its_bus s)) (\<lambda>b.
    let (typer, b) = in64 (ie_hw e) (base + 8) b in
    and_then (num_device_ids typer) (\<lambda>ids.
    and_then (scan_basers (ie_hw e) base [0 ..< 8] scan_init b) (\<lambda>(c, b).
    let s = s\<lparr>its_tab := (its_tab s)[n := p\<lparr>gits_vaddr_base := va\<rparr>], its_vm := v, its_bus := b\<rparr> in
    and_then (its_device_table e n ids c s) (\<lambda>s.
    and_then (its_collection_table e n typer c s) (\<lambda>s.
    and_then (assert_that (0 < its_num_collections (its_tab s ! n))) (\<lambda>_.
    and_then (its_cmd_queue e n s) (\<lambda>s. ok (its_hwinfo e n s)))))))))))"

section \<open>Mapping a collection to a processor\<close>

definition next_cmd_q_slot :: "u32 \<Rightarrow> u32 \<Rightarrow> u64 \<Rightarrow> u64 \<Rightarrow> u32 \<times> u64" where
  "next_cmd_q_slot cur num_slots q_addr q_base =
    (let nxt = (cur + 1) mod num_slots in (nxt, if nxt = 0 then q_base else q_addr))"

text \<open>Four times *tmp\_its\_cmd\_q++ = word: the words and the pointer after them.\<close>
definition put_cmd :: "u64 \<times> u64 \<times> u64 \<times> u64 \<Rightarrow> u64 \<Rightarrow> bus \<Rightarrow> u64 \<times> bus" where
  "put_cmd c q b =
    (case c of (w0, w1, w2, w3) \<Rightarrow>
       (q + 32, out64 (q + 24) w3 (out64 (q + 16) w2 (out64 (q + 8) w1 (out64 q w0 b)))))"

text \<open>The ITS is enabled when it is not; before that it must be quiescent.\<close>
definition its_enable :: "hw \<Rightarrow> paddr \<Rightarrow> bus \<Rightarrow> bus res" where
  "its_enable d base b =
    (let (ctlr, b) = in32 d base b in
     if ctlr AND 1 = 0 then
       and_then (if ctlr AND push_bit 31 1 = 0 then poll_reg d base (\<lambda>v. v AND push_bit 31 1 \<noteq> 0) b
                 else ok (ctlr, b))
         (\<lambda>(ctlr, b). ok (out32 base (ctlr OR 1) b))
     else ok b)"

text \<open>RDbase: the redistributor's address, or its processor number above bit 16.\<close>
definition its_rdbase :: "u64 \<Rightarrow> u64 \<Rightarrow> u32 \<Rightarrow> nat \<Rightarrow> u64" where
  "its_rdbase typer gicr_typer gicr icid_bits =
    (if drop_bit 19 typer AND 1 = 1 then ucast gicr
     else ucast (push_bit (max 16 icid_bits) (ucast (drop_bit 8 gicr_typer AND 0xFFFF) :: u32)))"

definition RDbase_mask :: u64 where
  "RDbase_mask = (push_bit 52 1 - 1) XOR 0xFFFF"

definition icid_bits_of :: "u64 \<Rightarrow> nat" where
  "icid_bits_of typer =
    (if drop_bit 36 typer AND 1 = 1 then unat (drop_bit 32 typer AND 0xF) + 1 else 16)"

text \<open>At most 255 reads of CREADR and CWRITER; a stalled ITS is told to retry.\<close>
primrec its_drain :: "nat \<Rightarrow> hw \<Rightarrow> paddr \<Rightarrow> bus \<Rightarrow> bus res" where
  "its_drain 0 d base b = crash ''ASSERT''"
| "its_drain (Suc k) d base b =
    (let (creader, b) = in64 d (base + 0x90) b; (cwriter, b) = in64 d (base + 0x88) b in
     if creader = cwriter then ok b
     else its_drain k d base
       (if creader AND 1 \<noteq> 0 then out64 (base + 0x88) (cwriter OR 1) b else b))"

text \<open>The commands MAPC, SYNC and INVALL, the wrap of the queue after each, the flush and CWRITER.\<close>
definition its_issue :: "u64 \<Rightarrow> paddr \<Rightarrow> u64 \<Rightarrow> u32 \<Rightarrow> u32 \<Rightarrow> u64 \<Rightarrow> u64 \<Rightarrow> bus \<Rightarrow> bus" where
  "its_issue bias base q_base slots cur icid rd b =
    (let q = q_base + ucast (cur * 32);
         flush_at = q + bias;
         (q, b) = put_cmd (0x9, 0, icid OR rd OR push_bit 63 1, 0) q b;
         (cur, q) = next_cmd_q_slot cur slots q q_base;
         (q, b) = put_cmd (0x5, 0, rd, 0) q b;
         (cur, q) = next_cmd_q_slot cur slots q q_base;
         (q, b) = put_cmd (0xD, 0, icid, 0) q b;
         b = dcache_flush flush_at (q - flush_at) b;
         (cur, q) = next_cmd_q_slot cur slots q q_base
     in out64 (base + 0x88) (ucast (cur * 32 OR 1)) b)"

definition gic_v3_its_mapc :: "its_env \<Rightarrow> nat \<Rightarrow> u32 \<Rightarrow> u32 \<Rightarrow> its_state \<Rightarrow> its_state res" where
  "gic_v3_its_mapc e n cpu gicr s =
    and_then (get_its n s) (\<lambda>p.
    and_then (assert_that (gits_paddr_base p \<noteq> 0)) (\<lambda>_.
    let base = gits_paddr_base p; d = ie_hw e in
    and_then (its_enable d base (its_bus s)) (\<lambda>b.
    let slots = cq_num_4k_pages p * 4096 div 32;
        (cbaser, b) = in64 d (base + 0x80) b;
        q_base = (cbaser AND 0xFFFFFFFFFF000) + ie_bias e;
        (typer, b) = in64 d (base + 8) b;
        icid_bits = icid_bits_of typer;
        icid_mask = push_bit icid_bits 1 - 1;
        (gicr_typer, b) = in64 d (ucast gicr + ARM_GICR_TYPER) b;
        rd = its_rdbase typer gicr_typer gicr icid_bits AND RDbase_mask;
        (cwriter, b) = in64 d (base + 0x88) b;
        cur = ucast (cwriter div 32) :: u32 in
    and_then (assert_that (cur < slots)) (\<lambda>_.
    and_then (its_drain 255 d base (its_issue (ie_bias e) base q_base slots cur (ucast cpu AND icid_mask) rd b)) (\<lambda>b.
      ok (s\<lparr>its_bus := b\<rparr>))))))"

section \<open>The commands in the queue\<close>

text \<open>Slot i of a queue of n slots, and the four words of a command in it.\<close>
definition q_slot :: "u64 \<Rightarrow> nat \<Rightarrow> nat \<Rightarrow> paddr" where
  "q_slot q_base n i = q_base + of_nat (32 * (i mod n))"

definition cmd_words :: "paddr \<Rightarrow> u64 \<times> u64 \<times> u64 \<times> u64 \<Rightarrow> access list" where
  "cmd_words q c = (case c of (w0, w1, w2, w3) \<Rightarrow>
     [W64 q w0, W64 (q + 8) w1, W64 (q + 16) w2, W64 (q + 24) w3])"

lemma writes_put_cmd: "writes (snd (put_cmd c q b)) = writes b @ cmd_words q c"
  by (cases c) (simp add: put_cmd_def cmd_words_def bus_simps)

lemma fst_put_cmd: "fst (put_cmd c q b) = q + 32"
  by (cases c) (simp add: put_cmd_def)

lemma unat_next_slot:
  assumes "unat cur < unat slots"
  shows "unat (fst (next_cmd_q_slot cur slots q q_base)) = (unat cur + 1) mod unat slots"
proof -
  have "unat (cur + 1) = unat cur + 1"
    using assms unsigned_less [of slots, where ?'a = nat] by (subst unat_plus_simple [THEN iffD1]) (auto simp: no_plus_overflow_unat_size word_size)
  then show ?thesis by (simp add: next_cmd_q_slot_def unat_mod Let_def)
qed

lemma next_slot_ptr:
  assumes cur: "unat cur = i mod n" and n: "unat slots = n" "0 < n" and q: "q = q_slot q_base n i"
  shows "unat (fst (next_cmd_q_slot cur slots (q + 32) q_base)) = Suc i mod n"
    and "snd (next_cmd_q_slot cur slots (q + 32) q_base) = q_slot q_base n (Suc i)"
proof -
  have lt: "unat cur < unat slots" using cur n by simp
  show u: "unat (fst (next_cmd_q_slot cur slots (q + 32) q_base)) = Suc i mod n"
    using unat_next_slot [OF lt, of "q + 32" q_base] cur n by (simp add: mod_Suc_eq)
  have z: "snd (next_cmd_q_slot cur slots (q + 32) q_base) = (if Suc i mod n = 0 then q_base else q + 32)"
  proof -
    have "(fst (next_cmd_q_slot cur slots (q + 32) q_base) = 0) = (Suc i mod n = 0)"
      using u by (simp add: unat_eq_0 [symmetric] del: unat_eq_0)
    then show ?thesis by (simp add: next_cmd_q_slot_def Let_def)
  qed
  show "snd (next_cmd_q_slot cur slots (q + 32) q_base) = q_slot q_base n (Suc i)"
  proof (cases "Suc i mod n = 0")
    case True
    then show ?thesis by (simp add: z q_slot_def)
  next
    case False
    then have "Suc i mod n = Suc (i mod n)" by (simp add: mod_Suc split: if_splits)
    then have "q_slot q_base n (Suc i) = q + 32" by (simp add: q q_slot_def algebra_simps)
    then show ?thesis using False by (simp only: z if_False)
  qed
qed

lemma ucast_of_nat: "unat (x :: 'a :: len word) = k \<Longrightarrow> (ucast x :: 'b :: len word) = of_nat k"
  by auto

lemma ucast_cwriter:
  assumes "unat (cur :: u32) = k" "k < 2 ^ 27"
  shows "(ucast (cur * 32 OR 1) :: u64) = of_nat (32 * k) OR 1"
proof -
  have "unat (cur * 32) = 32 * k"
    using assms by (subst unat_mult_lem [THEN iffD1]) auto
  then have "(ucast (cur * 32) :: u64) = of_nat (32 * k)"
    by (rule ucast_of_nat)
  then show ?thesis by (simp add: unsigned_or_eq)
qed

definition mapc_cmd :: "u64 \<Rightarrow> u64 \<Rightarrow> u64 \<times> u64 \<times> u64 \<times> u64" where
  "mapc_cmd icid rd = (0x9, 0, icid OR rd OR push_bit 63 1, 0)"

definition sync_cmd :: "u64 \<Rightarrow> u64 \<times> u64 \<times> u64 \<times> u64" where
  "sync_cmd rd = (0x5, 0, rd, 0)"

definition invall_cmd :: "u64 \<Rightarrow> u64 \<times> u64 \<times> u64 \<times> u64" where
  "invall_cmd icid = (0xD, 0, icid, 0)"

lemma its_issue_steps:
  assumes "unat cur < n" "unat slots = n" "n \<le> 2 ^ 27"
  defines "c \<equiv> unat cur"
  shows "its_issue bias base q_base slots cur icid rd b =
    out64 (base + 0x88) (of_nat (32 * ((c + 3) mod n)) OR 1)
     (dcache_flush (q_slot q_base n c + bias) (q_slot q_base n (c + 2) + 32 - (q_slot q_base n c + bias))
       (snd (put_cmd (invall_cmd icid) (q_slot q_base n (c + 2))
         (snd (put_cmd (sync_cmd rd) (q_slot q_base n (c + 1))
           (snd (put_cmd (mapc_cmd icid rd) (q_slot q_base n c) b)))))))"
proof -
  have n: "0 < n" using assms(1) by simp
  let ?q0 = "q_slot q_base n c"
  have c0: "unat (cur * 32) = 32 * c"
    using assms by (subst unat_mult_lem [THEN iffD1]) auto
  have q0: "q_base + ucast (cur * 32) = ?q0"
    using assms(1) by (simp add: q_slot_def ucast_of_nat [OF c0] c_def)
  note 1 = next_slot_ptr [of cur c n slots ?q0 q_base, OF _ assms(2) n refl]
  let ?x1 = "next_cmd_q_slot cur slots (?q0 + 32) q_base"
  note 2 = next_slot_ptr [of "fst ?x1" "Suc c" n slots "snd ?x1" q_base, OF _ assms(2) n]
  let ?x2 = "next_cmd_q_slot (fst ?x1) slots (snd ?x1 + 32) q_base"
  note 3 = unat_next_slot [of "fst ?x2" slots "snd ?x2 + 32" q_base]
  have i: "unat cur = c mod n" using assms(1) by (simp add: c_def)
  note f1 = 1 [OF i]
  note f2 = 2 [OF f1]
  have f3: "unat (fst (next_cmd_q_slot (fst ?x2) slots (snd ?x2 + 32) q_base)) = (c + 3) mod n"
    using 3 f2(1) n assms(2) by (simp add: mod_Suc_eq eval_nat_numeral)
  note g2 = f2 [unfolded f1(2)] and g3 = f3 [unfolded f1(2), unfolded f2(2) [unfolded f1(2)]]
  have lt: "(c + 3) mod n < 2 ^ 27"
    using n assms(3) by (meson mod_less_divisor order_less_le_trans)
  show ?thesis
    unfolding its_issue_def Let_def split_def q0 mapc_cmd_def sync_cmd_def invall_cmd_def fst_put_cmd
    by (simp only: f1(2) [unfolded Suc_eq_plus1] g2(2) [unfolded Suc_eq_plus1]
        ucast_cwriter [OF g3 lt, unfolded Suc_eq_plus1] Suc_eq_plus1 add_2_eq_Suc' fst_put_cmd)
qed

text \<open>C6: a processor's collection is mapped by exactly three commands, in this order and in
  consecutive slots of the queue, wrapping at its end: MAPC with the collection, the
  redistributor and the valid bit, SYNC, and INVALL.  Nothing else is written but CWRITER, last,
  with the slot after them and the retry bit.\<close>
theorem its_issue_commands:
  assumes "unat cur < n" "unat slots = n" "n \<le> 2 ^ 27"
  shows "writes (its_issue bias base q_base slots cur icid rd b) = writes b
     @ cmd_words (q_slot q_base n (unat cur)) (mapc_cmd icid rd)
     @ cmd_words (q_slot q_base n (unat cur + 1)) (sync_cmd rd)
     @ cmd_words (q_slot q_base n (unat cur + 2)) (invall_cmd icid)
     @ [W64 (base + 0x88) (of_nat (32 * ((unat cur + 3) mod n)) OR 1)]"
  unfolding its_issue_steps [OF assms] by (simp only: bus_simps writes_put_cmd append_assoc)

lemma its_issue_commands_witness:
  "writes (its_issue 0 0x8080000 0x90000000 256 255 7 0x30000 []) =
     [W64 0x90001FE0 0x9, W64 0x90001FE8 0, W64 0x90001FF0 0x8000000000030007, W64 0x90001FF8 0,
      W64 0x90000000 0x5, W64 0x90000008 0, W64 0x90000010 0x30000, W64 0x90000018 0,
      W64 0x90000020 0xD, W64 0x90000028 0, W64 0x90000030 7, W64 0x90000038 0,
      W64 0x8080088 0x41]"
  using its_issue_commands [where cur = 255 and n = 256 and slots = 256 and bias = 0 and b = "[]" and
      base = "0x8080000" and q_base = "0x90000000" and icid = 7 and rd = "0x30000"]
  by (simp add: cmd_words_def q_slot_def mapc_cmd_def sync_cmd_def invall_cmd_def writes_def)

text \<open>When the commands wrap around the end of the queue, the length given to the cache flush is
  the difference of two pointers in the wrong order.\<close>
lemma its_issue_flush_wraps:
  assumes "unat cur + 1 = n" "unat slots = n" "4 \<le> n" "n \<le> 2 ^ 27"
  shows "Flush (q_slot q_base n (unat cur)) (- of_nat (32 * (n - 3)))
     \<in> set (its_issue 0 base q_base slots cur icid rd b)"
proof -
  have c: "unat cur = n - 1" "unat cur < n" using assms by auto
  have "q_slot q_base n (unat cur + 2) + 32 - q_slot q_base n (unat cur) = - of_nat (32 * (n - 3))"
    using assms(3) by (simp add: q_slot_def c mod_less algebra_simps of_nat_diff mod_if)
  moreover have "0 < (- of_nat (32 * (n - 3)) :: u64)"
  proof -
    have "unat (of_nat (32 * (n - 3)) :: u64) = 32 * (n - 3)"
      by (rule unat_of_nat_small) (use assms(4) in simp)
    then have "(of_nat (32 * (n - 3)) :: u64) \<noteq> 0"
      using assms(3) by (auto simp: unat_eq_0 [symmetric] simp del: unat_eq_0 of_nat_mult)
    then show ?thesis by (metis neg_equal_0_iff_equal word_gt_0)
  qed
  ultimately show ?thesis
    unfolding its_issue_steps [OF c(2) assms(2,4)] by (simp add: out64_def dcache_flush_def)
qed

section \<open>Sizes and register fields of the tables\<close>

lemma unat_table_pages:
  assumes "unat ids * unat sz < 2 ^ 32"
  shows "unat (table_pages ids sz pg) = max 1 (unat ids * unat sz div unat pg)"
proof -
  have "unat (ids * sz) = unat ids * unat sz"
    using assms by (subst unat_mult_lem [THEN iffD1]) auto
  then show ?thesis
    by (simp add: table_pages_def unat_div max_def word_le_nat_alt)
qed



text \<open>With 2 to the 29 device identifiers of 8 bytes the product wraps to 0 and one page is
  allocated; with 512 of 12 bytes a page is missing.\<close>
lemma table_pages_too_small: "table_pages (push_bit 29 1) 8 4096 = 1" "table_pages 512 12 4096 = 1"
  by (simp_all add: table_pages_def)

text \<open>Bits lo to lo + n - 1 of a register.\<close>
definition field :: "nat \<Rightarrow> nat \<Rightarrow> u64 \<Rightarrow> u64" where
  "field lo n v = take_bit n (drop_bit lo v)"

lemma bit_small:
  assumes "unat (x :: 'a :: len word) < 2 ^ n" "bit x i"
  shows "i < n"
proof -
  have "bit (unat x) i" using assms(2) by (simp add: bit_unsigned_iff)
  then have "bit (take_bit n (unat x)) i" using assms(1) by (simp add: take_bit_nat_eq_self)
  then show ?thesis by (simp add: bit_take_bit_iff)
qed

lemma unat_ucast_up: "unat (ucast (x :: u32) :: u64) = unat x"
  unfolding unsigned_ucast_eq
  by (rule take_bit_nat_eq_self) (rule order_less_le_trans [OF unsigned_less], simp)

lemma bit_single: "bit (push_bit k (1 :: u64)) i \<longleftrightarrow> i = k \<and> k < 64"
  by (auto simp: bit_simps)

lemma bit_addr_mask: "bit (0xFFFFFFFFF000 :: u64) i \<longleftrightarrow> 12 \<le> i \<and> i < 48"
proof -
  have "(0xFFFFFFFFF000 :: u64) = push_bit 12 (mask 36)"
    by (simp add: mask_eq_exp_minus_1)
  then show ?thesis
    by (simp only: bit_push_bit_iff bit_mask_iff) auto
qed

lemma bit_addr_field:
  assumes "t AND 0xFFFFFFFFF000 = (t :: u64)" "bit t i"
  shows "12 \<le> i \<and> i < 48"
  using assms by (metis bit_and_iff bit_addr_mask)

lemma bit_table_baser:
  assumes "i < 64"
  shows "bit (table_baser q t) i \<longleftrightarrow> i = 63 \<or> i \<noteq> 62 \<and>
     (bit t i \<or> (10 \<le> i \<and> bit (shareability q) (i - 10)) \<or> (59 \<le> i \<and> bit (cache_inner q) (i - 59)) \<or>
      (53 \<le> i \<and> bit (cache_outer q) (i - 53)))"
  using assms unfolding table_baser_def bit_or_iff bit_and_iff bit_not_iff bit_single
  by (auto simp: bit_push_bit_iff bit_ucast_iff)

lemma field_eqI:
  assumes "n \<le> 64 - lo" "lo < 64" "unat x < 2 ^ n" "\<And>i. i < n \<Longrightarrow> bit v (lo + i) = bit x i"
  shows "field lo n v = x"
proof (rule bit_word_eqI)
  fix i assume "i < LENGTH(64)"
  show "bit (field lo n v) i = bit x i"
    using assms(3,4) bit_small [of x n i] by (auto simp: field_def bit_simps)
qed

text \<open>The value written to GITS\_BASER holds what was chosen, each in its own field: the table's
  address, the number of pages less one, the page size, the shareability and the two
  cacheabilities; the table is valid and flat.\<close>
lemma table_baser_fields:
  assumes addr: "t AND 0xFFFFFFFFF000 = t" and sz: "sz < 4" and n: "n < 0x100"
    and prm: "tbl_params_valid q"
  shows "let v = table_baser q (t OR push_bit 8 sz OR n) in
     v AND 0xFFFFFFFFF000 = t \<and> field 0 8 v = n \<and> field 8 2 v = sz \<and>
     field 10 2 v = ucast (shareability q) \<and> field 59 3 v = ucast (cache_inner q) \<and>
     field 53 3 v = ucast (cache_outer q) \<and> bit v 63 \<and> \<not> bit v 62"
proof -
  define v where "v = table_baser q (t OR push_bit 8 sz OR n)"
  have small: "unat (shareability q) < 2 ^ 2" "unat (cache_inner q) < 2 ^ 3"
      "unat (cache_outer q) < 2 ^ 3" "unat sz < 2 ^ 2" "unat n < 2 ^ 8"
    using prm sz n by (auto simp: tbl_params_valid_def tbl_shareability_last_def tbl_cacheability_last_def
        word_less_nat_alt word_le_nat_alt)
  note out = bit_small [OF small(1)] bit_small [OF small(2)] bit_small [OF small(3)]
    bit_small [OF small(4)] bit_small [OF small(5)] bit_addr_field [OF addr]
  have b: "bit v i \<longleftrightarrow> i = 63 \<or> i \<noteq> 62 \<and> (bit t i \<or> (8 \<le> i \<and> bit sz (i - 8)) \<or> bit n i \<or>
      (10 \<le> i \<and> bit (shareability q) (i - 10)) \<or> (59 \<le> i \<and> bit (cache_inner q) (i - 59)) \<or>
      (53 \<le> i \<and> bit (cache_outer q) (i - 53)))" if "i < 64" for i
    using that unfolding v_def bit_table_baser [OF that] bit_or_iff bit_push_bit_iff by auto
  have len64: "LENGTH(64) = 64" by simp
  have "v AND 0xFFFFFFFFF000 = t"
    by (rule bit_word_eqI) (auto simp only: bit_and_iff bit_addr_mask b len64 dest: out)
  moreover have "field 0 8 v = n"
    by (rule field_eqI) (use small in \<open>auto simp: b dest: out\<close>)
  moreover have "field 8 2 v = sz"
    by (rule field_eqI) (use small in \<open>auto simp: b dest: out\<close>)
  moreover have "field 10 2 v = ucast (shareability q)"
    by (rule field_eqI) (use small in \<open>auto simp: b bit_ucast_iff unat_ucast_up dest: out\<close>)
  moreover have "field 59 3 v = ucast (cache_inner q)"
    by (rule field_eqI) (use small in \<open>auto simp: b bit_ucast_iff unat_ucast_up dest: out\<close>)
  moreover have "field 53 3 v = ucast (cache_outer q)"
    by (rule field_eqI) (use small in \<open>auto simp: b bit_ucast_iff unat_ucast_up dest: out\<close>)
  moreover have "bit v 63 \<and> \<not> bit v 62"
    by (simp add: b)
  ultimately show ?thesis unfolding v_def [symmetric] Let_def by blast
qed

lemma table_baser_fields_witness:
  "field 0 8 (table_baser tbl_params_dflt (0x90000000 OR push_bit 8 2 OR 7)) = 7 \<and>
   field 53 3 (table_baser tbl_params_dflt (0x90000000 OR push_bit 8 2 OR 7)) = 1"
  using table_baser_fields [of "0x90000000" 2 7 tbl_params_dflt]
  by (simp add: tbl_params_valid_def tbl_params_dflt_def tbl_shareability_last_def
      tbl_cacheability_last_def tbl_shareability_NONE_def tbl_cacheability_NONE_def Let_def)

text \<open>The address given to the cache flush is the register value, which has bit 63 set: it is not the
  table's.\<close>
lemma baser_not_address: "t AND 0xFFFFFFFFF000 = t \<Longrightarrow> table_baser q x \<noteq> t"
  using bit_table_baser [of 63 q x] bit_addr_field [of t 63] by auto

section \<open>The parameters stay valid\<close>

definition its_valid :: "its_params \<Rightarrow> bool" where
  "its_valid p \<longleftrightarrow> page_size_ok (dt_page_size p) \<and> page_size_ok (ct_page_size p) \<and>
     tbl_params_valid (dt_params p) \<and> tbl_params_valid (ct_params p) \<and> tbl_params_valid (cq_params p)"

definition its_ok :: "its_state \<Rightarrow> bool" where
  "its_ok s \<longleftrightarrow> length (its_tab s) = 1 \<and> (\<forall>p \<in> set (its_tab s). its_valid p)"

text \<open>One call of the interface.\<close>
inductive its_call :: "its_env \<Rightarrow> its_state \<Rightarrow> its_state \<Rightarrow> bool" for e :: its_env where
  set_paddr: "gic_v3_its_set_paddr n a s = ok s' \<Longrightarrow> its_call e s s'"
| set_dt_params: "gic_v3_its_set_dt_params n q s = ok s' \<Longrightarrow> its_call e s s'"
| set_ct_params: "gic_v3_its_set_ct_params n q s = ok s' \<Longrightarrow> its_call e s s'"
| set_cmd_q_params: "gic_v3_its_set_cmd_q_params n q fl s = ok s' \<Longrightarrow> its_call e s s'"
| set_dt_page_size: "gic_v3_its_set_dt_page_size n sz s = ok s' \<Longrightarrow> its_call e s s'"
| set_ct_page_size: "gic_v3_its_set_ct_page_size n sz s = ok s' \<Longrightarrow> its_call e s s'"
| set_ct_num_ids: "gic_v3_its_set_ct_num_ids n num s = ok s' \<Longrightarrow> its_call e s s'"
| set_cmd_q_num_pages: "gic_v3_its_set_cmd_q_num_pages n num s = ok s' \<Longrightarrow> its_call e s s'"
| last_slot: "gic_v3_its_cmd_q_last_slot_offset e n s = ok (v, s') \<Longrightarrow> its_call e s s'"
| initialize: "gic_v3_its_initialize e n s = ok s' \<Longrightarrow> its_call e s s'"
| mapc: "gic_v3_its_mapc e n cpu gicr s = ok s' \<Longrightarrow> its_call e s s'"

inductive its_reachable :: "its_env \<Rightarrow> its_state \<Rightarrow> bool" for e :: its_env where
  start: "its_reachable e (its_state_init f v)"
| step: "its_reachable e s \<Longrightarrow> its_call e s s' \<Longrightarrow> its_reachable e s'"

lemma with_its_ok:
  assumes "with_its n f s = ok s'" "its_ok s"
    and "\<And>p q. f p = ok q \<Longrightarrow> its_valid p \<Longrightarrow> its_valid q"
  shows "its_ok s'"
proof -
  obtain q where n: "n < length (its_tab s)" and q: "f (its_tab s ! n) = ok q"
    and s': "s' = s\<lparr>its_tab := (its_tab s)[n := q]\<rparr>"
    using assms(1) by (auto simp: with_its_def res_simps)
  have "its_valid q" using assms(2) n by (intro assms(3) [OF q]) (auto simp: its_ok_def)
  then show ?thesis
    using assms(2) set_update_subset_insert [of "its_tab s" n q] by (auto simp: its_ok_def s')
qed

lemma its_ok_cong: "its_ok s \<Longrightarrow> its_tab s' = its_tab s \<Longrightarrow> its_ok s'"
  by (simp add: its_ok_def)

lemma its_ok_update:
  "its_ok s \<Longrightarrow> its_valid q \<Longrightarrow> its_tab s' = (its_tab s)[n := q] \<Longrightarrow> its_ok s'"
  using set_update_subset_insert [of "its_tab s" n q] by (auto simp: its_ok_def)

lemma its_ok_upd: "its_ok s \<Longrightarrow> its_valid q \<Longrightarrow> its_ok (x\<lparr>its_tab := (its_tab s)[n := q]\<rparr>)"
  using its_ok_update [of s q _ n] by simp

lemma its_ok_nth: "its_ok s \<Longrightarrow> n < length (its_tab s) \<Longrightarrow> its_valid (its_tab s ! n)"
  by (simp add: its_ok_def)

lemma uncached_valid: "tbl_params_valid tbl_params_uncached"
  by (simp add: tbl_params_valid_def tbl_params_uncached_def tbl_shareability_NONE_def
      tbl_cacheability_NONE_def tbl_OUTER_IS_NORMAL_INNER_def tbl_shareability_last_def
      tbl_cacheability_last_def)

lemma setup_table_keeps:
  "setup_table e a pages pg q s = ok (q', s') \<Longrightarrow>
     its_tab s' = its_tab s \<and> (tbl_params_valid q \<longrightarrow> tbl_params_valid q')"
  using uncached_valid by (auto simp: setup_table_def res_simps Let_def split_def split: if_splits)

lemma device_table_ok:
  assumes "its_device_table e n ids c s = ok s'" "its_ok s" "n < length (its_tab s)"
  shows "its_ok s' \<and> length (its_tab s') = length (its_tab s)"
  using assms(1) its_ok_nth [OF assms(2,3)]
  by (auto simp: its_device_table_def Let_def res_simps its_valid_def dest!: setup_table_keeps
      intro!: its_ok_upd [OF assms(2)])

lemma collection_table_ok:
  assumes "its_collection_table e n typer c s = ok s'" "its_ok s" "n < length (its_tab s)"
  shows "its_ok s' \<and> length (its_tab s') = length (its_tab s)"
  using assms(1) its_ok_nth [OF assms(2,3)]
  by (auto simp: its_collection_table_def Let_def res_simps its_valid_def dest!: setup_table_keeps
      intro!: its_ok_upd [OF assms(2)] split: if_splits)

lemma lock_page_ok:
  assumes "its_lock_page e n q qsize extra s = ok s'" "its_ok s" "n < length (its_tab s)"
  shows "its_ok s' \<and> length (its_tab s') = length (its_tab s)"
proof -
  have "\<exists>lv. its_tab s' = (its_tab s)[n := (its_tab s ! n)\<lparr>cq_lock_vaddr := lv\<rparr>]"
    using assms(1) by (auto simp: its_lock_page_def Let_def res_simps split: if_splits)
  then obtain lv where s': "its_tab s' = (its_tab s)[n := (its_tab s ! n)\<lparr>cq_lock_vaddr := lv\<rparr>]"
    by blast
  have "its_valid ((its_tab s ! n)\<lparr>cq_lock_vaddr := lv\<rparr>)"
    using its_ok_nth [OF assms(2,3)] by (simp add: its_valid_def)
  then show ?thesis
    using its_ok_update [OF assms(2) _ s'] s' by simp
qed

lemma cmd_queue_ok:
  assumes "its_cmd_queue e n s = ok s'" "its_ok s" "n < length (its_tab s)"
  shows "its_ok s'"
proof -
  let ?s = "\<lambda>va v. s\<lparr>its_vm := v, its_tab := (its_tab s)[n := (its_tab s ! n)\<lparr>cq_vaddr := va\<rparr>]\<rparr>"
  obtain va v q qsize extra s1 sh where
    l: "its_lock_page e n q qsize extra (?s va v) = Inr s1"
    and s': "its_tab s' = (its_tab s1)[n := (its_tab s1 ! n)\<lparr>cq_params :=
        if sh then cq_params (its_tab s1 ! n) else tbl_params_uncached\<rparr>]"
    using assms(1) by (auto simp: its_cmd_queue_def Let_def split_def elim!: and_then_okE)
  have "its_valid ((its_tab s ! n)\<lparr>cq_vaddr := va\<rparr>)"
    using its_ok_nth [OF assms(2,3)] by (simp add: its_valid_def)
  then have "its_ok (?s va v)"
    using its_ok_update [OF assms(2)] by simp
  then have 1: "its_ok s1" "n < length (its_tab s1)"
    using lock_page_ok [OF l] assms(3) by auto
  have "its_valid ((its_tab s1 ! n)\<lparr>cq_params :=
      if sh then cq_params (its_tab s1 ! n) else tbl_params_uncached\<rparr>)"
    using its_ok_nth [OF 1] uncached_valid by (auto simp: its_valid_def)
  then show ?thesis
    by (rule its_ok_update [OF 1(1) _ s'])
qed

lemma initialize_ok:
  assumes "gic_v3_its_initialize e n s = ok s'" "its_ok s"
  shows "its_ok s'"
proof -
  obtain ids c b v va typer s1 s2 where n: "n < length (its_tab s)"
    and d: "its_device_table e n ids c
        (s\<lparr>its_tab := (its_tab s)[n := (its_tab s ! n)\<lparr>gits_vaddr_base := va\<rparr>], its_vm := v, its_bus := b\<rparr>) = ok s1"
    and ct: "its_collection_table e n typer c s1 = ok s2"
    and q: "\<exists>s3. its_cmd_queue e n s2 = ok s3 \<and> s' = its_hwinfo e n s3"
    using assms(1) by (fastforce simp: gic_v3_its_initialize_def get_its_def Let_def res_simps split_def)
  have "its_valid ((its_tab s ! n)\<lparr>gits_vaddr_base := va\<rparr>)"
    using its_ok_nth [OF assms(2) n] by (simp add: its_valid_def)
  from its_ok_update [OF assms(2) this] have
    "its_ok (s\<lparr>its_tab := (its_tab s)[n := (its_tab s ! n)\<lparr>gits_vaddr_base := va\<rparr>], its_vm := v, its_bus := b\<rparr>)"
    by simp
  from device_table_ok [OF d this] n have 1: "its_ok s1" "n < length (its_tab s1)" by auto
  from collection_table_ok [OF ct 1] 1 have 2: "its_ok s2" "n < length (its_tab s2)" by auto
  from q obtain s3 where "its_cmd_queue e n s2 = ok s3" "s' = its_hwinfo e n s3" by blast
  with cmd_queue_ok [OF _ 2] show ?thesis by (simp add: its_ok_def its_hwinfo_def)
qed

lemmas its_setters = gic_v3_its_set_paddr_def gic_v3_its_set_dt_params_def gic_v3_its_set_ct_params_def
  gic_v3_its_set_cmd_q_params_def gic_v3_its_set_dt_page_size_def gic_v3_its_set_ct_page_size_def
  gic_v3_its_set_ct_num_ids_def gic_v3_its_set_cmd_q_num_pages_def

lemma checked_params_valid: "checked_params q = ok x \<Longrightarrow> tbl_params_valid x"
  by (auto simp: checked_params_def res_simps split: option.splits)

lemma its_call_ok: "its_call e s s' \<Longrightarrow> its_ok s \<Longrightarrow> its_ok s'"
proof (induction rule: its_call.induct)
  case (last_slot n s v s')
  then show ?case
    by (auto simp: gic_v3_its_cmd_q_last_slot_offset_def res_simps Let_def split_def its_ok_def)
next
  case (initialize n s s')
  then show ?case by (rule initialize_ok)
next
  case (mapc n cpu gicr s s')
  then show ?case
    by (auto simp: gic_v3_its_mapc_def res_simps Let_def split_def its_ok_def)
next
  case (set_dt_params n q s s')
  then show ?case
    unfolding gic_v3_its_set_dt_params_def
    by (elim with_its_ok) (auto simp: its_valid_def res_simps dest: checked_params_valid)
next
  case (set_ct_params n q s s')
  then show ?case
    unfolding gic_v3_its_set_ct_params_def
    by (elim with_its_ok) (auto simp: its_valid_def res_simps dest: checked_params_valid)
next
  case (set_cmd_q_params n q fl s s')
  then show ?case
    unfolding gic_v3_its_set_cmd_q_params_def Let_def
    by (elim with_its_ok) (auto simp: its_valid_def res_simps dest: checked_params_valid split: if_splits)
qed (auto simp: its_setters its_valid_def res_simps elim!: with_its_ok)

text \<open>C14: whatever calls are made and in whatever order, every ITS instance keeps a page size of
  4, 16 or 64 KB for its tables and attributes inside their enumerations; an initialisation that
  falls back to uncached tables keeps them too.\<close>
theorem its_reachable_valid:
  assumes "its_reachable e s"
  shows "length (its_tab s) = 1 \<and> its_valid (its_tab s ! 0)"
proof -
  have "its_ok s"
    using assms
  proof (induction rule: its_reachable.induct)
    case (start f v)
    then show ?case
      by (simp add: its_ok_def its_state_init_def its_params_dflt_def its_valid_def page_size_ok_def
          tbl_params_dflt_def tbl_params_valid_def tbl_shareability_NONE_def tbl_cacheability_NONE_def
          tbl_shareability_last_def tbl_cacheability_last_def)
  next
    case (step s s')
    then show ?case using its_call_ok by blast
  qed
  then show ?thesis using its_ok_nth [of s 0] by (simp add: its_ok_def)
qed

definition its_hw_ex :: hw where
  "its_hw_ex = \<lparr>rd32 = (\<lambda>b a. 0), rd64 = (\<lambda>b a. 0), rdsys = (\<lambda>b r. 0), spins = 1\<rparr>"

definition its_env_ex :: its_env where
  "its_env_ex = \<lparr>ie_hw = its_hw_ex, ie_mmu = mmu_ex, ie_bias = 0, ie_num_cpu = 4, ie_hwidev = True,
     ie_lock_version = 4\<rparr>"

lemma its_reachable_valid_witness:
  "\<exists>s. gic_v3_its_set_dt_page_size 0 65536 (its_state_init prot_ex vm_ex) = ok s \<and>
     dt_page_size (its_tab s ! 0) = 65536 \<and> its_valid (its_tab s ! 0)"
proof -
  obtain s where s: "gic_v3_its_set_dt_page_size 0 65536 (its_state_init prot_ex vm_ex) = ok s"
    "dt_page_size (its_tab s ! 0) = 65536"
    by (simp add: gic_v3_its_set_dt_page_size_def with_its_def its_state_init_def page_size_ok_def)
  have "its_reachable its_env_ex s"
    by (rule its_reachable.step [OF its_reachable.start its_call.set_dt_page_size [OF s(1)]])
  from its_reachable_valid [OF this] s show ?thesis by blast
qed

end
