(* ===== verification/Gic_V3.thy ===== *)
theory Gic_V3
  imports Gic_Its Callouts
begin

text \<open>
  The interface of startup/lib/aarch64/gic\_v3.c before the controller is initialised: base
  addresses, counts of interrupts, trigger modes, and the tables of interrupt entries that boards
  add for SPIs, ESPIs and LPIs.  A table holds at most 16 entries with their patch data, in the
  order they were added.  Constants of system headers are the fields of gic\_abi.
\<close>

section \<open>Entries and state\<close>

record lpi_tbl_params =
  lt_paddr :: paddr
  lt_vaddr :: u64
  lt_propbaser :: u64
  lt_mmap_flags :: u32
  lt_mem :: gic_tbl_params

record lpi_params =
  num_lpis :: u32
  lpi_cfg :: "lpi_tbl_params list"
  lpi_pending :: "lpi_tbl_params list"

record gic_abi =
  INTR_CLASS_EXTERNAL :: u32
  INTR_SPARE :: u32
  INTR_FLAG_MSI :: u16
  AS_ATTR_DEV :: u32

record gic_env =
  ge_its :: its_env
  ge_abi :: gic_abi
  ge_co :: co_env
  ge_max_cpu :: u32
  ge_debug :: nat

record gic_state =
  gicd :: paddr
  gicr :: paddr
  gicc :: paddr
  gicr_offset_shift_val :: nat
  gicr_index_limit :: u32
  arm_gic :: arm_gic_id
  use_mm_callouts :: bool
  base_initialized :: bool
  spi_co :: "(intrinfo \<times> spi_patch) list"
  espi_co :: "(intrinfo \<times> spi_patch) list"
  lpi_co :: "(intrinfo \<times> lpi_patch) list"
  g_lpi :: lpi_params
  g_its :: its_state
  g_co :: co_state
  gic_sendipi :: "callout option"
  gic_gicr_vaddr :: u64
  gic_map :: "u64 list"
  gicr_map :: "u32 list"

definition NUM_CO :: nat where "NUM_CO = 16"

definition spi_patch0 :: spi_patch where
  "spi_patch0 = \<lparr>sp_gicc_base_vaddr = 0, sp_gicd_base_vaddr = 0, sp_vec_off = 0\<rparr>"

definition lpi_patch0 :: lpi_patch where
  "lpi_patch0 = \<lparr>lp_gicc_base_vaddr = 0, lp_its = \<lparr>li_gits_base_vaddr = 0, li_lpi_cfgtbl_vaddr = 0,
     li_cmd_q_vaddr = 0, li_cmd_q_lock_vaddr = 0, li_RDbase = 0, li_RDbase_offset = 0,
     li_cmd_q_last_offset = 0, li_num_collections = 0, li_vec_off = 0\<rparr>\<rparr>"

definition lpi_tbl_dflt :: "prot_abi \<Rightarrow> lpi_tbl_params" where
  "lpi_tbl_dflt f = \<lparr>lt_paddr = NULL_PADDR, lt_vaddr = 0, lt_propbaser = 0,
     lt_mmap_flags = PROT_READ f OR PROT_WRITE f OR PROT_NOCACHE f, lt_mem = tbl_params_dflt\<rparr>"

definition lpi_params_dflt :: "prot_abi \<Rightarrow> lpi_params" where
  "lpi_params_dflt f = \<lparr>num_lpis = 0, lpi_cfg = [lpi_tbl_dflt f], lpi_pending = [lpi_tbl_dflt f]\<rparr>"

definition intr_gen :: "callout \<Rightarrow> intrgen" where
  "intr_gen c = \<lparr>ig_genflags = 0, ig_size = 0, ig_rtn = Some c\<rparr>"

definition gic_v3_intr_ppi :: "gic_abi \<Rightarrow> intrinfo" where
  "gic_v3_intr_ppi a = \<lparr>vector_base = INTR_CLASS_EXTERNAL a, num_vectors = 32, cascade_vector = INTR_SPARE a,
     cpu_intr_base = 0, cpu_intr_stride = 0, in_flags = 0, in_id = intr_gen Interrupt_id_ppi_sr,
     in_eoi = intr_gen Interrupt_eoi_ppi_sr, in_mask = Some Interrupt_mask_ppi,
     in_unmask = Some Interrupt_unmask_ppi, in_config = Some Interrupt_config_ppi, in_patch = None,
     local_stride = 0x8000\<rparr>"

definition ARM_GIC_SPI_MIN_IRQ :: u32 where "ARM_GIC_SPI_MIN_IRQ = 32"
definition ARM_GIC_SPI_MAX_IRQ :: u32 where "ARM_GIC_SPI_MAX_IRQ = 1019"
definition ARM_GIC_ESPI_MIN_IRQ :: u32 where "ARM_GIC_ESPI_MIN_IRQ = 4096"
definition ARM_GIC_ESPI_MAX_IRQ :: u32 where "ARM_GIC_ESPI_MAX_IRQ = 5119"
definition ARM_GIC_LPI_MIN_IRQ :: u32 where "ARM_GIC_LPI_MIN_IRQ = 8192"

definition gic_v3_intr_spi :: "gic_abi \<Rightarrow> intrinfo" where
  "gic_v3_intr_spi a = \<lparr>vector_base = INTR_CLASS_EXTERNAL a + ARM_GIC_SPI_MIN_IRQ, num_vectors = 0,
     cascade_vector = INTR_SPARE a, cpu_intr_base = 0, cpu_intr_stride = 0, in_flags = 0,
     in_id = intr_gen Interrupt_id_spi, in_eoi = intr_gen Interrupt_eoi_spi_sr,
     in_mask = Some Interrupt_mask_spi, in_unmask = Some Interrupt_unmask_spi, in_config = None,
     in_patch = None, local_stride = 0\<rparr>"

definition gic_v3_intr_espi :: "gic_abi \<Rightarrow> intrinfo" where
  "gic_v3_intr_espi a = \<lparr>vector_base = INTR_CLASS_EXTERNAL a + ARM_GIC_ESPI_MIN_IRQ, num_vectors = 0,
     cascade_vector = INTR_SPARE a, cpu_intr_base = 0, cpu_intr_stride = 0, in_flags = 0,
     in_id = intr_gen Interrupt_id_espi, in_eoi = intr_gen Interrupt_eoi_spi_sr,
     in_mask = Some Interrupt_mask_espi, in_unmask = Some Interrupt_unmask_espi, in_config = None,
     in_patch = None, local_stride = 0\<rparr>"

definition gic_init :: "prot_abi \<Rightarrow> vm \<Rightarrow> gic_state" where
  "gic_init f v = \<lparr>gicd = NULL_PADDR, gicr = NULL_PADDR, gicc = NULL_PADDR, gicr_offset_shift_val = 0,
     gicr_index_limit = 0, arm_gic = arm_gic_id_init, use_mm_callouts = False, base_initialized = False,
     spi_co = [], espi_co = [], lpi_co = [], g_lpi = lpi_params_dflt f, g_its = its_state_init f v,
     g_co = co_init, gic_sendipi = None, gic_gicr_vaddr = 0, gic_map = replicate 64 0, gicr_map = []\<rparr>"

abbreviation g_bus :: "gic_state \<Rightarrow> bus" where
  "g_bus g \<equiv> its_bus (g_its g)"

definition set_bus :: "bus \<Rightarrow> gic_state \<Rightarrow> gic_state" where
  "set_bus b g = g\<lparr>g_its := (g_its g)\<lparr>its_bus := b\<rparr>\<rparr>"

text \<open>The system page part of the state, as the address-space functions change it.\<close>
definition g_lsp :: "gic_state \<Rightarrow> lsp" where
  "g_lsp g = rs_lsp (vm_ram (its_vm (g_its g)))"

definition set_lsp :: "lsp \<Rightarrow> gic_state \<Rightarrow> gic_state" where
  "set_lsp l g = g\<lparr>g_its := (g_its g)\<lparr>its_vm := (its_vm (g_its g))\<lparr>vm_ram :=
     (vm_ram (its_vm (g_its g)))\<lparr>rs_lsp := l\<rparr>\<rparr>\<rparr>\<rparr>"

abbreviation ge_hw :: "gic_env \<Rightarrow> hw" where
  "ge_hw e \<equiv> ie_hw (ge_its e)"

abbreviation ge_as :: "gic_env \<Rightarrow> as_abi" where
  "ge_as e \<equiv> env_abi (me_ram (ie_mmu (ge_its e)))"

definition addressed :: "gic_state \<Rightarrow> unit res" where
  "addressed g = assert_that (base_initialized g)"

section \<open>Base addresses\<close>

definition add_as :: "gic_env \<Rightarrow> paddr \<Rightarrow> paddr \<Rightarrow> string \<Rightarrow> nat option \<Rightarrow> gic_state \<Rightarrow> gic_state res" where
  "add_as e start end name owner g =
    and_then (as_add64 (ge_as e) start end (AS_ATTR_DEV (ge_abi e)) name owner (g_lsp g))
      (\<lambda>(_, l). ok (set_lsp l g))"

text \<open>The stride of the redistributors: 2 to the power 17, and 18 from version 4.0 on.\<close>
definition gicr_shift :: "arm_gic_version \<Rightarrow> nat" where
  "gicr_shift v = (if ARM_GIC_ARCH_VERSION_4_0 \<le> arm_gic_version_is v then 18 else 17)"

definition gic_get_arch_version :: "gic_state \<Rightarrow> arm_gic_version res" where
  "gic_get_arch_version g = and_then (addressed g) (\<lambda>_. ok (arch_version (arm_gic g)))"

definition gic_get_impl_version :: "gic_state \<Rightarrow> arm_gic_version res" where
  "gic_get_impl_version g = and_then (addressed g) (\<lambda>_. ok (impl_version (arm_gic g)))"

definition gic_get_impl_productid :: "gic_state \<Rightarrow> u8 res" where
  "gic_get_impl_productid g = and_then (addressed g) (\<lambda>_. ok (impl_product (arm_gic g)))"

text \<open>The size of the redistributor range, and the limit of the redistributor index: from the
  number of processors when the size is 0, otherwise from the size.\<close>
definition gicr_range :: "nat \<Rightarrow> u32 \<Rightarrow> u64 \<Rightarrow> u64 \<times> u32" where
  "gicr_range shift max_cpu gicr_size =
    (if gicr_size = 0 then (ucast (push_bit shift 1 * max_cpu :: u32), max_cpu)
     else (gicr_size, ucast (drop_bit shift gicr_size)))"

definition gic_v3_set_paddr_range ::
  "gic_env \<Rightarrow> paddr \<Rightarrow> paddr \<Rightarrow> u64 \<Rightarrow> paddr \<Rightarrow> gic_state \<Rightarrow> gic_state res" where
  "gic_v3_set_paddr_range e d r gicr_size gits g =
    and_then (assert_that (\<not> base_initialized g)) (\<lambda>_.
    let g = g\<lparr>gicd := d, gicr := r\<rparr> in
    and_then (if gits \<noteq> NULL_PADDR then gic_v3_its_set_paddr 0 gits (g_its g) else ok (g_its g)) (\<lambda>its.
    let g = g\<lparr>g_its := its, base_initialized := True\<rparr> in
    and_then (gic_init_version_info (ge_hw e) (ge_debug e) d r (arm_gic g) (g_bus g)) (\<lambda>(i, b).
    let g = set_bus b (g\<lparr>arm_gic := i\<rparr>) in
    and_then (as_find (g_lsp g) None [''memory'']) (\<lambda>off.
    and_then (add_as e d (d + 0xFFFF) ''gicd'' off g) (\<lambda>g.
    let shift = gicr_shift (arch_version i);
        (sz, limit) = gicr_range shift (ge_max_cpu e) gicr_size;
        g = g\<lparr>gicr_offset_shift_val := shift, gicr_index_limit := limit\<rparr> in
    add_as e r (r + sz - 1) ''gicr'' off g)))))"

definition gic_v3_set_paddr :: "gic_env \<Rightarrow> paddr \<Rightarrow> paddr \<Rightarrow> paddr \<Rightarrow> gic_state \<Rightarrow> gic_state res" where
  "gic_v3_set_paddr e d r gits g = gic_v3_set_paddr_range e d r 0 gits g"

definition gic_v3_use_mm_reg_callouts :: "gic_env \<Rightarrow> paddr \<Rightarrow> u32 \<Rightarrow> gic_state \<Rightarrow> gic_state res" where
  "gic_v3_use_mm_reg_callouts e c use g =
    and_then
      (if c \<noteq> NULL_PADDR then
         (let g = g\<lparr>gicc := c\<rparr> in
          and_then (as_find (g_lsp g) None [''memory'']) (\<lambda>off. add_as e c (c + 0x1fff) ''gicc'' off g))
       else ok g)
      (\<lambda>g. ok (g\<lparr>use_mm_callouts := (use \<noteq> 0)\<rparr>))"

section \<open>Counts of interrupts\<close>

definition ARM_GICD_CTLR :: paddr where "ARM_GICD_CTLR = 0"
definition ARM_GICD_TYPER :: paddr where "ARM_GICD_TYPER = 4"

text \<open>The fields of GICD\_TYPER.\<close>
definition typer_ITLN :: "u32 \<Rightarrow> u32" where "typer_ITLN t = t AND 0x1F"
definition typer_ESPI :: "u32 \<Rightarrow> bool" where "typer_ESPI t \<longleftrightarrow> bit t 8"
definition typer_SecurityExtn :: "u32 \<Rightarrow> bool" where "typer_SecurityExtn t \<longleftrightarrow> bit t 10"
definition typer_MBIS :: "u32 \<Rightarrow> bool" where "typer_MBIS t \<longleftrightarrow> bit t 16"
definition typer_LPIS :: "u32 \<Rightarrow> bool" where "typer_LPIS t \<longleftrightarrow> bit t 17"
definition typer_ESPI_RANGE :: "u32 \<Rightarrow> u32" where
  "typer_ESPI_RANGE t = drop_bit 27 (t AND push_bit 27 0x1F)"

definition spis_of :: "u32 \<Rightarrow> u32" where
  "spis_of typer =
    (if ARM_GIC_SPI_MAX_IRQ + 1 < (typer_ITLN typer + 1) * 32 then ARM_GIC_SPI_MAX_IRQ + 1 - 32
     else typer_ITLN typer * 32)"

definition espis_of :: "u32 \<Rightarrow> u32" where
  "espis_of typer = (if typer_ESPI typer then 32 * (typer_ESPI_RANGE typer + 1) else 0)"

definition lpis_of :: "u32 \<Rightarrow> u32" where
  "lpis_of typer =
    (let nlpi = drop_bit 11 typer AND 0x1F in
     if \<not> typer_LPIS typer then 0
     else if nlpi = 0 then push_bit (unat (drop_bit 19 typer AND 0x1F) + 1) 1 - ARM_GIC_LPI_MIN_IRQ
     else push_bit (unat nlpi + 1) 1)"

text \<open>The shift of a 32 bit one by 32 places, which IDbits 31 or num\_LPIs 31 asks for, is undefined in C; the
  definition gives 0.\<close>
definition read_count :: "(u32 \<Rightarrow> u32) \<Rightarrow> gic_env \<Rightarrow> gic_state \<Rightarrow> (u32 \<times> gic_state) res" where
  "read_count f e g =
    and_then (addressed g) (\<lambda>_.
      let (t, b) = in32 (ge_hw e) (gicd g + ARM_GICD_TYPER) (g_bus g) in ok (f t, set_bus b g))"

definition gic_v3_num_spis :: "gic_env \<Rightarrow> gic_state \<Rightarrow> (u32 \<times> gic_state) res" where
  "gic_v3_num_spis = read_count spis_of"

definition gic_v3_num_espis :: "gic_env \<Rightarrow> gic_state \<Rightarrow> (u32 \<times> gic_state) res" where
  "gic_v3_num_espis = read_count espis_of"

definition gic_v3_num_lpis :: "gic_env \<Rightarrow> gic_state \<Rightarrow> (u32 \<times> gic_state) res" where
  "gic_v3_num_lpis = read_count lpis_of"

text \<open>Physical LPIs are supported (bit 0) and not direct (bit 3).\<close>
definition gic_v3_lpi_uses_its :: "gic_env \<Rightarrow> gic_state \<Rightarrow> (bool \<times> gic_state) res" where
  "gic_v3_lpi_uses_its e g =
    and_then (addressed g) (\<lambda>_.
      let (t, b) = in64 (ge_hw e) (gicr g + ARM_GICR_TYPER) (g_bus g)
      in ok (t AND 1 \<noteq> 0 \<and> t AND 8 = 0, set_bus b g))"

section \<open>Trigger modes\<close>

definition ARM_GICD_ICFGRn :: paddr where "ARM_GICD_ICFGRn = 0xC00"
definition ARM_GICD_ICFGRnE :: paddr where "ARM_GICD_ICFGRnE = 0x3000"

text \<open>The upper of the two bits of an interrupt in its register.\<close>
definition icfg_value :: "u32 \<Rightarrow> bool \<Rightarrow> u32 \<Rightarrow> u32" where
  "icfg_value irq edge cur =
    (let m = push_bit (unat (irq mod 16) * 2) 2 in if edge then cur OR m else cur AND NOT m)"

definition write_icfg :: "gic_env \<Rightarrow> paddr \<Rightarrow> u32 \<Rightarrow> bool \<Rightarrow> gic_state \<Rightarrow> gic_state res" where
  "write_icfg e a irq edge g =
    (let (cur, b) = in32 (ge_hw e) a (g_bus g);
         b = out32 a (icfg_value irq edge cur) b in
     and_then (wait_for_rwp (ge_hw e) (gicd g + ARM_GICD_CTLR) 0x80000000 b) (\<lambda>b. ok (set_bus b g)))"

definition is_spi :: "u32 \<Rightarrow> u32 \<Rightarrow> bool" where
  "is_spi irq n \<longleftrightarrow> ARM_GIC_SPI_MIN_IRQ \<le> irq \<and> irq < n + ARM_GIC_SPI_MIN_IRQ"

definition is_espi :: "u32 \<Rightarrow> u32 \<Rightarrow> bool" where
  "is_espi irq n \<longleftrightarrow> ARM_GIC_ESPI_MIN_IRQ \<le> irq \<and> irq < n + ARM_GIC_ESPI_MIN_IRQ"

definition gic_v3_set_intr_trig_mode :: "gic_env \<Rightarrow> u32 \<Rightarrow> u32 \<Rightarrow> gic_state \<Rightarrow> gic_state res" where
  "gic_v3_set_intr_trig_mode e irq edge g =
    and_then (gic_v3_num_spis e g) (\<lambda>(spis, g).
    and_then (gic_v3_num_espis e g) (\<lambda>(espis, g).
    if is_spi irq spis then
      write_icfg e (gicd g + ARM_GICD_ICFGRn + ucast (irq div 16 * 4)) irq (edge \<noteq> 0) g
    else if is_espi irq espis then
      write_icfg e (gicd g + ARM_GICD_ICFGRnE + ucast ((irq - ARM_GIC_ESPI_MIN_IRQ) div 16 * 4)) irq (edge \<noteq> 0) g
    else ok g))"

section \<open>Adding entries\<close>

definition last_vector :: "intrinfo \<Rightarrow> u32" where
  "last_vector i = vector_base i + num_vectors i - 1"

text \<open>The loop over the entries added before: it ends early at the first that overlaps the new
  range at its start or at its end, or that it does not lie above.\<close>
fun entry_conflicts :: "u32 \<Rightarrow> u32 \<Rightarrow> intrinfo list \<Rightarrow> bool" where
  "entry_conflicts new_start new_last [] = False"
| "entry_conflicts new_start new_last (c # cs) =
    (let cur_start = vector_base c; cur_last = last_vector c in
     if cur_start \<le> new_start \<and> new_start \<le> cur_last then True
     else if cur_start \<le> new_last \<and> new_last \<le> cur_last then True
     else if new_start \<le> cur_last then True
     else entry_conflicts new_start new_last cs)"

text \<open>The loop for LPIs: its second test looks at the start of the new range again.\<close>
fun lpi_conflicts :: "u32 \<Rightarrow> u32 \<Rightarrow> intrinfo list \<Rightarrow> bool" where
  "lpi_conflicts new_start new_last [] = False"
| "lpi_conflicts new_start new_last (c # cs) =
    (let cur_start = vector_base c; cur_last = last_vector c in
     if cur_start \<le> new_start \<and> new_start \<le> cur_last then True
     else if cur_start \<le> new_last \<and> new_start \<le> cur_last then True
     else if new_start \<le> cur_last then True
     else lpi_conflicts new_start new_last cs)"

definition own_fields :: "gic_abi \<Rightarrow> callout \<Rightarrow> callout \<Rightarrow> callout \<Rightarrow> callout \<Rightarrow> intrinfo \<Rightarrow> intrinfo" where
  "own_fields a idc eoi msk unmsk i = i\<lparr>cascade_vector := INTR_SPARE a, cpu_intr_base := 0, cpu_intr_stride := 0,
     in_id := intr_gen idc, in_eoi := intr_gen eoi, in_mask := Some msk, in_unmask := Some unmsk\<rparr>"

definition is_msi :: "gic_abi \<Rightarrow> intrinfo \<Rightarrow> bool" where
  "is_msi a i \<longleftrightarrow> in_flags i AND INTR_FLAG_MSI a \<noteq> 0"

text \<open>Message based interrupts must be supported: the result is the code's r, 0 or -1.\<close>
definition msi_check :: "gic_env \<Rightarrow> intrinfo \<Rightarrow> gic_state \<Rightarrow> int \<times> gic_state" where
  "msi_check e i g =
    (if is_msi (ge_abi e) i then
       (let (t, b) = in32 (ge_hw e) (gicd g + ARM_GICD_TYPER) (g_bus g)
        in (if typer_MBIS t then 0 else - 1, set_bus b g))
     else (0, g))"

definition gic_v3_spi_add_entry :: "gic_env \<Rightarrow> intrinfo \<Rightarrow> gic_state \<Rightarrow> (int \<times> gic_state) res" where
  "gic_v3_spi_add_entry e i g =
    and_then (addressed g) (\<lambda>_.
    and_then (assert_that (length (spi_co g) < NUM_CO)) (\<lambda>_.
    and_then (assert_that (ARM_GIC_SPI_MIN_IRQ \<le> vector_base i \<and> vector_base i \<le> ARM_GIC_SPI_MAX_IRQ)) (\<lambda>_.
    and_then (gic_v3_num_spis e g) (\<lambda>(n, g).
    and_then (assert_that (vector_base i + num_vectors i \<le> n + ARM_GIC_SPI_MIN_IRQ)) (\<lambda>_.
    and_then (gic_v3_num_spis e g) (\<lambda>(n, g).
    if n + ARM_GIC_SPI_MIN_IRQ \<le> last_vector i then ok (- 1, g)
    else
      let (r, g) = msi_check e i g in
      if r \<noteq> 0 then ok (r, g)
      else if entry_conflicts (vector_base i) (last_vector i) (map fst (spi_co g)) then ok (- 1, g)
      else
        let i = own_fields (ge_abi e) Interrupt_id_spi Interrupt_eoi_spi_sr Interrupt_mask_spi
              Interrupt_unmask_spi i
        in ok (0, g\<lparr>spi_co := spi_co g @ [(i, spi_patch0)]\<rparr>)))))))"

definition gic_v3_espi_add_entry :: "gic_env \<Rightarrow> intrinfo \<Rightarrow> gic_state \<Rightarrow> (int \<times> gic_state) res" where
  "gic_v3_espi_add_entry e i g =
    and_then (addressed g) (\<lambda>_.
    and_then (assert_that (length (espi_co g) < NUM_CO)) (\<lambda>_.
    and_then (assert_that (ARM_GIC_ESPI_MIN_IRQ \<le> vector_base i \<and> vector_base i \<le> ARM_GIC_ESPI_MAX_IRQ)) (\<lambda>_.
    and_then (gic_v3_num_espis e g) (\<lambda>(n, g).
    and_then (assert_that (vector_base i + num_vectors i \<le> n + ARM_GIC_ESPI_MIN_IRQ)) (\<lambda>_.
    and_then (gic_v3_num_espis e g) (\<lambda>(n, g).
    if n = 0 then ok (- 1, g)
    else and_then (gic_v3_num_espis e g) (\<lambda>(n, g).
      if n + ARM_GIC_ESPI_MIN_IRQ \<le> last_vector i then ok (- 1, g)
      else
        let (r, g) = msi_check e i g in
        if r \<noteq> 0 then ok (r, g)
        else if entry_conflicts (vector_base i) (last_vector i) (map fst (espi_co g)) then ok (- 1, g)
        else
          let i = own_fields (ge_abi e) Interrupt_id_espi Interrupt_eoi_spi_sr Interrupt_mask_espi
                Interrupt_unmask_espi i
          in ok (0, g\<lparr>espi_co := espi_co g @ [(i, spi_patch0)]\<rparr>))))))))"

text \<open>The mask and unmask callouts of an LPI entry depend on whether LPIs go through the ITS.\<close>
definition lpi_fields :: "gic_abi \<Rightarrow> bool \<Rightarrow> intrinfo \<Rightarrow> intrinfo" where
  "lpi_fields a its i =
    (if its
     then own_fields a Interrupt_id_lpi Interrupt_eoi_lpi_sr Interrupt_mask_lpi_its
       Interrupt_unmask_lpi_its i
     else own_fields a Interrupt_id_lpi Interrupt_eoi_lpi_sr Interrupt_mask_lpi_direct
       Interrupt_unmask_lpi_direct i)"

definition gic_v3_lpi_add_entry :: "gic_env \<Rightarrow> intrinfo \<Rightarrow> gic_state \<Rightarrow> (int \<times> gic_state) res" where
  "gic_v3_lpi_add_entry e i g =
    and_then (addressed g) (\<lambda>_.
    and_then (assert_that (length (lpi_co g) < NUM_CO)) (\<lambda>_.
    and_then (assert_that (ARM_GIC_LPI_MIN_IRQ \<le> vector_base i)) (\<lambda>_.
    and_then (gic_v3_num_lpis e g) (\<lambda>(n, g).
    and_then (assert_that (vector_base i + num_vectors i - ARM_GIC_LPI_MIN_IRQ \<le> n)) (\<lambda>_.
    and_then (gic_v3_num_lpis e g) (\<lambda>(n, g).
    if n + ARM_GIC_LPI_MIN_IRQ \<le> last_vector i then ok (- 1, g)
    else if lpi_conflicts (vector_base i) (last_vector i) (map fst (lpi_co g)) then ok (- 1, g)
    else
      and_then (gic_v3_lpi_uses_its e g) (\<lambda>(its, g).
      let g = g\<lparr>lpi_co := lpi_co g @ [(lpi_fields (ge_abi e) its i, lpi_patch0)],
                g_lpi := (g_lpi g)\<lparr>num_lpis := num_lpis (g_lpi g) + num_vectors i\<rparr>\<rparr> in
      and_then (gic_v3_num_lpis e g) (\<lambda>(n, g).
      and_then (assert_that (num_lpis (g_lpi g) \<le> n)) (\<lambda>_. ok (0, g))))))))))"

section \<open>Attributes of the LPI tables\<close>

definition gic_v3_set_lpi_cfgtbl_params :: "gic_tbl_params option \<Rightarrow> u32 \<Rightarrow> gic_state \<Rightarrow> gic_state res" where
  "gic_v3_set_lpi_cfgtbl_params q mmap_flags g =
    and_then (checked_params q) (\<lambda>x.
      ok (g\<lparr>g_lpi := (g_lpi g)\<lparr>lpi_cfg := map (\<lambda>t.
        let t = t\<lparr>lt_mem := x\<rparr> in if mmap_flags \<noteq> 0 then t\<lparr>lt_mmap_flags := mmap_flags\<rparr> else t)
        (lpi_cfg (g_lpi g))\<rparr>\<rparr>))"

definition gic_v3_set_lpi_pendtbl_params :: "gic_tbl_params option \<Rightarrow> gic_state \<Rightarrow> gic_state res" where
  "gic_v3_set_lpi_pendtbl_params q g =
    and_then (checked_params q) (\<lambda>x.
      ok (g\<lparr>g_lpi := (g_lpi g)\<lparr>lpi_pending := map (\<lambda>t. t\<lparr>lt_mem := x\<rparr>) (lpi_pending (g_lpi g))\<rparr>\<rparr>))"

section \<open>Tables of entries stay ordered\<close>

text \<open>What the functions that add entries rely on: a new range without conflict lies above every
  earlier entry, and a range that is not empty conflicts only when it does not.\<close>

locale conflict_test =
  fixes conflicts :: "u32 \<Rightarrow> u32 \<Rightarrow> intrinfo list \<Rightarrow> bool"
  assumes above: "\<not> conflicts new_start new_last cs \<Longrightarrow> c \<in> set cs \<Longrightarrow> last_vector c < new_start"
    and conflict: "conflicts new_start new_last cs \<Longrightarrow> new_start \<le> new_last \<Longrightarrow>
      \<exists>c \<in> set cs. new_start \<le> last_vector c"
begin

lemma accepts_iff:
  "new_start \<le> new_last \<Longrightarrow>
    \<not> conflicts new_start new_last cs \<longleftrightarrow> (\<forall>c \<in> set cs. last_vector c < new_start)"
  using above conflict by (meson leD)

end

interpretation spi: conflict_test entry_conflicts
proof
  fix new_start new_last cs c
  show "\<not> entry_conflicts new_start new_last cs \<Longrightarrow> c \<in> set cs \<Longrightarrow> last_vector c < new_start"
    by (induction cs) (auto simp: Let_def split: if_splits)
  show "entry_conflicts new_start new_last cs \<Longrightarrow> new_start \<le> new_last \<Longrightarrow>
      \<exists>c \<in> set cs. new_start \<le> last_vector c"
    by (induction cs) (auto simp: Let_def split: if_splits)
qed

interpretation lpi: conflict_test lpi_conflicts
proof
  fix new_start new_last cs c
  show "\<not> lpi_conflicts new_start new_last cs \<Longrightarrow> c \<in> set cs \<Longrightarrow> last_vector c < new_start"
    by (induction cs) (auto simp: Let_def split: if_splits)
  show "lpi_conflicts new_start new_last cs \<Longrightarrow> new_start \<le> new_last \<Longrightarrow>
      \<exists>c \<in> set cs. new_start \<le> last_vector c"
    by (induction cs) (auto simp: Let_def split: if_splits)
qed

text \<open>The vectors of an entry, as natural numbers.\<close>
definition first_vec :: "intrinfo \<Rightarrow> nat" where
  "first_vec i = unat (vector_base i)"

definition end_vec :: "intrinfo \<Rightarrow> nat" where
  "end_vec i = unat (vector_base i) + unat (num_vectors i)"

definition table_ok :: "nat \<Rightarrow> nat \<Rightarrow> intrinfo list \<Rightarrow> bool" where
  "table_ok lo hi es \<longleftrightarrow> 0 < lo \<and> (\<forall>i \<in> set es. lo \<le> first_vec i \<and> end_vec i \<le> hi \<and> end_vec i < 2 ^ 32) \<and>
     sorted_wrt (\<lambda>i j. end_vec i \<le> first_vec j) es \<and> length es \<le> NUM_CO"

lemma unat_vec_sum: "end_vec i < 2 ^ 32 \<Longrightarrow> unat (vector_base i + num_vectors i) = end_vec i"
  by (subst unat_plus_simple [THEN iffD1]) (auto simp: end_vec_def no_plus_overflow_unat_size word_size)

lemma unat_last_vector:
  assumes "end_vec i < 2 ^ 32" "0 < first_vec i"
  shows "unat (last_vector i) = end_vec i - 1"
proof -
  have "unat (vector_base i + num_vectors i) = end_vec i" by (rule unat_vec_sum [OF assms(1)])
  moreover have "0 < end_vec i" using assms(2) by (simp add: first_vec_def end_vec_def)
  ultimately show ?thesis
    by (simp add: last_vector_def unat_sub word_le_nat_alt)
qed

lemma table_ok_add:
  assumes "table_ok lo hi es" "length es < NUM_CO" "lo \<le> first_vec i" "end_vec i \<le> hi" "end_vec i < 2 ^ 32"
    and "\<And>c. c \<in> set es \<Longrightarrow> last_vector c < vector_base i"
  shows "table_ok lo hi (es @ [i])"
proof -
  have "end_vec c \<le> first_vec i" if c: "c \<in> set es" for c
  proof -
    have "end_vec c < 2 ^ 32" "0 < first_vec c"
      using assms(1) c by (auto simp: table_ok_def)
    from unat_last_vector [OF this] assms(6) [OF c] show ?thesis
      by (simp add: word_less_nat_alt first_vec_def)
  qed
  with assms(1-5) show ?thesis by (simp add: table_ok_def sorted_wrt_append)
qed

lemma table_ok_disjoint:
  assumes "table_ok lo hi es" "j < k" "k < length es"
  shows "{first_vec (es ! j) ..< end_vec (es ! j)} \<inter> {first_vec (es ! k) ..< end_vec (es ! k)} = {}"
proof -
  have "end_vec (es ! j) \<le> first_vec (es ! k)"
    using assms by (auto simp: table_ok_def sorted_wrt_iff_nth_less)
  then show ?thesis by auto
qed

lemma own_fields_vecs [simp]:
  "first_vec (own_fields a c1 c2 c3 c4 i) = first_vec i"
  "end_vec (own_fields a c1 c2 c3 c4 i) = end_vec i"
  "vector_base (own_fields a c1 c2 c3 c4 i) = vector_base i"
  "last_vector (own_fields a c1 c2 c3 c4 i) = last_vector i"
  by (simp_all add: own_fields_def first_vec_def end_vec_def last_vector_def)

section \<open>Reachable states\<close>

text \<open>One call before the initialisation.  The distributor is at d; a board's entries have a count
  of vectors that does not run past the 32 bit numbers.\<close>
inductive gic_call :: "gic_env \<Rightarrow> paddr \<Rightarrow> gic_state \<Rightarrow> gic_state \<Rightarrow> bool" for e :: gic_env and d :: paddr where
  set_paddr: "gic_v3_set_paddr_range e d r sz gits g = ok g' \<Longrightarrow> gic_call e d g g'"
| use_mm: "gic_v3_use_mm_reg_callouts e c u g = ok g' \<Longrightarrow> gic_call e d g g'"
| trig: "gic_v3_set_intr_trig_mode e irq edge g = ok g' \<Longrightarrow> gic_call e d g g'"
| add_spi: "gic_v3_spi_add_entry e i g = ok (x, g') \<Longrightarrow> end_vec i < 2 ^ 32 \<Longrightarrow> gic_call e d g g'"
| add_espi: "gic_v3_espi_add_entry e i g = ok (x, g') \<Longrightarrow> end_vec i < 2 ^ 32 \<Longrightarrow> gic_call e d g g'"
| add_lpi: "gic_v3_lpi_add_entry e i g = ok (x, g') \<Longrightarrow> end_vec i < 2 ^ 32 \<Longrightarrow> gic_call e d g g'"
| cfgtbl: "gic_v3_set_lpi_cfgtbl_params q fl g = ok g' \<Longrightarrow> gic_call e d g g'"
| pendtbl: "gic_v3_set_lpi_pendtbl_params q g = ok g' \<Longrightarrow> gic_call e d g g'"

inductive gic_reachable :: "gic_env \<Rightarrow> paddr \<Rightarrow> gic_state \<Rightarrow> bool" for e :: gic_env and d :: paddr where
  start: "gic_reachable e d (gic_init f v)"
| step: "gic_reachable e d g \<Longrightarrow> gic_call e d g g' \<Longrightarrow> gic_reachable e d g'"

text \<open>GICD\_TYPER is read-only.\<close>
definition typer_is :: "gic_env \<Rightarrow> paddr \<Rightarrow> u32 \<Rightarrow> bool" where
  "typer_is e d t \<longleftrightarrow> (\<forall>b. rd32 (ge_hw e) b (d + ARM_GICD_TYPER) = t)"

definition spi_table_ok :: "u32 \<Rightarrow> gic_state \<Rightarrow> bool" where
  "spi_table_ok t g \<longleftrightarrow> table_ok 32 (32 + unat (spis_of t)) (map fst (spi_co g))"

definition espi_table_ok :: "u32 \<Rightarrow> gic_state \<Rightarrow> bool" where
  "espi_table_ok t g \<longleftrightarrow> table_ok 4096 (4096 + unat (espis_of t)) (map fst (espi_co g))"

definition lpi_table_ok :: "u32 \<Rightarrow> gic_state \<Rightarrow> bool" where
  "lpi_table_ok t g \<longleftrightarrow> table_ok 8192 (8192 + unat (lpis_of t)) (map fst (lpi_co g))"

definition gic_inv :: "paddr \<Rightarrow> u32 \<Rightarrow> gic_state \<Rightarrow> bool" where
  "gic_inv d t g \<longleftrightarrow> (base_initialized g \<longrightarrow> gicd g = d) \<and>
     spi_table_ok t g \<and> espi_table_ok t g \<and> lpi_table_ok t g"

text \<open>Changes of the bus and of the address-space table leave the tables alone.\<close>
definition same_tables :: "gic_state \<Rightarrow> gic_state \<Rightarrow> bool" where
  "same_tables g g' \<longleftrightarrow> base_initialized g' = base_initialized g \<and> gicd g' = gicd g \<and>
     spi_co g' = spi_co g \<and> espi_co g' = espi_co g \<and> lpi_co g' = lpi_co g"

lemma same_tables_inv: "same_tables g g' \<Longrightarrow> gic_inv d t g \<Longrightarrow> gic_inv d t g'"
  by (simp add: same_tables_def gic_inv_def spi_table_ok_def espi_table_ok_def lpi_table_ok_def)

lemma same_tables_trans: "same_tables g g1 \<Longrightarrow> same_tables g1 g2 \<Longrightarrow> same_tables g g2"
  by (simp add: same_tables_def)

lemma same_tables_refl [simp]: "same_tables g g"
  by (simp add: same_tables_def)

lemma same_tables_set_bus [simp]: "same_tables g (set_bus b g)"
  by (simp add: same_tables_def set_bus_def)

lemma same_tables_set_lsp [simp]: "same_tables g (set_lsp l g)"
  by (simp add: same_tables_def set_lsp_def)

lemma set_bus_fields [simp]:
  "gicd (set_bus b g) = gicd g" "gicr (set_bus b g) = gicr g" "base_initialized (set_bus b g) = base_initialized g"
  "spi_co (set_bus b g) = spi_co g" "espi_co (set_bus b g) = espi_co g" "lpi_co (set_bus b g) = lpi_co g"
  "g_lpi (set_bus b g) = g_lpi g" "its_bus (g_its (set_bus b g)) = b" "set_bus b1 (set_bus b g) = set_bus b1 g"
  by (simp_all add: set_bus_def)

lemma read_count_ok:
  "read_count f e g = ok (n, g') \<longleftrightarrow> base_initialized g \<and>
     n = f (rd32 (ge_hw e) (g_bus g) (gicd g + ARM_GICD_TYPER)) \<and>
     g' = set_bus (R32 (gicd g + ARM_GICD_TYPER) # g_bus g) g"
  by (auto simp: read_count_def addressed_def in32_def res_simps)

lemmas counts = gic_v3_num_spis_def gic_v3_num_espis_def gic_v3_num_lpis_def

lemma add_as_same: "add_as e a b nm ow g = ok g' \<Longrightarrow> same_tables g g'"
  by (auto simp: add_as_def res_simps)

lemma msi_check_same:
  "msi_check e i (set_bus b g) = (r, g') \<Longrightarrow> (r = - 1 \<or> r = 0) \<and> same_tables g g'"
  by (auto simp: msi_check_def in32_def Let_def split: if_splits)

lemma write_icfg_same: "write_icfg e a irq edge g = ok g' \<Longrightarrow> same_tables g g'"
  by (auto simp: write_icfg_def in32_def Let_def res_simps)

lemma trig_same: "gic_v3_set_intr_trig_mode e irq edge g = ok g' \<Longrightarrow> same_tables g g'"
  by (auto simp: gic_v3_set_intr_trig_mode_def counts read_count_ok res_simps same_tables_def
      split: if_splits dest!: write_icfg_same)

lemma use_mm_same: "gic_v3_use_mm_reg_callouts e c u g = ok g' \<Longrightarrow> same_tables g g'"
  by (auto simp: gic_v3_use_mm_reg_callouts_def res_simps Let_def same_tables_def split: if_splits
      dest!: add_as_same)

lemma spis_of_le: "spis_of t \<le> 988"
proof -
  have "typer_ITLN t \<le> 31"
    by (simp add: typer_ITLN_def word_and_le1)
  then show ?thesis
    by (auto simp: spis_of_def ARM_GIC_SPI_MAX_IRQ_def word_le_nat_alt word_less_nat_alt unat_word_ariths)
qed

text \<open>What a call of gic\_v3\_spi\_add\_entry that returns has done.\<close>
lemma spi_add_cases:
  assumes "gic_v3_spi_add_entry e i g = ok (r, g')" "typer_is e (gicd g) t" "end_vec i < 2 ^ 32"
  obtains (refused) "r = - 1" "same_tables g g'"
  | (added) g1 where "r = 0" "same_tables g g1" "length (spi_co g) < NUM_CO" "32 \<le> first_vec i"
      "end_vec i \<le> 32 + unat (spis_of t)" "\<not> entry_conflicts (vector_base i) (last_vector i) (map fst (spi_co g))"
      "g' = g1\<lparr>spi_co := spi_co g @ [(own_fields (ge_abi e) Interrupt_id_spi Interrupt_eoi_spi_sr
         Interrupt_mask_spi Interrupt_unmask_spi i, spi_patch0)]\<rparr>"
proof -
  let ?a = "gicd g + ARM_GICD_TYPER" and ?i = "own_fields (ge_abi e) Interrupt_id_spi Interrupt_eoi_spi_sr
      Interrupt_mask_spi Interrupt_unmask_spi i"
  let ?g = "set_bus (R32 ?a # R32 ?a # g_bus g) g"
  have t: "rd32 (ge_hw e) b ?a = t" for b
    using assms(2) by (simp add: typer_is_def)
  from assms(1) have base: "length (spi_co g) < NUM_CO" "32 \<le> vector_base i"
    and sum: "vector_base i + num_vectors i \<le> spis_of t + 32"
    and rest: "spis_of t + 32 \<le> last_vector i \<and> r = - 1 \<and> g' = ?g \<or>
      (\<exists>g1 r1. msi_check e i ?g = (r1, g1) \<and>
        (r1 \<noteq> 0 \<and> r = r1 \<and> g' = g1 \<or>
         r1 = 0 \<and> entry_conflicts (vector_base i) (last_vector i) (map fst (spi_co g1)) \<and> r = - 1 \<and> g' = g1 \<or>
         r1 = 0 \<and> \<not> entry_conflicts (vector_base i) (last_vector i) (map fst (spi_co g1)) \<and> r = 0 \<and>
           g' = g1\<lparr>spi_co := spi_co g1 @ [(?i, spi_patch0)]\<rparr>))"
    by (auto simp: gic_v3_spi_add_entry_def counts read_count_ok res_simps addressed_def t Let_def
        ARM_GIC_SPI_MIN_IRQ_def split: if_splits prod.splits)
  have hi: "end_vec i \<le> 32 + unat (spis_of t)"
  proof -
    have "unat (spis_of t + 32) = unat (spis_of t) + 32"
      using spis_of_le [of t] by (simp add: word_le_nat_alt unat_word_ariths)
    with sum show ?thesis by (simp add: word_le_nat_alt unat_vec_sum [OF assms(3)])
  qed
  have lo: "32 \<le> first_vec i"
    using base(2) by (simp add: first_vec_def word_le_nat_alt)
  note msi = msi_check_same
  from rest show thesis
  proof (elim disjE exE conjE)
    assume "r = - 1" "g' = ?g"
    then show thesis by (intro refused) simp_all
  next
    fix g1 r1
    assume m: "msi_check e i ?g = (r1, g1)" and r: "r1 \<noteq> 0" "r = r1" "g' = g1"
    show thesis by (rule refused) (use msi [OF m] r in auto)
  next
    fix g1 r1
    assume m: "msi_check e i ?g = (r1, g1)" and r: "r = - 1" "g' = g1"
    show thesis by (rule refused) (use msi [OF m] r in auto)
  next
    fix g1 r1
    assume m: "msi_check e i ?g = (r1, g1)" and r: "r = 0" "g' = g1\<lparr>spi_co := spi_co g1 @ [(?i, spi_patch0)]\<rparr>"
      and c: "\<not> entry_conflicts (vector_base i) (last_vector i) (map fst (spi_co g1))"
    have s: "same_tables g g1" using msi [OF m] by simp
    then have "spi_co g1 = spi_co g" by (simp add: same_tables_def)
    with s r c lo hi base(1) show thesis by (intro added [of g1]) simp_all
  qed
qed

lemma espis_of_le: "espis_of t \<le> 1024"
proof -
  have "t AND push_bit 27 0x1F \<le> push_bit 27 0x1F"
    by (rule word_and_le1)
  then have "unat (t AND push_bit 27 0x1F) div 2 ^ 27 \<le> 0xF8000000 div 2 ^ 27"
    by (intro div_le_mono) (simp add: word_le_nat_alt)
  then have "unat (typer_ESPI_RANGE t) \<le> 31"
    by (simp add: typer_ESPI_RANGE_def unsigned_drop_bit_eq drop_bit_eq_div unat_div)
  then show ?thesis
    by (auto simp: espis_of_def word_le_nat_alt unat_word_ariths)
qed

lemma espi_add_cases:
  assumes "gic_v3_espi_add_entry e i g = ok (r, g')" "typer_is e (gicd g) t" "end_vec i < 2 ^ 32"
  obtains (refused) "r = - 1" "same_tables g g'"
  | (added) g1 where "r = 0" "same_tables g g1" "length (espi_co g) < NUM_CO" "4096 \<le> first_vec i"
      "end_vec i \<le> 4096 + unat (espis_of t)" "\<not> entry_conflicts (vector_base i) (last_vector i) (map fst (espi_co g))"
      "g' = g1\<lparr>espi_co := espi_co g @ [(own_fields (ge_abi e) Interrupt_id_espi Interrupt_eoi_spi_sr
         Interrupt_mask_espi Interrupt_unmask_espi i, spi_patch0)]\<rparr>"
proof -
  let ?a = "gicd g + ARM_GICD_TYPER" and ?i = "own_fields (ge_abi e) Interrupt_id_espi Interrupt_eoi_spi_sr
      Interrupt_mask_espi Interrupt_unmask_espi i"
  have t: "rd32 (ge_hw e) b ?a = t" for b
    using assms(2) by (simp add: typer_is_def)
  from assms(1) obtain b where base: "length (espi_co g) < NUM_CO" "4096 \<le> vector_base i"
    and sum: "vector_base i + num_vectors i \<le> espis_of t + 4096"
    and rest: "r = - 1 \<and> g' = set_bus b g \<or>
      (\<exists>g1 r1. msi_check e i (set_bus b g) = (r1, g1) \<and>
        (r1 \<noteq> 0 \<and> r = r1 \<and> g' = g1 \<or>
         r1 = 0 \<and> entry_conflicts (vector_base i) (last_vector i) (map fst (espi_co g1)) \<and> r = - 1 \<and> g' = g1 \<or>
         r1 = 0 \<and> \<not> entry_conflicts (vector_base i) (last_vector i) (map fst (espi_co g1)) \<and> r = 0 \<and>
           g' = g1\<lparr>espi_co := espi_co g1 @ [(?i, spi_patch0)]\<rparr>))"
    by (auto simp: gic_v3_espi_add_entry_def counts read_count_ok res_simps addressed_def t Let_def
        ARM_GIC_ESPI_MIN_IRQ_def split: if_splits prod.splits)
  have hi: "end_vec i \<le> 4096 + unat (espis_of t)"
  proof -
    have "unat (espis_of t + 4096) = unat (espis_of t) + 4096"
      using espis_of_le [of t] by (simp add: word_le_nat_alt unat_word_ariths)
    with sum show ?thesis by (simp add: word_le_nat_alt unat_vec_sum [OF assms(3)])
  qed
  have lo: "4096 \<le> first_vec i"
    using base(2) by (simp add: first_vec_def word_le_nat_alt)
  note msi = msi_check_same
  from rest show thesis
  proof (elim disjE exE conjE)
    assume "r = - 1" "g' = set_bus b g"
    then show thesis by (intro refused) simp_all
  next
    fix g1 r1
    assume m: "msi_check e i (set_bus b g) = (r1, g1)" and r: "r1 \<noteq> 0" "r = r1" "g' = g1"
    show thesis by (rule refused) (use msi [OF m] r in auto)
  next
    fix g1 r1
    assume m: "msi_check e i (set_bus b g) = (r1, g1)" and r: "r = - 1" "g' = g1"
    show thesis by (rule refused) (use msi [OF m] r in auto)
  next
    fix g1 r1
    assume m: "msi_check e i (set_bus b g) = (r1, g1)" and r: "r = 0" "g' = g1\<lparr>espi_co := espi_co g1 @ [(?i, spi_patch0)]\<rparr>"
      and c: "\<not> entry_conflicts (vector_base i) (last_vector i) (map fst (espi_co g1))"
    have s: "same_tables g g1" using msi [OF m] by simp
    then have "espi_co g1 = espi_co g" by (simp add: same_tables_def)
    with s r c lo hi base(1) show thesis by (intro added [of g1]) simp_all
  qed
qed

lemma lpi_uses_its_ok:
  "gic_v3_lpi_uses_its e g = ok (x, g') \<Longrightarrow> g' = set_bus (R64 (gicr g + ARM_GICR_TYPER) # g_bus g) g"
  by (auto simp: gic_v3_lpi_uses_its_def in64_def res_simps)

lemma lpi_set_bus: "(set_bus b g)\<lparr>lpi_co := x, g_lpi := y\<rparr> = set_bus b (g\<lparr>lpi_co := x, g_lpi := y\<rparr>)"
  by (simp add: set_bus_def)

lemma lpi_fields_vecs [simp]:
  "first_vec (lpi_fields a x i) = first_vec i" "end_vec (lpi_fields a x i) = end_vec i"
  by (simp_all add: lpi_fields_def)

lemma lpi_add_cases:
  assumes "gic_v3_lpi_add_entry e i g = ok (r, g')" "typer_is e (gicd g) t" "end_vec i < 2 ^ 32"
  obtains (refused) "r = - 1" "same_tables g g'"
  | (added) j where "r = 0" "length (lpi_co g) < NUM_CO" "8192 \<le> first_vec i"
      "end_vec i \<le> 8192 + unat (lpis_of t)" "\<not> lpi_conflicts (vector_base i) (last_vector i) (map fst (lpi_co g))"
      "first_vec j = first_vec i" "end_vec j = end_vec i"
      "same_tables (g\<lparr>lpi_co := lpi_co g @ [(j, lpi_patch0)]\<rparr>) g'"
      "num_lpis (g_lpi g') = num_lpis (g_lpi g) + num_vectors i" "num_lpis (g_lpi g') \<le> lpis_of t"
proof -
  let ?a = "gicd g + ARM_GICD_TYPER"
  have t: "rd32 (ge_hw e) b ?a = t" for b
    using assms(2) by (simp add: typer_is_def)
  from assms(1) obtain x b where base: "length (lpi_co g) < NUM_CO" "8192 \<le> vector_base i"
    and sum: "vector_base i + num_vectors i - 8192 \<le> lpis_of t"
    and rest: "r = - 1 \<and> g' = set_bus b g \<or>
       \<not> lpi_conflicts (vector_base i) (last_vector i) (map fst (lpi_co g)) \<and> r = 0 \<and>
       num_lpis (g_lpi g) + num_vectors i \<le> lpis_of t \<and>
       g' = set_bus b (g\<lparr>lpi_co := lpi_co g @
                [(lpi_fields (ge_abi e) x i, lpi_patch0)],
                g_lpi := (g_lpi g)\<lparr>num_lpis := num_lpis (g_lpi g) + num_vectors i\<rparr>\<rparr>)"
    by (auto simp: gic_v3_lpi_add_entry_def counts read_count_ok res_simps addressed_def t Let_def
        ARM_GIC_LPI_MIN_IRQ_def lpi_set_bus split: if_splits dest!: lpi_uses_its_ok)
  define j where "j = lpi_fields (ge_abi e) x i"
  have lo: "8192 \<le> first_vec i"
    using base(2) by (simp add: first_vec_def word_le_nat_alt)
  have "8192 \<le> vector_base i + num_vectors i"
    using lo by (simp add: word_le_nat_alt unat_vec_sum [OF assms(3)] first_vec_def end_vec_def)
  then have hi: "end_vec i \<le> 8192 + unat (lpis_of t)"
    using sum by (simp add: word_le_nat_alt unat_sub unat_vec_sum [OF assms(3)])
  from rest show thesis
  proof (elim disjE conjE)
    assume "r = - 1" "g' = set_bus b g"
    then show thesis by (intro refused) simp_all
  next
    assume "\<not> lpi_conflicts (vector_base i) (last_vector i) (map fst (lpi_co g))" "r = 0"
      "num_lpis (g_lpi g) + num_vectors i \<le> lpis_of t"
      "g' = set_bus b (g\<lparr>lpi_co := lpi_co g @
                [(lpi_fields (ge_abi e) x i, lpi_patch0)],
                g_lpi := (g_lpi g)\<lparr>num_lpis := num_lpis (g_lpi g) + num_vectors i\<rparr>\<rparr>)"
    with lo hi base(1) show thesis
      by (intro added [of j]) (simp_all add: same_tables_def j_def)
  qed
qed

lemma set_paddr_inv:
  assumes "gic_v3_set_paddr_range e d r sz gits g = ok g'" "gic_inv d t g"
  shows "gic_inv d t g'"
proof -
  obtain g1 where "same_tables g1 g'" "gicd g1 = d" "spi_co g1 = spi_co g" "espi_co g1 = espi_co g"
    "lpi_co g1 = lpi_co g"
  proof -
    from assms(1) obtain its b i off g2 where
      a: "add_as e d (d + 0xFFFF) ''gicd'' off
         (set_bus b (g\<lparr>gicd := d, gicr := r, g_its := its, base_initialized := True, arm_gic := i\<rparr>)) = ok g2"
      and b: "\<exists>shift limit x y. add_as e x y ''gicr'' off (g2\<lparr>gicr_offset_shift_val := shift, gicr_index_limit := limit\<rparr>) = ok g'"
      by (fastforce simp: gic_v3_set_paddr_range_def Let_def res_simps split_def)
    have "same_tables (g\<lparr>gicd := d, base_initialized := True\<rparr>) g2"
      using add_as_same [OF a] by (simp add: same_tables_def)
    moreover have "same_tables g2 g'"
      using b by (auto dest!: add_as_same simp: same_tables_def)
    ultimately show thesis
      by (intro that [of "g\<lparr>gicd := d, base_initialized := True\<rparr>"]) (auto intro: same_tables_trans)
  qed
  then show ?thesis
    using assms(2) by (auto simp: gic_inv_def same_tables_def spi_table_ok_def espi_table_ok_def lpi_table_ok_def)
qed

lemma table_ok_own:
  "table_ok lo hi (es @ [i]) \<Longrightarrow> first_vec j = first_vec i \<Longrightarrow> end_vec j = end_vec i \<Longrightarrow> table_ok lo hi (es @ [j])"
  by (auto simp: table_ok_def sorted_wrt_append)

lemma added_vecs:
  assumes "conflict_test cf" "\<not> cf (vector_base i) (last_vector i) es"
    and "table_ok lo hi es" "length es < NUM_CO" "lo \<le> first_vec i" "end_vec i \<le> hi" "end_vec i < 2 ^ 32"
    and "first_vec j = first_vec i" "end_vec j = end_vec i"
  shows "table_ok lo hi (es @ [j])"
  using assms(8,9) table_ok_add [OF assms(3-7)] conflict_test.above [OF assms(1,2)] table_ok_own by blast

lemma gic_call_inv:
  assumes "gic_call e d g g'" "gic_inv d t g" "typer_is e d t"
  shows "gic_inv d t g'"
  using assms
proof (induction rule: gic_call.induct)
  case (set_paddr r sz gits g g')
  then show ?case using set_paddr_inv by blast
next
  case (use_mm c u g g')
  then show ?case using use_mm_same same_tables_inv by blast
next
  case (trig irq edge g g')
  then show ?case using trig_same same_tables_inv by blast
next
  case (add_spi i g x g')
  have "base_initialized g" using add_spi(1) by (auto simp: gic_v3_spi_add_entry_def addressed_def res_simps)
  then have "typer_is e (gicd g) t" using add_spi(3,4) by (simp add: gic_inv_def)
  from add_spi(1) this add_spi(2) show ?case
  proof (cases rule: spi_add_cases)
    case refused
    then show ?thesis using same_tables_inv add_spi(3) by blast
  next
    case (added g1)
    have inv: "gic_inv d t g1" by (rule same_tables_inv [OF added(2) add_spi(3)])
    have "table_ok 32 (32 + unat (spis_of t)) (map fst (spi_co g'))"
      using added_vecs [OF spi.conflict_test_axioms added(6) _ _ added(4,5) add_spi(2)] added add_spi(3)
      by (simp add: gic_inv_def spi_table_ok_def)
    then show ?thesis
      using inv added(7) by (simp add: gic_inv_def spi_table_ok_def espi_table_ok_def lpi_table_ok_def)
  qed
next
  case (add_espi i g x g')
  have "base_initialized g" using add_espi(1) by (auto simp: gic_v3_espi_add_entry_def addressed_def res_simps)
  then have "typer_is e (gicd g) t" using add_espi(3,4) by (simp add: gic_inv_def)
  from add_espi(1) this add_espi(2) show ?case
  proof (cases rule: espi_add_cases)
    case refused
    then show ?thesis using same_tables_inv add_espi(3) by blast
  next
    case (added g1)
    have inv: "gic_inv d t g1" by (rule same_tables_inv [OF added(2) add_espi(3)])
    have "table_ok 4096 (4096 + unat (espis_of t)) (map fst (espi_co g'))"
      using added_vecs [OF spi.conflict_test_axioms added(6) _ _ added(4,5) add_espi(2)] added add_espi(3)
      by (simp add: gic_inv_def espi_table_ok_def)
    then show ?thesis
      using inv added(7) by (simp add: gic_inv_def spi_table_ok_def espi_table_ok_def lpi_table_ok_def)
  qed
next
  case (add_lpi i g x g')
  have "base_initialized g" using add_lpi(1) by (auto simp: gic_v3_lpi_add_entry_def addressed_def res_simps)
  then have "typer_is e (gicd g) t" using add_lpi(3,4) by (simp add: gic_inv_def)
  from add_lpi(1) this add_lpi(2) show ?case
  proof (cases rule: lpi_add_cases)
    case refused
    then show ?thesis using same_tables_inv add_lpi(3) by blast
  next
    case (added j)
    have "table_ok 8192 (8192 + unat (lpis_of t)) (map fst (lpi_co g) @ [j])"
      using added_vecs [OF lpi.conflict_test_axioms added(5) _ _ added(3,4) add_lpi(2) added(6,7)] added add_lpi(3)
      by (simp add: gic_inv_def lpi_table_ok_def)
    then have "gic_inv d t (g\<lparr>lpi_co := lpi_co g @ [(j, lpi_patch0)]\<rparr>)"
      using add_lpi(3) by (simp add: gic_inv_def spi_table_ok_def espi_table_ok_def lpi_table_ok_def)
    then show ?thesis by (rule same_tables_inv [OF added(8)])
  qed
next
  case (cfgtbl q fl g g')
  then show ?case
    by (auto simp: gic_v3_set_lpi_cfgtbl_params_def res_simps gic_inv_def spi_table_ok_def
        espi_table_ok_def lpi_table_ok_def)
next
  case (pendtbl q g g')
  then show ?case
    by (auto simp: gic_v3_set_lpi_pendtbl_params_def res_simps gic_inv_def spi_table_ok_def
        espi_table_ok_def lpi_table_ok_def)
qed

lemma gic_reachable_inv:
  assumes "gic_reachable e d g" "typer_is e d t"
  shows "gic_inv d t g"
  using assms
proof (induction rule: gic_reachable.induct)
  case (start f v)
  then show ?case
    by (simp add: gic_inv_def gic_init_def spi_table_ok_def espi_table_ok_def lpi_table_ok_def table_ok_def)
next
  case (step g g')
  then show ?case using gic_call_inv by blast
qed


definition gic_hw_ex :: hw where
  "gic_hw_ex = \<lparr>rd32 = (\<lambda>b a. if a = 0x1000004 then 0x10003 else if a = 0x1000008 then 0x0201743B
       else if a = 0x100FFE8 then 0x30 else 0),
     rd64 = (\<lambda>b a. 0), rdsys = (\<lambda>b r. 0), spins = 1\<rparr>"

definition gic_env_ex :: gic_env where
  "gic_env_ex = \<lparr>ge_its = \<lparr>ie_hw = gic_hw_ex, ie_mmu = mmu_ex, ie_bias = 0, ie_num_cpu = 4, ie_hwidev = True,
     ie_lock_version = 4\<rparr>,
     ge_abi = \<lparr>INTR_CLASS_EXTERNAL = 0, INTR_SPARE = 0x7FFFFFFF, INTR_FLAG_MSI = 1, AS_ATTR_DEV = 1\<rparr>,
     ge_co = co_env_ex, ge_max_cpu = 4, ge_debug = 0\<rparr>"

definition spi_ex :: "u32 \<Rightarrow> u32 \<Rightarrow> intrinfo" where
  "spi_ex b n = (gic_v3_intr_spi (ge_abi gic_env_ex))\<lparr>vector_base := b, num_vectors := n\<rparr>"

definition lsp_ex :: "asinfo_entry list \<Rightarrow> nat \<Rightarrow> lsp" where
  "lsp_ex es n = \<lparr>asinfo = es, strs = ''gicd'' @ [NUL] @ ''gicr'' @ [NUL, NUL], sbud = \<lparr>bg_total = n, bg_max = 4096\<rparr>\<rparr>"

definition as_ex_entry :: "paddr \<Rightarrow> paddr \<Rightarrow> nat \<Rightarrow> asinfo_entry" where
  "as_ex_entry s e n = \<lparr>as_start = s, as_end = e, as_owner = None, as_name = n, as_attr = 1, as_priority = 100\<rparr>"

lemma as_add_ex:
  "as_add64 (ge_as gic_env_ex) 0x1000000 0x100FFFF 1 ''gicd'' None (lsp_ex [] 0) =
     ok (0, lsp_ex [as_ex_entry 0x1000000 0x100FFFF 0] 32)"
  "as_add64 (ge_as gic_env_ex) 0x1100000 0x117FFFF 1 ''gicr'' None (lsp_ex [e] 32) =
     ok (1, lsp_ex [e, as_ex_entry 0x1100000 0x117FFFF 5] 64)"
  by (simp_all add: as_add64.simps as_add_entry_def add_string_def scan_strings.simps request_def lsp_ex_def
     as_ex_entry_def gic_env_ex_def mmu_ex_def env_ex_def AS_OVERLAY_IO_def roundup_def)

definition vm_gic_ex :: vm where
  "vm_gic_ex = vm_ex\<lparr>vm_ram := ram_ex\<lparr>rs_lsp := lsp_ex [] 0\<rparr>\<rparr>"

definition gic_bus_ex :: bus where
  "gic_bus_ex = [R64 0x1100008, R32 0x100FFE8, R32 0x1000008]"

lemma gic_id_run:
  "gic_init_version_info gic_hw_ex 0 0x1000000 0x1100000 arm_gic_id_init [] =
     ok (detected 3 0 2 1 7, gic_bus_ex)"
  by (simp add: gic_init_version_info_def in32_def in64_def gic_hw_ex_def ARM_GICD_IIDR_def PIDR2_def
      ARM_GICR_TYPER_def NULL_PADDR_def arch_minor_def print_version_def arm_gic_id_init_def detected_def
      gic_bus_ex_def assert_that_def)

definition gic_ex :: gic_state where
  "gic_ex = (gic_init prot_ex (vm_gic_ex\<lparr>vm_ram := ram_ex\<lparr>rs_lsp :=
       lsp_ex [as_ex_entry 0x1000000 0x100FFFF 0, as_ex_entry 0x1100000 0x117FFFF 5] 64\<rparr>\<rparr>))
     \<lparr>gicd := 0x1000000, gicr := 0x1100000, base_initialized := True, arm_gic := detected 3 0 2 1 7,
      gicr_offset_shift_val := 17, gicr_index_limit := 4\<rparr>"

lemma gic_ex_run:
  "gic_v3_set_paddr_range gic_env_ex 0x1000000 0x1100000 0 NULL_PADDR (gic_init prot_ex vm_gic_ex) =
     ok (set_bus gic_bus_ex gic_ex)"
proof -
  have e: "ge_hw gic_env_ex = gic_hw_ex" "ge_debug gic_env_ex = 0" "AS_ATTR_DEV (ge_abi gic_env_ex) = 1"
    "ge_max_cpu gic_env_ex = 4"
    by (simp_all add: gic_env_ex_def)
  have f: "as_find (lsp_ex [] 0) None [''memory''] = ok None"
    by (simp add: as_find_def find_from.simps lsp_ex_def next_index_def)
  have s: "gicr_shift \<lparr>ver_major = 3, ver_minor = 0\<rparr> = 17"
    by (simp add: gicr_shift_def arm_gic_version_is_def ARM_GIC_ARCH_VERSION_4_0_def)
  show ?thesis
    by (simp add: gic_v3_set_paddr_range_def gic_init_def NULL_PADDR_def e gic_id_run its_state_init_def
        g_lsp_def set_bus_def vm_gic_ex_def f add_as_def set_lsp_def as_add_ex gicr_range_def s detected_def
        gic_ex_def Let_def)
qed

lemma gic_ex_reachable: "gic_reachable gic_env_ex 0x1000000 (set_bus gic_bus_ex gic_ex)"
  by (rule gic_reachable.step [OF gic_reachable.start gic_call.set_paddr [OF gic_ex_run]])

lemma gic_ex_typer: "typer_is gic_env_ex 0x1000000 0x10003"
  by (simp add: typer_is_def gic_env_ex_def gic_hw_ex_def ARM_GICD_TYPER_def)

lemma spi_add_ex:
  "\<exists>g. gic_v3_spi_add_entry gic_env_ex (spi_ex 40 8) (set_bus gic_bus_ex gic_ex) = ok (0, g) \<and>
     map fst (spi_co g) = [spi_ex 40 8]"
  by (simp add: gic_v3_spi_add_entry_def gic_v3_num_spis_def read_count_def addressed_def in32_def gic_env_ex_def
      gic_hw_ex_def gic_ex_def gic_init_def spi_ex_def ARM_GICD_TYPER_def spis_of_def typer_ITLN_def
      NUM_CO_def ARM_GIC_SPI_MIN_IRQ_def ARM_GIC_SPI_MAX_IRQ_def last_vector_def msi_check_def is_msi_def
      gic_v3_intr_spi_def own_fields_def intr_gen_def)


section \<open>What the calls do\<close>

text \<open>C12: an SPI entry with a sound range is added, with the callouts of SPIs, exactly when it lies above
  every earlier entry and, if it is for messages, the controller supports them; otherwise the
  call returns -1 and the table is as it was.\<close>
theorem spi_add_entry_accepts:
  assumes "base_initialized g" "typer_is e (gicd g) t" "length (spi_co g) < NUM_CO"
    and "32 \<le> first_vec i" "0 < num_vectors i" "end_vec i \<le> 32 + unat (spis_of t)"
  shows "\<exists>r g'. gic_v3_spi_add_entry e i g = ok (r, g') \<and>
    (if (is_msi (ge_abi e) i \<longrightarrow> typer_MBIS t) \<and> (\<forall>c \<in> set (spi_co g). last_vector (fst c) < vector_base i)
     then r = 0 \<and> spi_co g' = spi_co g @ [(own_fields (ge_abi e) Interrupt_id_spi Interrupt_eoi_spi_sr
         Interrupt_mask_spi Interrupt_unmask_spi i, spi_patch0)]
     else r = - 1 \<and> spi_co g' = spi_co g)"
proof -
  have t: "rd32 (ge_hw e) b (gicd g + ARM_GICD_TYPER) = t" for b
    using assms(2) by (simp add: typer_is_def)
  have le: "unat (spis_of t) \<le> 988"
    using spis_of_le [of t] by (simp add: word_le_nat_alt)
  have n32: "unat (spis_of t + 32) = unat (spis_of t) + 32"
    using le by (simp add: unat_word_ariths)
  have small: "end_vec i < 2 ^ 32" using assms(6) le by simp
  have lo: "32 \<le> vector_base i" using assms(4) by (simp add: first_vec_def word_le_nat_alt)
  have pos: "first_vec i < end_vec i"
    using assms(5) by (simp add: first_vec_def end_vec_def word_less_nat_alt)
  have hi: "vector_base i \<le> 1019"
    using pos assms(6) le by (simp add: first_vec_def word_le_nat_alt)
  have sum: "vector_base i + num_vectors i \<le> spis_of t + 32"
    using assms(6) by (simp add: word_le_nat_alt unat_vec_sum [OF small] n32)
  have lv: "unat (last_vector i) = end_vec i - 1"
    using small assms(4) by (intro unat_last_vector) simp_all
  then have "\<not> spis_of t + 32 \<le> last_vector i"
    using assms(6) pos n32 by (simp add: word_le_nat_alt)
  moreover have "vector_base i \<le> last_vector i"
    using pos lv by (simp add: word_le_nat_alt first_vec_def)
  note c = spi.accepts_iff [OF this, of "map fst (spi_co g)"]
  ultimately show ?thesis
    using assms(1,3) lo hi sum c
    by (auto simp: gic_v3_spi_add_entry_def counts read_count_def addressed_def in32_def t msi_check_def
        ARM_GIC_SPI_MIN_IRQ_def ARM_GIC_SPI_MAX_IRQ_def Let_def)
qed

lemma spi_add_entry_accepts_witness:
  "\<exists>r g'. gic_v3_spi_add_entry gic_env_ex (spi_ex 40 8) gic_ex = ok (r, g') \<and> r = 0"
proof -
  have "typer_is gic_env_ex (gicd gic_ex) 0x10003"
    using gic_ex_typer by (simp add: gic_ex_def)
  moreover have "base_initialized gic_ex" "spi_co gic_ex = []"
    by (simp_all add: gic_ex_def gic_init_def)
  moreover have "32 \<le> first_vec (spi_ex 40 8)" "0 < num_vectors (spi_ex 40 8)"
    "end_vec (spi_ex 40 8) \<le> 32 + unat (spis_of 0x10003)" "\<not> is_msi (ge_abi gic_env_ex) (spi_ex 40 8)"
    by (simp_all add: first_vec_def end_vec_def spi_ex_def spis_of_def typer_ITLN_def is_msi_def
        ARM_GIC_SPI_MAX_IRQ_def gic_v3_intr_spi_def)
  ultimately show ?thesis
    using spi_add_entry_accepts [of gic_ex gic_env_ex "0x10003" "spi_ex 40 8"] by (auto simp: NUM_CO_def)
qed



text \<open>Every interrupt number the counts allow is a legal one: SPIs end at 1019 and ESPIs at 5119.\<close>
lemma counts_bounded:
  "ARM_GIC_SPI_MIN_IRQ + spis_of t \<le> ARM_GIC_SPI_MAX_IRQ + 1 \<and>
   ARM_GIC_ESPI_MIN_IRQ + espis_of t \<le> ARM_GIC_ESPI_MAX_IRQ + 1 \<and>
   unat (spis_of t) \<le> 988 \<and> unat (espis_of t) \<le> 1024"
  using spis_of_le [of t] espis_of_le [of t]
  by (simp add: ARM_GIC_SPI_MIN_IRQ_def ARM_GIC_SPI_MAX_IRQ_def ARM_GIC_ESPI_MIN_IRQ_def
      ARM_GIC_ESPI_MAX_IRQ_def word_le_nat_alt unat_word_ariths)

lemma bit_icfg_value:
  assumes "k < 32"
  shows "bit (icfg_value irq edge cur) k =
    (if k = 2 * unat (irq mod 16) + 1 then edge else bit cur k)"
proof -
  have m: "push_bit (unat (irq mod 16) * 2) (2 :: u32) = push_bit (2 * unat (irq mod 16) + 1) 1"
    by (simp add: push_bit_eq_mult mult.commute)
  have "unat (irq mod 16) < 16" by (simp add: unat_mod)
  then have "bit (push_bit (2 * unat (irq mod 16) + 1) (1 :: u32)) k \<longleftrightarrow> k = 2 * unat (irq mod 16) + 1"
    using assms by (auto simp: bit_simps)
  then show ?thesis
    using assms unfolding icfg_value_def Let_def m by (auto simp: bit_or_iff bit_and_iff bit_not_iff)
qed

text \<open>C13: setting the trigger mode of an SPI rewrites exactly one register, the one of its group of 16,
  and changes exactly the upper of the interrupt's two bits: set for edge, clear for level; for a
  number that is neither SPI nor ESPI nothing is written.\<close>
theorem set_intr_trig_mode_one_bit:
  assumes "base_initialized g" "typer_is e (gicd g) t"
    and "settles (ge_hw e) (gicd g + ARM_GICD_CTLR) (\<lambda>v. v AND 0x80000000 = 0)"
    and "is_spi irq (spis_of t) \<or> \<not> is_espi irq (espis_of t)"
  shows "\<exists>g'. gic_v3_set_intr_trig_mode e irq edge g = ok g' \<and>
    (if is_spi irq (spis_of t)
     then \<exists>b v. writes (g_bus g') = writes (g_bus g) @ [W32 (gicd g + ARM_GICD_ICFGRn + ucast (irq div 16 * 4)) v] \<and>
       (\<forall>k < 32. bit v k = (if k = 2 * unat (irq mod 16) + 1 then edge \<noteq> 0
          else bit (rd32 (ge_hw e) b (gicd g + ARM_GICD_ICFGRn + ucast (irq div 16 * 4))) k))
     else writes (g_bus g') = writes (g_bus g))"
proof -
  have t: "rd32 (ge_hw e) b (gicd g + ARM_GICD_TYPER) = t" for b
    using assms(2) by (simp add: typer_is_def)
  let ?a = "gicd g + ARM_GICD_TYPER" and ?r = "gicd g + ARM_GICD_ICFGRn + ucast (irq div 16 * 4)"
  let ?b = "R32 ?a # R32 ?a # g_bus g"
  let ?v = "icfg_value irq (edge \<noteq> 0) (rd32 (ge_hw e) ?b ?r)"
  obtain j where j: "wait_for_rwp (ge_hw e) (gicd g + ARM_GICD_CTLR) 0x80000000 (out32 ?r ?v (R32 ?r # ?b)) =
      ok (replicate j (R32 (gicd g + ARM_GICD_CTLR)) @ out32 ?r ?v (R32 ?r # ?b))"
    using wait_for_rwp_total [OF assms(3)] by blast
  have run: "gic_v3_set_intr_trig_mode e irq edge g =
     (if is_spi irq (spis_of t) then
        ok (set_bus (replicate j (R32 (gicd g + ARM_GICD_CTLR)) @ out32 ?r ?v (R32 ?r # ?b)) g)
      else ok (set_bus ?b g))"
    using assms(1,4) j by (auto simp: gic_v3_set_intr_trig_mode_def counts read_count_def addressed_def in32_def t
        write_icfg_def)
  show ?thesis
  proof (cases "is_spi irq (spis_of t)")
    case True
    then show ?thesis
      unfolding run by (auto simp: bus_simps bit_icfg_value intro!: exI [of _ ?b] exI [of _ ?v])
  next
    case False
    then show ?thesis unfolding run by (simp add: bus_simps)
  qed
qed

lemma settles_now: "(\<And>b. P (rd32 d b a)) \<Longrightarrow> 0 < spins d \<Longrightarrow> settles d a P"
  by (auto simp: settles_def)

lemma set_intr_trig_mode_one_bit_witness:
  "\<exists>g' v. gic_v3_set_intr_trig_mode gic_env_ex 45 1 gic_ex = ok g' \<and>
     writes (g_bus g') = [W32 0x1000C08 v] \<and> bit v 27"
proof -
  have "typer_is gic_env_ex (gicd gic_ex) 0x10003"
    using gic_ex_typer by (simp add: gic_ex_def)
  moreover have "base_initialized gic_ex" "gicd gic_ex = 0x1000000" "g_bus gic_ex = []"
    by (simp_all add: gic_ex_def gic_init_def its_state_init_def)
  moreover have "settles (ge_hw gic_env_ex) (gicd gic_ex + ARM_GICD_CTLR) (\<lambda>v. v AND 0x80000000 = 0)"
    by (rule settles_now) (simp_all add: gic_ex_def ARM_GICD_CTLR_def gic_env_ex_def gic_hw_ex_def)
  moreover have s: "is_spi 45 (spis_of 0x10003)"
    by (simp add: is_spi_def spis_of_def typer_ITLN_def ARM_GIC_SPI_MAX_IRQ_def ARM_GIC_SPI_MIN_IRQ_def)
  ultimately obtain g' b v where g: "gic_v3_set_intr_trig_mode gic_env_ex 45 1 gic_ex = ok g'"
      "filter is_write (g_bus g') = [W32 (0x1000008 + ARM_GICD_ICFGRn) v]"
    and v: "\<forall>k < 32. bit v k = (if k = 27 then (1 :: u32) \<noteq> 0
      else bit (rd32 (ge_hw gic_env_ex) b (gicd gic_ex + ARM_GICD_ICFGRn + ucast ((45 :: u32) div 16 * 4))) k)"
    using set_intr_trig_mode_one_bit [of gic_ex gic_env_ex "0x10003" 45 1]
    by (simp add: writes_def) (elim exE conjE, rule that)
  from v have "bit v 27" by simp
  with g show ?thesis by (intro exI conjI) (auto simp: writes_def ARM_GICD_ICFGRn_def)
qed

text \<open>The redistributor range holds a whole frame for every index below the limit: the search for a
  processor's redistributor stays inside what is mapped.\<close>
lemma gicr_range_covers:
  assumes "gicr_range shift max_cpu sz = (len, limit)" "shift < 32" "2 ^ shift * unat max_cpu < 2 ^ 32"
    and "index < unat limit"
  shows "(index + 1) * 2 ^ shift \<le> unat len"
proof (cases "sz = 0")
  case True
  have p: "unat (push_bit shift (1 :: u32)) = 2 ^ shift"
    using assms(2) by (simp add: push_bit_eq_mult unat_pow2)
  have "unat (push_bit shift 1 * max_cpu) = 2 ^ shift * unat max_cpu"
    using assms(3) p by (subst unat_mult_lem [THEN iffD1]) auto
  then have "unat len = 2 ^ shift * unat max_cpu" "limit = max_cpu"
    using assms(1) True by (auto simp: gicr_range_def unat_ucast_up)
  moreover have "(index + 1) * 2 ^ shift \<le> unat limit * 2 ^ shift"
    using assms(4) by (intro mult_le_mono1) simp
  ultimately show ?thesis by (simp add: mult.commute)
next
  case False
  then have l: "len = sz" "limit = ucast (drop_bit shift sz)"
    using assms(1) by (auto simp: gicr_range_def)
  have "unat (drop_bit shift sz) = unat sz div 2 ^ shift"
    by (rule unat_drop_bit)
  moreover have "unat limit \<le> unat (drop_bit shift sz)"
    by (simp only: l(2) unsigned_ucast_eq) (rule take_bit_nat_less_eq_self)
  ultimately have "index + 1 \<le> unat sz div 2 ^ shift"
    using assms(4) by linarith
  then have "(index + 1) * 2 ^ shift \<le> unat sz div 2 ^ shift * 2 ^ shift"
    by (rule mult_le_mono1)
  also have "\<dots> \<le> unat sz" by (rule div_times_less_eq_dividend)
  finally show ?thesis by (simp add: l(1))
qed

lemma gicr_range_covers_witness: "(3 + 1) * 2 ^ 17 \<le> unat (0x80000 :: u64)"
  using gicr_range_covers [of 17 4 0 "0x80000" 4 3] by (simp add: gicr_range_def)

text \<open>A version 3.1 controller has the stride of version 4: the comparison is between packed structs
  whose minor version is the more significant byte.\<close>
lemma gicr_shift_v3_1:
  "gicr_shift \<lparr>ver_major = 3, ver_minor = 1\<rparr> = 18" "gicr_shift \<lparr>ver_major = 3, ver_minor = 0\<rparr> = 17"
  by (simp_all add: gicr_shift_def arm_gic_version_is_def ARM_GIC_ARCH_VERSION_4_0_def)

end
