(* ===== verification/Gic_Dist.thy ===== *)
theory Gic_Dist
  imports Gic_V3
begin

unbundle bit_operations_syntax

text \<open>
  The first half of gic\_v3\_initialize (startup/lib/aarch64/gic\_v3.c): the checks it starts with and
  the reset of the distributor, which disables it, puts every shared interrupt in a known state,
  enables it again and routes every shared interrupt to the boot processor.  The lemmas say what the
  registers hold afterwards, whatever they held before; registers are seen by their address, in 32
  and in 64 bits.
\<close>


section \<open>Registers\<close>

definition ARM_GICD_IGROUPRn :: paddr where "ARM_GICD_IGROUPRn = 0x0080"
definition ARM_GICD_ICENABLERn :: paddr where "ARM_GICD_ICENABLERn = 0x0180"
definition ARM_GICD_ICPENDRn :: paddr where "ARM_GICD_ICPENDRn = 0x0280"
definition ARM_GICD_IPRIORITYn :: paddr where "ARM_GICD_IPRIORITYn = 0x0400"
definition ARM_GICD_IGRPMODRn :: paddr where "ARM_GICD_IGRPMODRn = 0x0D00"
definition ARM_GICD_IROUTERn :: paddr where "ARM_GICD_IROUTERn = 0x6000"
definition ARM_GICD_ICENABLERnE :: paddr where "ARM_GICD_ICENABLERnE = 0x1400"
definition ARM_GICD_ICPENDRnE :: paddr where "ARM_GICD_ICPENDRnE = 0x1800"
definition ARM_GICD_IPRIORITYnE :: paddr where "ARM_GICD_IPRIORITYnE = 0x2000"
definition ARM_GICD_IGRPMODRnE :: paddr where "ARM_GICD_IGRPMODRnE = 0x3400"
definition ARM_GICD_IROUTERnE :: paddr where "ARM_GICD_IROUTERnE = 0x8000"

definition GICD_CTLR_ENABLEGRP1A_NS :: u32 where "GICD_CTLR_ENABLEGRP1A_NS = 2"
definition GICD_CTLR_ARE_NS :: u32 where "GICD_CTLR_ARE_NS = 0x10"
definition GICD_CTLR_ENABLEGRP1_1s :: u32 where "GICD_CTLR_ENABLEGRP1_1s = 2"
definition GICD_CTLR_ARE_1s :: u32 where "GICD_CTLR_ARE_1s = 0x10"

lemmas gicd_regs = ARM_GICD_CTLR_def ARM_GICD_TYPER_def ARM_GICD_IGROUPRn_def ARM_GICD_ICENABLERn_def
  ARM_GICD_ICPENDRn_def ARM_GICD_IPRIORITYn_def ARM_GICD_ICFGRn_def ARM_GICD_IGRPMODRn_def
  ARM_GICD_IROUTERn_def ARM_GICD_ICENABLERnE_def ARM_GICD_ICPENDRnE_def ARM_GICD_IPRIORITYnE_def
  ARM_GICD_ICFGRnE_def ARM_GICD_IGRPMODRnE_def ARM_GICD_IROUTERnE_def

section \<open>The reset of the distributor\<close>

text \<open>The numbers of register lines, and the first number that is not an SPI.\<close>
definition itlines_of :: "u32 \<Rightarrow> u32" where
  "itlines_of t = typer_ITLN t + 1"

definition itn_of :: "u32 \<Rightarrow> u32" where
  "itn_of t = (if ARM_GIC_SPI_MAX_IRQ + 1 < itlines_of t * 32 then ARM_GIC_SPI_MAX_IRQ + 1 else itlines_of t * 32)"

definition espilines_of :: "u32 \<Rightarrow> u32" where
  "espilines_of t = (if typer_ESPI t then typer_ESPI_RANGE t + 1 else 0)"

text \<open>Disable, clear pending, group 1, level triggered, priority A0 for the SPIs.\<close>
definition reset_spis :: "paddr \<Rightarrow> u32 \<Rightarrow> bus \<Rightarrow> bus" where
  "reset_spis base t b =
    (let lines = unat (itlines_of t);
         b = for_up 1 lines (\<lambda>i b.
               out32 (reg32 (base + ARM_GICD_IGRPMODRn) i) 0
              (out32 (reg32 (base + ARM_GICD_IGROUPRn) i) 0xFFFFFFFF
              (out32 (reg32 (base + ARM_GICD_ICPENDRn) i) 0xFFFFFFFF
              (out32 (reg32 (base + ARM_GICD_ICENABLERn) i) 0xFFFFFFFF b)))) b;
         b = for_up 8 (8 * lines) (\<lambda>i. out32 (reg32 (base + ARM_GICD_IPRIORITYn) i) 0xA0A0A0A0) b
     in for_up 2 (unat (itn_of t div 16)) (\<lambda>i. out32 (reg32 (base + ARM_GICD_ICFGRn) i) 0) b)"

text \<open>The same for the ESPIs, but for their groups.\<close>
definition reset_espis :: "paddr \<Rightarrow> u32 \<Rightarrow> bus \<Rightarrow> bus" where
  "reset_espis base t b =
    (let lines = unat (espilines_of t);
         b = for_up 0 lines (\<lambda>i b.
               out32 (reg32 (base + ARM_GICD_IGRPMODRnE) i) 0
              (out32 (reg32 (base + ARM_GICD_ICPENDRnE) i) 0xFFFFFFFF
              (out32 (reg32 (base + ARM_GICD_ICENABLERnE) i) 0xFFFFFFFF b))) b;
         b = for_up 0 (8 * lines) (\<lambda>i. out32 (reg32 (base + ARM_GICD_IPRIORITYnE) i) 0xA0A0A0A0) b
     in for_up 0 (unat (32 * espilines_of t div 16)) (\<lambda>i. out32 (reg32 (base + ARM_GICD_ICFGRnE) i) 0) b)"

text \<open>With two security states the routing is enabled by a write of its own.\<close>
definition enable_gicd :: "paddr \<Rightarrow> u32 \<Rightarrow> bus \<Rightarrow> bus" where
  "enable_gicd base t b =
    (if typer_SecurityExtn t then
       out32 (base + ARM_GICD_CTLR) (GICD_CTLR_ARE_NS OR GICD_CTLR_ENABLEGRP1A_NS)
         (dsb (out32 (base + ARM_GICD_CTLR) GICD_CTLR_ARE_NS b))
     else out32 (base + ARM_GICD_CTLR) (GICD_CTLR_ARE_1s OR GICD_CTLR_ENABLEGRP1_1s) b)"

text \<open>The affinity fields of MPIDR, without the routing mode.\<close>
definition affinity_of :: "u64 \<Rightarrow> u64" where
  "affinity_of mpidr = mpidr AND 0xff00ffffff"

definition route_spis :: "paddr \<Rightarrow> u32 \<Rightarrow> u64 \<Rightarrow> bus \<Rightarrow> bus" where
  "route_spis base t aff b =
    for_up 32 (unat (itn_of t)) (\<lambda>i. out64 (reg64 (base + ARM_GICD_IROUTERn) i) aff) b"

definition route_espis :: "paddr \<Rightarrow> u32 \<Rightarrow> u64 \<Rightarrow> bus \<Rightarrow> bus" where
  "route_espis base t aff b =
    for_up 0 (unat (32 * espilines_of t)) (\<lambda>i b. dsb (out64 (reg64 (base + ARM_GICD_IROUTERnE) i) aff b)) b"

text \<open>gic\_v3\_initialize from the disabling of the distributor to the routing.\<close>
definition init_distributor :: "hw \<Rightarrow> paddr \<Rightarrow> bus \<Rightarrow> bus res" where
  "init_distributor d base b =
    (let ctlr = base + ARM_GICD_CTLR in
     and_then (wait_for_rwp d ctlr 0x80000000 (out32 ctlr 0 b)) (\<lambda>b.
     let (t, b) = in32 d (base + ARM_GICD_TYPER) b in
     and_then (wait_for_rwp d ctlr 0x80000000 (reset_spis base t b)) (\<lambda>b.
     and_then (wait_for_rwp d ctlr 0x80000000 (reset_espis base t b)) (\<lambda>b.
     and_then (wait_for_rwp d ctlr 0x80000000 (enable_gicd base t b)) (\<lambda>b.
     let (mpidr, b) = sr_rd64 d MPIDR_EL1 b; aff = affinity_of mpidr in
     ok (route_espis base t aff (route_spis base t aff b)))))))"

text \<open>The checks at the start of gic\_v3\_initialize: the memory mapped callouts are forced when the
  processor has no system registers for the controller, and they need the address of the interface.
  Every processor's entry of the map becomes all ones; more processors than entries would be written
  past the section.\<close>
definition init_checks :: "gic_env \<Rightarrow> gic_state \<Rightarrow> gic_state res" where
  "init_checks e g =
    and_then (addressed g) (\<lambda>_.
    let (mm, b) =
          (if use_mm_callouts g then (True, g_bus g)
           else let (v, b) = sr_rd64 (ge_hw e) ID_AA64PFR0_EL1 (g_bus g) in (v AND push_bit 24 0xF = 0, b));
        g = (set_bus b g)\<lparr>use_mm_callouts := mm\<rparr>;
        n = unat (ge_max_cpu e) in
    and_then (assert_that (\<not> mm \<or> gicc g \<noteq> NULL_PADDR)) (\<lambda>_.
    if n \<le> length (gic_map g) then ok (g\<lparr>gic_map := replicate n (NOT 0) @ drop n (gic_map g)\<rparr>) else stray))"

section \<open>What the registers hold afterwards\<close>

text \<open>The last value written at an offset of the frame of 64 KB at base.\<close>
definition view :: "paddr \<Rightarrow> bus \<Rightarrow> nat \<Rightarrow> u32 option" where
  "view base b k = last32 b (base + of_nat k)"

definition view64 :: "paddr \<Rightarrow> bus \<Rightarrow> nat \<Rightarrow> u64 option" where
  "view64 base b k = last64 b (base + of_nat k)"

definition FRAME :: nat where "FRAME = 0x10000"

lemma offset_inj: "j < FRAME \<Longrightarrow> k < FRAME \<Longrightarrow> (of_nat j :: paddr) = of_nat k \<longleftrightarrow> j = k"
  by (simp add: FRAME_def word_of_nat_eq_iff take_bit_nat_eq_self)

lemma reg_at: "reg32 (base + c) i = base + of_nat (unat c + 4 * i)" "reg64 (base + c) i = base + of_nat (unat c + 8 * i)"
  by (simp_all add: reg32_def reg64_def)

lemma view_out32:
  "j < FRAME \<Longrightarrow> k < FRAME \<Longrightarrow> view base (out32 (base + of_nat j) v b) k = (if k = j then Some v else view base b k)"
  "view64 base (out32 a v b) k = view64 base b k"
  by (auto simp: view_def view64_def bus_simps offset_inj)

lemma view_out64:
  "j < FRAME \<Longrightarrow> k < FRAME \<Longrightarrow> view64 base (out64 (base + of_nat j) w b) k = (if k = j then Some w else view64 base b k)"
  "view base (out64 a w b) k = view base b k"
  by (auto simp: view_def view64_def bus_simps offset_inj)

lemma view_other [simp]:
  "view base (dsb b) = view base b" "view64 base (dsb b) = view64 base b"
  "view base (R32 a # b) = view base b" "view64 base (R32 a # b) = view64 base b"
  "view base (RSys r # b) = view base b" "view64 base (RSys r # b) = view64 base b"
  by (auto simp: view_def view64_def dsb_def)

lemma view_rwp: "wait_for_rwp d a m b = ok b' \<Longrightarrow> view base b' = view base b \<and> view64 base b' = view64 base b"
  by (frule wait_for_rwp_last32, drule wait_for_rwp_last64) (simp add: view_def view64_def fun_eq_iff)

text \<open>A loop whose bodies each write the same value at the offsets k of a set.\<close>
lemma loop_writes:
  assumes "\<And>i b. lo \<le> i \<Longrightarrow> i < hi \<Longrightarrow> f (g i b) k = (if Q i then Some v else f b k)"
  shows "f (for_up lo hi g b) k = (if \<exists>i. lo \<le> i \<and> i < hi \<and> Q i then Some v else f b k)"
proof (cases "lo \<le> hi")
  case True
  show ?thesis
    by (rule for_up_rule [where P = "\<lambda>n b'. f b' k = (if \<exists>i. lo \<le> i \<and> i < n \<and> Q i then Some v else f b k)", OF _ _ True])
      (auto simp: assms less_Suc_eq)
qed auto

definition bank :: "nat \<Rightarrow> nat \<Rightarrow> nat \<Rightarrow> nat \<Rightarrow> bool" where
  "bank c lo hi k \<longleftrightarrow> c + 4 * lo \<le> k \<and> k < c + 4 * hi \<and> (k - c) mod 4 = 0"

lemma bank_iff: "bank c lo hi k \<longleftrightarrow> (\<exists>i. lo \<le> i \<and> i < hi \<and> k = c + 4 * i)"
proof
  assume b: "bank c lo hi k"
  then have "k = c + 4 * ((k - c) div 4)" by (auto simp: bank_def)
  then show "\<exists>i. lo \<le> i \<and> i < hi \<and> k = c + 4 * i"
    using b by (intro exI [of _ "(k - c) div 4"]) (auto simp: bank_def)
qed (auto simp: bank_def)

lemma view_bank:
  assumes "unat c + 4 * hi \<le> FRAME" "k < FRAME"
  shows "view base (for_up lo hi (\<lambda>i. out32 (reg32 (base + c) i) v) b) k =
    (if bank (unat c) lo hi k then Some v else view base b k)"
    "view64 base (for_up lo hi (\<lambda>i. out32 (reg32 (base + c) i) v) b) k = view64 base b k"
proof -
  show "view base (for_up lo hi (\<lambda>i. out32 (reg32 (base + c) i) v) b) k =
      (if bank (unat c) lo hi k then Some v else view base b k)"
    unfolding bank_iff by (rule loop_writes) (use assms in \<open>simp only: reg_at, subst view_out32, auto\<close>)
  show "view64 base (for_up lo hi (\<lambda>i. out32 (reg32 (base + c) i) v) b) k = view64 base b k"
    by (subst loop_writes [where Q = "\<lambda>_. False"]) (simp_all add: view_out32)
qed

lemma itlines_le: "unat (itlines_of t) \<le> 32" "1 \<le> unat (itlines_of t)"
proof -
  have "typer_ITLN t \<le> 31" unfolding typer_ITLN_def by (rule order_trans [OF word_and_le1]) simp
  then have l: "unat (typer_ITLN t) \<le> 31" by (simp add: word_le_nat_alt)
  then have "unat (itlines_of t) = unat (typer_ITLN t) + 1"
    unfolding itlines_of_def by (subst unat_add_lem [THEN iffD1]) auto
  with l show "unat (itlines_of t) \<le> 32" "1 \<le> unat (itlines_of t)" by auto
qed

lemma unat_itn: "unat (itn_of t) = min 1020 (32 * unat (itlines_of t))"
proof -
  have l: "unat (itlines_of t) \<le> 32" by (rule itlines_le)
  then have m: "unat (itlines_of t * 32) = unat (itlines_of t) * 32"
    by (subst unat_mult_lem [THEN iffD1]) auto
  show ?thesis
    by (auto simp: itn_of_def ARM_GIC_SPI_MAX_IRQ_def word_less_nat_alt m min_def)
qed

lemma espilines_le: "unat (espilines_of t) \<le> 32"
proof -
  have "typer_ESPI_RANGE t = drop_bit 27 t AND 0x1F"
    unfolding typer_ESPI_RANGE_def by (rule bit_word_eqI) (auto simp: bit_simps)
  then have "typer_ESPI_RANGE t \<le> 31" by (metis word_and_le1 numeral_eq_iff order_trans order_refl)
  then have l: "unat (typer_ESPI_RANGE t) \<le> 31" by (simp add: word_le_nat_alt)
  then have "unat (typer_ESPI_RANGE t + 1) = unat (typer_ESPI_RANGE t) + 1"
    by (subst unat_add_lem [THEN iffD1]) auto
  with l show ?thesis by (auto simp: espilines_of_def)
qed

lemma unat_espin: "unat (32 * espilines_of t) = 32 * unat (espilines_of t)"
  using espilines_le [of t] by (subst unat_mult_lem [THEN iffD1]) auto

lemma view_reset_spis:
  assumes k: "k < FRAME"
  shows "view base (reset_spis base t b) k =
    (let n = unat (itlines_of t) in
     if bank 0xC00 2 (unat (itn_of t) div 16) k then Some 0
     else if bank 0x400 8 (8 * n) k then Some 0xA0A0A0A0
     else if bank 0xD00 1 n k then Some 0
     else if bank 0x80 1 n k \<or> bank 0x180 1 n k \<or> bank 0x280 1 n k then Some 0xFFFFFFFF
     else view base b k)"
    "view64 base (reset_spis base t b) k = view64 base b k"
proof -
  let ?n = "unat (itlines_of t)" and ?v = "if 0xD00 \<le> k then 0 else 0xFFFFFFFF :: u32"
  have n: "?n \<le> 32" by (rule itlines_le)
  have itn: "unat (itn_of t div 16) = unat (itn_of t) div 16" by (simp add: unat_div)
  have "unat (itn_of t) div 16 \<le> 64" using n by (simp add: unat_itn)
  then have lim: "unat ARM_GICD_ICFGRn + 4 * unat (itn_of t div 16) \<le> FRAME"
      "unat ARM_GICD_IPRIORITYn + 4 * (8 * ?n) \<le> FRAME"
    using n by (simp_all add: itn gicd_regs FRAME_def)
  let ?g = "\<lambda>i b. out32 (reg32 (base + ARM_GICD_IGRPMODRn) i) 0
              (out32 (reg32 (base + ARM_GICD_IGROUPRn) i) 0xFFFFFFFF
              (out32 (reg32 (base + ARM_GICD_ICPENDRn) i) 0xFFFFFFFF
              (out32 (reg32 (base + ARM_GICD_ICENABLERn) i) 0xFFFFFFFF b)))"
  let ?Q = "\<lambda>i. k = 0xD00 + 4 * i \<or> k = 0x80 + 4 * i \<or> k = 0x280 + 4 * i \<or> k = 0x180 + 4 * i"
  have body: "view base (?g i b) k = (if ?Q i then Some ?v else view base b k)" if "1 \<le> i" "i < ?n" for i b
  proof -
    have i: "i < 32" using that(2) n by simp
    then have "4 * i + 0xD00 < FRAME" by (simp add: FRAME_def)
    then show ?thesis
      using i k by (simp only: reg_at) (simp add: gicd_regs view_out32 del: of_nat_add of_nat_mult)
  qed
  have quad: "view base (for_up 1 ?n ?g b) k = (if \<exists>i. 1 \<le> i \<and> i < ?n \<and> ?Q i then Some ?v else view base b k)"
    by (rule loop_writes) (rule body)
  have "(\<exists>i. 1 \<le> i \<and> i < ?n \<and> ?Q i) \<longleftrightarrow> bank 0xD00 1 ?n k \<or> bank 0x80 1 ?n k \<or> bank 0x280 1 ?n k \<or> bank 0x180 1 ?n k"
    unfolding bank_iff by blast
  moreover have "bank 0xD00 1 ?n k \<Longrightarrow> 0xD00 \<le> k"
    "bank 0x80 1 ?n k \<or> bank 0x280 1 ?n k \<or> bank 0x180 1 ?n k \<Longrightarrow> k < 0xD00"
    using n by (auto simp: bank_def)
  ultimately show "view base (reset_spis base t b) k =
    (let n = unat (itlines_of t) in
     if bank 0xC00 2 (unat (itn_of t) div 16) k then Some 0
     else if bank 0x400 8 (8 * n) k then Some 0xA0A0A0A0
     else if bank 0xD00 1 n k then Some 0
     else if bank 0x80 1 n k \<or> bank 0x180 1 n k \<or> bank 0x280 1 n k then Some 0xFFFFFFFF
     else view base b k)"
    unfolding reset_spis_def Let_def view_bank(1) [OF lim(1) k] view_bank(1) [OF lim(2) k] quad
    by (auto simp: gicd_regs itn)
  have "view64 base (for_up 1 ?n ?g b) k = view64 base b k"
    by (subst loop_writes [where Q = "\<lambda>_. False"]) (simp_all add: view_out32)
  then show "view64 base (reset_spis base t b) k = view64 base b k"
    unfolding reset_spis_def Let_def view_bank(2) [OF lim(1) k] view_bank(2) [OF lim(2) k] .
qed

lemma view_reset_espis:
  assumes k: "k < FRAME"
  shows "view base (reset_espis base t b) k =
    (let n = unat (espilines_of t) in
     if bank 0x3000 0 (2 * n) k then Some 0
     else if bank 0x2000 0 (8 * n) k then Some 0xA0A0A0A0
     else if bank 0x3400 0 n k then Some 0
     else if bank 0x1400 0 n k \<or> bank 0x1800 0 n k then Some 0xFFFFFFFF
     else view base b k)"
    "view64 base (reset_espis base t b) k = view64 base b k"
proof -
  let ?n = "unat (espilines_of t)" and ?v = "if 0x3400 \<le> k then 0 else 0xFFFFFFFF :: u32"
  have n: "?n \<le> 32" by (rule espilines_le)
  have esp: "unat (32 * espilines_of t div 16) = 2 * ?n"
    using unat_espin [of t] by (simp add: unat_div)
  have lim: "unat ARM_GICD_ICFGRnE + 4 * unat (32 * espilines_of t div 16) \<le> FRAME"
      "unat ARM_GICD_IPRIORITYnE + 4 * (8 * ?n) \<le> FRAME"
    unfolding esp using n by (simp_all add: gicd_regs FRAME_def)
  let ?g = "\<lambda>i b. out32 (reg32 (base + ARM_GICD_IGRPMODRnE) i) 0
              (out32 (reg32 (base + ARM_GICD_ICPENDRnE) i) 0xFFFFFFFF
              (out32 (reg32 (base + ARM_GICD_ICENABLERnE) i) 0xFFFFFFFF b))"
  let ?Q = "\<lambda>i. k = 0x3400 + 4 * i \<or> k = 0x1800 + 4 * i \<or> k = 0x1400 + 4 * i"
  have body: "view base (?g i b) k = (if ?Q i then Some ?v else view base b k)" if "0 \<le> i" "i < ?n" for i b
  proof -
    have i: "i < 32" using that(2) n by simp
    then have "4 * i + 0x3400 < FRAME" by (simp add: FRAME_def)
    then show ?thesis
      using i k by (simp only: reg_at) (simp add: gicd_regs view_out32 del: of_nat_add of_nat_mult)
  qed
  have three: "view base (for_up 0 ?n ?g b) k = (if \<exists>i. 0 \<le> i \<and> i < ?n \<and> ?Q i then Some ?v else view base b k)"
    by (rule loop_writes) (rule body)
  have "(\<exists>i. 0 \<le> i \<and> i < ?n \<and> ?Q i) \<longleftrightarrow> bank 0x3400 0 ?n k \<or> bank 0x1800 0 ?n k \<or> bank 0x1400 0 ?n k"
    unfolding bank_iff by blast
  moreover have "bank 0x3400 0 ?n k \<Longrightarrow> 0x3400 \<le> k" "bank 0x1800 0 ?n k \<or> bank 0x1400 0 ?n k \<Longrightarrow> k < 0x3400"
    using n by (auto simp: bank_def)
  ultimately show "view base (reset_espis base t b) k =
    (let n = unat (espilines_of t) in
     if bank 0x3000 0 (2 * n) k then Some 0
     else if bank 0x2000 0 (8 * n) k then Some 0xA0A0A0A0
     else if bank 0x3400 0 n k then Some 0
     else if bank 0x1400 0 n k \<or> bank 0x1800 0 n k then Some 0xFFFFFFFF
     else view base b k)"
    unfolding reset_espis_def Let_def view_bank(1) [OF lim(1) k] view_bank(1) [OF lim(2) k] three
    by (auto simp: gicd_regs esp)
  have "view64 base (for_up 0 ?n ?g b) k = view64 base b k"
    by (subst loop_writes [where Q = "\<lambda>_. False"]) (simp_all add: view_out32)
  then show "view64 base (reset_espis base t b) k = view64 base b k"
    unfolding reset_espis_def Let_def view_bank(2) [OF lim(1) k] view_bank(2) [OF lim(2) k] .
qed

lemma view_routes:
  assumes k: "k < FRAME"
  shows "view64 base (route_spis base t aff b) k =
      (if \<exists>i. 32 \<le> i \<and> i < unat (itn_of t) \<and> k = 0x6000 + 8 * i then Some aff else view64 base b k)"
    "view64 base (route_espis base t aff b) k =
      (if \<exists>i. 0 \<le> i \<and> i < 32 * unat (espilines_of t) \<and> k = 0x8000 + 8 * i then Some aff else view64 base b k)"
    "view base (route_spis base t aff b) k = view base b k"
    "view base (route_espis base t aff b) k = view base b k"
proof -
  have itn: "unat (itn_of t) \<le> 1020" by (simp add: unat_itn)
  have esp: "unat (espilines_of t) \<le> 32" by (rule espilines_le)
  show "view64 base (route_spis base t aff b) k =
      (if \<exists>i. 32 \<le> i \<and> i < unat (itn_of t) \<and> k = 0x6000 + 8 * i then Some aff else view64 base b k)"
    unfolding route_spis_def
  proof (rule loop_writes)
    fix i b assume "32 \<le> i" "i < unat (itn_of t)"
    then have "8 * i + 0x6000 < FRAME" using itn by (simp add: FRAME_def)
    then show "view64 base (out64 (reg64 (base + ARM_GICD_IROUTERn) i) aff b) k =
        (if k = 0x6000 + 8 * i then Some aff else view64 base b k)"
      using k by (simp only: reg_at) (simp add: gicd_regs view_out64 del: of_nat_add of_nat_mult)
  qed
  show "view64 base (route_espis base t aff b) k =
      (if \<exists>i. 0 \<le> i \<and> i < 32 * unat (espilines_of t) \<and> k = 0x8000 + 8 * i then Some aff else view64 base b k)"
    unfolding route_espis_def unat_espin
  proof (rule loop_writes)
    fix i b assume "0 \<le> i" "i < 32 * unat (espilines_of t)"
    then have "8 * i + 0x8000 < FRAME" using esp by (simp add: FRAME_def)
    then show "view64 base (dsb (out64 (reg64 (base + ARM_GICD_IROUTERnE) i) aff b)) k =
        (if k = 0x8000 + 8 * i then Some aff else view64 base b k)"
      using k by (simp only: reg_at view_other) (simp add: gicd_regs view_out64 del: of_nat_add of_nat_mult)
  qed
  show "view base (route_spis base t aff b) k = view base b k"
    unfolding route_spis_def by (subst loop_writes [where Q = "\<lambda>_. False"]) (simp_all add: view_out64)
  show "view base (route_espis base t aff b) k = view base b k"
    unfolding route_espis_def by (subst loop_writes [where Q = "\<lambda>_. False"]) (simp_all add: view_out64)
qed

lemma view_ctlr:
  "k < FRAME \<Longrightarrow> view base (out32 (base + ARM_GICD_CTLR) v b) k = (if k = 0 then Some v else view base b k)"
  using view_out32(1) [of 0 k base v b] by (simp add: gicd_regs FRAME_def)

lemma view_enable:
  assumes k: "k < FRAME"
  shows "view base (enable_gicd base t b) k = (if k = 0 then Some 0x12 else view base b k)"
    "view64 base (enable_gicd base t b) k = view64 base b k"
  by (auto simp: enable_gicd_def view_ctlr [OF k] view_ctlr [of 0] FRAME_def view_out32(2) GICD_CTLR_ENABLEGRP1A_NS_def GICD_CTLR_ARE_NS_def
      GICD_CTLR_ENABLEGRP1_1s_def GICD_CTLR_ARE_1s_def)

text \<open>A distributor that settles and reports fixed values.\<close>
definition dist_ok :: "hw \<Rightarrow> paddr \<Rightarrow> u32 \<Rightarrow> u64 \<Rightarrow> bool" where
  "dist_ok d base t mpidr \<longleftrightarrow> settles d (base + ARM_GICD_CTLR) (\<lambda>v. v AND 0x80000000 = 0) \<and>
     (\<forall>b. rd32 d b (base + ARM_GICD_TYPER) = t) \<and> (\<forall>b. rdsys d b MPIDR_EL1 = mpidr)"

lemma init_distributor_run:
  assumes "dist_ok d base t mpidr"
  shows "\<exists>b1 b2 b3 b4 b'. init_distributor d base b = ok b' \<and>
    view base b1 = view base (out32 (base + ARM_GICD_CTLR) 0 b) \<and>
    view64 base b1 = view64 base (out32 (base + ARM_GICD_CTLR) 0 b) \<and>
    view base b2 = view base (reset_spis base t b1) \<and> view64 base b2 = view64 base (reset_spis base t b1) \<and>
    view base b3 = view base (reset_espis base t b2) \<and> view64 base b3 = view64 base (reset_espis base t b2) \<and>
    view base b4 = view base (enable_gicd base t b3) \<and> view64 base b4 = view64 base (enable_gicd base t b3) \<and>
    b' = route_espis base t (affinity_of mpidr) (route_spis base t (affinity_of mpidr) b4)"
proof -
  let ?c = "base + ARM_GICD_CTLR"
  have "\<exists>b'. wait_for_rwp d ?c 0x80000000 b = ok b'" for b
    using wait_for_rwp_total [of d ?c "0x80000000" b] assms by (auto simp: dist_ok_def)
  then obtain w where w: "wait_for_rwp d ?c 0x80000000 b = ok (w b)" for b by metis
  note v = view_rwp [OF w, of base]
  let ?b1 = "R32 (base + ARM_GICD_TYPER) # w (out32 ?c 0 b)"
  let ?b2 = "w (reset_spis base t ?b1)"
  let ?b3 = "w (reset_espis base t ?b2)"
  let ?b4 = "RSys MPIDR_EL1 # w (enable_gicd base t ?b3)"
  show ?thesis
    by (rule exI [of _ ?b1], rule exI [of _ ?b2], rule exI [of _ ?b3], rule exI [of _ ?b4],
        rule exI [of _ "route_espis base t (affinity_of mpidr) (route_spis base t (affinity_of mpidr) ?b4)"])
      (use assms in \<open>simp add: init_distributor_def w v in32_def sr_rd64_def dist_ok_def Let_def\<close>)
qed

text \<open>The values the initialisation leaves in the 32 bit registers, and the routing registers.\<close>
definition gicd_value :: "u32 \<Rightarrow> nat \<Rightarrow> u32 option" where
  "gicd_value t k =
      (let n = unat (itlines_of t); m = unat (espilines_of t) in
       if k = 0 then Some 0x12
       else if bank 0x3000 0 (2 * m) k then Some 0
       else if bank 0x2000 0 (8 * m) k then Some 0xA0A0A0A0
       else if bank 0x3400 0 m k then Some 0
       else if bank 0x1400 0 m k \<or> bank 0x1800 0 m k then Some 0xFFFFFFFF
       else if bank 0xC00 2 (unat (itn_of t) div 16) k then Some 0
       else if bank 0x400 8 (8 * n) k then Some 0xA0A0A0A0
       else if bank 0xD00 1 n k then Some 0
       else if bank 0x80 1 n k \<or> bank 0x180 1 n k \<or> bank 0x280 1 n k then Some 0xFFFFFFFF
       else None)"

definition routed :: "u32 \<Rightarrow> nat \<Rightarrow> bool" where
  "routed t k \<longleftrightarrow> (\<exists>i. i < 32 * unat (espilines_of t) \<and> k = 0x8000 + 8 * i) \<or>
     (\<exists>i. 32 \<le> i \<and> i < unat (itn_of t) \<and> k = 0x6000 + 8 * i)"

lemma init_distributor_view:
  assumes "dist_ok d base t mpidr"
  obtains b' where "init_distributor d base b = ok b'"
    and "\<And>k. k < FRAME \<Longrightarrow> view base b' k =
      (case gicd_value t k of Some v \<Rightarrow> Some v | None \<Rightarrow> view base b k)"
    and "\<And>k. k < FRAME \<Longrightarrow> view64 base b' k =
      (if routed t k then Some (affinity_of mpidr) else view64 base b k)"
proof -
  obtain b1 b2 b3 b4 b' where run: "init_distributor d base b = ok b'"
    and v1: "view base b1 = view base (out32 (base + ARM_GICD_CTLR) 0 b)"
      "view64 base b1 = view64 base (out32 (base + ARM_GICD_CTLR) 0 b)"
    and v2: "view base b2 = view base (reset_spis base t b1)" "view64 base b2 = view64 base (reset_spis base t b1)"
    and v3: "view base b3 = view base (reset_espis base t b2)" "view64 base b3 = view64 base (reset_espis base t b2)"
    and v4: "view base b4 = view base (enable_gicd base t b3)" "view64 base b4 = view64 base (enable_gicd base t b3)"
    and b': "b' = route_espis base t (affinity_of mpidr) (route_spis base t (affinity_of mpidr) b4)"
    using init_distributor_run [OF assms, of b] by (elim exE conjE) (rule that)
  show ?thesis
  proof (rule that [OF run])
    fix k assume k: "k < FRAME"
    show "view base b' k =
      (case gicd_value t k of Some v \<Rightarrow> Some v | None \<Rightarrow> view base b k)"
      unfolding b' view_routes(3,4) [OF k] v4 view_enable [OF k] v3 view_reset_espis [OF k] v2 view_reset_spis [OF k]
        v1 view_ctlr [OF k] gicd_value_def Let_def by simp
    show "view64 base b' k =
      (if routed t k then Some (affinity_of mpidr) else view64 base b k)"
      unfolding b' view_routes(1,2) [OF k] v4 view_enable(2) [OF k] v3 view_reset_espis(2) [OF k] v2
        view_reset_spis(2) [OF k] v1 view_out32(2) routed_def by auto
  qed
qed

text \<open>C23: when the distributor settles, its initialisation returns, and afterwards every SPI the
  controller has is disabled, not pending, in group 1 of the non-secure state, of priority A0 and routed
  to the processor that runs the code; it is level triggered if it is below the last multiple of 16.
  The distributor is enabled with affinity routing.\<close>
theorem distributor_resets_spis:
  assumes "dist_ok d base t mpidr"
  shows "\<exists>b'. init_distributor d base b = ok b' \<and> view base b' 0 = Some 0x12 \<and>
    (\<forall>n. 32 \<le> n \<longrightarrow> n < unat (itn_of t) \<longrightarrow>
      view base b' (0x180 + 4 * (n div 32)) = Some 0xFFFFFFFF \<and>
      view base b' (0x280 + 4 * (n div 32)) = Some 0xFFFFFFFF \<and>
      view base b' (0x80 + 4 * (n div 32)) = Some 0xFFFFFFFF \<and>
      view base b' (0xD00 + 4 * (n div 32)) = Some 0 \<and>
      view base b' (0x400 + 4 * (n div 4)) = Some 0xA0A0A0A0 \<and>
      (n < unat (itn_of t) div 16 * 16 \<longrightarrow> view base b' (0xC00 + 4 * (n div 16)) = Some 0) \<and>
      view64 base b' (0x6000 + 8 * n) = Some (affinity_of mpidr))"
proof -
  obtain b' where run: "init_distributor d base b = ok b'"
    and v: "\<And>k. k < FRAME \<Longrightarrow> view base b' k = (case gicd_value t k of Some v \<Rightarrow> Some v | None \<Rightarrow> view base b k)"
    and r: "\<And>k. k < FRAME \<Longrightarrow> view64 base b' k = (if routed t k then Some (affinity_of mpidr) else view64 base b k)"
    by (rule init_distributor_view [OF assms]) (rule that)
  have lines: "unat (itlines_of t) \<le> 32" by (rule itlines_le)
  have "view base b' (0x180 + 4 * (n div 32)) = Some 0xFFFFFFFF \<and>
      view base b' (0x280 + 4 * (n div 32)) = Some 0xFFFFFFFF \<and>
      view base b' (0x80 + 4 * (n div 32)) = Some 0xFFFFFFFF \<and>
      view base b' (0xD00 + 4 * (n div 32)) = Some 0 \<and>
      view base b' (0x400 + 4 * (n div 4)) = Some 0xA0A0A0A0 \<and>
      (n < unat (itn_of t) div 16 * 16 \<longrightarrow> view base b' (0xC00 + 4 * (n div 16)) = Some 0) \<and>
      view64 base b' (0x6000 + 8 * n) = Some (affinity_of mpidr)"
    if n: "32 \<le> n" "n < unat (itn_of t)" for n
  proof -
    have l: "n < 1020" "n < 32 * unat (itlines_of t)" using n(2) unfolding unat_itn by simp_all
    have a: "1 \<le> n div 32" "n div 32 < unat (itlines_of t)" "n div 32 < 32" using n(1) l lines by auto
    have p: "8 \<le> n div 4" "n div 4 < 8 * unat (itlines_of t)" "n div 4 < 255" using n(1) l by auto
    have c: "2 \<le> n div 16" "n div 16 < 64" using n(1) l by auto
    have f: "0x180 + 4 * (n div 32) < FRAME" "0x280 + 4 * (n div 32) < FRAME" "0x80 + 4 * (n div 32) < FRAME"
      "0xD00 + 4 * (n div 32) < FRAME" "0x400 + 4 * (n div 4) < FRAME" "0xC00 + 4 * (n div 16) < FRAME"
      "0x6000 + 8 * n < FRAME"
      using a p c l by (simp_all add: FRAME_def)
    show ?thesis
    proof (intro conjI impI)
      show "view base b' (0x180 + 4 * (n div 32)) = Some 0xFFFFFFFF"
        unfolding v [OF f(1)] gicd_value_def Let_def using a lines by (simp add: bank_def)
      show "view base b' (0x280 + 4 * (n div 32)) = Some 0xFFFFFFFF"
        unfolding v [OF f(2)] gicd_value_def Let_def using a lines by (simp add: bank_def)
      show "view base b' (0x80 + 4 * (n div 32)) = Some 0xFFFFFFFF"
        unfolding v [OF f(3)] gicd_value_def Let_def using a lines by (simp add: bank_def)
      show "view base b' (0xD00 + 4 * (n div 32)) = Some 0"
        unfolding v [OF f(4)] gicd_value_def Let_def using a lines by (simp add: bank_def)
      show "view base b' (0x400 + 4 * (n div 4)) = Some 0xA0A0A0A0"
        unfolding v [OF f(5)] gicd_value_def Let_def using p lines by (simp add: bank_def)
      assume "n < unat (itn_of t) div 16 * 16"
      then have "n div 16 < unat (itn_of t) div 16" by (simp add: less_mult_imp_div_less)
      then show "view base b' (0xC00 + 4 * (n div 16)) = Some 0"
        unfolding v [OF f(6)] gicd_value_def Let_def using c lines by (simp add: bank_def)
    next
      show "view64 base b' (0x6000 + 8 * n) = Some (affinity_of mpidr)"
        unfolding r [OF f(7)] routed_def using n by auto
    qed
  qed
  then show ?thesis using run v [of 0] by (auto simp: FRAME_def gicd_value_def)
qed

text \<open>The same for the ESPIs, except for their group; nothing else of the distributor's frame is
  written, so that the group registers of the ESPIs (from 0x1000) and the configuration of SPIs above
  the last multiple of 16 keep what they hold.\<close>
lemma distributor_resets_espis:
  assumes "dist_ok d base t mpidr"
  shows "\<exists>b'. init_distributor d base b = ok b' \<and>
    (\<forall>n < 32 * unat (espilines_of t).
      view base b' (0x1400 + 4 * (n div 32)) = Some 0xFFFFFFFF \<and>
      view base b' (0x1800 + 4 * (n div 32)) = Some 0xFFFFFFFF \<and>
      view base b' (0x3400 + 4 * (n div 32)) = Some 0 \<and>
      view base b' (0x2000 + 4 * (n div 4)) = Some 0xA0A0A0A0 \<and>
      view base b' (0x3000 + 4 * (n div 16)) = Some 0 \<and>
      view64 base b' (0x8000 + 8 * n) = Some (affinity_of mpidr)) \<and>
    (\<forall>k. 0x1000 \<le> k \<longrightarrow> k < 0x1400 \<longrightarrow> view base b' k = view base b k) \<and>
    (\<forall>k. 0xC00 + 4 * (unat (itn_of t) div 16) \<le> k \<longrightarrow> k < 0xD00 \<longrightarrow> view base b' k = view base b k)"
proof -
  obtain b' where run: "init_distributor d base b = ok b'"
    and v: "\<And>k. k < FRAME \<Longrightarrow> view base b' k = (case gicd_value t k of Some v \<Rightarrow> Some v | None \<Rightarrow> view base b k)"
    and r: "\<And>k. k < FRAME \<Longrightarrow> view64 base b' k = (if routed t k then Some (affinity_of mpidr) else view64 base b k)"
    by (rule init_distributor_view [OF assms]) (rule that)
  have lines: "unat (itlines_of t) \<le> 32" by (rule itlines_le)
  have esp: "unat (espilines_of t) \<le> 32" by (rule espilines_le)
  have itn: "unat (itn_of t) div 16 \<le> 64" by (simp add: unat_itn)
  have "view base b' (0x1400 + 4 * (n div 32)) = Some 0xFFFFFFFF \<and>
      view base b' (0x1800 + 4 * (n div 32)) = Some 0xFFFFFFFF \<and>
      view base b' (0x3400 + 4 * (n div 32)) = Some 0 \<and>
      view base b' (0x2000 + 4 * (n div 4)) = Some 0xA0A0A0A0 \<and>
      view base b' (0x3000 + 4 * (n div 16)) = Some 0 \<and>
      view64 base b' (0x8000 + 8 * n) = Some (affinity_of mpidr)" if n: "n < 32 * unat (espilines_of t)" for n
  proof -
    have l: "n < 1024" using n esp by simp
    have a: "n div 32 < unat (espilines_of t)" "n div 32 < 32" using n esp by auto
    have p: "n div 4 < 8 * unat (espilines_of t)" "n div 4 < 256" using n l by auto
    have c: "n div 16 < 2 * unat (espilines_of t)" "n div 16 < 64" using n l by auto
    have f: "0x1400 + 4 * (n div 32) < FRAME" "0x1800 + 4 * (n div 32) < FRAME" "0x3400 + 4 * (n div 32) < FRAME"
      "0x2000 + 4 * (n div 4) < FRAME" "0x3000 + 4 * (n div 16) < FRAME" "0x8000 + 8 * n < FRAME"
      using a p c l by (simp_all add: FRAME_def)
    show ?thesis
    proof (intro conjI)
      show "view base b' (0x1400 + 4 * (n div 32)) = Some 0xFFFFFFFF"
        unfolding v [OF f(1)] gicd_value_def Let_def using a esp by (simp add: bank_def)
      show "view base b' (0x1800 + 4 * (n div 32)) = Some 0xFFFFFFFF"
        unfolding v [OF f(2)] gicd_value_def Let_def using a esp by (simp add: bank_def)
      show "view base b' (0x3400 + 4 * (n div 32)) = Some 0"
        unfolding v [OF f(3)] gicd_value_def Let_def using a esp by (simp add: bank_def)
      show "view base b' (0x2000 + 4 * (n div 4)) = Some 0xA0A0A0A0"
        unfolding v [OF f(4)] gicd_value_def Let_def using p esp by (simp add: bank_def)
      show "view base b' (0x3000 + 4 * (n div 16)) = Some 0"
        unfolding v [OF f(5)] gicd_value_def Let_def using c esp by (simp add: bank_def)
      show "view64 base b' (0x8000 + 8 * n) = Some (affinity_of mpidr)"
        unfolding r [OF f(6)] routed_def using n by auto
    qed
  qed
  moreover have "view base b' k = view base b k" if "0x1000 \<le> k" "k < 0x1400" for k
    using v [of k] that lines itn by (simp add: FRAME_def gicd_value_def Let_def bank_def)
  moreover have "view base b' k = view base b k" if "0xC00 + 4 * (unat (itn_of t) div 16) \<le> k" "k < 0xD00" for k
    using v [of k] that lines by (auto simp: FRAME_def gicd_value_def Let_def bank_def)
  ultimately show ?thesis using run by blast
qed

text \<open>With 32 register lines the interrupts 1008 to 1019 are such: their register is not written.\<close>
lemma last_spis_not_configured:
  "unat (itlines_of 0x1F) = 32" "unat (itn_of 0x1F) = 1020" "gicd_value 0x1F (0xC00 + 4 * (1008 div 16)) = None"
  by (simp_all add: itlines_of_def itn_of_def typer_ITLN_def ARM_GIC_SPI_MAX_IRQ_def gicd_value_def bank_def
      espilines_of_def typer_ESPI_def)

definition dist_ex :: hw where
  "dist_ex = \<lparr>rd32 = (\<lambda>b a. if a = 0x1000004 then 0x18000103 else 0), rd64 = (\<lambda>b a. 0),
     rdsys = (\<lambda>b r. 0x80000100), spins = 1\<rparr>"

lemma dist_ex_ok: "dist_ok dist_ex 0x1000000 0x18000103 0x80000100"
  by (auto simp: dist_ok_def dist_ex_def gicd_regs intro: settles_now)

lemma dist_ex_typer: "unat (itn_of 0x18000103) = 128" "unat (espilines_of 0x18000103) = 4"
  by (simp_all add: itn_of_def itlines_of_def typer_ITLN_def ARM_GIC_SPI_MAX_IRQ_def espilines_of_def typer_ESPI_def
      typer_ESPI_RANGE_def bit_iff_odd drop_bit_eq_div push_bit_eq_mult)

lemma distributor_resets_spis_witness:
  "\<exists>b'. init_distributor dist_ex 0x1000000 [] = ok b' \<and> view 0x1000000 b' (0x400 + 4 * 25) = Some 0xA0A0A0A0 \<and>
     view64 0x1000000 b' (0x6000 + 8 * 100) = Some 0x100"
proof -
  obtain b' where run: "init_distributor dist_ex 0x1000000 [] = ok b'"
    and n: "\<forall>n. 32 \<le> n \<longrightarrow> n < (128 :: nat) \<longrightarrow> view 0x1000000 b' (0x400 + 4 * (n div 4)) = Some 0xA0A0A0A0 \<and>
      view64 0x1000000 b' (0x6000 + 8 * n) = Some (affinity_of 0x80000100)"
    using distributor_resets_spis [OF dist_ex_ok, of "[]", unfolded dist_ex_typer] by blast
  from n [THEN spec, of 100] have "view 0x1000000 b' (0x400 + 4 * 25) = Some 0xA0A0A0A0"
    "view64 0x1000000 b' (0x6000 + 8 * 100) = Some 0x100"
    by (simp_all add: affinity_of_def)
  with run show ?thesis by blast
qed

lemma distributor_resets_espis_witness:
  "\<exists>b'. init_distributor dist_ex 0x1000000 [] = ok b' \<and> view 0x1000000 b' (0x1400 + 4 * 3) = Some 0xFFFFFFFF \<and>
     view 0x1000000 b' 0x1004 = None"
proof -
  obtain b' where run: "init_distributor dist_ex 0x1000000 [] = ok b'"
    and n: "\<forall>n < 32 * (4 :: nat). view 0x1000000 b' (0x1400 + 4 * (n div 32)) = Some 0xFFFFFFFF"
    and k: "\<forall>k. 0x1000 \<le> k \<longrightarrow> k < 0x1400 \<longrightarrow> view 0x1000000 b' k = view 0x1000000 [] k"
    using distributor_resets_espis [OF dist_ex_ok, of "[]", unfolded dist_ex_typer] by blast
  from n [THEN spec, of 100] k [THEN spec, of "0x1004"] have "view 0x1000000 b' (0x1400 + 4 * 3) = Some 0xFFFFFFFF"
    "view 0x1000000 b' 0x1004 = None"
    by (simp_all add: view_def)
  with run show ?thesis by blast
qed

end
