(* ===== verification/Gic_Init.thy ===== *)
theory Gic_Init
  imports Gic_Dist
begin

unbundle bit_operations_syntax

text \<open>
  gic\_v3\_initialize (startup/lib/aarch64/gic\_v3.c) after the reset of the distributor: the registers
  are mapped for the callouts, and the entries for PPIs, SPIs, ESPIs and LPIs get their patch data and are
  added to the interrupt section of the system page; with LPIs the configuration table is allocated
  and the translation service is initialised.  The loops over the three tables are instances of the
  locale entry\_table.
\<close>

section \<open>Registers and constants\<close>

definition ARM_GICR_PROPBASER :: paddr where "ARM_GICR_PROPBASER = 0x70"
definition ARM_GICC_SIZE :: u32 where "ARM_GICC_SIZE = 0x2000"

section \<open>Operations of other components on the state\<close>

definition io_map :: "gic_env \<Rightarrow> u32 \<Rightarrow> paddr \<Rightarrow> gic_state \<Rightarrow> (u64 \<times> gic_state) res" where
  "io_map e len a g =
    and_then (callout_io_map (ie_mmu (ge_its e)) len a (its_vm (g_its g))) (\<lambda>(va, v).
      ok (va, g\<lparr>g_its := (g_its g)\<lparr>its_vm := v\<rparr>\<rparr>))"

definition mem_map :: "gic_env \<Rightarrow> u32 \<Rightarrow> paddr \<Rightarrow> u32 \<Rightarrow> gic_state \<Rightarrow> (u64 \<times> gic_state) res" where
  "mem_map e len a prot g =
    and_then (callout_memory_map (ie_mmu (ge_its e)) len a prot (its_vm (g_its g))) (\<lambda>(va, v).
      ok (va, g\<lparr>g_its := (g_its g)\<lparr>its_vm := v\<rparr>\<rparr>))"

definition get_ram :: "gic_env \<Rightarrow> u64 \<Rightarrow> u32 \<Rightarrow> gic_state \<Rightarrow> (paddr \<times> gic_state) res" where
  "get_ram e sz align g =
    (let v = its_vm (g_its g) in
     and_then (alloc_ram (me_ram (ie_mmu (ge_its e))) NULL_PADDR sz align (vm_ram v)) (\<lambda>(a, r).
       ok (a, g\<lparr>g_its := (g_its g)\<lparr>its_vm := v\<lparr>vm_ram := r\<rparr>\<rparr>\<rparr>)))"

definition put_interrupt :: "gic_env \<Rightarrow> intrinfo \<Rightarrow> gic_state \<Rightarrow> gic_state res" where
  "put_interrupt e i g =
    (let v = its_vm (g_its g) in
     and_then (add_interrupt (me_ram (ie_mmu (ge_its e))) (ge_co e) i (g_co g, vm_ram v)) (\<lambda>(c, r).
       ok (g\<lparr>g_co := c, g_its := (g_its g)\<lparr>its_vm := v\<lparr>vm_ram := r\<rparr>\<rparr>\<rparr>)))"

section \<open>Mappings and the entry for PPIs\<close>

text \<open>The addresses that the callouts get.\<close>
record cb_vaddrs =
  cb_gicd :: u64
  cb_gicr :: u64
  cb_gicc :: u64

text \<open>The size of the redistributors is computed in 32 bits.\<close>
definition map_registers :: "gic_env \<Rightarrow> gic_state \<Rightarrow> (cb_vaddrs \<times> gic_state) res" where
  "map_registers e g =
    and_then (io_map e 0x10000 (gicd g) g) (\<lambda>(d, g).
    and_then (io_map e (push_bit (gicr_offset_shift_val g) 1 * gicr_index_limit g) (gicr g) g) (\<lambda>(r, g).
    let g = g\<lparr>gic_gicr_vaddr := r\<rparr> in
    and_then (if use_mm_callouts g then io_map e ARM_GICC_SIZE (gicc g) g else ok (0, g)) (\<lambda>(c, g).
      ok (\<lparr>cb_gicd = d, cb_gicr = r, cb_gicc = c\<rparr>, g))))"

text \<open>The entry for PPIs as it is added: with the memory mapped callouts, and its patch data.\<close>
definition ppi_entry :: "gic_env \<Rightarrow> cb_vaddrs \<Rightarrow> gic_state \<Rightarrow> intrinfo" where
  "ppi_entry e cb g =
    (let mm = use_mm_callouts g; i = gic_v3_intr_ppi (ge_abi e);
         i = (if mm then i\<lparr>in_id := intr_gen Interrupt_id_ppi_mm, in_eoi := intr_gen Interrupt_eoi_ppi_mm\<rparr> else i)
     in i\<lparr>in_patch := Some (Ppi_patch (if mm then cb_gicc cb else 0) (cb_gicr cb) (gicr_offset_shift_val g))\<rparr>)"

text \<open>The section for the redistributor indices has four bytes for each processor and is rounded up
  to eight.\<close>
definition init_ppis :: "gic_env \<Rightarrow> cb_vaddrs \<Rightarrow> gic_state \<Rightarrow> gic_state res" where
  "init_ppis e cb g =
    (let n = roundup (4 * unat (ie_num_cpu (ge_its e))) 8 in
     and_then (request n (sbud (g_lsp g))) (\<lambda>(_, b).
       let g = (set_lsp ((g_lsp g)\<lparr>sbud := b\<rparr>) g)\<lparr>gicr_map := replicate (n div 4) 0,
             gic_sendipi := Some (if use_mm_callouts g then Sendipi_mm else Sendipi_sr)\<rparr>
       in put_interrupt e (ppi_entry e cb g) g))"

section \<open>The entries for SPIs and ESPIs\<close>

text \<open>Message based interrupts are edge triggered.\<close>
definition trig_edges :: "gic_env \<Rightarrow> intrinfo \<Rightarrow> gic_state \<Rightarrow> gic_state res" where
  "trig_edges e i g =
    (if is_msi (ge_abi e) i then
       each (\<lambda>irq. gic_v3_set_intr_trig_mode e (of_nat irq) 1)
         [unat (vector_base i) ..< unat (vector_base i + num_vectors i)] g
     else ok g)"

text \<open>The entry and the patch data as they are completed; base is the first number of the kind.\<close>
definition spi_final :: "bool \<Rightarrow> cb_vaddrs \<Rightarrow> u32 \<Rightarrow> intrinfo \<times> spi_patch \<Rightarrow> intrinfo \<times> spi_patch" where
  "spi_final mm cb base ip =
    (case ip of (i, p) \<Rightarrow>
       let p = p\<lparr>sp_vec_off := vector_base i - base, sp_gicd_base_vaddr := cb_gicd cb\<rparr>;
           p = (if mm then p\<lparr>sp_gicc_base_vaddr := cb_gicc cb\<rparr> else p);
           i = (if mm then i\<lparr>in_eoi := (in_eoi i)\<lparr>ig_rtn := Some Interrupt_eoi_spi_mm\<rparr>\<rparr> else i)
       in (i\<lparr>in_patch := Some (Spi_patch p)\<rparr>, p))"

definition init_spi :: "gic_env \<Rightarrow> cb_vaddrs \<Rightarrow> nat \<Rightarrow> gic_state \<Rightarrow> gic_state res" where
  "init_spi e cb k g =
    (let ip = spi_final (use_mm_callouts g) cb ARM_GIC_SPI_MIN_IRQ (spi_co g ! k);
         g = g\<lparr>spi_co := (spi_co g)[k := ip]\<rparr> in
     and_then (trig_edges e (fst ip) g) (put_interrupt e (fst ip)))"

text \<open>When the board added no entry there is one for all SPIs; a failure is only printed.\<close>
definition default_spis :: "gic_env \<Rightarrow> gic_state \<Rightarrow> gic_state res" where
  "default_spis e g =
    (if spi_co g = [] then
       and_then (gic_v3_num_spis e g) (\<lambda>(n, g).
       let i = (gic_v3_intr_spi (ge_abi e))\<lparr>num_vectors := n\<rparr>;
           i = (if use_mm_callouts g then i\<lparr>in_eoi := intr_gen Interrupt_eoi_spi_mm\<rparr> else i) in
       and_then (gic_v3_spi_add_entry e i g) (\<lambda>(_, g). ok g))
     else ok g)"

definition init_spis :: "gic_env \<Rightarrow> cb_vaddrs \<Rightarrow> gic_state \<Rightarrow> gic_state res" where
  "init_spis e cb g =
    and_then (default_spis e g) (\<lambda>g. each (init_spi e cb) [0 ..< length (spi_co g)] g)"

definition init_espi :: "gic_env \<Rightarrow> cb_vaddrs \<Rightarrow> nat \<Rightarrow> gic_state \<Rightarrow> gic_state res" where
  "init_espi e cb k g =
    (let ip = spi_final (use_mm_callouts g) cb ARM_GIC_ESPI_MIN_IRQ (espi_co g ! k);
         g = g\<lparr>espi_co := (espi_co g)[k := ip]\<rparr> in
     and_then (trig_edges e (fst ip) g) (put_interrupt e (fst ip)))"

definition default_espis :: "gic_env \<Rightarrow> gic_state \<Rightarrow> gic_state res" where
  "default_espis e g =
    and_then (gic_v3_num_espis e g) (\<lambda>(n, g).
    if espi_co g = [] \<and> 0 < n then
      and_then (gic_v3_espi_add_entry e ((gic_v3_intr_espi (ge_abi e))\<lparr>num_vectors := n\<rparr>) g) (\<lambda>(_, g). ok g)
    else ok g)"

definition init_espis :: "gic_env \<Rightarrow> cb_vaddrs \<Rightarrow> gic_state \<Rightarrow> gic_state res" where
  "init_espis e cb g =
    and_then (default_espis e g) (\<lambda>g. each (init_espi e cb) [0 ..< length (espi_co g)] g)"
section \<open>LPIs\<close>

text \<open>The number of identifier bits: the loop starts at 14.  A shift by 64 places, which C leaves
  undefined, is not reached.\<close>
function id_bits :: "u32 \<Rightarrow> nat \<Rightarrow> nat" where
  "id_bits n bits = (if bits < 64 \<and> push_bit bits 1 < (ucast n :: u64) then id_bits n (bits + 1) else bits)"
  by auto
termination by (relation "measure (\<lambda>(n, bits). 64 - bits)") auto

declare id_bits.simps [simp del]

text \<open>The value for PROPBASER: address, attributes each in its field, and the identifier bits less one.\<close>
definition lpi_propbaser :: "gic_tbl_params \<Rightarrow> paddr \<Rightarrow> u32 \<Rightarrow> u64" where
  "lpi_propbaser m a n =
    a OR push_bit 7 (ucast (cache_inner m)) OR push_bit 56 (ucast (cache_outer m))
      OR push_bit 10 (ucast (shareability m)) OR of_nat (id_bits (n + ARM_GIC_LPI_MIN_IRQ) 14 - 1)"

text \<open>The attributes, given up when the shareability bits cannot be set, and the value for PROPBASER.\<close>
definition lpi_cfg_attr :: "gic_env \<Rightarrow> nat \<Rightarrow> paddr \<Rightarrow> u64 \<Rightarrow> gic_state \<Rightarrow> gic_state" where
  "lpi_cfg_attr e k a va g =
    (let t = lpi_cfg (g_lpi g) ! k; n = num_lpis (g_lpi g);
         (settable, b) = share_settable (ge_hw e) (gicr g + ARM_GICR_PROPBASER) (g_bus g);
         m = (if settable then lt_mem t else tbl_params_uncached);
         t = t\<lparr>lt_paddr := a, lt_vaddr := va, lt_mem := m, lt_propbaser := lpi_propbaser m a n\<rparr>
     in set_bus b (g\<lparr>g_lpi := (g_lpi g)\<lparr>lpi_cfg := (lpi_cfg (g_lpi g))[k := t]\<rparr>\<rparr>))"

definition lpi_cfg_table :: "gic_env \<Rightarrow> nat \<Rightarrow> gic_state \<Rightarrow> gic_state res" where
  "lpi_cfg_table e k g =
    (let t = lpi_cfg (g_lpi g) ! k; n = num_lpis (g_lpi g) in
     and_then (if lt_paddr t = NULL_PADDR then get_ram e (ucast n) ARM_GIC_ESPI_MIN_IRQ g else ok (lt_paddr t, g))
       (\<lambda>(a, g).
     and_then (assert_that (a \<noteq> NULL_PADDR)) (\<lambda>_.
     and_then (assert_that (a AND 0xFFFFFFFFFF000 = a)) (\<lambda>_.
     let p = a + ie_bias (ge_its e);
         g = set_bus (dcache_flush p (ucast n) (Fill p 0xA2 (ucast n) # g_bus g)) g in
     and_then (mem_map e n a (lt_mmap_flags t) g) (\<lambda>(va, g). ok (lpi_cfg_attr e k a va g))))))"

definition select_lpi_cfg_table :: "nat \<Rightarrow> gic_state \<Rightarrow> lpi_tbl_params" where
  "select_lpi_cfg_table cpu g = lpi_cfg (g_lpi g) ! 0"

text \<open>The entry and patch data of an LPI range behind the ITS.\<close>
definition lpi_final ::
  "bool \<Rightarrow> cb_vaddrs \<Rightarrow> u64 \<Rightarrow> u64 \<Rightarrow> u64 \<Rightarrow> u64 \<Rightarrow> u32 \<Rightarrow> intrinfo \<times> lpi_patch \<Rightarrow> intrinfo \<times> lpi_patch" where
  "lpi_final mm cb gits cfgtbl q lock lst ip =
    (case ip of (i, p) \<Rightarrow>
       let i = (if mm then i\<lparr>in_eoi := (in_eoi i)\<lparr>ig_rtn := Some Interrupt_eoi_lpi_mm\<rparr>\<rparr> else i);
           p = (if mm then p\<lparr>lp_gicc_base_vaddr := cb_gicc cb\<rparr> else p);
           p = p\<lparr>lp_its := \<lparr>li_gits_base_vaddr = gits, li_lpi_cfgtbl_vaddr = cfgtbl, li_cmd_q_vaddr = q,
                   li_cmd_q_lock_vaddr = lock, li_RDbase = 0, li_RDbase_offset = 1, li_cmd_q_last_offset = lst,
                   li_num_collections = 1, li_vec_off = vector_base i - ARM_GIC_LPI_MIN_IRQ\<rparr>\<rparr>
       in (i\<lparr>in_patch := Some (Lpi_patch p)\<rparr>, p))"

text \<open>Without an ITS the loop ends in ASSERT(0).\<close>
definition init_lpi :: "gic_env \<Rightarrow> cb_vaddrs \<Rightarrow> bool \<Rightarrow> nat \<Rightarrow> gic_state \<Rightarrow> gic_state res" where
  "init_lpi e cb its k g =
    and_then (assert_that its) (\<lambda>_.
    and_then (gic_v3_its_base_vaddr 0 (g_its g)) (\<lambda>gits.
    and_then (gic_v3_its_cmd_q_vaddr 0 (g_its g)) (\<lambda>q.
    and_then (gic_v3_its_cmd_q_lock_vaddr 0 (g_its g)) (\<lambda>lock.
    and_then (gic_v3_its_cmd_q_last_slot_offset (ge_its e) 0 (g_its g)) (\<lambda>(lst, s).
    let ip = lpi_final (use_mm_callouts g) cb gits (lt_vaddr (select_lpi_cfg_table 0 g)) q lock lst (lpi_co g ! k)
    in put_interrupt e (fst ip) (g\<lparr>g_its := s, lpi_co := (lpi_co g)[k := ip]\<rparr>))))))"

definition init_lpis :: "gic_env \<Rightarrow> cb_vaddrs \<Rightarrow> gic_state \<Rightarrow> gic_state res" where
  "init_lpis e cb g =
    (if 0 < num_lpis (g_lpi g) then
       and_then (gic_v3_num_lpis e g) (\<lambda>(n, g).
       and_then (assert_that (num_lpis (g_lpi g) \<le> n)) (\<lambda>_.
       and_then (assert_that (length (lpi_cfg (g_lpi g)) = 1)) (\<lambda>_.
       and_then (each (lpi_cfg_table e) [0 ..< length (lpi_cfg (g_lpi g))] g) (\<lambda>g.
       and_then (gic_v3_lpi_uses_its e g) (\<lambda>(its, g).
       and_then (if its then gic_v3_its_initialize (ge_its e) 0 (g_its g) else ok (g_its g)) (\<lambda>s.
       let g = g\<lparr>g_its := s\<rparr> in each (init_lpi e cb its) [0 ..< length (lpi_co g)] g))))))
     else ok g)"

section \<open>The whole function\<close>

text \<open>gic\_v3\_initialize; that it also makes gic\_v3\_gicc\_init the function for each processor is not part
  of the state.\<close>
definition gic_v3_initialize :: "gic_env \<Rightarrow> gic_state \<Rightarrow> gic_state res" where
  "gic_v3_initialize e g =
    and_then (init_checks e g) (\<lambda>g.
    and_then (init_distributor (ge_hw e) (gicd g) (g_bus g)) (\<lambda>b.
    and_then (map_registers e (set_bus b g)) (\<lambda>(cb, g).
    and_then (init_ppis e cb g) (\<lambda>g.
    and_then (init_spis e cb g) (\<lambda>g.
    and_then (init_espis e cb g) (\<lambda>g.
      init_lpis e cb g))))))"
section \<open>What the function adds to the interrupt section\<close>

text \<open>The slots of entry n are those of i, with its patch data registered for them.\<close>
definition registered :: "co_env \<Rightarrow> co_state \<Rightarrow> nat \<Rightarrow> intrinfo \<Rightarrow> bool" where
  "registered ce c n i \<longleftrightarrow> (\<forall>j < 5. co_fp c (Intr n j) = fp_of (entry_rtns i ! j) \<and>
     (\<forall>d x. in_patch i = Some d \<longrightarrow> entry_rtns i ! j = Some x \<longrightarrow> rtn_patcher (ce_rtn ce x) \<longrightarrow>
        map_of (co_patch c) (Intr n j) = Some d))"

text \<open>From c to c' exactly the entries is were added.\<close>
definition entered :: "co_env \<Rightarrow> co_state \<Rightarrow> intrinfo list \<Rightarrow> co_state \<Rightarrow> bool" where
  "entered ce c is c' \<longleftrightarrow> patch_known c' \<and> co_intrs c' = co_intrs c @ map (entry_of ce) is \<and>
     (\<forall>m < length (co_intrs c). \<forall>j. co_fp c' (Intr m j) = co_fp c (Intr m j) \<and>
        map_of (co_patch c') (Intr m j) = map_of (co_patch c) (Intr m j)) \<and>
     (\<forall>k < length is. registered ce c' (length (co_intrs c) + k) (is ! k))"

lemma entered_none: "patch_known c \<Longrightarrow> entered ce c [] c"
  by (simp add: entered_def)

lemma entered_trans:
  assumes "entered ce c is c1" "entered ce c1 js c2"
  shows "entered ce c (is @ js) c2"
proof -
  let ?n = "length (co_intrs c)"
  have len: "length (co_intrs c1) = ?n + length is"
    using assms(1) by (simp add: entered_def)
  have "registered ce c2 (?n + k) ((is @ js) ! k)" if "k < length (is @ js)" for k
  proof (cases "k < length is")
    case True
    then have "registered ce c1 (?n + k) (is ! k)" "?n + k < length (co_intrs c1)"
      using assms(1) len by (simp_all add: entered_def)
    then show ?thesis
      using assms(2) True by (simp add: registered_def entered_def nth_append)
  next
    case False
    then obtain j where k: "k = length is + j" by (metis le_Suc_ex not_less)
    then have "registered ce c2 (length (co_intrs c1) + j) (js ! j)"
      using assms(2) that by (simp add: entered_def)
    then show ?thesis
      by (simp add: k len nth_append add.assoc)
  qed
  then show ?thesis
    using assms len by (simp add: entered_def)
qed

text \<open>Only the part of the state below the controller changes.\<close>
definition only_its :: "gic_state \<Rightarrow> gic_state \<Rightarrow> bool" where
  "only_its g g' \<longleftrightarrow> g' = g\<lparr>g_its := g_its g'\<rparr>"

lemma only_its_refl [simp]: "only_its g g"
  by (simp add: only_its_def)

lemma only_its_trans: "only_its g g1 \<Longrightarrow> only_its g1 g2 \<Longrightarrow> only_its g g2"
  by (cases g, cases g1, cases g2) (simp add: only_its_def)

lemma only_its_upd [simp]: "only_its g (g\<lparr>g_its := s\<rparr>)" "only_its g (set_bus b g)" "only_its g (set_lsp l g)"
  by (simp_all add: only_its_def set_bus_def set_lsp_def)

lemma only_its_same:
  assumes "only_its g g'"
  shows "g_co g' = g_co g" "spi_co g' = spi_co g" "espi_co g' = espi_co g" "lpi_co g' = lpi_co g"
    "g_lpi g' = g_lpi g" "use_mm_callouts g' = use_mm_callouts g" "gic_sendipi g' = gic_sendipi g"
    "gicr_offset_shift_val g' = gicr_offset_shift_val g"
  by (subst assms [unfolded only_its_def], simp)+

lemma each_upt:
  assumes "each f [0 ..< n] s = ok s'" "P 0 s" "\<And>k s s'. k < n \<Longrightarrow> P k s \<Longrightarrow> f k s = ok s' \<Longrightarrow> P (Suc k) s'"
  shows "P n s'"
  using assms
proof (induction n arbitrary: s')
  case 0
  then show ?case by simp
next
  case (Suc n)
  have none: "each f [] = ok" by (rule ext) simp
  have app: "each f (xs @ [x]) = (\<lambda>s. and_then (each f xs s) (f x))" for xs x
    by (induction xs; rule ext) (simp_all add: none and_then_assoc)
  obtain t where t: "each f [0 ..< n] s = ok t" "f n t = ok s'"
    using Suc.prems(1) by (auto simp: app res_simps)
  have "P n t" by (rule Suc.IH [OF t(1) Suc.prems(2) Suc.prems(3)]) auto
  from Suc.prems(3) [OF _ this t(2)] show ?case by simp
qed

lemma each_only_its:
  assumes "each f xs g = ok g'" "\<And>x g g'. f x g = ok g' \<Longrightarrow> only_its g g'"
  shows "only_its g g'"
  using assms(1)
proof (induction xs arbitrary: g)
  case Nil
  then show ?case by simp
next
  case (Cons x xs)
  then obtain g1 where "f x g = ok g1" "each f xs g1 = ok g'" by (auto simp: res_simps)
  then show ?case using Cons.IH assms(2) only_its_trans by blast
qed

lemma read_count_only: "read_count f e g = ok (n, g') \<Longrightarrow> only_its g g'"
  by (auto simp: read_count_def res_simps split: prod.splits)

lemma trig_mode_only: "gic_v3_set_intr_trig_mode e irq edge g = ok g' \<Longrightarrow> only_its g g'"
  unfolding gic_v3_set_intr_trig_mode_def gic_v3_num_spis_def gic_v3_num_espis_def write_icfg_def
  by (auto simp: res_simps Let_def split: prod.splits if_splits dest!: read_count_only
      intro: only_its_trans only_its_upd(2))

lemma trig_edges_only: "trig_edges e i g = ok g' \<Longrightarrow> only_its g g'"
  unfolding trig_edges_def by (auto split: if_splits intro: each_only_its trig_mode_only)

lemma io_map_only: "io_map e len a g = ok (v, g') \<Longrightarrow> only_its g g'"
  by (auto simp: io_map_def res_simps)

lemma mem_map_only: "mem_map e len a p g = ok (v, g') \<Longrightarrow> only_its g g'"
  by (auto simp: mem_map_def res_simps)

lemma get_ram_only: "get_ram e sz al g = ok (a, g') \<Longrightarrow> only_its g g'"
  by (auto simp: get_ram_def res_simps Let_def)

lemma put_interrupt_ok:
  assumes "put_interrupt e i g = ok g'" "patch_known (g_co g)"
  shows "entered (ge_co e) (g_co g) [i] (g_co g') \<and> only_its (g\<lparr>g_co := g_co g'\<rparr>) g'"
proof -
  obtain c r where run: "add_interrupt (me_ram (ie_mmu (ge_its e))) (ge_co e) i
      (g_co g, vm_ram (its_vm (g_its g))) = ok (c, r)" and g': "g_co g' = c" "only_its (g\<lparr>g_co := c\<rparr>) g'"
    using assms(1) by (auto simp: put_interrupt_def res_simps Let_def only_its_def)
  from add_interrupt_ok [OF run assms(2)] show ?thesis
    by (simp add: g' entered_def registered_def)
qed
text \<open>A table of entries whose entries are completed one after the other and added to the section: body is
  the body of the loop, fin relates an entry to the completed one, keep is what stays.\<close>
locale entry_table =
  fixes ce :: co_env
    and tab :: "gic_state \<Rightarrow> (intrinfo \<times> 'p) list"
    and body :: "nat \<Rightarrow> gic_state \<Rightarrow> gic_state res"
    and fin :: "gic_state \<Rightarrow> intrinfo \<times> 'p \<Rightarrow> intrinfo \<times> 'p \<Rightarrow> bool"
    and keep :: "gic_state \<Rightarrow> gic_state \<Rightarrow> bool"
  assumes one_ok: "body k g = ok g' \<Longrightarrow> k < length (tab g) \<Longrightarrow> patch_known (g_co g) \<Longrightarrow>
      \<exists>ip. fin g (tab g ! k) ip \<and> tab g' = (tab g)[k := ip] \<and> entered ce (g_co g) [fst ip] (g_co g') \<and> keep g g'"
    and keep_refl: "keep g g"
    and keep_trans: "keep g h \<Longrightarrow> keep h h' \<Longrightarrow> keep g h'"
    and keep_fin: "keep g h \<Longrightarrow> fin h = fin g"
begin

lemma all_ok:
  assumes run: "each body [0 ..< length (tab g)] g = ok g'" and known: "patch_known (g_co g)"
  shows "list_all2 (fin g) (tab g) (tab g') \<and> entered ce (g_co g) (map fst (tab g')) (g_co g') \<and> keep g g'"
proof -
  let ?n = "length (tab g)"
  let ?P = "\<lambda>k h. \<exists>don. length don = k \<and> tab h = don @ drop k (tab g) \<and>
    list_all2 (fin g) (take k (tab g)) don \<and> entered ce (g_co g) (map fst don) (g_co h) \<and> keep g h"
  have "?P ?n g'"
  proof (rule each_upt [OF run])
    show "?P 0 g" using known by (simp add: entered_none keep_refl)
  next
    fix k h h'
    assume k: "k < ?n" and "?P k h" and step: "body k h = ok h'"
    then obtain don where d: "length don = k" "tab h = don @ drop k (tab g)"
      "list_all2 (fin g) (take k (tab g)) don" "entered ce (g_co g) (map fst don) (g_co h)" "keep g h"
      by (elim exE conjE) (rule that)
    have at: "tab h ! k = tab g ! k" "k < length (tab h)"
      using d(1,2) k by (simp_all add: nth_append)
    have "patch_known (g_co h)" using d(4) by (simp add: entered_def)
    from one_ok [OF step at(2) this] obtain ip where ip: "fin g (tab g ! k) ip" "tab h' = (tab h)[k := ip]"
      "entered ce (g_co h) [fst ip] (g_co h')" "keep h h'"
      unfolding keep_fin [OF d(5)] at(1) by blast
    have "tab h' = (don @ [ip]) @ drop (Suc k) (tab g)"
      using ip(2) d(1,2) k by (simp add: list_update_append Cons_nth_drop_Suc [symmetric])
    moreover have "list_all2 (fin g) (take (Suc k) (tab g)) (don @ [ip])"
      using d(3) ip(1) k by (simp add: take_Suc_conv_app_nth list_all2_appendI)
    moreover have "entered ce (g_co g) (map fst (don @ [ip])) (g_co h')"
      using entered_trans [OF d(4) ip(3)] by simp
    ultimately show "?P (Suc k) h'"
      using keep_trans [OF d(5) ip(4)] d(1) by (intro exI [of _ "don @ [ip]"]) simp
  qed
  then show ?thesis by auto
qed

end

text \<open>What the loops of the three tables leave alone.\<close>
definition keep_spi :: "gic_state \<Rightarrow> gic_state \<Rightarrow> bool" where
  "keep_spi g h \<longleftrightarrow> only_its (g\<lparr>g_co := g_co h, spi_co := spi_co h\<rparr>) h"

definition keep_espi :: "gic_state \<Rightarrow> gic_state \<Rightarrow> bool" where
  "keep_espi g h \<longleftrightarrow> only_its (g\<lparr>g_co := g_co h, espi_co := espi_co h\<rparr>) h"

definition keep_lpi :: "gic_state \<Rightarrow> gic_state \<Rightarrow> bool" where
  "keep_lpi g h \<longleftrightarrow> only_its (g\<lparr>g_co := g_co h, lpi_co := lpi_co h\<rparr>) h"

lemmas keep_defs = keep_spi_def keep_espi_def keep_lpi_def

lemma keep_trans:
  "keep_spi g h \<Longrightarrow> keep_spi h k \<Longrightarrow> keep_spi g k"
  "keep_espi g h \<Longrightarrow> keep_espi h k \<Longrightarrow> keep_espi g k"
  "keep_lpi g h \<Longrightarrow> keep_lpi h k \<Longrightarrow> keep_lpi g k"
  by (cases g, cases h, cases k, simp add: keep_defs only_its_def)+

definition spi_done :: "cb_vaddrs \<Rightarrow> u32 \<Rightarrow> gic_state \<Rightarrow> intrinfo \<times> spi_patch \<Rightarrow> intrinfo \<times> spi_patch \<Rightarrow> bool" where
  "spi_done cb base g ip ip' \<longleftrightarrow> ip' = spi_final (use_mm_callouts g) cb base ip"

definition lpi_done :: "cb_vaddrs \<Rightarrow> gic_state \<Rightarrow> intrinfo \<times> lpi_patch \<Rightarrow> intrinfo \<times> lpi_patch \<Rightarrow> bool" where
  "lpi_done cb g ip ip' \<longleftrightarrow> (\<exists>gits q lock lst.
     ip' = lpi_final (use_mm_callouts g) cb gits (lt_vaddr (select_lpi_cfg_table 0 g)) q lock lst ip)"

interpretation spis: entry_table "ge_co e" spi_co "init_spi e cb" "spi_done cb ARM_GIC_SPI_MIN_IRQ" keep_spi
  for e :: gic_env and cb :: cb_vaddrs
proof
  fix k :: nat and g g' :: gic_state
  let ?ip = "spi_final (use_mm_callouts g) cb ARM_GIC_SPI_MIN_IRQ (spi_co g ! k)"
  let ?g = "g\<lparr>spi_co := (spi_co g)[k := ?ip]\<rparr>"
  assume "init_spi e cb k g = ok g'" "k < length (spi_co g)" and known: "patch_known (g_co g)"
  then obtain h where h: "trig_edges e (fst ?ip) ?g = ok h" "put_interrupt e (fst ?ip) h = ok g'"
    by (auto simp: init_spi_def Let_def res_simps)
  note o = trig_edges_only [OF h(1)]
  have p: "entered (ge_co e) (g_co h) [fst ?ip] (g_co g') \<and> only_its (h\<lparr>g_co := g_co g'\<rparr>) g'"
    using h(2) known only_its_same(1) [OF o] by (intro put_interrupt_ok) simp_all
  have "keep_spi g g' \<and> spi_co g' = (spi_co g)[k := ?ip]"
    using o p by (cases g, cases h, cases g') (simp add: keep_defs only_its_def)
  then show "\<exists>ip. spi_done cb ARM_GIC_SPI_MIN_IRQ g (spi_co g ! k) ip \<and> spi_co g' = (spi_co g)[k := ip] \<and>
      entered (ge_co e) (g_co g) [fst ip] (g_co g') \<and> keep_spi g g'"
    using p only_its_same(1) [OF o] by (intro exI [of _ ?ip]) (simp add: spi_done_def)
next
  show "keep_spi g h \<Longrightarrow> spi_done cb ARM_GIC_SPI_MIN_IRQ h = spi_done cb ARM_GIC_SPI_MIN_IRQ g" for g h
    by (drule keep_spi_def [THEN iffD1, THEN only_its_same(6)]) (simp add: spi_done_def fun_eq_iff)
qed (auto simp: keep_spi_def only_its_def intro: keep_trans(1) [unfolded keep_spi_def only_its_def])

interpretation espis: entry_table "ge_co e" espi_co "init_espi e cb" "spi_done cb ARM_GIC_ESPI_MIN_IRQ" keep_espi
  for e :: gic_env and cb :: cb_vaddrs
proof
  fix k :: nat and g g' :: gic_state
  let ?ip = "spi_final (use_mm_callouts g) cb ARM_GIC_ESPI_MIN_IRQ (espi_co g ! k)"
  let ?g = "g\<lparr>espi_co := (espi_co g)[k := ?ip]\<rparr>"
  assume "init_espi e cb k g = ok g'" "k < length (espi_co g)" and known: "patch_known (g_co g)"
  then obtain h where h: "trig_edges e (fst ?ip) ?g = ok h" "put_interrupt e (fst ?ip) h = ok g'"
    by (auto simp: init_espi_def Let_def res_simps)
  note o = trig_edges_only [OF h(1)]
  have p: "entered (ge_co e) (g_co h) [fst ?ip] (g_co g') \<and> only_its (h\<lparr>g_co := g_co g'\<rparr>) g'"
    using h(2) known only_its_same(1) [OF o] by (intro put_interrupt_ok) simp_all
  have "keep_espi g g' \<and> espi_co g' = (espi_co g)[k := ?ip]"
    using o p by (cases g, cases h, cases g') (simp add: keep_defs only_its_def)
  then show "\<exists>ip. spi_done cb ARM_GIC_ESPI_MIN_IRQ g (espi_co g ! k) ip \<and> espi_co g' = (espi_co g)[k := ip] \<and>
      entered (ge_co e) (g_co g) [fst ip] (g_co g') \<and> keep_espi g g'"
    using p only_its_same(1) [OF o] by (intro exI [of _ ?ip]) (simp add: spi_done_def)
next
  show "keep_espi g h \<Longrightarrow> spi_done cb ARM_GIC_ESPI_MIN_IRQ h = spi_done cb ARM_GIC_ESPI_MIN_IRQ g" for g h
    by (drule keep_espi_def [THEN iffD1, THEN only_its_same(6)]) (simp add: spi_done_def fun_eq_iff)
qed (auto simp: keep_espi_def only_its_def intro: keep_trans(2) [unfolded keep_espi_def only_its_def])

interpretation lpis: entry_table "ge_co e" lpi_co "init_lpi e cb its" "lpi_done cb" keep_lpi
  for e :: gic_env and cb :: cb_vaddrs and its :: bool
proof
  fix k :: nat and g g' :: gic_state
  assume "init_lpi e cb its k g = ok g'" "k < length (lpi_co g)" and known: "patch_known (g_co g)"
  then obtain gits q lock lst s where
    p: "put_interrupt e (fst (lpi_final (use_mm_callouts g) cb gits (lt_vaddr (select_lpi_cfg_table 0 g)) q lock lst
          (lpi_co g ! k)))
        (g\<lparr>g_its := s, lpi_co := (lpi_co g)[k := lpi_final (use_mm_callouts g) cb gits
          (lt_vaddr (select_lpi_cfg_table 0 g)) q lock lst (lpi_co g ! k)]\<rparr>) = ok g'"
    by (auto simp: init_lpi_def Let_def res_simps)
  let ?ip = "lpi_final (use_mm_callouts g) cb gits (lt_vaddr (select_lpi_cfg_table 0 g)) q lock lst (lpi_co g ! k)"
  have r: "entered (ge_co e) (g_co g) [fst ?ip] (g_co g') \<and>
      only_its (g\<lparr>g_its := s, lpi_co := (lpi_co g)[k := ?ip], g_co := g_co g'\<rparr>) g'"
    using put_interrupt_ok [OF p] known by simp
  have "keep_lpi g g' \<and> lpi_co g' = (lpi_co g)[k := ?ip]"
    using r by (cases g, cases g') (simp add: keep_defs only_its_def)
  then show "\<exists>ip. lpi_done cb g (lpi_co g ! k) ip \<and> lpi_co g' = (lpi_co g)[k := ip] \<and>
      entered (ge_co e) (g_co g) [fst ip] (g_co g') \<and> keep_lpi g g'"
    using r by (intro exI [of _ ?ip]) (auto simp: lpi_done_def)
next
  show "keep_lpi g h \<Longrightarrow> lpi_done cb h = lpi_done cb g" for g h
    by (drule keep_lpi_def [THEN iffD1], frule only_its_same(5), drule only_its_same(6))
      (simp add: lpi_done_def select_lpi_cfg_table_def fun_eq_iff)
qed (auto simp: keep_lpi_def only_its_def intro: keep_trans(3) [unfolded keep_lpi_def only_its_def])
section \<open>What each part leaves alone\<close>

lemma keep_same:
  "keep_spi g h \<Longrightarrow> espi_co h = espi_co g \<and> lpi_co h = lpi_co g \<and> g_lpi h = g_lpi g \<and>
     use_mm_callouts h = use_mm_callouts g \<and> gicr_offset_shift_val h = gicr_offset_shift_val g"
  "keep_espi g h \<Longrightarrow> spi_co h = spi_co g \<and> lpi_co h = lpi_co g \<and> g_lpi h = g_lpi g \<and>
     use_mm_callouts h = use_mm_callouts g \<and> gicr_offset_shift_val h = gicr_offset_shift_val g"
  "keep_lpi g h \<Longrightarrow> spi_co h = spi_co g \<and> espi_co h = espi_co g \<and> g_lpi h = g_lpi g \<and>
     use_mm_callouts h = use_mm_callouts g \<and> gicr_offset_shift_val h = gicr_offset_shift_val g"
  by (cases g, cases h, simp add: keep_defs only_its_def)+

lemma only_its_keep:
  "only_its g h \<Longrightarrow> keep_spi g h \<and> keep_espi g h \<and> keep_lpi g h \<and> g_co h = g_co g"
  by (cases g, cases h) (simp add: keep_defs only_its_def)

lemma msi_check_only: "msi_check e i g = (r, g') \<Longrightarrow> only_its g g'"
  by (auto simp: msi_check_def split: if_splits prod.splits)

lemma msi_check_bus: "\<exists>r b'. msi_check e i (set_bus b g) = (r, set_bus b' g)"
  by (auto simp: msi_check_def in32_def Let_def)

lemma only_its_add:
  "keep_spi g ((set_bus b g)\<lparr>spi_co := l\<rparr>)" "keep_espi g ((set_bus b g)\<lparr>espi_co := l\<rparr>)"
  "keep_spi g (set_bus b g)" "keep_espi g (set_bus b g)" "g_co (set_bus b g) = g_co g"
  by (cases g, simp add: keep_defs only_its_def set_bus_def)+

lemma spi_add_entry_keep:
  assumes "gic_v3_spi_add_entry e i g = ok (r, g')"
  shows "keep_spi g g' \<and> g_co g' = g_co g"
proof -
  obtain x b where m: "msi_check e i (set_bus (R32 (gicd g + ARM_GICD_TYPER) # R32 (gicd g + ARM_GICD_TYPER) # g_bus g) g) =
      (x, set_bus b g)"
    using msi_check_bus by meson
  show ?thesis
    using assms unfolding gic_v3_spi_add_entry_def counts read_count_ok
    by (auto simp: res_simps Let_def only_its_add read_count_ok m split: if_split_asm)
qed

lemma espi_add_entry_keep:
  assumes "gic_v3_espi_add_entry e i g = ok (r, g')"
  shows "keep_espi g g' \<and> g_co g' = g_co g"
proof -
  let ?r = "R32 (gicd g + ARM_GICD_TYPER)"
  obtain x b where m: "msi_check e i (set_bus (?r # ?r # ?r # g_bus g) g) = (x, set_bus b g)"
    using msi_check_bus by meson
  show ?thesis
    using assms unfolding gic_v3_espi_add_entry_def counts read_count_ok
    by (auto simp: res_simps Let_def only_its_add read_count_ok m split: if_split_asm)
qed

lemma default_spis_keep:
  assumes "default_spis e g = ok g'"
  shows "keep_spi g g' \<and> g_co g' = g_co g"
proof (cases "spi_co g = []")
  case True
  then obtain n g1 i r where s: "read_count spis_of e g = ok (n, g1)" "gic_v3_spi_add_entry e i g1 = ok (r, g')"
    using assms by (auto simp: default_spis_def gic_v3_num_spis_def res_simps Let_def)
  then show ?thesis
    using only_its_keep [OF read_count_only [OF s(1)]] spi_add_entry_keep [OF s(2)] keep_trans(1) by metis
next
  case False
  then show ?thesis using assms by (simp add: default_spis_def keep_spi_def only_its_def)
qed

lemma default_espis_keep:
  assumes "default_espis e g = ok g'"
  shows "keep_espi g g' \<and> g_co g' = g_co g"
proof -
  obtain n g1 where s: "read_count espis_of e g = ok (n, g1)"
    "g' = g1 \<or> (\<exists>i r. gic_v3_espi_add_entry e i g1 = ok (r, g'))"
    using assms by (auto simp: default_espis_def gic_v3_num_espis_def res_simps split: if_splits)
  then show ?thesis
    using only_its_keep [OF read_count_only [OF s(1)]] espi_add_entry_keep keep_trans(2) by metis
qed
text \<open>The configuration of the LPI table changes its parameters, not the number of LPIs.\<close>
definition keep_cfg :: "gic_state \<Rightarrow> gic_state \<Rightarrow> bool" where
  "keep_cfg g h \<longleftrightarrow> only_its (g\<lparr>g_lpi := g_lpi h\<rparr>) h \<and> num_lpis (g_lpi h) = num_lpis (g_lpi g)"

lemma keep_cfg_trans: "keep_cfg g h \<Longrightarrow> keep_cfg h k \<Longrightarrow> keep_cfg g k"
  by (cases g, cases h, cases k) (simp add: keep_cfg_def only_its_def)

lemma keep_cfg_same:
  "keep_cfg g h \<Longrightarrow> g_co h = g_co g \<and> spi_co h = spi_co g \<and> espi_co h = espi_co g \<and> lpi_co h = lpi_co g \<and>
     use_mm_callouts h = use_mm_callouts g \<and> gicr_offset_shift_val h = gicr_offset_shift_val g \<and>
     num_lpis (g_lpi h) = num_lpis (g_lpi g)"
  by (cases g, cases h) (simp add: keep_cfg_def only_its_def)

lemma only_its_cfg: "only_its g h \<Longrightarrow> keep_cfg g h"
  by (cases g, cases h) (simp add: keep_cfg_def only_its_def)

lemma lpi_cfg_attr_keep: "keep_cfg g (lpi_cfg_attr e k a va g)"
  by (cases g) (simp add: lpi_cfg_attr_def keep_cfg_def only_its_def set_bus_def Let_def split: prod.split)

lemma lpi_cfg_table_keep:
  assumes "lpi_cfg_table e k g = ok g'"
  shows "keep_cfg g g'"
proof -
  obtain g1 a b n p va g2 where g1: "only_its g g1" and g2: "mem_map e n a p (set_bus b g1) = ok (va, g2)"
    and g': "g' = lpi_cfg_attr e k a va g2"
    using assms unfolding lpi_cfg_table_def
    by (auto simp: res_simps Let_def split: if_split_asm dest!: get_ram_only) (metis only_its_refl)
  have "only_its g g2"
    using only_its_trans [OF g1 only_its_trans [OF only_its_upd(2) mem_map_only [OF g2]]] .
  then show ?thesis unfolding g' by (rule keep_cfg_trans [OF only_its_cfg lpi_cfg_attr_keep])
qed

lemma each_keep_cfg: "each (lpi_cfg_table e) ks g = ok g' \<Longrightarrow> keep_cfg g g'"
proof (induction ks arbitrary: g)
  case Nil
  then show ?case by (simp add: only_its_cfg)
next
  case (Cons k ks)
  then show ?case using keep_cfg_trans lpi_cfg_table_keep by (auto simp: res_simps) blast
qed

lemma uses_its_only: "gic_v3_lpi_uses_its e g = ok (x, g') \<Longrightarrow> only_its g g'"
  by (drule lpi_uses_its_ok) simp

lemma init_lpis_ok:
  assumes "init_lpis e cb g = ok g'" "patch_known (g_co g)"
  shows "entered (ge_co e) (g_co g) (if 0 < num_lpis (g_lpi g) then map fst (lpi_co g') else []) (g_co g') \<and>
    spi_co g' = spi_co g \<and> espi_co g' = espi_co g \<and> use_mm_callouts g' = use_mm_callouts g \<and>
    gicr_offset_shift_val g' = gicr_offset_shift_val g \<and> num_lpis (g_lpi g') = num_lpis (g_lpi g)"
proof (cases "0 < num_lpis (g_lpi g)")
  case True
  then obtain n g1 g2 its g3 s where s: "read_count lpis_of e g = ok (n, g1)"
    "each (lpi_cfg_table e) [0 ..< length (lpi_cfg (g_lpi g1))] g1 = ok g2"
    "gic_v3_lpi_uses_its e g2 = ok (its, g3)"
    "each (init_lpi e cb its) [0 ..< length (lpi_co g3)] (g3\<lparr>g_its := s\<rparr>) = ok g'"
    using assms(1) unfolding init_lpis_def gic_v3_num_lpis_def
    by (auto simp: res_simps Let_def simp del: upt_rec_numeral)
  have "keep_cfg g g2"
    using only_its_cfg [OF read_count_only [OF s(1)]] each_keep_cfg [OF s(2)] by (rule keep_cfg_trans)
  moreover have "keep_cfg g2 (g3\<lparr>g_its := s\<rparr>)"
    using only_its_cfg [OF only_its_trans [OF uses_its_only [OF s(3)] only_its_upd(1)]] .
  ultimately have k: "keep_cfg g (g3\<lparr>g_its := s\<rparr>)" by (rule keep_cfg_trans)
  from keep_cfg_same [OF k] have "patch_known (g_co (g3\<lparr>g_its := s\<rparr>))" using assms(2) by simp
  from lpis.all_ok [OF _ this] s(4) have a: "entered (ge_co e) (g_co g3) (map fst (lpi_co g')) (g_co g')"
    "keep_lpi (g3\<lparr>g_its := s\<rparr>) g'" by auto
  show ?thesis using True a keep_cfg_same [OF k] keep_same(3) [OF a(2)] by simp
next
  case False
  then show ?thesis using assms by (simp add: init_lpis_def entered_none)
qed

section \<open>The theorem on the whole function\<close>

text \<open>An entry of a table with its patch data: the vector offset from the first number of its kind, and the
  addresses that the callouts use.\<close>
definition spi_patched :: "bool \<Rightarrow> cb_vaddrs \<Rightarrow> u32 \<Rightarrow> intrinfo \<times> spi_patch \<Rightarrow> bool" where
  "spi_patched mm cb base ip \<longleftrightarrow> in_patch (fst ip) = Some (Spi_patch (snd ip)) \<and>
     sp_vec_off (snd ip) = vector_base (fst ip) - base \<and> sp_gicd_base_vaddr (snd ip) = cb_gicd cb \<and>
     (mm \<longrightarrow> sp_gicc_base_vaddr (snd ip) = cb_gicc cb \<and> ig_rtn (in_eoi (fst ip)) = Some Interrupt_eoi_spi_mm)"

definition ranges :: "(intrinfo \<times> 'p) list \<Rightarrow> (u32 \<times> u32) list" where
  "ranges = map (\<lambda>(i, p). (vector_base i, num_vectors i))"

lemma all_done_patched:
  "list_all2 (spi_done cb base g) xs ys \<Longrightarrow> (\<forall>ip \<in> set ys. spi_patched (use_mm_callouts g) cb base ip) \<and> ranges ys = ranges xs"
  by (induction rule: list_all2_induct)
    (auto simp: spi_done_def spi_final_def spi_patched_def ranges_def Let_def split: prod.splits)

lemma init_checks_same:
  "init_checks e g = ok g' \<Longrightarrow> g_co g' = g_co g \<and> spi_co g' = spi_co g \<and> espi_co g' = espi_co g"
  unfolding init_checks_def
  by (auto simp: res_simps Let_def set_bus_def split: if_split_asm prod.split_asm)

lemma map_registers_same:
  assumes "map_registers e g = ok (cb, g')"
  shows "g_co g' = g_co g \<and> spi_co g' = spi_co g \<and> espi_co g' = espi_co g"
proof -
  obtain d g1 n r g2 where s: "io_map e 0x10000 (gicd g) g = ok (d, g1)" "io_map e n (gicr g1) g1 = ok (r, g2)"
    "only_its (g2\<lparr>gic_gicr_vaddr := r\<rparr>) g'"
    using assms unfolding map_registers_def
    by (auto simp: res_simps Let_def split: if_split_asm dest!: io_map_only [where len = ARM_GICC_SIZE])
  show ?thesis
    using only_its_same [OF io_map_only [OF s(1)]] only_its_same [OF io_map_only [OF s(2)]] only_its_same [OF s(3)]
    by simp
qed

lemma init_ppis_ok:
  assumes "init_ppis e cb g = ok g'" "patch_known (g_co g)"
  shows "entered (ge_co e) (g_co g) [ppi_entry e cb g'] (g_co g') \<and> spi_co g' = spi_co g \<and> espi_co g' = espi_co g"
proof -
  obtain h l m c where p: "put_interrupt e (ppi_entry e cb h) h = ok g'"
    and h: "h = (set_lsp l g)\<lparr>gicr_map := m, gic_sendipi := c\<rparr>"
    using assms(1) unfolding init_ppis_def Let_def by (auto simp: res_simps)
  have same: "g_co h = g_co g" "spi_co h = spi_co g" "espi_co h = espi_co g"
    by (simp_all add: h set_lsp_def)
  with put_interrupt_ok [OF p] assms(2) have o: "entered (ge_co e) (g_co g) [ppi_entry e cb h] (g_co g')"
    and only: "only_its (h\<lparr>g_co := g_co g'\<rparr>) g'"
    by simp_all
  have "ppi_entry e cb g' = ppi_entry e cb h"
    using only_its_same [OF only] by (simp add: ppi_entry_def)
  with o only_its_same [OF only] same show ?thesis by simp
qed

lemma init_spis_ok:
  assumes "init_spis e cb g = ok g'" "patch_known (g_co g)"
  shows "entered (ge_co e) (g_co g) (map fst (spi_co g')) (g_co g') \<and> keep_spi g g' \<and>
    (\<forall>ip \<in> set (spi_co g'). spi_patched (use_mm_callouts g') cb ARM_GIC_SPI_MIN_IRQ ip) \<and>
    (spi_co g \<noteq> [] \<longrightarrow> ranges (spi_co g') = ranges (spi_co g))"
proof -
  obtain h where h: "default_spis e g = ok h" "each (init_spi e cb) [0 ..< length (spi_co h)] h = ok g'"
    using assms(1) by (auto simp: init_spis_def res_simps simp del: upt_rec_numeral)
  note k = default_spis_keep [OF h(1)]
  have "patch_known (g_co h)" using k assms(2) by simp
  note a = spis.all_ok [OF h(2) this]
  have "spi_co g \<noteq> [] \<longrightarrow> h = g" using h(1) by (auto simp: default_spis_def split: if_split_asm)
  moreover have "use_mm_callouts g' = use_mm_callouts h" using keep_same(1) a by blast
  moreover have "keep_spi g g'" using k a keep_trans(1) by blast
  ultimately show ?thesis using a k all_done_patched [of cb ARM_GIC_SPI_MIN_IRQ h "spi_co h" "spi_co g'"] by auto
qed

lemma init_espis_ok:
  assumes "init_espis e cb g = ok g'" "patch_known (g_co g)"
  shows "entered (ge_co e) (g_co g) (map fst (espi_co g')) (g_co g') \<and> keep_espi g g' \<and>
    (\<forall>ip \<in> set (espi_co g'). spi_patched (use_mm_callouts g') cb ARM_GIC_ESPI_MIN_IRQ ip) \<and>
    (espi_co g \<noteq> [] \<longrightarrow> ranges (espi_co g') = ranges (espi_co g))"
proof -
  obtain h where h: "default_espis e g = ok h" "each (init_espi e cb) [0 ..< length (espi_co h)] h = ok g'"
    using assms(1) by (auto simp: init_espis_def res_simps simp del: upt_rec_numeral)
  note k = default_espis_keep [OF h(1)]
  have "patch_known (g_co h)" using k assms(2) by simp
  note a = espis.all_ok [OF h(2) this]
  have "espi_co g \<noteq> [] \<longrightarrow> espi_co h = espi_co g"
    using h(1) by (auto simp: default_espis_def gic_v3_num_espis_def res_simps dest!: read_count_only only_its_same(3))
  moreover have "use_mm_callouts g' = use_mm_callouts h" using keep_same(2) a by blast
  moreover have "keep_espi g g'" using k a keep_trans(2) by blast
  ultimately show ?thesis using a k all_done_patched [of cb ARM_GIC_ESPI_MIN_IRQ h "espi_co h" "espi_co g'"] by auto
qed
text \<open>C19: when gic\_v3\_initialize returns, it has added to the interrupt section the entry for PPIs, then those
  of the SPI table, of the ESPI table and, if there are LPIs, of the LPI table, in this order, each
  with its routines and its patch data registered; earlier entries are as they were.  Every SPI and ESPI
  entry has the offset of its vectors and the addresses its callouts need, and the entries that the
  board added keep their ranges.\<close>
theorem gic_initialize_entries:
  assumes "gic_v3_initialize e g = ok g'" "patch_known (g_co g)"
  shows "\<exists>cb. entered (ge_co e) (g_co g)
      (ppi_entry e cb g' # map fst (spi_co g') @ map fst (espi_co g') @
        (if 0 < num_lpis (g_lpi g') then map fst (lpi_co g') else [])) (g_co g') \<and>
    (\<forall>ip \<in> set (spi_co g'). spi_patched (use_mm_callouts g') cb ARM_GIC_SPI_MIN_IRQ ip) \<and>
    (\<forall>ip \<in> set (espi_co g'). spi_patched (use_mm_callouts g') cb ARM_GIC_ESPI_MIN_IRQ ip) \<and>
    (spi_co g \<noteq> [] \<longrightarrow> ranges (spi_co g') = ranges (spi_co g)) \<and>
    (espi_co g \<noteq> [] \<longrightarrow> ranges (espi_co g') = ranges (espi_co g))"
proof -
  obtain g1 b cb g2 g3 g4 g5 where s: "init_checks e g = ok g1" "map_registers e (set_bus b g1) = ok (cb, g2)"
    "init_ppis e cb g2 = ok g3" "init_spis e cb g3 = ok g4" "init_espis e cb g4 = ok g5" "init_lpis e cb g5 = ok g'"
    using assms(1) by (auto simp: gic_v3_initialize_def res_simps)
  have tabs: "g_co g2 = g_co g" "spi_co g2 = spi_co g" "espi_co g2 = espi_co g"
    using init_checks_same [OF s(1)] map_registers_same [OF s(2)] by (simp_all add: set_bus_def)
  have c3: "entered (ge_co e) (g_co g) [ppi_entry e cb g3] (g_co g3)" "spi_co g3 = spi_co g" "espi_co g3 = espi_co g"
    using init_ppis_ok [OF s(3)] tabs assms(2) by simp_all
  note c4 = init_spis_ok [OF s(4) c3(1) [unfolded entered_def, THEN conjunct1]]
  note c5 = init_espis_ok [OF s(5) c4 [THEN conjunct1, unfolded entered_def, THEN conjunct1]]
  note c6 = init_lpis_ok [OF s(6) c5 [THEN conjunct1, unfolded entered_def, THEN conjunct1]]
  note k4 = keep_same(1) [OF c4 [THEN conjunct2, THEN conjunct1]]
  note k5 = keep_same(2) [OF c5 [THEN conjunct2, THEN conjunct1]]
  have ppi: "ppi_entry e cb g3 = ppi_entry e cb g'"
    using k4 k5 c6 by (simp add: ppi_entry_def)
  have "entered (ge_co e) (g_co g) ((([ppi_entry e cb g3] @ map fst (spi_co g4)) @ map fst (espi_co g5)) @
      (if 0 < num_lpis (g_lpi g5) then map fst (lpi_co g') else [])) (g_co g')"
    using c3(1) c4 c5 c6 by (blast intro: entered_trans)
  then have "entered (ge_co e) (g_co g) (ppi_entry e cb g' # map fst (spi_co g') @ map fst (espi_co g') @
      (if 0 < num_lpis (g_lpi g') then map fst (lpi_co g') else [])) (g_co g')"
    using k5 c6 by (simp add: ppi)
  then show ?thesis
    using c3 c4 c5 c6 k4 k5 by (intro exI [of _ cb] conjI) auto
qed
section \<open>The number of identifier bits\<close>

lemma id_bits_least:
  "bits \<le> 32 \<Longrightarrow> id_bits n bits = (LEAST k. bits \<le> k \<and> unat n \<le> 2 ^ k) \<and> id_bits n bits \<le> 32"
proof (induction n bits rule: id_bits.induct)
  case (1 n bits)
  have pow: "unat (push_bit bits (1 :: u64)) = 2 ^ bits"
    using 1(2) by (simp add: push_bit_eq_mult unat_pow2)
  have less: "push_bit bits 1 < (ucast n :: u64) \<longleftrightarrow> 2 ^ bits < unat n"
    by (simp only: word_less_nat_alt pow unat_ucast_up)
  then have less': "2 ^ bits < (ucast n :: u64) \<longleftrightarrow> 2 ^ bits < unat n"
    by (simp add: push_bit_eq_mult)
  show ?case
  proof (cases "2 ^ bits < unat n")
    case True
    have "bits \<noteq> 32"
    proof
      assume "bits = 32"
      with True show False using unsigned_less [of n, where ?'a = nat] by simp
    qed
    then have b: "bits < 32" using 1(2) by simp
    have "(bits \<le> k \<and> unat n \<le> 2 ^ k) = (bits + 1 \<le> k \<and> unat n \<le> 2 ^ k)" for k
      using True by (metis Suc_eq_plus1 Suc_leI le_neq_implies_less less_le_not_le not_less Suc_leD)
    moreover have "id_bits n bits = id_bits n (bits + 1)"
      using b True by (subst id_bits.simps) (simp add: less')
    moreover have "push_bit bits 1 < (ucast n :: u64)" using True less' by simp
    ultimately show ?thesis using 1(1) b by simp
  next
    case False
    then have "id_bits n bits = bits" by (subst id_bits.simps) (simp add: less')
    moreover have "(LEAST k. bits \<le> k \<and> unat n \<le> 2 ^ k) = bits"
      using False by (intro Least_equality) simp_all
    ultimately show ?thesis using 1(2) by simp
  qed
qed

text \<open>The loop for the identifier bits ends, with the least number of bits, at least 14, that holds every
  identifier up to the last LPI; it is at most 32, so that no shift is out of range and the field of
  PROPBASER, which holds it less one, does not overflow its five bits.\<close>
lemma propbaser_id_bits:
  "\<exists>bits. bits = (LEAST k. 14 \<le> k \<and> unat (n + ARM_GIC_LPI_MIN_IRQ) \<le> 2 ^ k) \<and> 14 \<le> bits \<and> bits \<le> 32 \<and>
     lpi_propbaser m 0 n AND 0x1F = of_nat (bits - 1)"
proof -
  let ?n = "n + ARM_GIC_LPI_MIN_IRQ"
  let ?b = "id_bits ?n 14"
  have b: "?b = (LEAST k. 14 \<le> k \<and> unat ?n \<le> 2 ^ k)" "?b \<le> 32"
    using id_bits_least [of 14 ?n] by simp_all
  have "(14 :: nat) \<le> 32 \<and> unat ?n \<le> 2 ^ 32"
    using unsigned_less [of ?n, where ?'a = nat] by simp
  from LeastI [of "\<lambda>k. 14 \<le> k \<and> unat ?n \<le> 2 ^ k", OF this] have lo: "14 \<le> ?b"
    unfolding b(1) by blast
  have low: "(0x1F :: u64) = mask 5" by (simp add: mask_eq_exp_minus_1)
  have field: "push_bit k (ucast (x :: u32)) AND 0x1F = (0 :: u64)" if "5 \<le> k" for k x
    unfolding low by (rule bit_word_eqI) (use that in \<open>auto simp: bit_simps\<close>)
  have "lpi_propbaser m 0 n AND 0x1F = of_nat (?b - 1) AND 0x1F"
    by (simp add: lpi_propbaser_def bit.conj_disj_distrib2 field)
  also have "\<dots> = (of_nat (?b - 1) :: u64)"
  proof -
    have "of_nat (?b - 1) AND mask 5 = (of_nat (?b - 1) :: u64)"
    proof (rule mask_eq_iff [THEN iffD2])
      show "uint (of_nat (?b - 1) :: u64) < 2 ^ 5"
        using b(2) by (simp add: uint_nat unat_of_nat_small del: of_nat_diff)
    qed
    then show ?thesis unfolding low .
  qed
  finally show ?thesis using b lo by blast
qed

section \<open>A concrete run\<close>

text \<open>One entry for SPIs of the board, the memory mapped interface and no LPIs.\<close>
definition gic_ini_ex :: gic_state where
  "gic_ini_ex = gic_ex\<lparr>gicc := 0x1200000, use_mm_callouts := True, spi_co := [(spi_ex 40 8, spi_patch0)]\<rparr>"

lemma gic_ini_dist: "dist_ok gic_hw_ex 0x1000000 0x10003 0"
  by (auto simp: dist_ok_def gic_hw_ex_def gicd_regs intro: settles_now)

lemma ex_env:
  "ge_hw gic_env_ex = gic_hw_ex" "ge_max_cpu gic_env_ex = 4" "ie_num_cpu (ge_its gic_env_ex) = 4"
  "ge_co gic_env_ex = co_env_ex" "ge_abi gic_env_ex = \<lparr>INTR_CLASS_EXTERNAL = 0, INTR_SPARE = 0x7FFFFFFF, INTR_FLAG_MSI = 1, AS_ATTR_DEV = 1\<rparr>"
  by (simp_all add: gic_env_ex_def)

lemma ex_map: "io_map gic_env_ex len a g = ok (a, g)"
  by (simp add: io_map_def callout_io_map_def aarch64_map_def gic_env_ex_def mmu_ex_def)

lemma gic_ini_run: "\<exists>g'. gic_v3_initialize gic_env_ex gic_ini_ex = ok g'"
proof -
  obtain b where b: "init_distributor gic_hw_ex 0x1000000 [] = ok b"
    by (rule init_distributor_view [OF gic_ini_dist]) (rule that)
  let ?g1 = "gic_ini_ex\<lparr>gic_map := replicate 4 (NOT 0) @ replicate 60 0\<rparr>"
  have 1: "init_checks gic_env_ex gic_ini_ex = ok ?g1"
    by (simp add: init_checks_def gic_ini_ex_def gic_ex_def gic_init_def addressed_def ex_env NULL_PADDR_def set_bus_def
        its_state_init_def)
  have f1: "gicd ?g1 = 0x1000000" "g_bus ?g1 = []"
    by (simp_all add: gic_ini_ex_def gic_ex_def gic_init_def its_state_init_def)
  have "\<exists>cb. map_registers gic_env_ex (set_bus b ?g1) = ok (cb, (set_bus b ?g1)\<lparr>gic_gicr_vaddr := 0x1100000\<rparr>)"
    by (simp add: map_registers_def ex_map gic_ini_ex_def gic_ex_def gic_init_def set_bus_def)
  then obtain cb where 2: "map_registers gic_env_ex (set_bus b ?g1) = ok (cb, (set_bus b ?g1)\<lparr>gic_gicr_vaddr := 0x1100000\<rparr>)"
    by blast
  show ?thesis
    unfolding gic_v3_initialize_def 1 and_then.simps f1 ex_env b 2 prod.case
    by (simp add: init_ppis_def put_interrupt_def add_interrupt_def request_def ex_env ppi_entry_def gic_ini_ex_def
        gic_ex_def gic_init_def set_lsp_def g_lsp_def its_state_init_def set_bus_def lsp_ex_def vm_gic_ex_def vm_ex_def
        roundup_def co_env_ex_def co_init_def upt_num callout_register_data_def rtn_at_def fp_of_def entry_rtns_def
        gic_v3_intr_ppi_def intr_gen_def rtn_ex_def init_spis_def default_spis_def init_spi_def spi_final_def spi_ex_def
        spi_patch0_def trig_edges_def is_msi_def gic_v3_intr_spi_def init_espis_def default_espis_def counts read_count_def
        addressed_def in32_def gic_hw_ex_def ARM_GICD_TYPER_def espis_of_def typer_ESPI_def init_lpis_def
        lpi_params_dflt_def Let_def)
qed

lemma gic_initialize_entries_witness:
  "\<exists>g' i p. gic_v3_initialize gic_env_ex gic_ini_ex = ok g' \<and> spi_co g' = [(i, p)] \<and> vector_base i = 40 \<and>
     in_patch i = Some (Spi_patch p) \<and> sp_vec_off p = 8 \<and>
     entry_of co_env_ex i \<in> set (co_intrs (g_co g'))"
proof -
  obtain g' where run: "gic_v3_initialize gic_env_ex gic_ini_ex = ok g'" using gic_ini_run by blast
  have ini: "patch_known (g_co gic_ini_ex)" "spi_co gic_ini_ex = [(spi_ex 40 8, spi_patch0)]"
    by (simp_all add: gic_ini_ex_def gic_ex_def gic_init_def co_init_def patch_known_def)
  obtain cb where en: "entered (ge_co gic_env_ex) (g_co gic_ini_ex)
      (ppi_entry gic_env_ex cb g' # map fst (spi_co g') @ map fst (espi_co g') @
        (if 0 < num_lpis (g_lpi g') then map fst (lpi_co g') else [])) (g_co g')"
    and patched: "\<forall>ip \<in> set (spi_co g'). spi_patched (use_mm_callouts g') cb ARM_GIC_SPI_MIN_IRQ ip"
    and r: "ranges (spi_co g') = ranges (spi_co gic_ini_ex)"
    using gic_initialize_entries [OF run ini(1)] ini(2) by auto
  obtain i p where one: "spi_co g' = [(i, p)]" "vector_base i = 40"
    using r unfolding ini(2) by (cases "spi_co g'") (auto simp: ranges_def spi_ex_def split: prod.splits)
  have "entry_of co_env_ex i \<in> set (co_intrs (g_co g'))"
    using en one by (simp add: entered_def ex_env)
  then show ?thesis
    using run one patched by (auto simp: spi_patched_def ARM_GIC_SPI_MIN_IRQ_def)
qed

end
