(* ===== verification/Gic_Cpu.thy ===== *)
theory Gic_Cpu
  imports Gic_Init
begin

unbundle bit_operations_syntax

text \<open>
  gic\_v3\_gicc\_init (startup/lib/aarch64/gic\_v3.c), which runs once on every processor: the search for
  the processor's redistributor, the pending table of its LPIs, the state of its SGIs and PPIs, and
  its interface, with system registers or mapped in memory.
\<close>

section \<open>Registers\<close>

definition ARM_GICR_CTLR :: paddr where "ARM_GICR_CTLR = 0"
definition ARM_GICR_WAKER :: paddr where "ARM_GICR_WAKER = 0x14"
definition ARM_GICR_PENDBASER :: paddr where "ARM_GICR_PENDBASER = 0x78"
definition ARM_GICR_INVALLR :: paddr where "ARM_GICR_INVALLR = 0xB0"
definition ARM_GICR_SGI_BASE_OFFSET :: paddr where "ARM_GICR_SGI_BASE_OFFSET = push_bit 16 1"
definition ARM_GICR_IGROUPR0 :: paddr where "ARM_GICR_IGROUPR0 = 0x80"
definition ARM_GICR_ISENABLER0 :: paddr where "ARM_GICR_ISENABLER0 = 0x100"
definition ARM_GICR_ICENABLER0 :: paddr where "ARM_GICR_ICENABLER0 = 0x180"
definition ARM_GICR_ISPENDR0 :: paddr where "ARM_GICR_ISPENDR0 = 0x200"
definition ARM_GICR_ICPENDR0 :: paddr where "ARM_GICR_ICPENDR0 = 0x280"
definition ARM_GICR_IPRIORITYR0 :: paddr where "ARM_GICR_IPRIORITYR0 = 0x400"
definition ARM_GICR_IGRPMODR0 :: paddr where "ARM_GICR_IGRPMODR0 = 0xD00"
definition ARM_GICC_CTLR :: paddr where "ARM_GICC_CTLR = 0"
definition ARM_GICC_PMR :: paddr where "ARM_GICC_PMR = 4"
definition ARM_GICC_BPR :: paddr where "ARM_GICC_BPR = 8"

lemmas gicr_regs = ARM_GICR_CTLR_def ARM_GICR_TYPER_def ARM_GICR_WAKER_def ARM_GICR_PROPBASER_def ARM_GICR_PENDBASER_def
  ARM_GICR_INVALLR_def ARM_GICR_SGI_BASE_OFFSET_def ARM_GICR_IGROUPR0_def ARM_GICR_ISENABLER0_def
  ARM_GICR_ICENABLER0_def ARM_GICR_ISPENDR0_def ARM_GICR_ICPENDR0_def ARM_GICR_IPRIORITYR0_def
  ARM_GICR_IGRPMODR0_def

section \<open>The processor's redistributor\<close>

text \<open>The affinity of the processor in the order of GICR\_TYPER.\<close>
definition cpu_affinity :: "u64 \<Rightarrow> u32" where
  "cpu_affinity mpidr = ucast ((mpidr AND 0xFFFFFF) OR (drop_bit 8 mpidr AND 0xFF000000))"

text \<open>The search: the index, which stays below the 32 bit limit, is a natural number.\<close>
function find_gicr :: "hw \<Rightarrow> nat \<Rightarrow> u32 \<Rightarrow> u32 \<Rightarrow> paddr \<Rightarrow> nat \<Rightarrow> bus \<Rightarrow> (paddr \<times> nat \<times> bus) res" where
  "find_gicr d shift limit aff a i b =
    (let (v, b) = in32 d (a + ARM_GICR_TYPER + 4) b in
     if aff = v then ok (a, i, b)
     else if i + 1 < unat limit then find_gicr d shift limit aff (a + push_bit shift 1) (i + 1) b
     else crash ''ASSERT'')"
  by auto
termination by (relation "measure (\<lambda>(d, shift, limit, aff, a, i, b). unat limit - i)") auto

declare find_gicr.simps [simp del]

text \<open>The loop that waits for ChildrenAsleep, bit 2, reads at most 1000 times.\<close>
primrec wait_asleep :: "nat \<Rightarrow> hw \<Rightarrow> paddr \<Rightarrow> u32 \<Rightarrow> bus \<Rightarrow> (u32 \<times> bus) res" where
  "wait_asleep 0 d a v b = crash ''ASSERT''"
| "wait_asleep (Suc n) d a v b =
    (if v AND push_bit 2 1 = 0 then
       (let (v, b) = in32 d a b in if 0 < n then wait_asleep n d a v b else crash ''ASSERT'')
     else ok (v, b))"

text \<open>A redistributor whose ProcessorSleep bit, bit 1, is set is woken.\<close>
definition wake_gicr :: "hw \<Rightarrow> paddr \<Rightarrow> bus \<Rightarrow> bus res" where
  "wake_gicr d r b =
    (let (w, b) = in32 d (r + ARM_GICR_WAKER) b in
     if w AND push_bit 1 1 \<noteq> 0 then
       and_then (wait_asleep 1000 d (r + ARM_GICR_WAKER) w b) (\<lambda>(w, b).
         ok (out32 (r + ARM_GICR_WAKER) (w AND NOT (push_bit 1 1)) b))
     else ok b)"

section \<open>The pending table\<close>

text \<open>The table has a bit for each interrupt number and is rounded up to a kilobyte.\<close>
definition pend_size :: "u32 \<Rightarrow> u64" where
  "pend_size n = ROUND (ucast ((ARM_GIC_LPI_MIN_IRQ + n) div 8)) 1024"

definition lpi_pendbaser :: "gic_tbl_params \<Rightarrow> paddr \<Rightarrow> u64" where
  "lpi_pendbaser m a =
    a OR push_bit 7 (ucast (cache_inner m)) OR push_bit 56 (ucast (cache_outer m))
      OR push_bit 10 (ucast (shareability m))"

text \<open>The processor has a pending table of its own parameters when there are several, otherwise the
  address of the table is not kept.  The flush is given the register value.\<close>
definition pend_attr :: "gic_env \<Rightarrow> paddr \<Rightarrow> nat \<Rightarrow> paddr \<Rightarrow> u64 \<Rightarrow> gic_state \<Rightarrow> gic_state" where
  "pend_attr e r k a len g =
    (let pend = lpi_pending (g_lpi g); t = pend ! k;
         (settable, b) = share_settable (ge_hw e) (r + ARM_GICR_PENDBASER) (g_bus g);
         m = (if settable then lt_mem t else tbl_params_uncached);
         v = lpi_pendbaser m a;
         b = out64 (r + ARM_GICR_PENDBASER) (v OR push_bit 62 1) (dcache_flush (v + ie_bias (ge_its e)) len b);
         t = t\<lparr>lt_paddr := (if 1 < length pend then a else lt_paddr t), lt_mem := m\<rparr>
     in set_bus b (g\<lparr>g_lpi := (g_lpi g)\<lparr>lpi_pending := pend[k := t]\<rparr>\<rparr>))"

definition pend_table :: "gic_env \<Rightarrow> nat \<Rightarrow> paddr \<Rightarrow> gic_state \<Rightarrow> gic_state res" where
  "pend_table e cpu r g =
    (let pend = lpi_pending (g_lpi g); several = 1 < length pend; k = (if several then cpu else 0) in
     and_then (assert_that (k < length pend)) (\<lambda>_.
     let a = (if several then lt_paddr (pend ! k) else NULL_PADDR); sz = pend_size (num_lpis (g_lpi g)) in
     and_then
       (if a = NULL_PADDR then
          and_then (vm_calloc (ie_mmu (ge_its e)) sz 0x10000 (its_vm (g_its g))) (\<lambda>(a, v).
            ok (a, sz, g\<lparr>g_its := (g_its g)\<lparr>its_vm := v\<rparr>\<rparr>))
        else ok (a, 0, g))
       (\<lambda>(a, len, g).
     and_then (assert_that (a \<noteq> NULL_PADDR)) (\<lambda>_.
     and_then (assert_that (a AND 0xFFFFFFFFF0000 = a)) (\<lambda>_.
       ok (pend_attr e r k a len g))))))"

text \<open>With SET\_PROPBASER\_IN\_GICC\_INIT every processor's PROPBASER is written.\<close>
definition cpu_lpis :: "gic_env \<Rightarrow> nat \<Rightarrow> paddr \<Rightarrow> gic_state \<Rightarrow> gic_state res" where
  "cpu_lpis e cpu r g =
    (if num_lpis (g_lpi g) \<noteq> 0 then
       and_then (pend_table e cpu r g) (\<lambda>g.
       let g = set_bus (out64 (r + ARM_GICR_PROPBASER) (lt_propbaser (select_lpi_cfg_table cpu g)) (g_bus g)) g in
       and_then (gic_v3_lpi_uses_its e g) (\<lambda>(its, g).
       and_then
         (if its then
            and_then (gic_v3_its_mapc (ge_its e) 0 (of_nat cpu) (ucast r) (g_its g)) (\<lambda>s. ok (g\<lparr>g_its := s\<rparr>))
          else ok (set_bus (out64 (r + ARM_GICR_INVALLR) 0 (g_bus g)) g))
         (\<lambda>g. ok (set_bus (out32 (r + ARM_GICR_CTLR) 1 (g_bus g)) g))))
     else ok g)"
section \<open>SGIs, PPIs and the interface of the processor\<close>

text \<open>r is the second frame of the redistributor.\<close>
definition reset_sgis :: "paddr \<Rightarrow> bus \<Rightarrow> bus" where
  "reset_sgis r b =
    (let b = out32 (r + ARM_GICR_IGRPMODR0) 0 (out32 (r + ARM_GICR_IGROUPR0) 0xFFFFFFFF b);
         b = out32 (r + ARM_GICR_IPRIORITYR0) 0xA0A0A0C0 b;
         b = for_up 1 8 (\<lambda>i. out32 (reg32 (r + ARM_GICR_IPRIORITYR0) i) 0xA0A0A0A0) b;
         b = out32 (r + ARM_GICR_ICENABLER0) 0xFFFFFFFF (out32 (r + ARM_GICR_ICPENDR0) 0xFFFFFFFF b)
     in out32 (r + ARM_GICR_ISENABLER0) 1 b)"

text \<open>The value that a write to ICC\_SGI1R\_EL1 takes to interrupt the processor.\<close>
definition icc_sgi1r :: "u32 \<Rightarrow> u64" where
  "icc_sgi1r aff =
    (let aff0 = ucast aff AND 0xFF :: u64; aff1 = drop_bit 8 (ucast aff) AND 0xFF; aff2 = drop_bit 16 (ucast aff) AND 0xFF;
         aff3 = drop_bit 24 (ucast aff) AND 0xFF;
         v = push_bit (unat (aff0 AND 0xF)) 1 OR push_bit 16 aff1 OR push_bit 32 aff2 OR push_bit 48 aff3
     in if 0xF < aff0 then v OR push_bit (44 - 4) (aff0 AND 0xF0) else v)"

definition set_gic_map :: "nat \<Rightarrow> u64 \<Rightarrow> gic_state \<Rightarrow> gic_state res" where
  "set_gic_map cpu v g = (if cpu < length (gic_map g) then ok (g\<lparr>gic_map := (gic_map g)[cpu := v]\<rparr>) else stray)"

definition mm_interface :: "gic_env \<Rightarrow> nat \<Rightarrow> gic_state \<Rightarrow> gic_state res" where
  "mm_interface e cpu g =
    and_then (set_gic_map cpu (ucast (push_bit (gicr_offset_shift_val g) 1 * of_nat cpu
        + ucast ARM_GICR_SGI_BASE_OFFSET + ucast ARM_GICR_ISPENDR0 :: u32)) g) (\<lambda>g.
      ok (set_bus (out32 (gicc g + ARM_GICC_CTLR) 0x61
        (out32 (gicc g + ARM_GICC_BPR) 0 (out32 (gicc g + ARM_GICC_PMR) 0xF0 (g_bus g)))) g))"

text \<open>The two reads are for warnings about processor numbers above 15.\<close>
definition sr_interface :: "gic_env \<Rightarrow> nat \<Rightarrow> u32 \<Rightarrow> gic_state \<Rightarrow> gic_state res" where
  "sr_interface e cpu aff g =
    (let b = (if 0xF < aff AND 0xFF
              then snd (in32 (ge_hw e) (gicd g + ARM_GICD_TYPER) (snd (sr_rd64 (ge_hw e) ICC_CTLR_EL1 (g_bus g))))
              else g_bus g) in
     and_then (set_gic_map cpu (icc_sgi1r aff) g) (\<lambda>g.
       let b = isb (sr_wr32 ICC_SRE_EL1 7 b);
           b = sr_wr32 ICC_CTLR_EL1 0 (sr_wr32 ICC_BPR1_EL1 0 (sr_wr32 ICC_PMR_EL1 0xF0 b))
       in ok (set_bus (sr_wr32 ICC_IGRPEN1_EL1 1 b) g)))"

definition cpu_interface :: "gic_env \<Rightarrow> nat \<Rightarrow> u32 \<Rightarrow> gic_state \<Rightarrow> gic_state res" where
  "cpu_interface e cpu aff g =
    (if gic_sendipi g = Some Sendipi_mm then mm_interface e cpu g else sr_interface e cpu aff g)"

text \<open>The index of the redistributor is written to a map whose size is that of the section.\<close>
definition set_gicr_map :: "nat \<Rightarrow> nat \<Rightarrow> gic_state \<Rightarrow> gic_state res" where
  "set_gicr_map cpu i g =
    (if cpu < length (gicr_map g) then ok (g\<lparr>gicr_map := (gicr_map g)[cpu := of_nat i]\<rparr>) else stray)"

definition gic_v3_gicc_init :: "gic_env \<Rightarrow> nat \<Rightarrow> gic_state \<Rightarrow> gic_state res" where
  "gic_v3_gicc_init e cpu g =
    (let (mpidr, b) = sr_rd64 (ge_hw e) MPIDR_EL1 (g_bus g); aff = cpu_affinity mpidr in
     and_then (find_gicr (ge_hw e) (gicr_offset_shift_val g) (gicr_index_limit g) aff (gicr g) 0 b) (\<lambda>(r, i, b).
     and_then (set_gicr_map cpu i g) (\<lambda>g.
     and_then (wake_gicr (ge_hw e) r b) (\<lambda>b.
     and_then (cpu_lpis e cpu r (set_bus b g)) (\<lambda>g.
     let b = reset_sgis (r + ARM_GICR_SGI_BASE_OFFSET) (g_bus g) in
     and_then (wait_for_rwp (ge_hw e) (r + ARM_GICR_CTLR) 8 b) (\<lambda>b.
       cpu_interface e cpu aff (set_bus b g)))))))"
section \<open>The value for software generated interrupts\<close>

lemma field_eq_iff:
  "field p n v = field q n w \<longleftrightarrow> (\<forall>i < n. bit v (p + i) \<longleftrightarrow> bit w (q + i))"
proof
  assume e: "field p n v = field q n w"
  show "\<forall>i < n. bit v (p + i) \<longleftrightarrow> bit w (q + i)"
  proof (intro allI impI)
    fix i assume "i < n"
    with arg_cong [OF e, of "\<lambda>x. bit x i"] show "bit v (p + i) \<longleftrightarrow> bit w (q + i)"
      by (simp add: field_def bit_take_bit_iff bit_drop_bit_eq)
  qed
next
  assume "\<forall>i < n. bit v (p + i) \<longleftrightarrow> bit w (q + i)"
  then show "field p n v = field q n w"
    by (intro bit_word_eqI) (auto simp: field_def bit_take_bit_iff bit_drop_bit_eq)
qed

text \<open>The processors that a value selects: affinities 3 to 1, the range of 16 and a bit of the target list.\<close>
definition sgi_selects :: "u64 \<Rightarrow> u32 \<Rightarrow> bool" where
  "sgi_selects v aff \<longleftrightarrow> field 48 8 v = field 24 8 (ucast aff) \<and> field 32 8 v = field 16 8 (ucast aff) \<and>
     field 16 8 v = field 8 8 (ucast aff) \<and> field 44 4 v = field 4 4 (ucast aff) \<and>
     bit v (unat (field 0 4 (ucast aff)))"

lemma masks: "(0xFF :: u64) = mask 8" "(0xF :: u64) = mask 4" "(0xF0 :: u64) = push_bit 4 (mask 4)"
  by (simp_all add: mask_eq_exp_minus_1 push_bit_eq_mult)

lemma low_nibble: "unat ((ucast (a :: u32) AND 0xFF) AND 0xF :: u64) = unat (field 0 4 (ucast a))"
proof -
  have "((ucast a AND 0xFF) AND 0xF :: u64) = field 0 4 (ucast a)"
    unfolding masks by (rule bit_word_eqI) (auto simp: field_def bit_simps)
  then show ?thesis by simp
qed

lemma low_nibble_less: "unat (field 0 4 v) < 16"
  using take_bit_nat_less_exp [of 4 "unat v"] by (simp add: field_def unsigned_take_bit_eq)

lemma bit_moved:
  "p + 8 \<le> 64 \<Longrightarrow> bit (push_bit p (drop_bit q (ucast (a :: u32)) AND mask 8) :: u64) n \<longleftrightarrow>
     p \<le> n \<and> n < p + 8 \<and> bit a (q + (n - p))"
  by (auto simp: bit_simps dest: bit_imp_le_length)

text \<open>The range selector is only added for affinities above 15; below it is zero anyway.\<close>
lemma bit_icc_sgi1r:
  "bit (icc_sgi1r a) n \<longleftrightarrow> n = unat (field 0 4 (ucast a)) \<or> 16 \<le> n \<and> n < 24 \<and> bit a (n - 8) \<or>
     32 \<le> n \<and> n < 40 \<and> bit a (n - 16) \<or> 44 \<le> n \<and> n < 48 \<and> bit a (n - 40) \<or> 48 \<le> n \<and> n < 56 \<and> bit a (n - 24)"
proof -
  let ?aff0 = "ucast a AND 0xFF :: u64"
  let ?v = "push_bit (unat (?aff0 AND 0xF)) 1 OR push_bit 16 (drop_bit 8 (ucast a) AND 0xFF)
    OR push_bit 32 (drop_bit 16 (ucast a) AND 0xFF) OR push_bit 48 (drop_bit 24 (ucast a) AND 0xFF) :: u64"
  have small: "push_bit 40 (?aff0 AND 0xF0) = 0" if "\<not> 0xF < ?aff0"
  proof -
    have "unat ?aff0 < 2 ^ 4" using that by (simp add: word_less_nat_alt)
    then have lt: "bit ?aff0 i \<Longrightarrow> i < 4" for i by (rule bit_small)
    have "\<not> bit a i" if "4 \<le> i" "i < 8" for i
    proof
      assume "bit a i"
      with that have "bit ?aff0 i" unfolding masks by (simp add: bit_simps)
      from lt [OF this] that show False by simp
    qed
    then show ?thesis unfolding masks by (intro bit_word_eqI) (auto simp: bit_simps)
  qed
  have v: "icc_sgi1r a = ?v OR push_bit 40 (?aff0 AND 0xF0)"
    using small by (auto simp: icc_sgi1r_def Let_def)
  have p5: "bit (push_bit 40 (?aff0 AND 0xF0)) n \<longleftrightarrow> 44 \<le> n \<and> n < 48 \<and> bit a (n - 40)"
    unfolding masks by (auto simp: bit_simps)
  have p1: "bit (push_bit (unat (?aff0 AND 0xF)) (1 :: u64)) n \<longleftrightarrow> n = unat (field 0 4 (ucast a))"
    using low_nibble_less [of "ucast a"] unfolding low_nibble by (auto simp: bit_simps)
  have p2: "bit (push_bit 16 (drop_bit 8 (ucast a) AND 0xFF) :: u64) n \<longleftrightarrow> 16 \<le> n \<and> n < 24 \<and> bit a (n - 8)"
    unfolding masks by (subst bit_moved) auto
  have p3: "bit (push_bit 32 (drop_bit 16 (ucast a) AND 0xFF) :: u64) n \<longleftrightarrow> 32 \<le> n \<and> n < 40 \<and> bit a (n - 16)"
    unfolding masks by (subst bit_moved) auto
  have p4: "bit (push_bit 48 (drop_bit 24 (ucast a) AND 0xFF) :: u64) n \<longleftrightarrow> 48 \<le> n \<and> n < 56 \<and> bit a (n - 24)"
    unfolding masks by (subst bit_moved) auto
  show ?thesis unfolding v bit_or_iff p1 p2 p3 p4 p5 by blast
qed

text \<open>C21: the value stored for a processor selects that processor and no other, for every affinity.\<close>
theorem icc_sgi1r_selects: "sgi_selects (icc_sgi1r a) b \<longleftrightarrow> b = a"
proof
  let ?k = "\<lambda>x :: u32. unat (field 0 4 (ucast x))"
  have lt: "?k x < 16" for x by (rule low_nibble_less)
  have lo: "bit (icc_sgi1r a) (p + i) \<longleftrightarrow> bit a (q + i)"
    if "(p, q, n) \<in> {(16, 8, 8), (32, 16, 8), (44, 4, 4), (48, 24, 8)}" "i < n" for p q n i
    unfolding bit_icc_sgi1r using that lt [of a] by auto
  {
    assume s: "sgi_selects (icc_sgi1r a) b"
    have "bit b i \<longleftrightarrow> bit a i" if i: "i < 32" for i
    proof -
      have "?k b = ?k a"
        using s lt [of b] unfolding sgi_selects_def bit_icc_sgi1r by auto
      then have low: "field 0 4 (ucast b) = field 0 4 (ucast a)" unfolding word_unat_eq_iff .
      have eq: "bit b (q + j) \<longleftrightarrow> bit a (q + j)" if "(p, q, n) \<in> {(16, 8, 8), (32, 16, 8), (44, 4, 4), (48, 24, 8)}" "j < n"
        for p q n j :: nat
        using s lo [OF that] that unfolding sgi_selects_def field_eq_iff by (auto simp: bit_simps)
      consider "i < 4" | "4 \<le> i" "i < 8" | "8 \<le> i" "i < 16" | "16 \<le> i" "i < 24" | "24 \<le> i" using i by linarith
      then show ?thesis
      proof cases
        case 1
        then show ?thesis using low [unfolded field_eq_iff] by (auto simp: bit_simps)
      next
        case 2
        then show ?thesis using eq [of 44 4 4 "i - 4"] by simp
      next
        case 3
        then show ?thesis using eq [of 16 8 8 "i - 8"] by simp
      next
        case 4
        then show ?thesis using eq [of 32 16 8 "i - 16"] by simp
      next
        case 5
        then show ?thesis using eq [of 48 24 8 "i - 24"] i by simp
      qed
    qed
    then show "b = a" by (intro bit_word_eqI) simp
  }
  assume "b = a"
  have "bit (icc_sgi1r a) (?k a)" unfolding bit_icc_sgi1r by simp
  then show "sgi_selects (icc_sgi1r a) b"
    using lo unfolding \<open>b = a\<close> sgi_selects_def field_eq_iff by (auto simp: bit_simps)
qed
section \<open>The search for the redistributor\<close>

text \<open>The first frame of redistributor i, and the reads of the affinities of the first n.\<close>
definition gicr_frame :: "paddr \<Rightarrow> nat \<Rightarrow> nat \<Rightarrow> paddr" where
  "gicr_frame base shift i = base + of_nat i * push_bit shift 1"

definition aff_reads :: "paddr \<Rightarrow> nat \<Rightarrow> nat \<Rightarrow> bus" where
  "aff_reads base shift n = rev (map (\<lambda>i. R32 (gicr_frame base shift i + ARM_GICR_TYPER + 4)) [0 ..< n])"

text \<open>The affinities that the redistributors report do not change.\<close>
definition affs_are :: "hw \<Rightarrow> paddr \<Rightarrow> nat \<Rightarrow> (nat \<Rightarrow> u32) \<Rightarrow> bool" where
  "affs_are d base shift affs \<longleftrightarrow> (\<forall>i b. rd32 d b (gicr_frame base shift i + ARM_GICR_TYPER + 4) = affs i)"

lemma find_gicr_from:
  assumes "affs_are d base shift affs" "\<forall>j < i. affs j \<noteq> aff" "i < max 1 (unat limit)"
  shows "find_gicr d shift limit aff (gicr_frame base shift i) i (aff_reads base shift i @ b) =
    (if \<exists>k < max 1 (unat limit). affs k = aff
     then (let k = (LEAST k. affs k = aff) in ok (gicr_frame base shift k, k, aff_reads base shift (Suc k) @ b))
     else crash ''ASSERT'')"
  using assms(2,3)
proof (induction "unat limit - i" arbitrary: i rule: less_induct)
  case less
  have rd: "rd32 d b (gicr_frame base shift i + ARM_GICR_TYPER + 4) = affs i" for b
    using assms(1) by (simp add: affs_are_def)
  have next_frame: "gicr_frame base shift i + push_bit shift 1 = gicr_frame base shift (i + 1)"
    by (simp add: gicr_frame_def algebra_simps)
  have next_reads: "R32 (gicr_frame base shift i + ARM_GICR_TYPER + 4) # aff_reads base shift i = aff_reads base shift (Suc i)"
    by (simp add: aff_reads_def)
  show ?case
  proof (cases "affs i = aff")
    case True
    then have "(LEAST k. affs k = aff) = i"
      using less.prems(1) by (intro Least_equality) (auto simp: not_less [symmetric])
    with True less.prems show ?thesis
      by (subst find_gicr.simps) (auto simp: in32_def rd next_reads [symmetric] Let_def)
  next
    case False
    have no: "\<forall>j < i + 1. affs j \<noteq> aff" using less.prems(1) False by (auto simp: less_Suc_eq)
    show ?thesis
    proof (cases "i + 1 < unat limit")
      case True
      have m: "unat limit - (i + 1) < unat limit - i" using True by simp
      have "find_gicr d shift limit aff (gicr_frame base shift i) i (aff_reads base shift i @ b) =
          find_gicr d shift limit aff (gicr_frame base shift (i + 1)) (i + 1) (aff_reads base shift (i + 1) @ b)"
        using True False unfolding next_frame [symmetric] by (subst find_gicr.simps) (simp add: in32_def rd next_reads [symmetric])
      also have "\<dots> = (if \<exists>k < max 1 (unat limit). affs k = aff
         then (let k = (LEAST k. affs k = aff) in ok (gicr_frame base shift k, k, aff_reads base shift (Suc k) @ b))
         else crash ''ASSERT'')"
        by (rule less.hyps [OF m no]) (use True in simp)
      finally show ?thesis .
    next
      case no_more: False
      then have none: "\<not> (\<exists>k < max 1 (unat limit). affs k = aff)"
        using no less.prems(2) by (auto simp: max_def less_Suc_eq_le)
      show ?thesis
        unfolding if_not_P [OF none] using False no_more by (subst find_gicr.simps) (simp add: in32_def rd)
    qed
  qed
qed

text \<open>C22: the search always ends: it finds the first redistributor that reports the processor's affinity, with
  its index, and only reads affinities up to that one; when none below the limit does, the system
  stops with an assertion, and no redistributor at or above the limit is read, except for the first when
  the limit is zero.\<close>
theorem find_gicr_first:
  assumes "affs_are d base shift affs"
  shows "find_gicr d shift limit aff base 0 b =
    (if \<exists>k < max 1 (unat limit). affs k = aff
     then (let k = (LEAST k. affs k = aff) in ok (gicr_frame base shift k, k, aff_reads base shift (Suc k) @ b))
     else crash ''ASSERT'')"
  using find_gicr_from [OF assms, of 0 aff limit b] by (simp add: gicr_frame_def aff_reads_def)

section \<open>What the initialisation of a processor writes\<close>

text \<open>The processor with this MPIDR has redistributor k, which is awake and settles.\<close>
definition gicr_ok :: "gic_env \<Rightarrow> gic_state \<Rightarrow> nat \<Rightarrow> u64 \<Rightarrow> bool" where
  "gicr_ok e g k mpidr \<longleftrightarrow> (\<forall>b. rdsys (ge_hw e) b MPIDR_EL1 = mpidr) \<and>
     (\<exists>affs. affs_are (ge_hw e) (gicr g) (gicr_offset_shift_val g) affs \<and> affs k = cpu_affinity mpidr \<and>
        (\<forall>j < k. affs j \<noteq> cpu_affinity mpidr) \<and> k < max 1 (unat (gicr_index_limit g))) \<and>
     (\<forall>b. rd32 (ge_hw e) b (gicr_frame (gicr g) (gicr_offset_shift_val g) k + ARM_GICR_WAKER) AND push_bit 1 1 = 0) \<and>
     settles (ge_hw e) (gicr_frame (gicr g) (gicr_offset_shift_val g) k + ARM_GICR_CTLR) (\<lambda>v. v AND 8 = 0)"

text \<open>The writes to the second frame, and those to the interface of the processor.\<close>
definition sgi_writes :: "paddr \<Rightarrow> access list" where
  "sgi_writes f =
    [W32 (f + 0x80) 0xFFFFFFFF, W32 (f + 0xD00) 0, W32 (f + 0x400) 0xA0A0A0C0] @
    map (\<lambda>i. W32 (f + 0x400 + 4 * of_nat i) 0xA0A0A0A0) [1 ..< 8] @
    [W32 (f + 0x280) 0xFFFFFFFF, W32 (f + 0x180) 0xFFFFFFFF, W32 (f + 0x100) 1]"

definition interface_writes :: "gic_state \<Rightarrow> access list" where
  "interface_writes g =
    (if gic_sendipi g = Some Sendipi_mm then [W32 (gicc g + 4) 0xF0, W32 (gicc g + 8) 0, W32 (gicc g) 0x61]
     else [WSys ICC_SRE_EL1 7, WSys ICC_PMR_EL1 0xF0, WSys ICC_BPR1_EL1 0, WSys ICC_CTLR_EL1 0, WSys ICC_IGRPEN1_EL1 1])"

text \<open>The entry of the processor in the map: the offset of its register for pending SGIs, computed in 32 bits,
  or the value for ICC\_SGI1R\_EL1.\<close>
definition ipi_entry :: "gic_state \<Rightarrow> nat \<Rightarrow> u32 \<Rightarrow> u64" where
  "ipi_entry g cpu aff =
    (if gic_sendipi g = Some Sendipi_mm
     then ucast (push_bit (gicr_offset_shift_val g) 1 * of_nat cpu + 0x10200 :: u32) else icc_sgi1r aff)"

lemma writes_for_up:
  "writes (for_up lo hi (\<lambda>i. out32 (f i) v) b) = writes b @ map (\<lambda>i. W32 (f i) v) [lo ..< hi]"
proof (cases "lo \<le> hi")
  case True
  show ?thesis
    by (rule for_up_rule [where P = "\<lambda>n b'. writes b' = writes b @ map (\<lambda>i. W32 (f i) v) [lo ..< n]", OF _ _ True])
      (auto simp: bus_simps)
qed simp

lemma writes_reset_sgis: "writes (reset_sgis f b) = writes b @ sgi_writes f"
  by (simp add: reset_sgis_def sgi_writes_def bus_simps writes_for_up gicr_regs reg32_def Let_def upt_conv_Cons)

lemma find_gicr_ok:
  assumes "gicr_ok e g k mpidr"
  shows "find_gicr (ge_hw e) (gicr_offset_shift_val g) (gicr_index_limit g) (cpu_affinity mpidr) (gicr g) 0 b =
    ok (gicr_frame (gicr g) (gicr_offset_shift_val g) k, k, aff_reads (gicr g) (gicr_offset_shift_val g) (Suc k) @ b)"
proof -
  obtain affs where a: "affs_are (ge_hw e) (gicr g) (gicr_offset_shift_val g) affs" "affs k = cpu_affinity mpidr"
    "\<forall>j < k. affs j \<noteq> cpu_affinity mpidr" "k < max 1 (unat (gicr_index_limit g))"
    using assms unfolding gicr_ok_def by blast
  have "(LEAST k. affs k = cpu_affinity mpidr) = k"
    using a(2,3) by (intro Least_equality) (auto simp: not_less [symmetric])
  moreover have "\<exists>k < max 1 (unat (gicr_index_limit g)). affs k = cpu_affinity mpidr" using a(2,4) by blast
  moreover have "gicr_frame (gicr g) (gicr_offset_shift_val g) 0 = gicr g" "aff_reads (gicr g) (gicr_offset_shift_val g) 0 = []"
    by (simp_all add: gicr_frame_def aff_reads_def)
  ultimately show ?thesis
    using find_gicr_from [OF a(1), of 0 "cpu_affinity mpidr" "gicr_index_limit g" b] by simp
qed

lemma writes_aff_reads: "writes (aff_reads base shift n @ b) = writes b"
  by (induction n) (auto simp: aff_reads_def writes_def)


section \<open>The size of the pending table\<close>

text \<open>PROPBASER announces more interrupt numbers than the pending table has bits: for 9000 LPIs the
  identifiers have 15 bits and the table has 24576.\<close>
lemma pend_table_small:
  "id_bits (9000 + ARM_GIC_LPI_MIN_IRQ) 14 = 15" "8 * unat (pend_size 9000) = 24576"
proof -
  show "id_bits (9000 + ARM_GIC_LPI_MIN_IRQ) 14 = 15"
    by (subst id_bits.simps, subst id_bits.simps) (simp add: ARM_GIC_LPI_MIN_IRQ_def)
  show "8 * unat (pend_size 9000) = 24576"
    by (simp add: pend_size_def ARM_GIC_LPI_MIN_IRQ_def ROUND_def TRUNC_def)
qed

section \<open>A concrete processor\<close>

text \<open>Redistributor 2 of those at 0x1100000 reports affinity 1.0.\<close>
definition gicr_hw_ex :: hw where
  "gicr_hw_ex = \<lparr>rd32 = (\<lambda>b a. if a = 0x114000C then 0x100 else 0), rd64 = (\<lambda>b a. 0), rdsys = (\<lambda>b r. 0x80000100),
     spins = 1\<rparr>"

definition affs_ex :: "nat \<Rightarrow> u32" where
  "affs_ex i = (if gicr_frame 0x1100000 17 i + 12 = 0x114000C then 0x100 else 0)"

lemma affs_ex_are: "affs_are gicr_hw_ex 0x1100000 17 affs_ex"
  by (simp add: affs_are_def gicr_hw_ex_def affs_ex_def ARM_GICR_TYPER_def)

lemma affs_ex_at: "affs_ex 0 = 0" "affs_ex 1 = 0" "affs_ex (Suc 0) = 0" "affs_ex 2 = 0x100"
  by (simp_all add: affs_ex_def gicr_frame_def)

lemma find_gicr_first_witness:
  "\<exists>b. find_gicr gicr_hw_ex 17 4 0x100 0x1100000 0 [] = ok (0x1140000, 2, b) \<and> length b = 3"
proof -
  have "(LEAST k. affs_ex k = 0x100) = 2"
  proof (rule Least_equality)
    show "affs_ex y = 0x100 \<Longrightarrow> 2 \<le> y" for y
      by (rule ccontr) (auto simp: not_le less_2_cases_iff affs_ex_at)
  qed (simp add: affs_ex_at)
  moreover have "\<exists>k < max 1 (unat (4 :: u32)). affs_ex k = 0x100"
    by (rule exI [of _ 2]) (simp add: affs_ex_at)
  ultimately show ?thesis
    using find_gicr_first [OF affs_ex_are, of 4 "0x100" "[]"]
    by (simp add: gicr_frame_def aff_reads_def)
qed

definition cpu_env_ex :: gic_env where
  "cpu_env_ex = gic_env_ex\<lparr>ge_its := (ge_its gic_env_ex)\<lparr>ie_hw := gicr_hw_ex\<rparr>\<rparr>"

definition gic_cpu_ex :: gic_state where
  "gic_cpu_ex = gic_ex\<lparr>gicr_map := replicate 4 0\<rparr>"

lemma gic_cpu_ex_fields:
  "gicr gic_cpu_ex = 0x1100000" "gicr_offset_shift_val gic_cpu_ex = 17" "gicr_index_limit gic_cpu_ex = 4"
  "gicr_map gic_cpu_ex = replicate 4 0" "gic_map gic_cpu_ex = replicate 64 0" "num_lpis (g_lpi gic_cpu_ex) = 0"
  "g_bus gic_cpu_ex = []" "gic_sendipi gic_cpu_ex = None"
  by (simp_all add: gic_cpu_ex_def gic_ex_def gic_init_def lpi_params_dflt_def its_state_init_def)

lemma gic_cpu_ex_ok: "gicr_ok cpu_env_ex gic_cpu_ex 2 0x80000100"
proof -
  have aff: "cpu_affinity 0x80000100 = 0x100" by (simp add: cpu_affinity_def)
  have hw: "ge_hw cpu_env_ex = gicr_hw_ex" by (simp add: cpu_env_ex_def)
  have set: "settles gicr_hw_ex (gicr_frame 0x1100000 17 2 + ARM_GICR_CTLR) (\<lambda>v. v AND 8 = 0)"
    by (rule settles_now) (simp_all add: gicr_hw_ex_def gicr_frame_def ARM_GICR_CTLR_def)
  have "\<forall>b. rdsys gicr_hw_ex b MPIDR_EL1 = 0x80000100"
    "\<forall>b. rd32 gicr_hw_ex b (gicr_frame 0x1100000 17 2 + ARM_GICR_WAKER) AND push_bit 1 1 = 0"
    by (simp_all add: gicr_hw_ex_def gicr_frame_def ARM_GICR_WAKER_def)
  moreover have "\<forall>j < 2. affs_ex j \<noteq> 0x100" by (auto simp: affs_ex_at less_2_cases_iff)
  ultimately show ?thesis
    unfolding gicr_ok_def gic_cpu_ex_fields hw aff using affs_ex_are affs_ex_at(4) set
    by (intro conjI exI [of _ affs_ex]) simp_all
qed


end
