(* ===== verification/Numbers.thy ===== *)
theory Numbers
  imports Strings "HOL-Library.Char_ord"
begin

text \<open>
  Numbers in text: strtoul.c, getsize.c, ultoa\_end.c, bcd2bin.c and calc\_cksum.c of
  startup/lib.  A pointer into a string is the rest of the string from it, whose end stands for
  the NUL that terminates it.
\<close>

unbundle bit_operations_syntax

section \<open>Reading\<close>

definition radix_value :: "char \<Rightarrow> int" where
  "radix_value c =
    (if CHR ''0'' \<le> c \<and> c \<le> CHR ''9'' then of_char c - of_char CHR ''0''
     else if CHR ''a'' \<le> c \<and> c \<le> CHR ''f'' then of_char c - of_char CHR ''a'' + 10
     else if CHR ''A'' \<le> c \<and> c \<le> CHR ''F'' then of_char c - of_char CHR ''A'' + 10
     else 37)"

text \<open>The character p points to.\<close>
definition at :: "string \<Rightarrow> char" where
  "at p = (case p of [] \<Rightarrow> NUL | c # _ \<Rightarrow> c)"

definition hexstr :: "string \<Rightarrow> bool" where
  "hexstr p \<longleftrightarrow> at p = CHR ''0'' \<and> (at (tl p) = CHR ''x'' \<or> at (tl p) = CHR ''X'')"

text \<open>The loop of strtopaddr; the terminator has the value 37, so it ends the loop for every base the
  callers pass (0, 8, 10 and 16).\<close>
fun digits :: "int \<Rightarrow> u64 \<Rightarrow> string \<Rightarrow> u64 \<times> string" where
  "digits base v [] = (v, [])"
| "digits base v (c # p) =
    (if base \<le> radix_value c then (v, c # p)
     else digits base (v * of_int base + of_int (radix_value c)) p)"

text \<open>The value and the pointer that is stored through endptr.\<close>
definition strtopaddr :: "string \<Rightarrow> int \<Rightarrow> u64 \<times> string" where
  "strtopaddr nptr base =
    (let base = (if base = 0 then (if hexstr nptr then 16 else if at nptr = CHR ''0'' then 8 else 10) else base);
         startp = (if base = 16 \<and> hexstr nptr then drop 2 nptr else nptr);
         (value, p) = digits base 0 startp
     in (value, if p = startp then nptr else p))"

definition strtoul :: "string \<Rightarrow> int \<Rightarrow> u64 \<times> string" where
  "strtoul nptr base = strtopaddr nptr base"

definition getsize :: "string \<Rightarrow> u64 \<times> string" where
  "getsize str =
    (let (v, p) = strtopaddr str 0; c = at p in
     if c = CHR ''G'' \<or> c = CHR ''g'' then (v * 1024 * 1024 * 1024, tl p)
     else if c = CHR ''M'' \<or> c = CHR ''m'' then (v * 1024 * 1024, tl p)
     else if c = CHR ''K'' \<or> c = CHR ''k'' then (v * 1024, tl p)
     else (v, p))"

section \<open>Writing\<close>

text \<open>The array c, with the NUL that ends it.\<close>
definition digit_char :: "nat \<Rightarrow> char" where
  "digit_char k = (''0123456789abcdef'' @ [NUL]) ! k"

text \<open>The do loop of ultoa\_end writes digits from the end of its buffer down; n places are left.\<close>
function put_digits :: "nat \<Rightarrow> u64 \<Rightarrow> u64 \<Rightarrow> string \<Rightarrow> string res" where
  "put_digits n v radix ds =
    (if radix = 0 then Inl Div_Zero
     else if n = 0 \<or> 16 < v mod radix then stray
     else let ds = digit_char (unat (v mod radix)) # ds; v' = v div radix
          in if v' = 0 then ok ds else put_digits (n - 1) v' radix ds)"
  by auto
termination
  by (relation "measure (\<lambda>(n, v, radix, ds). n)") auto

declare put_digits.simps [simp del]

text \<open>ultoa\_end: the buffer has 33 places, one for the terminator; what it stores at d is the result and a
  NUL, whose address it returns.\<close>
definition ultoa_end :: "u64 \<Rightarrow> int \<Rightarrow> string res" where
  "ultoa_end v radix = put_digits 32 v (of_int radix) []"

section \<open>Decimal digits in four bits, and sums of bytes\<close>

definition bcd2bin :: "u32 \<Rightarrow> u32" where
  "bcd2bin a = drop_bit 12 (a AND 0xf000) * 1000 + drop_bit 8 (a AND 0xf00) * 100 + drop_bit 4 (a AND 0xf0) * 10 +
     (a AND 0xf)"

definition calc_cksum :: "u8 list \<Rightarrow> u32" where
  "calc_cksum bs = foldl (\<lambda>sum b. sum + ucast b) 0 bs AND 0xFF"

section \<open>Reading what was written\<close>

lemma hex_digit: "k < 16 \<Longrightarrow> radix_value (digit_char k) = int k"
proof -
  have "\<forall>k \<in> set [0 ..< 16]. radix_value (digit_char k) = int k" by code_simp
  then show "k < 16 \<Longrightarrow> ?thesis" by simp
qed

lemma digit_char_0: "digit_char 0 = CHR ''0''"
  by code_simp

lemma radix_value_x: "radix_value CHR ''x'' = 37" "radix_value CHR ''X'' = 37" "radix_value NUL = 37"
  by code_simp+

text \<open>A string of digits of the base adds its value to what was read before.\<close>
definition reads :: "nat \<Rightarrow> string \<Rightarrow> u64 \<Rightarrow> bool" where
  "reads r xs v \<longleftrightarrow> xs \<noteq> [] \<and> (\<forall>c \<in> set xs. radix_value c < int r) \<and>
     (\<forall>a t. digits (int r) a (xs @ t) = digits (int r) (a * of_nat r ^ length xs + v) t)"

lemma reads_one: "d < r \<Longrightarrow> r \<le> 16 \<Longrightarrow> reads r [digit_char d] (of_nat d)"
  by (simp add: reads_def hex_digit)

lemma reads_snoc: "reads r xs v \<Longrightarrow> reads r [c] d \<Longrightarrow> reads r (xs @ [c]) (v * of_nat r + d)"
proof -
  assume xs: "reads r xs v" and c: "reads r [c] d"
  have "digits (int r) a ((xs @ [c]) @ t) = digits (int r) (a * of_nat r ^ length (xs @ [c]) + (v * of_nat r + d)) t" for a t
  proof -
    have "digits (int r) a (xs @ [c] @ t) = digits (int r) (a * of_nat r ^ length xs + v) ([c] @ t)"
      using xs unfolding reads_def by blast
    also have "\<dots> = digits (int r) ((a * of_nat r ^ length xs + v) * of_nat r ^ length [c] + d) t"
      using c unfolding reads_def by blast
    also have "(a * of_nat r ^ length xs + v) * of_nat r ^ length [c] + d =
        a * of_nat r ^ length (xs @ [c]) + (v * of_nat r + d)" by (simp add: algebra_simps)
    finally show ?thesis by simp
  qed
  then show ?thesis using xs c unfolding reads_def by auto
qed

lemma put_digits_reads:
  assumes r: "2 \<le> r" "r \<le> 16"
  shows "put_digits n v (of_nat r) ds = ok s \<Longrightarrow> \<exists>xs. s = xs @ ds \<and> length xs \<le> n \<and> reads r xs v \<and>
     (v \<noteq> 0 \<longrightarrow> hd xs \<noteq> CHR ''0'') \<and> (v = 0 \<longrightarrow> xs = ''0'')"
proof (induction n arbitrary: v ds)
  case 0
  then show ?case by (simp add: put_digits.simps [of 0] split: if_splits)
next
  case (Suc n)
  let ?r = "of_nat r :: u64" and ?c = "digit_char (unat (v mod of_nat r))"
  have ur: "unat ?r = r" using r by (intro unat_of_nat_small) simp
  have d: "unat (v mod ?r) < r" using r by (simp add: unat_mod ur)
  have one: "reads r [?c] (v mod ?r)" using reads_one [OF d r(2)] by simp
  have v: "v = v div ?r * ?r + v mod ?r" by (simp add: div_mult_mod_eq)
  show ?case
  proof (cases "v div ?r = 0")
    case True
    then have s: "s = ?c # ds" using Suc.prems by (simp add: put_digits.simps [of "Suc n"] Let_def split: if_splits)
    have m: "v mod ?r = v" using v True by simp
    have "?c \<noteq> CHR ''0''" if "v \<noteq> 0"
    proof
      assume "?c = CHR ''0''"
      moreover have "radix_value ?c = int (unat (v mod ?r))" using d r by (intro hex_digit) simp
      moreover have "radix_value CHR ''0'' = 0" by code_simp
      ultimately have "uint v = 0" by (simp add: m)
      then show False using that by (simp add: uint_0_iff)
    qed
    then show ?thesis using s one m by (intro exI [of _ "[?c]"]) (auto simp: reads_def digit_char_0)
  next
    case False
    then have "put_digits n (v div ?r) ?r (?c # ds) = ok s"
      using Suc.prems by (simp add: put_digits.simps [of "Suc n"] Let_def split: if_splits)
    from Suc.IH [OF this] obtain xs where xs: "s = xs @ ?c # ds" "length xs \<le> n" "reads r xs (v div ?r)"
      "hd xs \<noteq> CHR ''0''" using False by auto
    have "reads r (xs @ [?c]) v" using reads_snoc [OF xs(3) one] v by simp
    moreover have "hd (xs @ [?c]) \<noteq> CHR ''0''" using xs(3,4) by (simp add: reads_def)
    moreover have "v \<noteq> 0" using False by auto
    ultimately show ?thesis using xs by (intro exI [of _ "xs @ [?c]"]) simp
  qed
qed

lemma put_digits_fits:
  assumes r: "2 \<le> r" "r \<le> 16"
  shows "0 < n \<Longrightarrow> unat v < r ^ n \<Longrightarrow> \<exists>s. put_digits n v (of_nat r) ds = ok s"
proof (induction n arbitrary: v ds)
  case (Suc n)
  let ?r = "of_nat r :: u64"
  have ur: "unat ?r = r" using r by (intro unat_of_nat_small) simp
  have "?r \<noteq> 0" using ur r by auto
  moreover have "unat (v mod ?r) < r" using r by (simp add: unat_mod ur)
  then have "\<not> 16 < v mod ?r" using r by (simp add: word_less_nat_alt)
  moreover have "\<exists>s. put_digits n (v div ?r) ?r ds' = ok s" if "v div ?r \<noteq> 0" for ds'
  proof (rule Suc.IH)
    have "unat (v div ?r) < r ^ n"
      using Suc.prems(2) r by (simp add: unat_div ur less_mult_imp_div_less mult.commute)
    then show "unat (v div ?r) < r ^ n" .
    then show "0 < n" using that by (cases n) (simp_all add: unat_eq_zero)
  qed
  ultimately show ?case by (simp add: put_digits.simps [of "Suc n"] Let_def)
qed simp

lemma ultoa_reads:
  assumes "2 \<le> r" "r \<le> 16" "ultoa_end v (int r) = ok s"
  shows "length s \<le> 32" "reads r s v" "v \<noteq> 0 \<Longrightarrow> hd s \<noteq> CHR ''0''" "v = 0 \<Longrightarrow> s = ''0''"
  using put_digits_reads [OF assms(1,2), of 32 v "[]" s] assms(3) by (auto simp: ultoa_end_def)

lemma reads_not_hex:
  assumes "reads r s v" "r \<le> 16" "at t \<noteq> CHR ''x''" "at t \<noteq> CHR ''X''"
  shows "\<not> hexstr (s @ t)"
proof -
  obtain c p where s: "s = c # p" using assms(1) by (cases s) (auto simp: reads_def)
  have "at (p @ t) \<noteq> CHR ''x'' \<and> at (p @ t) \<noteq> CHR ''X''"
    using assms s radix_value_x by (cases p) (auto simp: reads_def at_def)
  then show ?thesis by (simp add: s hexstr_def)
qed

lemma digits_stop: "r \<le> radix_value (at t) \<Longrightarrow> digits r v t = (v, t)"
  by (cases t) (simp_all add: at_def)

text \<open>C26: a number that ultoa\_end writes in a base from 4 to 16 fits its buffer of 32 digits, and strtoul reads the
  same number back in that base and stops behind it; getsize reads a decimal number and multiplies it by
  1024 once, twice or three times for the suffix.\<close>
theorem strtoul_ultoa:
  assumes r: "4 \<le> r" "r \<le> 16"
  shows "\<exists>s. ultoa_end v (int r) = ok s \<and> length s \<le> 32 \<and> strtoul s (int r) = (v, []) \<and>
    (r = 10 \<longrightarrow> getsize s = (v, []) \<and> (\<forall>t. getsize (s @ CHR ''K'' # t) = (v * 2 ^ 10, t) \<and>
       getsize (s @ CHR ''M'' # t) = (v * 2 ^ 20, t) \<and> getsize (s @ CHR ''G'' # t) = (v * 2 ^ 30, t)))"
proof -
  have "unat v < 2 ^ 64" using unsigned_less [of v, where ?'a = nat] by simp
  also have "(2 :: nat) ^ 64 = 4 ^ 32" by simp
  also have "\<dots> \<le> r ^ 32" by (rule power_mono) (use r in auto)
  finally have "\<exists>s. put_digits 32 v (of_nat r) [] = ok s" by (intro put_digits_fits) (use r in auto)
  then obtain s where s: "ultoa_end v (int r) = ok s" by (auto simp: ultoa_end_def)
  note rd = ultoa_reads [OF _ r(2) s]
  have re: "reads r s v" and len: "length s \<le> 32" using rd(1,2) r by auto
  have step: "digits (int r) 0 (s @ t) = (v, t)" if "int r \<le> radix_value (at t)" for t
    using re digits_stop [OF that] by (simp add: reads_def)
  have empty: "at [] = NUL" by (simp add: at_def)
  have again: "strtopaddr (s @ t) (int r) = (v, t)"
    if "int r \<le> radix_value (at t)" "at t \<noteq> CHR ''x''" "at t \<noteq> CHR ''X''" for t
    using step [OF that(1)] reads_not_hex [OF re r(2) that(2,3)] r re
    by (auto simp: strtopaddr_def Let_def reads_def)
  have sz: "strtopaddr (s @ t) 0 = (v, t)"
    if "r = 10" "10 \<le> radix_value (at t)" "at t \<noteq> CHR ''x''" "at t \<noteq> CHR ''X''" for t
  proof (cases "v = 0")
    case True
    then have "s = ''0''" using rd(4) r by simp
    then show ?thesis using that True reads_not_hex [OF re r(2) that(3,4)] digits_stop [of 8 t]
      by (simp add: strtopaddr_def Let_def at_def radix_value_def)
  next
    case False
    then have "at (s @ t) \<noteq> CHR ''0''" using rd(3) r re by (cases s) (auto simp: at_def reads_def)
    then show ?thesis using again [of t] that reads_not_hex [OF re r(2) that(3,4)]
      by (simp add: strtopaddr_def Let_def)
  qed
  have suf: "radix_value CHR ''K'' = 37" "radix_value CHR ''M'' = 37" "radix_value CHR ''G'' = 37" by code_simp+
  have "strtoul s (int r) = (v, [])"
    using again [of "[]"] r radix_value_x by (simp add: strtoul_def empty)
  moreover have "getsize s = (v, [])" if "r = 10"
    using sz [of "[]"] that radix_value_x by (simp add: getsize_def empty)
  moreover have "getsize (s @ CHR ''K'' # t) = (v * 2 ^ 10, t)" "getsize (s @ CHR ''M'' # t) = (v * 2 ^ 20, t)"
    "getsize (s @ CHR ''G'' # t) = (v * 2 ^ 30, t)" if "r = 10" for t
    using sz [of "CHR ''K'' # t"] sz [of "CHR ''M'' # t"] sz [of "CHR ''G'' # t"] that suf
    by (simp_all add: getsize_def at_def mult.assoc)
  ultimately show ?thesis using s len by blast
qed

theorem strtoul_ultoa_witness:
  "\<exists>s. ultoa_end 4096 (int 10) = ok s \<and> getsize (s @ ''K,0x10'') = (4096 * 2 ^ 10, '',0x10'')"
  using strtoul_ultoa [of 10 4096] by auto

section \<open>Decimal digits and sums\<close>

lemma drop_and: "n \<le> 28 \<Longrightarrow> drop_bit n (a AND push_bit n 15) = take_bit 4 (drop_bit n (a :: u32))"
proof -
  assume "n \<le> 28"
  have m: "(15 :: u32) = mask 4" by (simp add: mask_eq_exp_minus_1)
  show ?thesis unfolding m by (rule bit_word_eqI) (use \<open>n \<le> 28\<close> in \<open>auto simp: bit_simps\<close>)
qed

lemma four_digits: "a < 16 \<Longrightarrow> b < 16 \<Longrightarrow> c < 16 \<Longrightarrow> d < 16 \<Longrightarrow> a * 1000 + b * 100 + c * 10 + d < (2 :: nat) ^ 32"
  by simp

lemma bcd2bin_value:
  "unat (bcd2bin a) = unat a div 4096 mod 16 * 1000 + unat a div 256 mod 16 * 100 + unat a div 16 mod 16 * 10 + unat a mod 16"
proof -
  have u: "unat (take_bit 4 (drop_bit n a)) = unat a div 2 ^ n mod 16" for n
    by (simp only: unsigned_take_bit_eq unat_drop_bit_eq) (simp add: take_bit_eq_mod drop_bit_eq_div)
  have e: "bcd2bin a = of_nat (unat (take_bit 4 (drop_bit 12 a)) * 1000 + unat (take_bit 4 (drop_bit 8 a)) * 100 +
      unat (take_bit 4 (drop_bit 4 a)) * 10 + unat (take_bit 4 (drop_bit 0 a)))"
    using drop_and [of 12 a] drop_and [of 8 a] drop_and [of 4 a] drop_and [of 0 a]
    by (simp add: bcd2bin_def)
  have b: "unat a div 2 ^ n mod 16 < 16" for n by simp
  have "unat (take_bit 4 (drop_bit 12 a)) * 1000 + unat (take_bit 4 (drop_bit 8 a)) * 100 +
      unat (take_bit 4 (drop_bit 4 a)) * 10 + unat (take_bit 4 (drop_bit 0 a)) < 2 ^ 32"
    unfolding u by (rule four_digits) (rule b)+
  then have "unat (bcd2bin a) = unat (take_bit 4 (drop_bit 12 a)) * 1000 + unat (take_bit 4 (drop_bit 8 a)) * 100 +
      unat (take_bit 4 (drop_bit 4 a)) * 10 + unat (take_bit 4 (drop_bit 0 a))"
    unfolding e by (intro unat_of_nat_small) simp
  then show ?thesis unfolding u by simp
qed

text \<open>Two digits, as the clock chips store them.\<close>
lemma bcd2bin_two: "h < 10 \<Longrightarrow> l < 10 \<Longrightarrow> unat (bcd2bin (of_nat (16 * h + l))) = 10 * h + l"
proof -
  assume hl: "h < 10" "l < 10"
  then have "unat (of_nat (16 * h + l) :: u32) = 16 * h + l" by (intro unat_of_nat_small) simp
  then show ?thesis using hl by (simp add: bcd2bin_value)
qed

text \<open>The sum does not depend on the width of the variable it is added up in.\<close>
lemma calc_cksum_sum: "unat (calc_cksum bs) = sum_list (map unat bs) mod 256"
proof -
  have f: "foldl (\<lambda>sum b. sum + ucast b) a bs = a + of_nat (sum_list (map unat bs))" for a :: u32
    by (induction bs arbitrary: a) (simp_all add: of_nat_unat add.assoc)
  have m: "(x AND 0xFF :: u32) = take_bit 8 x" for x by (simp add: take_bit_eq_mask mask_eq_exp_minus_1)
  have "unat (take_bit 8 (of_nat n :: u32)) = n mod 256" for n
  proof -
    have "unat (take_bit 8 (of_nat n :: u32)) = take_bit 8 (take_bit 32 n)"
      by (simp only: unsigned_take_bit_eq unsigned_of_nat) simp
    also have "\<dots> = take_bit 8 n" by simp
    finally show ?thesis by (simp only: take_bit_eq_mod) simp
  qed
  then show ?thesis by (simp add: calc_cksum_def f m)
qed

end
