(* ===== verification/Clock.thy ===== *)
theory Clock
  imports Numbers "HOL-Library.Signed_Division"
begin

text \<open>
  Dates and timers: calc\_time\_t.c, gmtime.c, timer\_tick2ns.c, timer\_ns2tick.c and
  invert\_timer\_freq.c of startup/lib.
\<close>

unbundle bit_operations_syntax

section \<open>Dates\<close>

text \<open>The members of struct tm are of type int; those the code does not use are left out.\<close>
record tm =
  tm_sec :: int
  tm_min :: int
  tm_hour :: int
  tm_mday :: int
  tm_mon :: int
  tm_year :: int
  tm_wday :: int
  tm_yday :: int

definition SEC_PER_MIN :: u64 where "SEC_PER_MIN = 60"
definition SEC_PER_HOUR :: u64 where "SEC_PER_HOUR = 60 * SEC_PER_MIN"
definition SEC_PER_DAY :: u64 where "SEC_PER_DAY = 24 * SEC_PER_HOUR"

definition month_sec :: "u64 list" where
  "month_sec = [0, 2678400, 5097600, 7776000, 10368000, 13046400,
     15638400, 18316800, 20995200, 23587200, 26265600, 28857600]"

definition leap_year :: "u32 \<Rightarrow> bool" where
  "leap_year year \<longleftrightarrow> year mod 4 = 0 \<and> (year mod 100 \<noteq> 0 \<or> year mod 400 = 0)"

definition calc_time_t :: "tm \<Rightarrow> u64 res" where
  "calc_time_t tm =
    (let year = of_int (tm_year tm) - 70 :: u32;
         sec = (ucast year * 365 + ucast (drop_bit 2 (year + 1))) * SEC_PER_DAY
     in if 0 \<le> tm_mon tm \<and> tm_mon tm < int (length month_sec) then
          let sec = sec + month_sec ! nat (tm_mon tm);
              year = of_int (tm_year tm) + 1900 :: u32;
              sec = (if 2 \<le> tm_mon tm \<and> leap_year year then sec + SEC_PER_DAY else sec);
              sec = sec + of_int (tm_mday tm - 1) * SEC_PER_DAY;
              sec = sec + of_int (tm_hour tm) * SEC_PER_HOUR;
              sec = sec + of_int (tm_min tm) * SEC_PER_MIN
          in ok (sec + of_int (tm_sec tm))
        else crash ''calc_time_t: Month returned by RTC is out of bounds'')"

definition mdays :: "bool \<Rightarrow> u64 list" where
  "mdays leap = [31, if leap then 29 else 28, 31, 30, 31, 30, 31, 31, 30, 31, 30, 31]"

definition year_days :: "u64 \<Rightarrow> u64" where
  "year_days year = 365 + of_bool ((year + 2) mod 4 = 0)"

lemma year_days_cases: "year_days year = 365 \<or> year_days year = 366"
  by (simp add: year_days_def)

function year_loop :: "u64 \<Rightarrow> u64 \<Rightarrow> u64 \<times> u64" where
  "year_loop year days =
    (let t = year_days year in if days < t then (year, days) else year_loop (year + 1) (days - t))"
  by auto
termination
proof (relation "measure (\<lambda>(year, days). unat days)")
  fix year days t :: u64
  assume "t = year_days year" "\<not> days < t"
  then have "0 < t" "t \<le> days" using year_days_cases [of year] by auto
  then have "unat (days - t) < unat days"
    by (simp add: unat_sub word_le_nat_alt word_less_nat_alt)
  then show "((year + 1, days - t), year, days) \<in> measure (\<lambda>(year, days). unat days)" by simp
qed simp

declare year_loop.simps [simp del]

text \<open>The loop over the months ends at 12 at the latest.\<close>
fun mon_loop :: "u64 list \<Rightarrow> u64 \<Rightarrow> u64 \<Rightarrow> u64 \<times> u64" where
  "mon_loop [] mon days = (mon, days)"
| "mon_loop (t # ts) mon days = (if days < t then (mon, days) else mon_loop ts (mon + 1) (days - t))"

text \<open>An unsigned long stored in an int.\<close>
definition to_int :: "u64 \<Rightarrow> int" where
  "to_int x = sint (ucast x :: u32)"

text \<open>time\_t is a signed type of 64 bits.\<close>
definition gmtime :: "int \<Rightarrow> tm \<Rightarrow> tm" where
  "gmtime timer tmbuf =
    (let days = of_int (timer sdiv 86400) :: u64; secs = of_int (timer smod 86400) :: u64;
         wday = (days + 4) mod 7;
         (year, yday) = year_loop 0 days;
         (mon, mday) = mon_loop (mdays ((year + 2) mod 4 = 0)) 0 yday
     in tmbuf\<lparr>tm_wday := to_int wday, tm_yday := to_int yday, tm_sec := to_int (secs mod 60),
          tm_min := to_int (secs div 60 mod 60), tm_hour := to_int (secs div 60 div 60),
          tm_mday := to_int (mday + 1), tm_mon := to_int mon, tm_year := to_int (year + 70)\<rparr>)"

section \<open>Timers\<close>

record qtime =
  timer_period :: u64
  timer_scale :: int

text \<open>The first loop of timer\_tick2ns; the product of the first line is taken again whenever the quotient is
  zero.\<close>
fun tick_loop :: "nat \<Rightarrow> u64 \<Rightarrow> u64 \<Rightarrow> u64 \<Rightarrow> u64 res" where
  "tick_loop pw period ns ticks =
    and_then
      (if ns = 0 then
         (if period = 0 then Inl Div_Zero
          else ok (if period * ticks div period \<noteq> ticks then 0 else period * ticks))
       else ok ns)
      (\<lambda>ns. case pw of 0 \<Rightarrow> ok ns | Suc pw \<Rightarrow> tick_loop pw (period div 10) (ns div 10) ticks)"

declare tick_loop.simps [simp del]

definition timer_tick2ns :: "qtime \<Rightarrow> u64 \<Rightarrow> u64 res" where
  "timer_tick2ns q ticks =
    (let pw = - 9 - timer_scale q in
     and_then (tick_loop (nat pw) (timer_period q) 0 ticks) (\<lambda>ns. ok (ns * 10 ^ nat (- pw))))"

definition timer_ns2tick :: "qtime \<Rightarrow> u64 \<Rightarrow> u64 res" where
  "timer_ns2tick q ns =
    and_then (timer_tick2ns q 1) (\<lambda>ticks_2_ns.
      if ticks_2_ns \<noteq> 0 then ok (ns div ticks_2_ns) else ok 0xFFFFFFFF)"

text \<open>The loop of invert\_timer\_freq, for at most n passes.\<close>
fun invert_loop :: "nat \<Rightarrow> u32 \<Rightarrow> u32 \<Rightarrow> u32 \<Rightarrow> int \<Rightarrow> (u32 \<times> int) res" where
  "invert_loop 0 freq quot period scale = hang"
| "invert_loop (Suc n) freq quot period scale =
    (let dv = quot div freq; period = period * 10 + dv in
     if 0xFFFFFFFF div 10 - 10 \<le> period then ok (period, scale)
     else let rem = quot mod freq in
          if rem = 0 then ok (period, scale)
          else invert_loop n freq (rem * 10) period (scale - 1))"

definition invert_timer_freq :: "u32 \<Rightarrow> qtime \<Rightarrow> qtime res" where
  "invert_timer_freq freq q =
    (if freq = 0 then crash ''Timer frequency is zero''
     else
       let (scale, freq) = (if 0xFFFFFFFF div 10 < freq then (- 1, freq div 10) else (0, freq))
       in and_then (invert_loop 20 freq 1 0 scale) (\<lambda>(period, scale).
            ok (q\<lparr>timer_period := ucast period, timer_scale := scale\<rparr>)))"

section \<open>Dates there and back\<close>

lemma to_int_small: "unat x < 2 ^ 31 \<Longrightarrow> to_int x = int (unat x)"
proof -
  assume x: "unat x < 2 ^ 31"
  have u: "unat (ucast x :: u32) = unat x"
    using x by (simp add: unsigned_ucast_eq take_bit_nat_eq_self)
  have "sint (ucast x :: u32) = signed_take_bit 31 (int (unat (ucast x :: u32)))"
    by (simp add: sint_uint)
  also have "\<dots> = int (unat x)"
  proof -
    have "int (unat x) < 2 ^ 31" using x by (simp only: of_nat_less_numeral_power_cancel_iff)
    moreover have "- (2 ^ 31) \<le> int (unat x)" by (rule order_trans [of _ 0]) simp_all
    ultimately show ?thesis unfolding u by (intro signed_take_bit_int_eq_self)
  qed
  finally show ?thesis by (simp add: to_int_def)
qed

lemma ucast_nat: "unat (w :: u32) = n \<Longrightarrow> (ucast w :: u64) = of_nat n"
  by (auto simp only: ucast_eq uint_nat of_int_of_nat_eq)

lemma unat_plus_small: "unat (x :: u64) + n < 2 ^ 64 \<Longrightarrow> unat (x + of_nat n) = unat x + n"
proof -
  assume a: "unat x + n < 2 ^ 64"
  then have "unat (of_nat n :: u64) = n" by (intro unat_of_nat_small) simp
  then show ?thesis using a by (simp add: unat_add_lem [THEN iffD1])
qed

lemma leap_word: "unat y + 2 < 2 ^ 64 \<Longrightarrow> (y + 2) mod 4 = (0 :: u64) \<longleftrightarrow> (unat y + 2) mod 4 = 0"
  using unat_plus_small [of y 2] by (simp add: word_unat_eq_iff unat_mod)

lemma unat_year_days: "unat y + 2 < 2 ^ 64 \<Longrightarrow> unat (year_days y) = 365 + (if (unat y + 2) mod 4 = 0 then 1 else 0)"
  by (simp add: year_days_def leap_word)

text \<open>The days before a year, with a leap day every fourth year.\<close>
definition days_before :: "nat \<Rightarrow> nat" where
  "days_before y = 365 * y + (y + 1) div 4"

lemma days_before_Suc: "days_before (Suc y) = days_before y + 365 + (if (y + 2) mod 4 = 0 then 1 else 0)"
  unfolding days_before_def by presburger

lemma year_loop_days:
  "year_loop y d = (y', d') \<Longrightarrow> unat y + unat d < 2 ^ 62 \<Longrightarrow>
     unat y' < 2 ^ 62 \<and> days_before (unat y') + unat d' = days_before (unat y) + unat d \<and> d' < year_days y'"
proof (induction y d rule: year_loop.induct)
  case (1 y d)
  show ?case
  proof (cases "d < year_days y")
    case True
    have "(y, d) = (y', d')" using 1(2) True by (subst (asm) year_loop.simps) (simp add: Let_def)
    then show ?thesis using 1(3) True by auto
  next
    case False
    have yd: "unat (year_days y) = 365 + (if (unat y + 2) mod 4 = 0 then 1 else 0)"
      by (rule unat_year_days) (use 1(3) in simp)
    have le: "unat (year_days y) \<le> unat d" using False by (simp add: word_less_nat_alt)
    have s: "unat (y + 1) = unat y + 1" using unat_plus_small [of y 1] 1(3) by simp
    have m: "unat (d - year_days y) = unat d - unat (year_days y)" using False by (simp add: unat_sub)
    have run: "year_loop (y + 1) (d - year_days y) = (y', d')"
      using 1(2) False by (subst (asm) year_loop.simps) (simp add: Let_def)
    have "unat (y + 1) + unat (d - year_days y) < 2 ^ 62" using 1(3) le yd unfolding s m by linarith
    from 1(1) [OF refl False run this] show ?thesis
      using days_before_Suc [of "unat y"] le yd unfolding s m by auto
  qed
qed

lemma mon_loop_days:
  "mon_loop ts k d = (k', d') \<Longrightarrow>
     \<exists>j \<le> length ts. k' = k + of_nat j \<and> unat d = sum_list (map unat (take j ts)) + unat d' \<and> (j < length ts \<longrightarrow> d' < ts ! j)"
proof (induction ts arbitrary: k d)
  case (Cons t ts)
  show ?case
  proof (cases "d < t")
    case True
    then show ?thesis using Cons.prems by (intro exI [of _ 0]) simp
  next
    case False
    from Cons.IH [of "k + 1" "d - t"] Cons.prems False obtain j where j: "j \<le> length ts" "k' = k + 1 + of_nat j"
      "unat (d - t) = sum_list (map unat (take j ts)) + unat d'" "j < length ts \<longrightarrow> d' < ts ! j" by auto
    have "unat (d - t) = unat d - unat t" "unat t \<le> unat d" using False by (simp_all add: unat_sub word_less_nat_alt word_le_nat_alt)
    then show ?thesis using j by (intro exI [of _ "Suc j"]) (simp add: algebra_simps)
  qed
qed simp

lemma month_starts:
  assumes "j < 12"
  shows "unat (month_sec ! j) + (if leap \<and> 2 \<le> j then 86400 else 0) = sum_list (map unat (take j (mdays leap))) * 86400"
    "unat (mdays leap ! j) \<le> 31"
proof -
  let ?m = "[31, if leap then 29 else 28, 31, 30, 31, 30, 31, 31, 30, 31, 30, 31 :: nat]"
  let ?s = "[0, 2678400, 5097600, 7776000, 10368000, 13046400, 15638400, 18316800, 20995200, 23587200, 26265600, 28857600 :: nat]"
  have m: "map unat (mdays leap) = ?m" and s: "map unat month_sec = ?s" by (simp_all add: mdays_def month_sec_def)
  have l: "length (mdays leap) = 12" "length month_sec = 12" by (simp_all add: mdays_def month_sec_def)
  have "\<forall>j \<in> {0, 1, 2, 3, 4, 5, 6, 7, 8, 9, 10, 11}. ?s ! j + (if leap \<and> 2 \<le> j then 86400 else 0) = sum_list (take j ?m) * 86400 \<and> ?m ! j \<le> 31"
    by (cases leap) simp_all
  moreover have "j \<in> {0, 1, 2, 3, 4, 5, 6, 7, 8, 9, 10, 11}" using assms by (simp, presburger)
  ultimately have "?s ! j + (if leap \<and> 2 \<le> j then 86400 else 0) = sum_list (take j ?m) * 86400 \<and> ?m ! j \<le> 31" by (rule bspec)
  then show "unat (month_sec ! j) + (if leap \<and> 2 \<le> j then 86400 else 0) = sum_list (map unat (take j (mdays leap))) * 86400"
    "unat (mdays leap ! j) \<le> 31"
    using assms unfolding m [symmetric] s [symmetric] by (simp_all add: l take_map)
qed

lemma mdays_sum: "sum_list (map unat (mdays leap)) = 365 + (if leap then 1 else 0)" "length (mdays leap) = 12"
  by (simp_all add: mdays_def)

text \<open>The rule for leap years of calc\_time\_t, in the years that have one every fourth year.\<close>
lemma leap_years: "y < 130 \<Longrightarrow> leap_year (of_nat (y + 1970)) \<longleftrightarrow> (y + 2) mod 4 = 0"
proof -
  assume y: "y < 130"
  have u: "unat (of_nat (y + 1970) :: u32) = y + 1970" using y by (intro unat_of_nat_small) simp
  have "leap_year (of_nat (y + 1970)) \<longleftrightarrow> (y + 1970) mod 4 = 0 \<and> ((y + 1970) mod 100 \<noteq> 0 \<or> (y + 1970) mod 400 = 0)"
    unfolding leap_year_def word_unat_eq_iff unat_mod u by simp
  also have "\<dots> \<longleftrightarrow> (y + 2) mod 4 = 0" using y by presburger
  finally show ?thesis .
qed

lemma of_int_nat: "(of_int (int n) :: 'a :: ring_1) = of_nat n"
  by simp

text \<open>The parts of a date, as numbers.\<close>
lemma gmtime_parts:
  assumes t: "t < 4102444800" and g: "tm = gmtime (int t) buf"
  obtains y j d where "y < 130" "j < 12" "d < 31" "tm_year tm = int (y + 70)" "tm_mon tm = int j" "tm_mday tm = int (d + 1)"
    "tm_hour tm = int (t mod 86400 div 60 div 60)" "tm_min tm = int (t mod 86400 div 60 mod 60)"
    "tm_sec tm = int (t mod 86400 mod 60)"
    "t div 86400 = days_before y + sum_list (map unat (take j (mdays ((y + 2) mod 4 = 0)))) + d"
proof -
  define N where "N = t div 86400"
  define S where "S = t mod 86400"
  have N: "N < 47482" using t by (simp add: N_def less_mult_imp_div_less)
  have S: "S < 86400" by (simp add: S_def)
  have dv: "int t sdiv 86400 = int N" "int t smod 86400 = int S"
    by (simp_all add: signed_divide_int_def signed_modulo_int_def N_def S_def zdiv_int zmod_int sgn_if)
  have uN: "unat (of_nat N :: u64) = N" and uS: "unat (of_nat S :: u64) = S"
    using N S by (auto intro!: unat_of_nat_small)
  obtain y yd where yl: "year_loop 0 (of_nat N) = (y, yd)" by (cases "year_loop 0 (of_nat N)")
  have y: "unat y < 2 ^ 62" "days_before (unat y) + unat yd = N" "yd < year_days y"
    using year_loop_days [OF yl] N by (simp_all add: uN days_before_def)
  have y130: "unat y < 130"
  proof (rule ccontr)
    assume "\<not> unat y < 130"
    then have "days_before 130 \<le> days_before (unat y)" unfolding days_before_def by (intro add_mono div_le_mono) simp_all
    then show False using y(2) N by (simp add: days_before_def)
  qed
  define leap where "leap = ((unat y + 2) mod 4 = 0)"
  have lw: "(y + 2) mod 4 = 0 \<longleftrightarrow> leap" unfolding leap_def by (rule leap_word) (use y in simp)
  have yd: "unat yd < 365 + (if leap then 1 else 0)"
    using y(3) unat_year_days [of y] y(1) unfolding leap_def word_less_nat_alt by simp
  obtain m md where ml: "mon_loop (mdays leap) 0 yd = (m, md)" by (cases "mon_loop (mdays leap) 0 yd")
  obtain j where j: "j \<le> 12" "m = of_nat j" "unat yd = sum_list (map unat (take j (mdays leap))) + unat md"
    "j < 12 \<longrightarrow> md < mdays leap ! j"
    using mon_loop_days [OF ml] by (auto simp: mdays_sum)
  have j12: "j < 12"
  proof (rule ccontr)
    assume "\<not> j < 12"
    then have "unat yd = 365 + (if leap then 1 else 0) + unat md" using j by (simp add: mdays_sum)
    then show False using yd by simp
  qed
  have md: "unat md < 31" using j(4) j12 month_starts(2) [OF j12, of leap] by (simp add: word_less_nat_alt)
  have um: "unat m = j" unfolding j(2) using j12 by (intro unat_of_nat_small) simp
  have sp: "unat (y + 70) = unat y + 70" "unat (md + 1) = unat md + 1"
    using unat_plus_small [of y 70] unat_plus_small [of md 1] y130 md by simp_all
  have uu: "unat (of_nat S mod 60 :: u64) = S mod 60" "unat (of_nat S div 60 mod 60 :: u64) = S div 60 mod 60"
    "unat (of_nat S div 60 div 60 :: u64) = S div 60 div 60"
    by (simp_all add: unat_mod unat_div uS)
  show thesis
  proof (rule that [of "unat y" j "unat md"])
    show "tm_year tm = int (unat y + 70)" "tm_mon tm = int j" "tm_mday tm = int (unat md + 1)"
      unfolding g gmtime_def Let_def dv of_int_nat yl prod.case lw ml
      using to_int_small [of "y + 70"] to_int_small [of m] to_int_small [of "md + 1"] sp um y130 j12 md by simp_all
    have "S mod 60 < 2 ^ 31" "S div 60 mod 60 < 2 ^ 31" by (rule less_le_trans [of _ 60], simp_all)+
    moreover have "S div 60 div 60 < 2 ^ 31" using S by (simp add: less_mult_imp_div_less)
    ultimately show "tm_hour tm = int (t mod 86400 div 60 div 60)" "tm_min tm = int (t mod 86400 div 60 mod 60)"
      "tm_sec tm = int (t mod 86400 mod 60)"
      unfolding g gmtime_def Let_def dv of_int_nat yl prod.case lw ml S_def [symmetric]
      using to_int_small [of "of_nat S mod 60"] to_int_small [of "of_nat S div 60 mod 60"]
        to_int_small [of "of_nat S div 60 div 60"] uu S by simp_all
    show "t div 86400 = days_before (unat y) + sum_list (map unat (take j (mdays ((unat y + 2) mod 4 = 0)))) + unat md"
      using y(2) j(3) unfolding leap_def [symmetric] N_def by simp
  qed (use y130 j12 md in simp_all)
qed

text \<open>C24: from 1970 to the end of 2099 gmtime and calc\_time\_t are inverse: the date that gmtime gives for a
  time has all its parts in their ranges, and calc\_time\_t gives that time back.\<close>
theorem calc_time_t_gmtime:
  assumes "t < 4102444800"
  shows "\<exists>tm. tm = gmtime (int t) buf \<and> calc_time_t tm = ok (of_nat t) \<and> tm_sec tm \<in> {0 ..< 60} \<and> tm_min tm \<in> {0 ..< 60} \<and>
    tm_hour tm \<in> {0 ..< 24} \<and> tm_mday tm \<in> {1 .. 31} \<and> tm_mon tm \<in> {0 ..< 12} \<and> tm_year tm \<in> {70 ..< 200}"
proof -
  define tm where "tm = gmtime (int t) buf"
  obtain y j d where p: "y < 130" "j < 12" "d < 31" "tm_year tm = int (y + 70)" "tm_mon tm = int j" "tm_mday tm = int (d + 1)"
    "tm_hour tm = int (t mod 86400 div 60 div 60)" "tm_min tm = int (t mod 86400 div 60 mod 60)"
    "tm_sec tm = int (t mod 86400 mod 60)"
    "t div 86400 = days_before y + sum_list (map unat (take j (mdays ((y + 2) mod 4 = 0)))) + d"
    by (rule gmtime_parts [OF assms tm_def])
  let ?leap = "(y + 2) mod 4 = 0" and ?S = "t mod 86400"
  have S: "?S < 86400" by simp
  have yr: "(of_int (tm_year tm) - 70 :: u32) = of_nat y" "(of_int (tm_year tm) + 1900 :: u32) = of_nat (y + 1970)"
    by (simp_all add: p(4))
  have uy: "(ucast (of_nat y :: u32) :: u64) = of_nat y"
  proof -
    have "unat (of_nat y :: u32) = y" using p(1) by (intro unat_of_nat_small) simp
    then show ?thesis by (rule ucast_nat)
  qed
  have uq: "(ucast (drop_bit 2 (of_nat y + 1 :: u32)) :: u64) = of_nat ((y + 1) div 4)"
  proof -
    have "unat (of_nat (y + 1) :: u32) = y + 1" using p(1) by (intro unat_of_nat_small) simp
    then have "unat (drop_bit 2 (of_nat (y + 1) :: u32)) = (y + 1) div 4" by (simp only: unat_drop_bit_eq) (simp add: drop_bit_eq_div)
    from ucast_nat [OF this] show ?thesis by (simp add: add.commute)
  qed
  have ms: "month_sec ! j + (if ?leap \<and> 2 \<le> j then 86400 else 0) =
      of_nat (sum_list (map unat (take j (mdays ?leap))) * 86400)"
    unfolding month_starts(1) [OF p(2), symmetric] by simp
  have lenm: "length month_sec = 12" by (simp add: month_sec_def)
  have "calc_time_t tm = ok ((of_nat y * 365 + of_nat ((y + 1) div 4)) * 86400 +
      (month_sec ! j + (if ?leap \<and> 2 \<le> j then 86400 else 0)) + of_nat d * 86400 +
      of_nat (?S div 60 div 60) * 3600 + of_nat (?S div 60 mod 60) * 60 + of_nat (?S mod 60))"
    using p(2) leap_years [OF p(1)] unfolding calc_time_t_def Let_def yr uy uq p(5,6,7,8,9)
    by (simp add: lenm SEC_PER_DAY_def SEC_PER_HOUR_def SEC_PER_MIN_def algebra_simps)
  also have "\<dots> = ok (of_nat ((y * 365 + (y + 1) div 4) * 86400 + sum_list (map unat (take j (mdays ?leap))) * 86400 + d * 86400 +
      ?S div 60 div 60 * 3600 + ?S div 60 mod 60 * 60 + ?S mod 60))"
    unfolding ms by simp
  also have "(y * 365 + (y + 1) div 4) * 86400 + sum_list (map unat (take j (mdays ?leap))) * 86400 + d * 86400 +
      ?S div 60 div 60 * 3600 + ?S div 60 mod 60 * 60 + ?S mod 60 = t"
  proof -
    have "?S div 60 div 60 * 3600 + ?S div 60 mod 60 * 60 + ?S mod 60 =
        (?S div 60 div 60 * 60 + ?S div 60 mod 60) * 60 + ?S mod 60" by (simp only: distrib_right mult.assoc)
    also have "\<dots> = ?S" by (simp only: div_mult_mod_eq)
    finally have "?S div 60 div 60 * 3600 + ?S div 60 mod 60 * 60 + ?S mod 60 = ?S" .
    moreover have "(y * 365 + (y + 1) div 4) * 86400 + sum_list (map unat (take j (mdays ?leap))) * 86400 + d * 86400 =
        t div 86400 * 86400" unfolding p(10) days_before_def by (simp add: algebra_simps)
    moreover have "t div 86400 * 86400 + ?S = t" by simp
    ultimately show ?thesis by (metis (no_types, lifting) add.assoc)
  qed
  finally have "calc_time_t tm = ok (of_nat t)" .
  moreover have "?S div 60 div 60 < 24" using S by (simp add: less_mult_imp_div_less)
  ultimately show ?thesis using p by (intro exI [of _ tm]) (simp add: tm_def)
qed

theorem calc_time_t_gmtime_witness:
  "\<exists>tm. tm = gmtime (int 951827696) \<lparr>tm_sec = 0, tm_min = 0, tm_hour = 0, tm_mday = 0, tm_mon = 0, tm_year = 0,
     tm_wday = 0, tm_yday = 0\<rparr> \<and> calc_time_t tm = ok (of_nat 951827696)"
  using calc_time_t_gmtime [of 951827696] by auto

text \<open>The first of January 2101: the sum of leap years counts 2100, so the result is a day late.\<close>
lemma calc_time_t_2101:
  "calc_time_t \<lparr>tm_sec = 0, tm_min = 0, tm_hour = 0, tm_mday = 1, tm_mon = 0, tm_year = 201, tm_wday = 6, tm_yday = 0\<rparr> =
     ok (4133980800 + 86400)"
  by (simp add: calc_time_t_def Let_def month_sec_def SEC_PER_DAY_def SEC_PER_HOUR_def SEC_PER_MIN_def)

section \<open>Ticks and nanoseconds\<close>

lemma unat_div10: "unat (x div 10 :: u64) = unat x div 10"
  by (simp add: unat_div)

text \<open>Once the product is taken, every pass divides it by ten.\<close>
lemma tick_loop_exact:
  "10 ^ pw \<le> unat period \<Longrightarrow> unat period * unat ticks \<le> unat ns \<Longrightarrow>
     \<exists>r. tick_loop pw period ns ticks = ok r \<and> unat r = unat ns div 10 ^ pw"
proof (induction pw arbitrary: period ns)
  case 0
  have p: "period \<noteq> 0" using 0 by auto
  have "ticks = 0" if "ns = 0" using 0(2) that p by (simp add: unat_eq_zero)
  then show ?case using p by (auto simp: tick_loop.simps [of 0])
next
  case (Suc pw)
  have "unat period \<noteq> 0" using Suc.prems(1) by (metis le_0_eq power_eq_0_iff zero_neq_numeral)
  then have p: "period \<noteq> 0" by auto
  have t: "ticks = 0" if "ns = 0" using Suc.prems(2) that p by (simp add: unat_eq_zero)
  have "10 ^ pw \<le> unat (period div 10)" using Suc.prems(1) by (simp add: unat_div10 div_le_mono less_eq_div_iff_mult_less_eq mult.commute)
  moreover have "unat (period div 10) * unat ticks \<le> unat (ns div 10)"
  proof -
    have "unat period div 10 * unat ticks * 10 \<le> unat period * unat ticks"
      by (metis div_times_less_eq_dividend mult.assoc mult.commute mult_le_mono1)
    also have "\<dots> \<le> unat ns" by (rule Suc.prems(2))
    finally show ?thesis by (simp add: unat_div10 less_eq_div_iff_mult_less_eq)
  qed
  ultimately obtain r where r: "tick_loop pw (period div 10) (ns div 10) ticks = ok r" "unat r = unat (ns div 10) div 10 ^ pw"
    using Suc.IH by blast
  have "tick_loop (Suc pw) period ns ticks = ok r"
    using r(1) p t by (cases "ns = 0") (simp_all add: tick_loop.simps [of "Suc pw"])
  then show ?case using r(2) by (simp add: unat_div10 div_mult2_eq)
qed

text \<open>The result is never too large, whether or not products overflow.\<close>
lemma tick_loop_bound:
  "10 ^ pw \<le> unat period \<Longrightarrow> unat period * unat ticks \<le> B \<Longrightarrow> unat ns \<le> B \<Longrightarrow>
     \<exists>r. tick_loop pw period ns ticks = ok r \<and> unat r \<le> B div 10 ^ pw"
proof (induction pw arbitrary: period ns B)
  case (Suc pw)
  have "unat period \<noteq> 0" using Suc.prems(1) by (metis le_0_eq power_eq_0_iff zero_neq_numeral)
  then have p: "period \<noteq> 0" by auto
  obtain ns' where run: "\<And>f. (if ns = 0 then if period = 0 then Inl Div_Zero
        else ok (if period * ticks div period \<noteq> ticks then 0 else period * ticks) else ok ns) = ok ns'" and le: "unat ns' \<le> B"
  proof (cases "ns = 0 \<and> period * ticks div period = ticks")
    case True
    have "unat (period * ticks) \<le> unat period * unat ticks" by (simp add: unat_word_ariths(2))
    then show thesis using True p Suc.prems(2) by (intro that [of "period * ticks"]) simp_all
  next
    case False
    then show thesis using p Suc.prems(3) by (intro that [of ns]) auto
  qed
  have "10 ^ pw \<le> unat (period div 10)" using Suc.prems(1) by (simp add: unat_div10 less_eq_div_iff_mult_less_eq mult.commute)
  moreover have "unat (period div 10) * unat ticks \<le> B div 10"
  proof -
    have "unat period div 10 * unat ticks * 10 \<le> unat period * unat ticks"
      by (metis div_times_less_eq_dividend mult.assoc mult.commute mult_le_mono1)
    also have "\<dots> \<le> B" by (rule Suc.prems(2))
    finally show ?thesis by (simp add: unat_div10 less_eq_div_iff_mult_less_eq)
  qed
  moreover have "unat (ns' div 10) \<le> B div 10" using le by (simp add: unat_div10 div_le_mono)
  ultimately obtain r where r: "tick_loop pw (period div 10) (ns' div 10) ticks = ok r" "unat r \<le> B div 10 div 10 ^ pw"
    using Suc.IH by blast
  have "tick_loop (Suc pw) period ns ticks = ok r"
    unfolding tick_loop.simps [of "Suc pw"] run using r(1) by simp
  then show ?case using r(2) by (simp add: div_mult2_eq)
next
  case 0
  then have p: "period \<noteq> 0" by auto
  have "unat (period * ticks) \<le> unat period * unat ticks" by (simp add: unat_word_ariths(2))
  then show ?case using 0 p by (auto simp: tick_loop.simps [of 0])
qed

text \<open>For a period of at least 10 to the p units, where p is the number of decimal digits by which the unit
  is finer than a nanosecond, timer\_tick2ns returns: never more than the exact number of nanoseconds, and
  exactly that number, rounded down, when the product of period and ticks fits 64 bits.\<close>
lemma timer_tick2ns_value:
  assumes "timer_scale q = - 9 - int p" "10 ^ p \<le> unat (timer_period q)"
  shows "\<exists>ns. timer_tick2ns q ticks = ok ns \<and> unat ns \<le> unat (timer_period q) * unat ticks div 10 ^ p \<and>
    (unat (timer_period q) * unat ticks < 2 ^ 64 \<longrightarrow> unat ns = unat (timer_period q) * unat ticks div 10 ^ p)"
proof -
  let ?P = "timer_period q" and ?B = "unat (timer_period q) * unat ticks"
  have pw: "- 9 - timer_scale q = int p" using assms(1) by simp
  have t: "timer_tick2ns q ticks = tick_loop p ?P 0 ticks"
    unfolding timer_tick2ns_def Let_def pw by simp
  obtain r where r: "tick_loop p ?P 0 ticks = ok r" "unat r \<le> ?B div 10 ^ p"
    using tick_loop_bound [OF assms(2), of ticks ?B 0] by auto
  have "unat r = ?B div 10 ^ p" if small: "?B < 2 ^ 64"
  proof -
    have "unat ?P \<noteq> 0" using assms(2) by (metis le_0_eq power_eq_0_iff zero_neq_numeral)
    then have P: "?P \<noteq> 0" by auto
    have u: "unat (?P * ticks) = ?B" using small by (simp add: unat_word_ariths(2))
    then have "unat (?P * ticks div ?P) = unat ticks" using P by (simp add: unat_div unat_eq_zero)
    then have d: "?P * ticks div ?P = ticks" by (simp add: word_unat_eq_iff)
    have "tick_loop p ?P 0 ticks = tick_loop p ?P (?P * ticks) ticks"
      using P d by (cases p) (auto simp: tick_loop.simps [of 0] tick_loop.simps [of "Suc _"])
    moreover obtain r' where "tick_loop p ?P (?P * ticks) ticks = ok r'" "unat r' = ?B div 10 ^ p"
      using tick_loop_exact [OF assms(2), of ticks "?P * ticks"] u by auto
    ultimately show ?thesis using r(1) by simp
  qed
  then show ?thesis using r t by auto
qed

lemma timer_tick2ns_value_witness:
  "\<exists>ns. timer_tick2ns \<lparr>timer_period = 520833333, timer_scale = - 16\<rparr> 19200 = ok ns \<and> unat ns = 999999"
  using timer_tick2ns_value [of "\<lparr>timer_period = 520833333, timer_scale = - 16\<rparr>" 7 19200] by auto

text \<open>A clock faster than 1 GHz: a tick is less than a nanosecond, the period becomes zero in the loop and is
  divided by.\<close>
lemma timer_tick2ns_divides_by_zero: "timer_tick2ns \<lparr>timer_period = 25, timer_scale = - 11\<rparr> 1 = Inl Div_Zero"
  by (simp add: timer_tick2ns_def tick_loop.simps)

section \<open>The period of a frequency\<close>

text \<open>Pass k: ten to the k is the period times the frequency and what is left.\<close>
lemma invert_loop_spec:
  assumes f: "0 < unat freq" "unat freq \<le> 429496729"
  shows "k + n = 20 \<Longrightarrow> unat period < 429496719 \<Longrightarrow> 10 ^ k = 10 * unat period * unat freq + unat quot \<Longrightarrow> unat quot < 10 * unat freq \<Longrightarrow>
     \<exists>p j. invert_loop n freq quot period scale = ok (p, scale - int j) \<and>
       unat p * unat freq \<le> 10 ^ (k + j) \<and> 10 ^ (k + j) < (unat p + 1) * unat freq \<and>
       (unat p * unat freq = 10 ^ (k + j) \<or> 429496719 \<le> unat p)"
proof (induction n arbitrary: k quot period scale)
  case 0
  have "unat period * unat freq \<le> 429496719 * 429496729" by (rule mult_le_mono) (use 0 f in auto)
  moreover have "(10 :: nat) ^ 20 = 10 * (unat period * unat freq) + unat quot" using 0 by simp
  ultimately show ?case using 0(4) f(2) by simp
next
  case (Suc n)
  let ?F = "unat freq" and ?P = "period * 10 + quot div freq"
  have q: "unat (quot div freq) = unat quot div ?F" "unat (quot mod freq) = unat quot mod ?F" by (simp_all add: unat_div unat_mod)
  have d9: "unat quot div ?F \<le> 9" using less_mult_imp_div_less [OF Suc.prems(4)] by simp
  have p10: "unat (period * 10) = unat period * 10"
    using Suc.prems(2) by (simp add: unat_word_ariths(2))
  have uP: "unat ?P = unat period * 10 + unat quot div ?F"
    using Suc.prems(2) d9 by (simp add: unat_add_lem [THEN iffD1] p10 q)
  have eq: "10 ^ k = unat ?P * ?F + unat quot mod ?F"
    using Suc.prems(3) div_mult_mod_eq [of "unat quot" ?F] unfolding uP by (simp add: algebra_simps)
  have m: "unat quot mod ?F < ?F" using f(1) by simp
  have lim: "(0xFFFFFFFF div 10 - 10 :: u32) = 429496719" by simp
  have big: "429496719 \<le> ?P \<longleftrightarrow> 429496719 \<le> unat ?P" by (simp add: word_le_nat_alt)
  have zero: "quot mod freq = 0 \<longleftrightarrow> unat quot mod ?F = 0" using q(2) by (simp add: word_unat_eq_iff)
  show ?case
  proof (cases "429496719 \<le> unat ?P \<or> unat quot mod ?F = 0")
    case True
    then have "invert_loop (Suc n) freq quot period scale = ok (?P, scale - int 0)"
      using big zero by (auto simp: Let_def)
    then show ?thesis using eq m True by (intro exI [of _ ?P] exI [of _ 0]) auto
  next
    case False
    let ?r = "(quot mod freq) * 10"
    have ur: "unat ?r = unat quot mod ?F * 10"
      using m f(2) by (simp add: unat_word_ariths(2) q)
    have run: "invert_loop (Suc n) freq quot period scale = invert_loop n freq ?r ?P (scale - 1)"
      using False big zero by (simp add: Let_def)
    have "\<exists>p j. invert_loop n freq ?r ?P (scale - 1) = ok (p, scale - 1 - int j) \<and>
       unat p * ?F \<le> 10 ^ (Suc k + j) \<and> 10 ^ (Suc k + j) < (unat p + 1) * ?F \<and>
       (unat p * ?F = 10 ^ (Suc k + j) \<or> 429496719 \<le> unat p)"
    proof (rule Suc.IH)
      show "10 ^ Suc k = 10 * unat ?P * ?F + unat ?r" using eq unfolding ur by (simp add: algebra_simps)
      show "unat ?r < 10 * ?F" using m unfolding ur by simp
    qed (use Suc.prems False in auto)
    then obtain p j where "invert_loop n freq ?r ?P (scale - 1) = ok (p, scale - 1 - int j)"
       "unat p * ?F \<le> 10 ^ (Suc k + j)" "10 ^ (Suc k + j) < (unat p + 1) * ?F"
       "unat p * ?F = 10 ^ (Suc k + j) \<or> 429496719 \<le> unat p" by blast
    then show ?thesis unfolding run by (intro exI [of _ p] exI [of _ "Suc j"]) simp
  qed
qed

text \<open>C25: the loop of invert\_timer\_freq ends for every frequency, within 20 passes, and no product in it
  overflows: the period is the largest for which period times frequency does not exceed a power of ten, whose
  exponent is the scale, and is either exact or has at least 429496719 units.  A frequency above a tenth of the
  range of unsigned is divided by ten first.\<close>
theorem invert_timer_freq_period:
  assumes "freq \<noteq> 0"
  shows "\<exists>q' s F k. invert_timer_freq freq q = ok q' \<and>
    (s, F) = (if 429496729 < unat freq then (1, unat freq div 10) else (0, unat freq)) \<and>
    timer_scale q' = - int (s + k) \<and> unat (timer_period q') * F \<le> 10 ^ k \<and> 10 ^ k < (unat (timer_period q') + 1) * F \<and>
    (unat (timer_period q') * F = 10 ^ k \<or> 429496719 \<le> unat (timer_period q'))"
proof -
  define s :: nat where "s = (if 429496729 < unat freq then 1 else 0)"
  define f where "f = (if 429496729 < unat freq then freq div 10 else freq)"
  have big: "0xFFFFFFFF div 10 < freq \<longleftrightarrow> 429496729 < unat freq" by (simp add: word_less_nat_alt)
  have uf: "unat f = (if 429496729 < unat freq then unat freq div 10 else unat freq)" by (simp add: f_def unat_div)
  have "unat freq < 2 ^ 32" using unsigned_less [of freq, where ?'a = nat] by simp
  then have f: "0 < unat f" "unat f \<le> 429496729"
    using assms unfolding uf by (auto simp: unat_gt_0)
  have sf: "(if 0xFFFFFFFF div 10 < freq then (- 1, freq div 10) else (0, freq)) = (- int s, f)"
    unfolding big s_def f_def by simp
  obtain p j where r: "invert_loop 20 f 1 0 (- int s) = ok (p, - int s - int j)"
    "unat p * unat f \<le> 10 ^ j" "10 ^ j < (unat p + 1) * unat f" "unat p * unat f = 10 ^ j \<or> 429496719 \<le> unat p"
    using invert_loop_spec [OF f, of 0 20 0 1 "- int s"] f(1) by auto
  have "unat p < 2 ^ 32" using unsigned_less [of p, where ?'a = nat] by simp
  then have up: "unat (ucast p :: u64) = unat p" by (simp add: unsigned_ucast_eq take_bit_nat_eq_self)
  have run: "invert_timer_freq freq q = ok (q\<lparr>timer_period := ucast p, timer_scale := - int s - int j\<rparr>)"
    using assms unfolding invert_timer_freq_def Let_def sf by (simp add: r(1))
  show ?thesis
    by (rule exI [of _ "q\<lparr>timer_period := ucast p, timer_scale := - int s - int j\<rparr>"], rule exI [of _ s],
        rule exI [of _ "unat f"], rule exI [of _ j]) (use r run in \<open>simp add: up uf s_def\<close>)
qed

theorem invert_timer_freq_period_witness:
  "\<exists>q'. invert_timer_freq 19200000 \<lparr>timer_period = 0, timer_scale = 0\<rparr> = ok q'"
  using invert_timer_freq_period [of 19200000 "\<lparr>timer_period = 0, timer_scale = 0\<rparr>"] by auto

end
