(* ===== verification/Cmdline.thy ===== *)
theory Cmdline
  imports Numbers
begin

text \<open>
  Arguments: bootstrap\_cmdline.c, the command line part of \_main.c, fdt\_tweak\_cmdline.c and
  efi\_tweak\_cmdline.c, and getopt.c of startup/lib.  A bootargs\_entry is the memory from its start on:
  eight bytes of header, the strings, whatever follows them in the entry, and the bytes behind the entry.
\<close>

unbundle bit_operations_syntax

section \<open>Entries with arguments\<close>

text \<open>size\_lo, size\_hi, argc, envc and shdr\_addr come before args.\<close>
definition ARGS :: nat where "ARGS = 8"
definition ARGC :: nat where "ARGC = 2"
definition ENVC :: nat where "ENVC = 3"

definition byte :: "char list \<Rightarrow> nat \<Rightarrow> u8" where
  "byte mem i = of_char (mem ! i)"

definition set_byte :: "nat \<Rightarrow> u8 \<Rightarrow> char list \<Rightarrow> char list" where
  "set_byte i b mem = mem[i := char_of (unat b)]"

definition strlen_at :: "char list \<Rightarrow> nat \<Rightarrow> nat res" where
  "strlen_at mem p = (if NUL \<in> set (drop p mem) then ok (length (cstr_at mem p)) else stray)"

text \<open>A count is an int8\_t and becomes an unsigned.\<close>
definition count_of :: "char list \<Rightarrow> nat \<Rightarrow> nat" where
  "count_of mem i = unat (scast (byte mem i) :: u32)"

fun skip_strings :: "nat \<Rightarrow> nat \<Rightarrow> char list \<Rightarrow> nat res" where
  "skip_strings 0 p mem = ok p"
| "skip_strings (Suc n) p mem = and_then (strlen_at mem p) (\<lambda>k. skip_strings n (p + k + 1) mem)"

text \<open>The loop that looks for old: where it ends, and the length of what it found.\<close>
fun search_strings :: "nat \<Rightarrow> string option \<Rightarrow> nat \<Rightarrow> char list \<Rightarrow> (nat \<times> nat option) res" where
  "search_strings 0 old p mem = ok (p, None)"
| "search_strings (Suc n) old p mem =
    and_then (strlen_at mem p) (\<lambda>k.
      if old = Some (cstr_at mem p) then ok (p, Some (k + 1)) else search_strings n old (p + k + 1) mem)"

text \<open>memmove inside the memory; an address before it or behind it is outside the object.\<close>
definition memmove :: "nat \<Rightarrow> int \<Rightarrow> int \<Rightarrow> char list \<Rightarrow> char list res" where
  "memmove dst src n mem =
    (if 0 \<le> src \<and> 0 \<le> n \<and> nat (src + n) \<le> length mem \<and> dst + nat n \<le> length mem
     then ok (put_bytes dst (take (nat n) (drop (nat src) mem)) mem) else stray)"

definition memcpy_to :: "nat \<Rightarrow> char list \<Rightarrow> char list \<Rightarrow> char list res" where
  "memcpy_to dst bs mem = (if dst + length bs \<le> length mem then ok (put_bytes dst bs mem) else stray)"

definition do_adjust :: "char list \<Rightarrow> string option \<Rightarrow> string option \<Rightarrow> nat \<Rightarrow> nat \<Rightarrow> (bool \<times> char list) res" where
  "do_adjust mem old new start countp =
    and_then (skip_strings start ARGS mem) (\<lambda>p.
    and_then (search_strings (count_of mem countp) old p mem) (\<lambda>(p, found).
      if found = None \<and> old \<noteq> None then ok (False, mem)
      else
        let sub_len = (case found of None \<Rightarrow> 0 | Some k \<Rightarrow> k);
            bytes = (case new of None \<Rightarrow> [] | Some s \<Rightarrow> s @ [NUL]);
            add_len = length bytes;
            c = byte mem countp;
            mem = set_byte countp (if new = None then c - 1 else if old = None then c + 1 else c) mem;
            total_len = (ucast (byte mem 0) + push_bit 8 (ucast (byte mem 1)) :: u32);
            diff = int add_len - int sub_len;
            src = int p - diff
        in and_then (memmove p src (int (unat total_len) - src) mem) (\<lambda>mem.
           and_then (if 0 < add_len then memcpy_to p bytes mem else ok mem) (\<lambda>mem.
             let total_len = total_len + of_int diff
             in ok (True, set_byte 1 (ucast (drop_bit 8 total_len)) (set_byte 0 (ucast (total_len AND 0xff)) mem))))))"

definition bootstrap_arg_adjust :: "char list \<Rightarrow> string option \<Rightarrow> string option \<Rightarrow> (bool \<times> char list) res" where
  "bootstrap_arg_adjust mem old new = do_adjust mem old new 0 ARGC"

definition bootstrap_env_adjust :: "char list \<Rightarrow> string option \<Rightarrow> string option \<Rightarrow> (bool \<times> char list) res" where
  "bootstrap_env_adjust mem old new = do_adjust mem old new (count_of mem ARGC) ENVC"

text \<open>setup\_cmdline: argv and envv have room for 19 pointers each; a negative count is no string.\<close>
definition MAX_ARGV :: nat where "MAX_ARGV = 20"

fun take_strings :: "nat \<Rightarrow> nat \<Rightarrow> nat \<Rightarrow> char list \<Rightarrow> (string list \<times> nat) res" where
  "take_strings i 0 p mem = ok ([], p)"
| "take_strings i (Suc n) p mem =
    and_then (strlen_at mem p) (\<lambda>k.
    and_then (take_strings (i + 1) n (p + k + 1) mem) (\<lambda>(ss, q).
      ok (if i < MAX_ARGV - 1 then (cstr_at mem p # ss, q) else (ss, q))))"

definition setup_cmdline :: "char list \<Rightarrow> (string list \<times> string list) res" where
  "setup_cmdline mem =
    and_then (take_strings 0 (nat (sint (byte mem ARGC))) ARGS mem) (\<lambda>(argv, p).
    and_then (take_strings 0 (nat (sint (byte mem ENVC))) p mem) (\<lambda>(envv, _).
      ok (argv, envv)))"

section \<open>Arguments from the firmware\<close>

text \<open>find\_next\_arg, when it ends the segment: the segment and what follows it.\<close>
definition find_next_arg :: "string \<Rightarrow> string \<times> string" where
  "find_next_arg str =
    (let str = dropWhile (\<lambda>c. c = CHR '' '') str in
     (takeWhile (\<lambda>c. c \<noteq> CHR '' '') str, drop 1 (dropWhile (\<lambda>c. c \<noteq> CHR '' '') str)))"

lemma find_next_arg_shorter: "fst (find_next_arg s) \<noteq> [] \<Longrightarrow> length (snd (find_next_arg s)) < length s"
proof -
  define t where "t = dropWhile (\<lambda>c. c = CHR '' '') s"
  have f: "find_next_arg s = (takeWhile (\<lambda>c. c \<noteq> CHR '' '') t, drop 1 (dropWhile (\<lambda>c. c \<noteq> CHR '' '') t))"
    by (simp only: find_next_arg_def Let_def t_def)
  assume "fst (find_next_arg s) \<noteq> []"
  then have "0 < length t" by (auto simp: f)
  moreover have "length (dropWhile (\<lambda>c. c \<noteq> CHR '' '') t) \<le> length t" by (rule length_dropWhile_le)
  moreover have "length t \<le> length s" unfolding t_def by (rule length_dropWhile_le)
  ultimately show ?thesis unfolding f snd_conv length_drop by linarith
qed

text \<open>The loop that ends fdt\_tweak\_cmdline and efi\_tweak\_cmdline; the rest of the text is kept for the next
  program.\<close>
function append_args :: "string \<Rightarrow> char list \<Rightarrow> (string \<times> char list) res" where
  "append_args next_arg mem =
    (let cmdline = fst (find_next_arg next_arg); next_arg' = snd (find_next_arg next_arg) in
     if cmdline = [] \<or> cmdline = ''--'' then ok (next_arg', mem)
     else and_then (bootstrap_arg_adjust mem None (Some cmdline)) (\<lambda>(_, mem). append_args next_arg' mem))"
  by pat_completeness simp
termination
  by (relation "measure (\<lambda>(s, mem). length s)") (auto intro: find_next_arg_shorter)

declare append_args.simps [simp del]

section \<open>Entries as lists of strings\<close>

text \<open>The entry mem holds the arguments as and the environment es: the counts and the sizes say so, what follows
  the strings in the entry is rest, and there is room behind it.\<close>
definition entry :: "string list \<Rightarrow> string list \<Rightarrow> char list \<Rightarrow> nat \<Rightarrow> char list \<Rightarrow> bool" where
  "entry as es rest room mem \<longleftrightarrow>
     (\<exists>hdr slack. mem = hdr @ enc_strings (as @ es) @ rest @ slack \<and> length hdr = ARGS \<and> length slack = room) \<and>
     (\<forall>s \<in> set (as @ es). NUL \<notin> set s) \<and> length as < 128 \<and> length es < 128 \<and>
     byte mem ARGC = of_nat (length as) \<and> byte mem ENVC = of_nat (length es) \<and>
     ARGS + length (enc_strings (as @ es)) + length rest < 2 ^ 16 \<and>
     byte mem 0 = of_nat (ARGS + length (enc_strings (as @ es)) + length rest) \<and>
     byte mem 1 = of_nat ((ARGS + length (enc_strings (as @ es)) + length rest) div 256)"

lemma cstr_at_append: "NUL \<notin> set s \<Longrightarrow> cstr_at (A @ s @ NUL # B) (length A) = s"
proof -
  assume "NUL \<notin> set s"
  then have "\<And>x. x \<in> set s \<Longrightarrow> x \<noteq> NUL" by auto
  then show ?thesis by (simp add: cstr_at_def takeWhile_append2)
qed

lemma strlen_at_append: "NUL \<notin> set s \<Longrightarrow> strlen_at (A @ s @ NUL # B) (length A) = ok (length s)"
  by (simp add: strlen_at_def cstr_at_append)

lemma enc_strings_append: "enc_strings (xs @ ys) = enc_strings xs @ enc_strings ys"
  by (simp add: enc_strings_def)

lemma skip_strings_enc:
  "\<forall>s \<in> set ss. NUL \<notin> set s \<Longrightarrow>
     skip_strings (length ss) (length A) (A @ enc_strings ss @ B) = ok (length A + length (enc_strings ss))"
proof (induction ss arbitrary: A)
  case (Cons s ss)
  have "skip_strings (length ss) (length (A @ s @ [NUL])) ((A @ s @ [NUL]) @ enc_strings ss @ B) =
      ok (length (A @ s @ [NUL]) + length (enc_strings ss))"
    by (rule Cons.IH) (use Cons.prems in simp)
  then show ?case using Cons.prems strlen_at_append [of s A "enc_strings ss @ B"]
    by (simp add: enc_strings_def add.commute add.left_commute)
qed (simp add: enc_strings_def)

text \<open>The search finds the first string that equals old, or ends behind the strings.\<close>
lemma search_strings_enc:
  "\<forall>s \<in> set ss. NUL \<notin> set s \<Longrightarrow>
     search_strings (length ss) old (length A) (A @ enc_strings ss @ B) =
       ok (let ys = takeWhile (\<lambda>s. old \<noteq> Some s) ss in
           (length A + length (enc_strings ys), if length ys < length ss then Some (length (ss ! length ys) + 1) else None))"
proof (induction ss arbitrary: A)
  case (Cons s ss)
  have ih: "search_strings (length ss) old (length (A @ s @ [NUL])) ((A @ s @ [NUL]) @ enc_strings ss @ B) =
      ok (let ys = takeWhile (\<lambda>s. old \<noteq> Some s) ss in
           (length (A @ s @ [NUL]) + length (enc_strings ys), if length ys < length ss then Some (length (ss ! length ys) + 1) else None))"
    by (rule Cons.IH) (use Cons.prems in simp)
  have at: "strlen_at (A @ enc_strings (s # ss) @ B) (length A) = ok (length s)" "cstr_at (A @ enc_strings (s # ss) @ B) (length A) = s"
    using Cons.prems strlen_at_append [of s A "enc_strings ss @ B"] cstr_at_append [of s A "enc_strings ss @ B"]
    by (simp_all add: enc_strings_def)
  show ?case
  proof (cases "old = Some s")
    case True
    then show ?thesis using at by (simp add: enc_strings_def)
  next
    case False
    then show ?thesis using at ih by (simp add: Let_def enc_strings_def add.commute add.left_commute)
  qed
qed (simp add: enc_strings_def)

lemma memmove_nat:
  "memmove dst (int s) (int n) mem =
     (if s + n \<le> length mem \<and> dst + n \<le> length mem then ok (put_bytes dst (take n (drop s mem)) mem) else stray)"
proof -
  have "int s + int n = int (s + n)" by simp
  then show ?thesis unfolding memmove_def by (simp only: nat_int of_nat_0_le_iff simp_thms)
qed

text \<open>Moving the rest and copying the new bytes puts N in the place of B.\<close>
lemma move_and_copy:
  assumes mem: "mem = A @ B @ C @ D" and room: "length N \<le> length B + length D" and left: "length N \<le> length A + length B"
    and src: "src = int (length A) - (int (length N) - int (length B))"
  shows "\<exists>D'. and_then (memmove (length A) src (int (length A + length B + length C) - src) mem)
      (\<lambda>m. if 0 < length N then memcpy_to (length A) N m else ok m) = ok (A @ N @ C @ D') \<and>
      length D' + length N = length D + length B"
proof (cases "length B \<le> length N")
  case True
  define d where "d = length N - length B"
  have s: "src = int (length A - d)" "int (length A + length B + length C) - src = int (d + length B + length C)"
    using True left by (auto simp: src d_def)
  define A1 where "A1 = take (length A - d) A"
  define A2 where "A2 = drop (length A - d) A"
  have A: "A = A1 @ A2" "length A2 = d" using left True by (simp_all add: A1_def A2_def d_def)
  have D: "d \<le> length D" using room True by (simp add: d_def)
  have mv: "memmove (length A) src (int (length A + length B + length C) - src) mem = ok (A @ A2 @ B @ C @ drop d D)"
    using D unfolding s(2) unfolding s(1) memmove_nat by (simp add: mem put_bytes_def A)
  have "memcpy_to (length A) N (A @ A2 @ B @ C @ drop d D) = ok (A @ N @ C @ drop d D)"
    using A(2) True D by (simp add: memcpy_to_def put_bytes_def d_def)
  moreover have "A @ A2 @ B @ C @ drop d D = A @ N @ C @ drop d D" if "N = []" using that True A(2) by (simp add: d_def)
  ultimately have "(if 0 < length N then memcpy_to (length A) N (A @ A2 @ B @ C @ drop d D) else ok (A @ A2 @ B @ C @ drop d D)) =
      ok (A @ N @ C @ drop d D)" by simp
  moreover have "length (drop d D) + length N = length D + length B" using D True by (simp add: d_def)
  ultimately show ?thesis unfolding mv and_then.simps by blast
next
  case False
  define d where "d = length B - length N"
  have s: "src = int (length A + d)" "int (length A + length B + length C) - src = int (length N + length C)"
    using False by (auto simp: src d_def)
  let ?D = "drop (length N + length C) (B @ C @ D)"
  have mv: "memmove (length A) src (int (length A + length B + length C) - src) mem = ok (A @ drop d B @ C @ ?D)"
    using False unfolding s(2) unfolding s(1) memmove_nat by (simp add: mem put_bytes_def d_def)
  have "memcpy_to (length A) N (A @ drop d B @ C @ ?D) = ok (A @ N @ C @ ?D)"
    using False by (simp add: memcpy_to_def put_bytes_def d_def)
  moreover have "A @ drop d B @ C @ ?D = A @ N @ C @ ?D" if "N = []" using that by (simp add: d_def)
  ultimately have "(if 0 < length N then memcpy_to (length A) N (A @ drop d B @ C @ ?D) else ok (A @ drop d B @ C @ ?D)) =
      ok (A @ N @ C @ ?D)" by simp
  moreover have "length ?D + length N = length D + length B" using False by simp
  ultimately show ?thesis unfolding mv and_then.simps by blast
qed

text \<open>What an adjustment means: old None adds behind the strings, old Some s is the first string s, and new None
  takes it away.\<close>
definition new_strings :: "string option \<Rightarrow> string list" where
  "new_strings new = (case new of None \<Rightarrow> [] | Some s \<Rightarrow> [s])"

definition adjust :: "string option \<Rightarrow> string option \<Rightarrow> string list \<Rightarrow> string list" where
  "adjust old new ss =
    (let ys = takeWhile (\<lambda>s. old \<noteq> Some s) ss in
     ys @ new_strings new @ drop (length ys + (if old = None then 0 else 1)) ss)"

text \<open>The bytes of the strings up to the end of what is replaced.\<close>
definition gap :: "string option \<Rightarrow> string list \<Rightarrow> nat" where
  "gap old ss = length (enc_strings (takeWhile (\<lambda>s. old \<noteq> Some s) ss)) + (case old of None \<Rightarrow> 0 | Some s \<Rightarrow> length s + 1)"

lemma set_byte_append: "i < length H \<Longrightarrow> set_byte i b (H @ X) = set_byte i b H @ X"
  by (simp add: set_byte_def list_update_append)

lemma byte_append: "i < length H \<Longrightarrow> byte (H @ X) i = byte H i"
  by (simp add: byte_def nth_append)

lemma length_set_byte [simp]: "length (set_byte i b mem) = length mem"
  by (simp add: set_byte_def)

lemma word_unat_id: "of_nat (unat b) = (b :: u8)"
  by simp

lemma byte_set_byte: "i < length H \<Longrightarrow> byte (set_byte i b H) j = (if i = j then b else byte H j)"
proof -
  have "of_char (char_of (unat b) :: char) = b"
  proof -
    have "(of_char (char_of (unat b) :: char) :: nat) = unat b"
      using unsigned_less [of b, where ?'a = nat] by (simp add: of_char_of take_bit_nat_eq_self)
    then have "of_nat (of_char (char_of (unat b) :: char) :: nat) = (of_nat (unat b) :: u8)" by (rule arg_cong)
    then show ?thesis by (simp only: of_nat_of_char word_unat_id)
  qed
  then show "i < length H \<Longrightarrow> ?thesis" by (simp add: byte_def set_byte_def nth_list_update)
qed

text \<open>The total size, stored in two bytes.\<close>
lemma total_of_bytes:
  assumes "n < 2 ^ 16"
  shows "(ucast (of_nat n :: u8) + push_bit 8 (ucast (of_nat (n div 256) :: u8)) :: u32) = of_nat n"
    "(ucast ((of_nat n :: u32) AND 0xff) :: u8) = of_nat n"
    "(ucast (drop_bit 8 (of_nat n :: u32)) :: u8) = of_nat (n div 256)"
proof -
  have u8: "unat (of_nat k :: u8) = k mod 256" for k by (simp add: unsigned_of_nat take_bit_eq_mod)
  have u32: "unat (of_nat n :: u32) = n" using assms by (intro unat_of_nat_small) simp
  have d: "n div 256 < 256" using assms by (simp add: less_mult_imp_div_less)
  have "(ucast (of_nat n :: u8) :: u32) = of_nat (n mod 256)" "(ucast (of_nat (n div 256) :: u8) :: u32) = of_nat (n div 256)"
    using u8 [of n] u8 [of "n div 256"] d by (simp_all add: word_unat_eq_iff unsigned_ucast_eq unsigned_of_nat take_bit_eq_mod)
  then have "(ucast (of_nat n :: u8) + push_bit 8 (ucast (of_nat (n div 256) :: u8)) :: u32) =
      of_nat (n mod 256) + of_nat (n div 256) * 256" by (simp add: push_bit_eq_mult)
  also have "\<dots> = of_nat (n mod 256 + n div 256 * 256)" by (simp only: of_nat_add of_nat_mult of_nat_numeral)
  also have "n mod 256 + n div 256 * 256 = n" by simp
  finally show "(ucast (of_nat n :: u8) + push_bit 8 (ucast (of_nat (n div 256) :: u8)) :: u32) = of_nat n" .
  have "unat ((of_nat n :: u32) AND 0xff) = n mod 256"
  proof -
    have "((of_nat n :: u32) AND 0xff) = take_bit 8 (of_nat n)" by (simp add: take_bit_eq_mask mask_eq_exp_minus_1)
    then have "unat ((of_nat n :: u32) AND 0xff) = take_bit 8 (unat (of_nat n :: u32))" by (simp only: unsigned_take_bit_eq)
    then show ?thesis by (simp add: u32 take_bit_eq_mod)
  qed
  then show "(ucast ((of_nat n :: u32) AND 0xff) :: u8) = of_nat n"
    by (simp add: word_unat_eq_iff unsigned_ucast_eq u8 take_bit_eq_mod)
  have "unat (drop_bit 8 (of_nat n :: u32)) = n div 256" by (simp only: unat_drop_bit_eq u32) (simp add: drop_bit_eq_div)
  then show "(ucast (drop_bit 8 (of_nat n :: u32)) :: u8) = of_nat (n div 256)"
    by (simp add: word_unat_eq_iff unsigned_ucast_eq u8 take_bit_eq_mod)
qed

text \<open>The strings of one kind (arguments or environment), ss, with what is before and behind them.\<close>
lemma do_adjust_strings:
  assumes H: "ARGS \<le> length H" and cp: "countp = ARGC \<or> countp = ENVC"
    and mem: "mem = H @ enc_strings ss @ T @ D" and nul: "\<forall>s \<in> set ss. NUL \<notin> set s"
    and skip: "skip_strings start ARGS mem = ok (length H)" and cnt: "count_of mem countp = length ss"
    and total: "n = length H + length (enc_strings ss) + length T" "n + length D < 2 ^ 16"
    and sizes: "byte mem 0 = of_nat n" "byte mem 1 = of_nat (n div 256)"
    and found: "old = None \<or> the old \<in> set ss" and N: "N = enc_strings (new_strings new)"
    and room: "length N \<le> length D" "length N \<le> length H + gap old ss"
  shows "\<exists>H' D' m. do_adjust mem old new start countp = ok (True, H' @ enc_strings (adjust old new ss) @ T @ D') \<and>
    length H' = length H \<and> m = length H + length (enc_strings (adjust old new ss)) + length T \<and> m + length D' = n + length D \<and>
    byte H' 0 = of_nat m \<and> byte H' 1 = of_nat (m div 256) \<and> drop 4 H' = drop 4 H \<and>
    (\<forall>i \<in> {ARGC, ENVC}. byte H' i = byte H i + (if i = countp then (if new = None then - 1 else if old = None then 1 else 0) else 0))"
proof -
  define ys where "ys = takeWhile (\<lambda>s. old \<noteq> Some s) ss"
  define c where "c = byte mem countp"
  define c' where "c' = (if new = None then c - 1 else if old = None then c + 1 else c)"
  define H1 where "H1 = set_byte countp c' H"
  have idx: "countp < length H" "0 < length H" "1 < length H" "ARGC < length H" "ENVC < length H" "countp \<noteq> 0" "countp \<noteq> 1"
    using H cp by (auto simp: ARGS_def ARGC_def ENVC_def)
  have c: "c = byte H countp" "byte H 0 = of_nat n" "byte H 1 = of_nat (n div 256)"
    using idx sizes unfolding c_def mem by (simp_all add: byte_append)
  have mem1: "set_byte countp c' mem = H1 @ enc_strings ss @ T @ D"
    unfolding mem H1_def using idx(1) by (rule set_byte_append)
  have H1: "length H1 = length H" "byte H1 0 = of_nat n" "byte H1 1 = of_nat (n div 256)" "byte H1 countp = c'"
    using idx c by (simp_all add: H1_def byte_set_byte)
  define zs where "zs = drop (length ys) ss"
  have ss: "ss = ys @ zs" by (simp add: ys_def zs_def dropWhile_eq_drop [symmetric])
  define B where "B = (case old of None \<Rightarrow> [] | Some s \<Rightarrow> s @ [NUL])"
  define C where "C = enc_strings (drop (if old = None then 0 else 1) zs) @ T"
  have enc: "enc_strings zs @ T = B @ C" and sub: "(if length ys < length ss then Some (length (ss ! length ys) + 1) else None) =
      (if old = None then None else Some (length B))"
  proof -
    have "enc_strings zs @ T = B @ C \<and> (if length ys < length ss then Some (length (ss ! length ys) + 1) else None) =
      (if old = None then None else Some (length B))"
    proof (cases old)
      case None
      then have "ys = ss" by (simp add: ys_def)
      then show ?thesis using None by (simp add: zs_def B_def C_def)
    next
      case (Some s)
      then have "s \<in> set ss" using found by simp
      then have "zs \<noteq> []" "hd zs = s"
        unfolding zs_def ys_def Some
        by (simp_all add: dropWhile_eq_drop [symmetric] hd_dropWhile dropWhile_eq_Nil_conv)
          (metis (mono_tags, lifting) hd_dropWhile dropWhile_eq_Nil_conv option.inject)
      then obtain rs where zs: "zs = s # rs" by (cases zs) auto
      then show ?thesis using Some by (simp add: ss nth_append B_def C_def enc_strings_def)
    qed
    then show "enc_strings zs @ T = B @ C" "(if length ys < length ss then Some (length (ss ! length ys) + 1) else None) =
      (if old = None then None else Some (length B))" by simp_all
  qed
  let ?A = "H1 @ enc_strings ys"
  have m1: "set_byte countp c' mem = ?A @ B @ C @ D"
    unfolding mem1 ss enc_strings_append using enc by (simp add: append_assoc)
  have p: "length ?A = length H + length (enc_strings ys)" by (simp add: H1(1))
  have search: "search_strings (count_of mem countp) old (length H) mem = ok (length ?A, if old = None then None else Some (length B))"
    using search_strings_enc [OF nul, of old H "T @ D", folded mem] unfolding cnt p Let_def ys_def [symmetric] sub by simp
  have len: "n = length ?A + length B + length C"
  proof -
    have "length (enc_strings zs) + length T = length B + length C" using arg_cong [OF enc, of length] by simp
    then show ?thesis unfolding total(1) ss enc_strings_append by (simp add: H1(1))
  qed
  have tot: "(ucast (byte (set_byte countp c' mem) 0) + push_bit 8 (ucast (byte (set_byte countp c' mem) 1)) :: u32) = of_nat n"
  proof -
    have "byte (set_byte countp c' mem) 0 = of_nat n" "byte (set_byte countp c' mem) 1 = of_nat (n div 256)"
      using idx H1 unfolding mem1 by (simp_all add: byte_append)
    then show ?thesis using total_of_bytes(1) [of n] total(2) by simp
  qed
  have un: "unat (of_nat n :: u32) = n" using total(2) by (intro unat_of_nat_small) simp
  have N': "(case new of None \<Rightarrow> [] | Some s \<Rightarrow> s @ [NUL]) = N" by (cases new) (simp_all add: N new_strings_def enc_strings_def)
  have subl: "(case (if old = None then None else Some (length B)) of None \<Rightarrow> 0 | Some k \<Rightarrow> k) = length B"
    by (cases old) (simp_all add: B_def)
  define src where "src = int (length ?A) - (int (length N) - int (length B))"
  have left: "length N \<le> length ?A + length B"
    using room(2) unfolding gap_def ys_def [symmetric] by (cases old) (simp_all add: H1(1) B_def)
  have rm: "length N \<le> length B + length D" using room(1) by simp
  obtain D' where mv: "and_then (memmove (length ?A) src (int n - src) (set_byte countp c' mem))
      (\<lambda>m. if 0 < length N then memcpy_to (length ?A) N m else ok m) = ok (?A @ N @ C @ D')"
    and D': "length D' + length N = length D + length B"
    using move_and_copy [OF m1 rm left src_def] unfolding len [symmetric] by blast
  have adj: "?A @ N @ C @ D' = H1 @ enc_strings (adjust old new ss) @ T @ D'"
    unfolding adjust_def Let_def ys_def [symmetric] N C_def zs_def by (simp add: enc_strings_append add.commute)
  define m where "m = length H + length (enc_strings (adjust old new ss)) + length T"
  have m: "m + length B = n + length N"
    using arg_cong [OF adj, of length] unfolding len m_def by (simp add: H1(1))
  have mD: "m + length D' = n + length D" using m D' by linarith
  have m16: "m < 2 ^ 16" using mD total(2) by linarith
  have tm: "(of_nat n + of_int (int (length N) - int (length B)) :: u32) = of_nat m"
  proof -
    have "(of_int (int n + (int (length N) - int (length B))) :: u32) = of_int (int m)" using m by (intro arg_cong [of _ _ of_int]) linarith
    then show ?thesis by simp
  qed
  define H' where "H' = set_byte 1 (of_nat (m div 256)) (set_byte 0 (of_nat m) H1)"
  have fin: "set_byte 1 (of_nat (m div 256)) (set_byte 0 (of_nat m) (H1 @ X)) = H' @ X" for X
    using idx H1(1) unfolding H'_def by (simp add: set_byte_append)
  have run: "do_adjust mem old new start countp = ok (True, H' @ enc_strings (adjust old new ss) @ T @ D')"
  proof -
    have nf: "\<not> ((if old = None then None else Some (length B)) = None \<and> old \<noteq> None)" by simp
    show ?thesis
      unfolding do_adjust_def skip and_then.simps search prod.case Let_def nf if_False N' subl c_def [symmetric] c'_def [symmetric]
        tot un src_def [symmetric] and_then_assoc [symmetric] mv adj tm
      using total_of_bytes(2,3) [OF m16] fin by (simp add: m_def)
  qed
  have d4: "drop 4 (set_byte i b X) = drop 4 X" if "i < 4" for i b X
    using that by (simp add: set_byte_def drop_update_cancel)
  have keep: "byte H' i = byte H i + (if i = countp then (if new = None then - 1 else if old = None then 1 else 0) else 0)"
    if "i \<in> {ARGC, ENVC}" for i
  proof -
    have "i \<noteq> 0" "i \<noteq> 1" using that by (auto simp: ARGC_def ENVC_def)
    then show ?thesis using idx H1(1) unfolding H'_def H1_def by (simp add: byte_set_byte c'_def c(1))
  qed
  have cp4: "countp < 4" using cp by (auto simp: ARGC_def ENVC_def)
  show ?thesis
    by (rule exI [of _ H'], rule exI [of _ D'], rule exI [of _ m])
      (use run mD keep idx H1(1) d4 cp4 in \<open>simp add: m_def H'_def H1_def byte_set_byte\<close>)
qed

lemma count_small: "k < 128 \<Longrightarrow> unat (scast (of_nat k :: u8) :: u32) = k"
proof -
  assume k: "k < 128"
  have u: "uint (of_nat k :: u8) = int k" using k by (simp add: uint_nat unat_of_nat_small)
  have "sint (of_nat k :: u8) = signed_take_bit 7 (int k)" unfolding sint_uint u by simp
  also have "\<dots> = int k" using k by (intro signed_take_bit_int_eq_self) simp_all
  finally have "(scast (of_nat k :: u8) :: u32) = of_nat k" by (simp add: scast_eq)
  then show ?thesis using k by (simp add: unat_of_nat_small)
qed

lemma sint_small: "k < 128 \<Longrightarrow> nat (sint (of_nat k :: u8)) = k"
proof -
  assume k: "k < 128"
  have u: "uint (of_nat k :: u8) = int k" using k by (simp add: uint_nat unat_of_nat_small)
  have "sint (of_nat k :: u8) = signed_take_bit 7 (int k)" unfolding sint_uint u by simp
  also have "\<dots> = int k" using k by (intro signed_take_bit_int_eq_self) simp_all
  finally show ?thesis by simp
qed

text \<open>A legal adjustment: something is named, what is to be replaced exists, and the new string fits.\<close>
definition adjustable :: "nat \<Rightarrow> nat \<Rightarrow> string option \<Rightarrow> string option \<Rightarrow> string list \<Rightarrow> bool" where
  "adjustable before room old new ss \<longleftrightarrow>
     (old \<noteq> None \<or> new \<noteq> None) \<and> (old = None \<or> the old \<in> set ss) \<and> length (adjust old new ss) < 128 \<and>
     (case new of None \<Rightarrow> True | Some s \<Rightarrow> NUL \<notin> set s \<and> length s + 1 \<le> room \<and> length s + 1 \<le> before + gap old ss)"

lemma adjust_length:
  assumes "old \<noteq> None \<or> new \<noteq> None" "old = None \<or> the old \<in> set ss"
  shows "(of_nat (length ss) + (if new = None then - 1 else if old = None then 1 else 0) :: u8) = of_nat (length (adjust old new ss))"
proof -
  let ?ys = "takeWhile (\<lambda>s. old \<noteq> Some s) ss"
  have "length ?ys + (if old = None then 0 else 1) \<le> length ss"
  proof (cases old)
    case (Some s)
    have "s \<in> set ss \<Longrightarrow> length (takeWhile (\<lambda>x. Some s \<noteq> Some x) ss) < length ss" by (induction ss) auto
    then have "length ?ys < length ss" using assms(2) Some by simp
    then show ?thesis using Some by simp
  qed (simp add: length_takeWhile_le)
  then have l: "length (adjust old new ss) + (if old = None then 0 else 1) = length ss + length (new_strings new)"
    by (simp add: adjust_def Let_def)
  have n: "(of_nat (length (adjust old new ss) + (if old = None then 0 else 1)) :: u8) = of_nat (length ss + length (new_strings new))"
    by (simp only: l)
  show ?thesis using n assms(1) by (cases old; cases new) (auto simp: new_strings_def algebra_simps)
qed

lemma adjust_set: "set (adjust old new ss) \<subseteq> set ss \<union> set (new_strings new)"
  unfolding adjust_def Let_def by (auto dest: set_takeWhileD in_set_dropD)

text \<open>C38: bootstrap\_arg\_adjust is the operation on the list of arguments that it is meant to be: it adds an
  argument at the end, replaces the first equal one or takes it away, keeps the environment and what follows
  the strings, and sets count and size to match; an argument that is not there changes nothing.\<close>
theorem arg_adjust_refines:
  assumes e: "entry as es rest room mem" and small: "ARGS + length (enc_strings (as @ es)) + length rest + room < 2 ^ 16"
  shows "(old \<noteq> None \<and> the old \<notin> set as \<longrightarrow> bootstrap_arg_adjust mem old new = ok (False, mem)) \<and>
    (adjustable ARGS room old new as \<longrightarrow>
      (\<exists>mem' room'. bootstrap_arg_adjust mem old new = ok (True, mem') \<and> entry (adjust old new as) es rest room' mem' \<and>
        room' + length (enc_strings (adjust old new as)) = room + length (enc_strings as)))"
proof -
  obtain H D where mem: "mem = H @ enc_strings as @ (enc_strings es @ rest) @ D" and H: "length H = ARGS" and D: "length D = room"
    using e by (auto simp: entry_def enc_strings_append)
  have nul: "\<forall>s \<in> set as. NUL \<notin> set s" and len: "length as < 128" "length es < 128"
    and cnt: "byte mem ARGC = of_nat (length as)" "byte mem ENVC = of_nat (length es)"
    using e by (auto simp: entry_def)
  have c: "count_of mem ARGC = length as" unfolding count_of_def cnt by (rule count_small [OF len(1)])
  have skip: "skip_strings 0 ARGS mem = ok (length H)" by (simp add: H)
  define n where "n = length H + length (enc_strings as) + length (enc_strings es @ rest)"
  have n: "n + length D < 2 ^ 16" "byte mem 0 = of_nat n" "byte mem 1 = of_nat (n div 256)"
    using e small by (simp_all add: n_def entry_def enc_strings_append H D add.assoc)
  show ?thesis
  proof (intro conjI impI)
    assume o: "old \<noteq> None \<and> the old \<notin> set as"
    then have tw: "takeWhile (\<lambda>s. old \<noteq> Some s) as = as" by (auto simp: takeWhile_eq_all_conv)
    have "search_strings (length as) old (length H) mem = ok (length H + length (enc_strings as), None)"
      using search_strings_enc [OF nul, of old H "(enc_strings es @ rest) @ D", folded mem] unfolding Let_def tw by simp
    then show "bootstrap_arg_adjust mem old new = ok (False, mem)"
      using o skip by (simp add: bootstrap_arg_adjust_def do_adjust_def c H)
  next
    assume a: "adjustable ARGS room old new as"
    let ?N = "enc_strings (new_strings new)"
    have N: "length ?N \<le> length D" "length ?N \<le> length H + gap old as"
      using a by (auto simp: adjustable_def new_strings_def enc_strings_def H D split: option.splits)
    obtain H' D' m where r: "do_adjust mem old new 0 ARGC = ok (True, H' @ enc_strings (adjust old new as) @ (enc_strings es @ rest) @ D')"
      "length H' = length H" "m = length H + length (enc_strings (adjust old new as)) + length (enc_strings es @ rest)"
      "m + length D' = n + length D" "byte H' 0 = of_nat m" "byte H' 1 = of_nat (m div 256)" "drop 4 H' = drop 4 H"
      "\<forall>i \<in> {ARGC, ENVC}. byte H' i = byte H i + (if i = ARGC then (if new = None then - 1 else if old = None then 1 else 0) else 0)"
      using do_adjust_strings [OF _ _ mem nul skip c n_def n _ refl N] a H by (auto simp: adjustable_def)
    let ?mem = "H' @ enc_strings (adjust old new as) @ (enc_strings es @ rest) @ D'"
    have idx: "ARGC < length H'" "ENVC < length H'" "0 < length H'" "1 < length H'" "ARGC < length H" "ENVC < length H" "ENVC \<noteq> ARGC"
      using r(2) H by (simp_all add: ARGS_def ARGC_def ENVC_def)
    have bc: "byte H ARGC = of_nat (length as)" "byte H ENVC = of_nat (length es)"
      using cnt idx unfolding mem by (simp_all add: byte_append)
    have "byte ?mem ARGC = of_nat (length (adjust old new as))"
      using r(8) bc idx adjust_length [of old new as] a by (simp add: byte_append adjustable_def)
    moreover have "byte ?mem ENVC = of_nat (length es)" using r(8) bc idx by (simp add: byte_append)
    moreover have "byte ?mem 0 = of_nat m" "byte ?mem 1 = of_nat (m div 256)" using r(5,6) idx by (simp_all add: byte_append)
    moreover have "\<forall>s \<in> set (adjust old new as @ es). NUL \<notin> set s"
      using e a adjust_set [of old new as] by (auto simp: entry_def adjustable_def new_strings_def split: option.splits)
    moreover have "m < 2 ^ 16" using r(4) n(1) by linarith
    ultimately have "entry (adjust old new as) es rest (length D') ?mem"
      using a len r(2,3) H by (auto simp: entry_def adjustable_def enc_strings_append add.assoc)
    moreover have "length D' + length (enc_strings (adjust old new as)) = room + length (enc_strings as)"
      using r(3,4) D by (simp add: n_def)
    ultimately show "\<exists>mem' room'. bootstrap_arg_adjust mem old new = ok (True, mem') \<and> entry (adjust old new as) es rest room' mem' \<and>
        room' + length (enc_strings (adjust old new as)) = room + length (enc_strings as)"
      unfolding bootstrap_arg_adjust_def r(1) by blast
  qed
qed

text \<open>The same for the environment.\<close>
lemma env_adjust_refines:
  assumes e: "entry as es rest room mem" and small: "ARGS + length (enc_strings (as @ es)) + length rest + room < 2 ^ 16"
    and a: "adjustable (ARGS + length (enc_strings as)) room old new es"
  shows "\<exists>mem' room'. bootstrap_env_adjust mem old new = ok (True, mem') \<and> entry as (adjust old new es) rest room' mem' \<and>
        room' + length (enc_strings (adjust old new es)) = room + length (enc_strings es)"
proof -
  obtain H0 D where mem0: "mem = H0 @ enc_strings as @ enc_strings es @ rest @ D" and H0: "length H0 = ARGS" and D: "length D = room"
    using e by (auto simp: entry_def enc_strings_append)
  define H where "H = H0 @ enc_strings as"
  have mem: "mem = H @ enc_strings es @ rest @ D" by (simp add: mem0 H_def)
  have H: "length H = ARGS + length (enc_strings as)" by (simp add: H_def H0)
  have nul: "\<forall>s \<in> set as. NUL \<notin> set s" "\<forall>s \<in> set es. NUL \<notin> set s" and len: "length as < 128" "length es < 128"
    and cnt: "byte mem ARGC = of_nat (length as)" "byte mem ENVC = of_nat (length es)"
    using e by (auto simp: entry_def)
  have c: "count_of mem ARGC = length as" "count_of mem ENVC = length es"
    unfolding count_of_def cnt using len by (auto intro: count_small)
  have skip: "skip_strings (count_of mem ARGC) ARGS mem = ok (length H)"
    using skip_strings_enc [OF nul(1), of H0 "enc_strings es @ rest @ D", folded mem0] unfolding c by (simp add: H0 H)
  define n where "n = length H + length (enc_strings es) + length rest"
  have n: "n + length D < 2 ^ 16" "byte mem 0 = of_nat n" "byte mem 1 = of_nat (n div 256)"
    using e small by (simp_all add: n_def entry_def enc_strings_append H D add.assoc)
  let ?N = "enc_strings (new_strings new)"
  have N: "length ?N \<le> length D" "length ?N \<le> length H + gap old es"
    using a by (auto simp: adjustable_def new_strings_def enc_strings_def H D split: option.splits)
  obtain H' D' m where r: "do_adjust mem old new (count_of mem ARGC) ENVC = ok (True, H' @ enc_strings (adjust old new es) @ rest @ D')"
      "length H' = length H" "m = length H + length (enc_strings (adjust old new es)) + length rest"
      "m + length D' = n + length D" "byte H' 0 = of_nat m" "byte H' 1 = of_nat (m div 256)" "drop 4 H' = drop 4 H"
      "\<forall>i \<in> {ARGC, ENVC}. byte H' i = byte H i + (if i = ENVC then (if new = None then - 1 else if old = None then 1 else 0) else 0)"
    using do_adjust_strings [OF _ _ mem nul(2) skip c(2) n_def n _ refl N] a H by (auto simp: adjustable_def)
  let ?mem = "H' @ enc_strings (adjust old new es) @ rest @ D'"
  have idx: "ARGC < length H'" "ENVC < length H'" "0 < length H'" "1 < length H'" "ARGC < length H" "ENVC < length H" "ENVC \<noteq> ARGC"
    using r(2) H by (simp_all add: ARGS_def ARGC_def ENVC_def)
  have bc: "byte H ARGC = of_nat (length as)" "byte H ENVC = of_nat (length es)"
    using cnt idx unfolding mem by (simp_all add: byte_append)
  have b: "byte ?mem ENVC = of_nat (length (adjust old new es))" "byte ?mem ARGC = of_nat (length as)"
    "byte ?mem 0 = of_nat m" "byte ?mem 1 = of_nat (m div 256)"
    using r(5,6,8) bc idx adjust_length [of old new es] a by (simp_all add: byte_append adjustable_def)
  have nl: "\<forall>s \<in> set (as @ adjust old new es). NUL \<notin> set s"
    using e a adjust_set [of old new es] by (auto simp: entry_def adjustable_def new_strings_def split: option.splits)
  have m16: "m < 2 ^ 16" using r(4) n(1) by linarith
  have "H' = take ARGS H' @ enc_strings as"
  proof -
    have "drop ARGS H' = drop (ARGS - 4) (drop 4 H')" by (simp add: ARGS_def)
    also have "\<dots> = drop ARGS H" unfolding r(7) by (simp add: ARGS_def)
    also have "\<dots> = enc_strings as" by (simp add: H_def H0)
    finally show ?thesis by (metis append_take_drop_id)
  qed
  then have "?mem = take ARGS H' @ enc_strings (as @ adjust old new es) @ rest @ D'"
    by (metis append.assoc enc_strings_append)
  moreover have "length (take ARGS H') = ARGS" using r(2) H by simp
  ultimately have ex: "\<exists>hdr slack. ?mem = hdr @ enc_strings (as @ adjust old new es) @ rest @ slack \<and> length hdr = ARGS \<and>
      length slack = length D'" by blast
  have mm: "m = ARGS + length (enc_strings (as @ adjust old new es)) + length rest"
    using r(3) H by (simp add: enc_strings_append)
  have "entry as (adjust old new es) rest (length D') ?mem"
    unfolding entry_def by (intro conjI ex nl) (use a b m16 len in \<open>simp_all add: adjustable_def mm\<close>)
  moreover have "length D' + length (enc_strings (adjust old new es)) = room + length (enc_strings es)"
    using r(3,4) D by (simp add: n_def)
  ultimately show ?thesis unfolding bootstrap_env_adjust_def r(1) by blast
qed

text \<open>A concrete entry with the program's name, one variable and 64 free bytes.\<close>
definition entry_ex :: "char list" where
  "entry_ex = [CHR 0x11, NUL, CHR 0x01, CHR 0x01, NUL, NUL, NUL, NUL] @ ''boot'' @ [NUL] @ ''A=1'' @ [NUL] @ replicate 64 NUL"

lemma entry_ex_ok: "entry [''boot''] [''A=1''] [] 64 entry_ex"
  unfolding entry_def
proof (intro conjI)
  show "\<exists>hdr slack. entry_ex = hdr @ enc_strings ([''boot''] @ [''A=1'']) @ [] @ slack \<and> length hdr = ARGS \<and> length slack = 64"
    by (rule exI [of _ "[CHR 0x11, NUL, CHR 0x01, CHR 0x01, NUL, NUL, NUL, NUL]"], rule exI [of _ "replicate 64 NUL"])
      (simp add: entry_ex_def enc_strings_def ARGS_def)
qed (simp_all add: entry_ex_def enc_strings_def ARGS_def ARGC_def ENVC_def byte_def)

theorem arg_adjust_refines_witness:
  "\<exists>mem' room'. bootstrap_arg_adjust entry_ex None (Some ''-v'') = ok (True, mem') \<and> entry [''boot'', ''-v''] [''A=1''] [] room' mem'"
proof -
  have "adjustable ARGS 64 None (Some ''-v'') [''boot'']"
    by (simp add: adjustable_def adjust_def Let_def new_strings_def gap_def enc_strings_def ARGS_def)
  moreover have "adjust None (Some ''-v'') [''boot''] = [''boot'', ''-v'']" by (simp add: adjust_def new_strings_def)
  ultimately show ?thesis
    using arg_adjust_refines [OF entry_ex_ok, of None "Some ''-v''"] by (simp add: enc_strings_def ARGS_def) blast
qed

text \<open>The first argument of an empty list: what the bytes are moved from begins before the entry.\<close>
lemma arg_adjust_before:
  "bootstrap_arg_adjust ([CHR 0x08, NUL, NUL, NUL, NUL, NUL, NUL, NUL] @ replicate 64 NUL) None (Some ''-vvvvvvv'') = stray"
  by (simp add: bootstrap_arg_adjust_def do_adjust_def count_of_def byte_def ARGC_def ARGS_def Let_def set_byte_def memmove_def)

section \<open>The vectors of main\<close>

lemma take_strings_enc:
  "\<forall>s \<in> set ss. NUL \<notin> set s \<Longrightarrow>
     take_strings i (length ss) (length A) (A @ enc_strings ss @ B) =
       ok (take (MAX_ARGV - 1 - i) ss, length A + length (enc_strings ss))"
proof (induction ss arbitrary: i A)
  case (Cons s ss)
  have ih: "take_strings (i + 1) (length ss) (length (A @ s @ [NUL])) ((A @ s @ [NUL]) @ enc_strings ss @ B) =
      ok (take (MAX_ARGV - 1 - (i + 1)) ss, length (A @ s @ [NUL]) + length (enc_strings ss))"
    by (rule Cons.IH) (use Cons.prems in simp)
  have at: "strlen_at (A @ enc_strings (s # ss) @ B) (length A) = ok (length s)" "cstr_at (A @ enc_strings (s # ss) @ B) (length A) = s"
    using Cons.prems strlen_at_append [of s A "enc_strings ss @ B"] cstr_at_append [of s A "enc_strings ss @ B"]
    by (simp_all add: enc_strings_def)
  show ?case
  proof (cases "i < MAX_ARGV - 1")
    case True
    then obtain k where "MAX_ARGV - 1 - i = Suc k" by (metis Suc_diff_Suc)
    moreover from this have "MAX_ARGV - 1 - (i + 1) = k" by simp
    ultimately show ?thesis using True at ih by (simp add: enc_strings_def add.commute add.left_commute)
  next
    case False
    then show ?thesis using at ih by (simp add: enc_strings_def add.commute add.left_commute)
  qed
qed (simp add: enc_strings_def)

lemma setup_cmdline_entry:
  assumes e: "entry as es rest room mem"
  shows "setup_cmdline mem = ok (take 19 as, take 19 es)"
proof -
  obtain H D where mem: "mem = H @ enc_strings as @ enc_strings es @ rest @ D" and H: "length H = ARGS"
    using e by (auto simp: entry_def enc_strings_append)
  have nul: "\<forall>s \<in> set as. NUL \<notin> set s" "\<forall>s \<in> set es. NUL \<notin> set s" and len: "length as < 128" "length es < 128"
    and cnt: "byte mem ARGC = of_nat (length as)" "byte mem ENVC = of_nat (length es)"
    using e by (auto simp: entry_def)
  have c: "nat (sint (byte mem ARGC)) = length as" "nat (sint (byte mem ENVC)) = length es"
    unfolding cnt using len by (auto intro: sint_small)
  have a: "take_strings 0 (length as) ARGS mem = ok (take 19 as, length (H @ enc_strings as))"
    using take_strings_enc [OF nul(1), of 0 H "enc_strings es @ rest @ D", folded mem] by (simp add: H MAX_ARGV_def)
  have "take_strings 0 (length es) (length (H @ enc_strings as)) mem = ok (take 19 es, length (H @ enc_strings as) + length (enc_strings es))"
    using take_strings_enc [OF nul(2), of 0 "H @ enc_strings as" "rest @ D"] by (simp add: mem MAX_ARGV_def)
  then show ?thesis unfolding setup_cmdline_def c a by simp
qed

section \<open>Arguments from a text\<close>

text \<open>The words of a text: what lies between spaces.\<close>
function word_list :: "string \<Rightarrow> string list" where
  "word_list s = (if fst (find_next_arg s) = [] then [] else fst (find_next_arg s) # word_list (snd (find_next_arg s)))"
  by pat_completeness simp
termination
  by (relation "measure length") (auto intro: find_next_arg_shorter)

declare word_list.simps [simp del]

lemma word_list_chars: "NUL \<notin> set s \<Longrightarrow> w \<in> set (word_list s) \<Longrightarrow> NUL \<notin> set w"
proof (induction s rule: word_list.induct)
  case (1 s)
  let ?t = "dropWhile (\<lambda>c. c = CHR '' '') s"
  have t: "set ?t \<subseteq> set s" by (auto dest: set_dropWhileD)
  have a: "set (fst (find_next_arg s)) \<subseteq> set s" "set (snd (find_next_arg s)) \<subseteq> set s"
    unfolding find_next_arg_def Let_def fst_conv snd_conv
    using t by (auto dest: set_takeWhileD in_set_dropD set_dropWhileD)
  show ?case
  proof (cases "fst (find_next_arg s) = []")
    case True
    then show ?thesis using 1(3) by (subst (asm) word_list.simps) simp
  next
    case False
    then have "w = fst (find_next_arg s) \<or> w \<in> set (word_list (snd (find_next_arg s)))"
      using 1(3) by (subst (asm) word_list.simps) simp
    then show ?thesis using 1(1) [OF False] 1(2) a by blast
  qed
qed

lemma takeWhile_True [simp]: "takeWhile (\<lambda>s. True) xs = xs"
  by (induction xs) auto

lemma gap_None: "gap None ss = length (enc_strings ss)"
  by (simp add: gap_def)

lemma enc_length: "length (enc_strings (xs @ [w])) = length (enc_strings xs) + (length w + 1)"
  by (simp add: enc_strings_def)

text \<open>The words of the firmware's text up to the first two dashes become arguments, in order, and the words
  behind the dashes are left for the next program.\<close>
lemma append_args_refines:
  assumes "entry as es rest room mem" "NUL \<notin> set s"
    "ARGS + length (enc_strings (as @ es)) + length rest + room < 2 ^ 16"
    "ts = takeWhile (\<lambda>w. w \<noteq> ''--'') (word_list s)"
    "length as + length ts < 128" "length (enc_strings ts) \<le> room"
    "\<forall>w \<in> set ts. length w + 1 \<le> ARGS + length (enc_strings as)"
  shows "\<exists>s' mem'. append_args s mem = ok (s', mem') \<and> word_list s' = drop (length ts + 1) (word_list s) \<and>
    (\<exists>room'. entry (as @ ts) es rest room' mem')"
  using assms
proof (induction s arbitrary: mem as room ts rule: word_list.induct)
  case (1 s)
  define w where "w = fst (find_next_arg s)"
  define s' where "s' = snd (find_next_arg s)"
  show ?case
  proof (cases "w = [] \<or> w = ''--''")
    case True
    then have "append_args s mem = ok (s', mem)"
      by (subst append_args.simps) (simp add: w_def s'_def Let_def)
    moreover have "ts = [] \<and> word_list s' = drop 1 (word_list s)"
    proof (cases "w = []")
      case True
      then have "word_list s = []" by (subst word_list.simps) (simp add: w_def)
      moreover have "word_list s' = []"
      proof -
        have dw: "dropWhile (\<lambda>c. c = CHR '' '') s = []"
        proof (rule ccontr)
          assume n: "dropWhile (\<lambda>c. c = CHR '' '') s \<noteq> []"
          then have "hd (dropWhile (\<lambda>c. c = CHR '' '') s) \<noteq> CHR '' ''" using hd_dropWhile [OF n] by simp
          then show False using True n
            by (cases "dropWhile (\<lambda>c. c = CHR '' '') s") (simp_all add: w_def find_next_arg_def)
        qed
        have "s' = []" unfolding s'_def find_next_arg_def Let_def dw by simp
        then show ?thesis by (subst word_list.simps) (simp add: find_next_arg_def)
      qed
      ultimately show ?thesis using 1(5) by simp
    next
      case False
      then have "word_list s = ''--'' # word_list s'"
        using True by (subst word_list.simps) (simp add: w_def s'_def)
      then show ?thesis using 1(5) by simp
    qed
    ultimately show ?thesis using 1(2) by auto
  next
    case False
    then have wl: "word_list s = w # word_list s'" by (subst word_list.simps) (simp add: w_def s'_def)
    define ts' where "ts' = takeWhile (\<lambda>w. w \<noteq> ''--'') (word_list s')"
    have ts: "ts = w # ts'" using 1(5) False by (simp add: wl ts'_def)
    have nw: "NUL \<notin> set w" using word_list_chars [OF 1(3), of w] by (simp add: wl)
    have ns: "NUL \<notin> set s'"
    proof -
      have "set s' \<subseteq> set s" unfolding s'_def find_next_arg_def Let_def snd_conv
        by (auto dest: set_takeWhileD in_set_dropD set_dropWhileD)
      then show ?thesis using 1(3) by auto
    qed
    have len: "length w + 1 + length (enc_strings ts') \<le> room" using 1(7) by (simp add: ts enc_strings_def)
    have adj: "adjust None (Some w) as = as @ [w]" by (simp add: adjust_def new_strings_def Let_def)
    have "adjustable ARGS room None (Some w) as"
      using nw len 1(6,8) by (simp add: adjustable_def adj gap_None ts)
    then obtain mem1 room1 where r: "bootstrap_arg_adjust mem None (Some w) = ok (True, mem1)" "entry (as @ [w]) es rest room1 mem1"
      "room1 + length (enc_strings (as @ [w])) = room + length (enc_strings as)"
      using arg_adjust_refines [OF 1(2,4), of None "Some w"] unfolding adj by blast
    have room1: "room1 + (length w + 1) = room" using r(3) by (simp add: enc_length)
    have run: "append_args s mem = append_args s' mem1"
      using False r(1) by (subst append_args.simps) (simp add: w_def s'_def Let_def)
    have "\<exists>s'' mem'. append_args s' mem1 = ok (s'', mem') \<and> word_list s'' = drop (length ts' + 1) (word_list s') \<and>
      (\<exists>room'. entry ((as @ [w]) @ ts') es rest room' mem')"
    proof (rule 1(1) [folded w_def s'_def, OF _ r(2) ns _ ts'_def])
      show "w \<noteq> []" using False by simp
      show "ARGS + length (enc_strings ((as @ [w]) @ es)) + length rest + room1 < 2 ^ 16"
        using 1(4) room1 by (simp add: enc_strings_def)
      show "length (as @ [w]) + length ts' < 128" using 1(6) by (simp add: ts)
      show "length (enc_strings ts') \<le> room1" using len room1 by simp
      show "\<forall>x \<in> set ts'. length x + 1 \<le> ARGS + length (enc_strings (as @ [w]))"
      proof
        fix x assume "x \<in> set ts'"
        then have "length x + 1 \<le> ARGS + length (enc_strings as)" using 1(8) by (simp add: ts)
        then show "length x + 1 \<le> ARGS + length (enc_strings (as @ [w]))" by (simp add: enc_length)
      qed
    qed
    then show ?thesis unfolding run by (simp add: ts wl)
  qed
qed

lemma append_args_refines_witness:
  "\<exists>s' mem'. append_args ''-v  -S -- -x'' entry_ex = ok (s', mem') \<and> word_list s' = [''-x''] \<and>
     (\<exists>room'. entry [''boot'', ''-v'', ''-S''] [''A=1''] [] room' mem')"
proof -
  have w: "word_list ''-v  -S -- -x'' = [''-v'', ''-S'', ''--'', ''-x'']"
    by (simp add: word_list.simps find_next_arg_def)
  show ?thesis
    using append_args_refines [OF entry_ex_ok _ _ refl, of "''-v  -S -- -x''"]
    unfolding w by (simp add: enc_strings_def ARGS_def)
qed

end
