(* ===== verification/Getopt.thy ===== *)
theory Getopt
  imports Numbers
begin

text \<open>
  getopt.c of startup/lib, which main and init\_system\_private call until it returns -1, against a parser
  of the argument list.  A pointer into an argument is the rest of the argument.
\<close>

section \<open>One call\<close>

text \<open>The variables of getopt that keep their values from call to call.\<close>
record go_state =
  optarg :: string
  optind :: nat
  cp :: string
  last_optind :: nat
  opts_str :: string

text \<open>The loop over the option list: the list from the option on.\<close>
fun find_opt :: "char \<Rightarrow> string \<Rightarrow> string" where
  "find_opt c [] = []"
| "find_opt c (p # opts) = (if p \<noteq> CHR '':'' \<and> c = p then p # opts else find_opt c opts)"

text \<open>The part behind the loop: cp is the option character and what follows it in its argument.\<close>
definition take_option :: "string list \<Rightarrow> string \<Rightarrow> go_state \<Rightarrow> char \<times> go_state" where
  "take_option argv opts s =
    (let s = s\<lparr>optarg := cp s, optind := optind s + 1\<rparr>; opt = at opts; opts = tl opts in
     if opt = NUL then (CHR ''?'', s)
     else let s = s\<lparr>cp := tl (cp s)\<rparr> in
       if at (cp s) \<noteq> NUL then
         (if at opts = CHR '':'' then (opt, s\<lparr>optarg := cp s\<rparr>) else (opt, s\<lparr>optind := optind s - 1\<rparr>))
       else if at opts = CHR '':'' then
         (if optind s < length argv then (opt, s\<lparr>optarg := argv ! optind s, optind := optind s + 1\<rparr>)
          else (CHR ''?'', s))
       else (opt, s))"

text \<open>None is the result -1.  Behind an argument that is empty the code's pointer is outside the string,
  which is read only if getopt is called again after -1.\<close>
definition getopt :: "string list \<Rightarrow> string option \<Rightarrow> go_state \<Rightarrow> char option \<times> go_state" where
  "getopt argv opts s =
    (let os = (case opts of Some os \<Rightarrow> os | None \<Rightarrow> opts_str s);
         s = s\<lparr>opts_str := os\<rparr>;
         s = (if optind s = 0 then s\<lparr>optind := 1, last_optind := 0\<rparr> else s)
     in if length argv \<le> optind s then (None, s)
        else
          let fresh = (last_optind s \<noteq> optind s);
              arg = (if fresh then argv ! optind s else cp s);
              s = (if fresh then s\<lparr>cp := tl arg, last_optind := optind s\<rparr> else s)
          in if fresh \<and> (at arg \<noteq> CHR ''-'' \<or> at (cp s) = NUL) then (None, s)
             else if at (cp s) = CHR ''-'' then (None, s\<lparr>optind := optind s + 1\<rparr>)
             else case take_option argv (find_opt (at (cp s)) os) s of (opt, s) \<Rightarrow> (Some opt, s))"

text \<open>The loop of main: calls until -1, at most n of them, with the options and their arguments.\<close>
fun options :: "nat \<Rightarrow> string list \<Rightarrow> go_state \<Rightarrow> (char \<times> string) list res" where
  "options 0 argv s = hang"
| "options (Suc n) argv s =
    (case getopt argv None s of
       (None, s) \<Rightarrow> ok []
     | (Some opt, s) \<Rightarrow> and_then (options n argv s) (\<lambda>l. ok ((opt, optarg s) # l)))"

section \<open>What the calls find\<close>

datatype kind = Unknown | Flag | Takes

definition kind_of :: "string \<Rightarrow> char \<Rightarrow> kind" where
  "kind_of os c =
    (if c = CHR '':'' \<or> c \<notin> set os then Unknown
     else if at (tl (dropWhile (\<lambda>p. p \<noteq> c) os)) = CHR '':'' then Takes else Flag)"

text \<open>A parser: arguments up to the first that is not an option, options of one letter in groups, the argument
  of an option in the same word or the next.\<close>
fun parse :: "string \<Rightarrow> string list \<Rightarrow> (char \<times> string) list"
  and letters :: "string \<Rightarrow> string \<Rightarrow> string list \<Rightarrow> (char \<times> string) list" where
  "parse os [] = []"
| "parse os (a # as) = (case a of CHR ''-'' # c # cs \<Rightarrow> letters os (c # cs) as | _ \<Rightarrow> [])"
| "letters os [] as = parse os as"
| "letters os (c # cs) as =
    (if c = CHR ''-'' then []
     else case kind_of os c of
       Unknown \<Rightarrow> (CHR ''?'', c # cs) # parse os as
     | Flag \<Rightarrow> (c, c # cs) # letters os cs as
     | Takes \<Rightarrow>
         if cs \<noteq> [] then (c, cs) # parse os as
         else (case as of [] \<Rightarrow> [(CHR ''?'', c # cs)] | b # bs \<Rightarrow> (c, b) # parse os bs))"

lemma find_opt_dropWhile: "find_opt c os = (if c = CHR '':'' then [] else dropWhile (\<lambda>p. p \<noteq> c) os)"
  by (induction os) auto

lemma at_simps [simp]: "at [] = NUL" "at (c # p) = c"
  by (simp_all add: at_def)

lemma at_NUL: "NUL \<notin> set p \<Longrightarrow> at p = NUL \<longleftrightarrow> p = []"
  by (cases p) (auto simp: at_def)

text \<open>What one call does to an option letter c that cs follows, in argument i.\<close>
lemma take_option_kind:
  assumes "NUL \<notin> set os" "NUL \<notin> set cs" "c \<noteq> NUL" "cp s = c # cs"
  shows "take_option argv (find_opt c os) s =
    (case kind_of os c of
       Unknown \<Rightarrow> (CHR ''?'', s\<lparr>optarg := c # cs, optind := optind s + 1\<rparr>)
     | Flag \<Rightarrow> (c, s\<lparr>optarg := c # cs, optind := (if cs = [] then optind s + 1 else optind s), cp := cs\<rparr>)
     | Takes \<Rightarrow>
         if cs \<noteq> [] then (c, s\<lparr>optarg := cs, optind := optind s + 1, cp := cs\<rparr>)
         else if optind s + 1 < length argv
         then (c, s\<lparr>optarg := argv ! (optind s + 1), optind := optind s + 2, cp := cs\<rparr>)
         else (CHR ''?'', s\<lparr>optarg := c # cs, optind := optind s + 1, cp := cs\<rparr>))"
proof (cases "c = CHR '':'' \<or> c \<notin> set os")
  case True
  then have "find_opt c os = []" by (auto simp: find_opt_dropWhile)
  then show ?thesis using True assms(4) by (simp add: take_option_def Let_def kind_of_def)
next
  case False
  define d where "d = dropWhile (\<lambda>p. p \<noteq> c) os"
  have "d \<noteq> []" "hd d = c" using False unfolding d_def by (auto simp: dropWhile_eq_Nil_conv hd_dropWhile)
    (metis (mono_tags, lifting) dropWhile_eq_Nil_conv hd_dropWhile)
  then have d: "find_opt c os = c # tl d" using False by (cases d) (auto simp: find_opt_dropWhile d_def [symmetric])
  have k: "kind_of os c = (if at (tl d) = CHR '':'' then Takes else Flag)" using False by (simp add: kind_of_def d_def)
  show ?thesis
    using assms(2,3,4) unfolding take_option_def d k Let_def by (simp add: at_NUL)
qed

text \<open>Where the calls stand: before argument i, or inside one, with the letters cs left.\<close>
definition before :: "string \<Rightarrow> nat \<Rightarrow> go_state \<Rightarrow> bool" where
  "before os i s \<longleftrightarrow> opts_str s = os \<and> optind s = i \<and> 0 < i \<and> last_optind s \<noteq> i"

definition within :: "string \<Rightarrow> nat \<Rightarrow> string \<Rightarrow> go_state \<Rightarrow> bool" where
  "within os i cs s \<longleftrightarrow> opts_str s = os \<and> optind s = i \<and> 0 < i \<and> last_optind s = i \<and> cp s = cs"

definition weight :: "string list \<Rightarrow> nat" where
  "weight as = sum_list (map (\<lambda>a. length a + 1) as)"

lemma weight_Cons: "weight (a # as) = length a + 1 + weight as"
  by (simp add: weight_def)

lemma drop_argv: "i < length argv \<Longrightarrow> drop i argv = argv ! i # drop (i + 1) argv"
  by (simp add: Cons_nth_drop_Suc)

text \<open>A call inside an argument.\<close>
lemma getopt_within:
  assumes "within os i (c # cs) s" "i < length argv" "NUL \<notin> set os" "NUL \<notin> set (c # cs)"
  shows "getopt argv None s =
    (if c = CHR ''-'' then (None, s\<lparr>optind := i + 1\<rparr>)
     else case take_option argv (find_opt c os) s of (opt, s) \<Rightarrow> (Some opt, s))"
  using assms by (cases s) (simp add: getopt_def within_def Let_def)

lemma getopt_before:
  assumes "before os i s" "i < length argv" "argv ! i = CHR ''-'' # c # cs" "c \<noteq> NUL"
  shows "getopt argv None s = getopt argv None (s\<lparr>cp := c # cs, last_optind := i\<rparr>)"
  using assms by (cases s) (simp add: getopt_def before_def Let_def)

lemma getopt_stops:
  assumes "before os i s" "i < length argv \<Longrightarrow> \<not> (\<exists>c cs. argv ! i = CHR ''-'' # c # cs)"
  shows "fst (getopt argv None s) = None"
proof (cases "i < length argv")
  case True
  then have "at (argv ! i) \<noteq> CHR ''-'' \<or> at (tl (argv ! i)) = NUL"
    using assms(2) by (cases "argv ! i"; cases "tl (argv ! i)") auto
  then show ?thesis using assms(1) True by (auto simp: getopt_def before_def Let_def)
qed (use assms(1) in \<open>simp add: getopt_def before_def Let_def\<close>)

lemma options_parse:
  assumes os: "NUL \<notin> set os" and argv: "\<forall>a \<in> set argv. NUL \<notin> set a"
  shows "before os i s \<Longrightarrow> weight (drop i argv) < n \<Longrightarrow> options n argv s = ok (parse os (drop i argv))"
    "within os i cs s \<Longrightarrow> cs \<noteq> [] \<Longrightarrow> i < length argv \<Longrightarrow> NUL \<notin> set cs \<Longrightarrow> length cs + weight (drop (i + 1) argv) < n \<Longrightarrow>
       options n argv s = ok (letters os cs (drop (i + 1) argv))"
proof (induction n arbitrary: i cs s)
  case (Suc n)
  have inside: "options (Suc n) argv s = ok (letters os cs (drop (i + 1) argv))"
    if w: "within os i cs s" "cs \<noteq> []" "i < length argv" "NUL \<notin> set cs" "length cs + weight (drop (i + 1) argv) < Suc n" for i cs s
  proof -
    obtain c ds where cs: "cs = c # ds" using w(2) by (cases cs) auto
    have nul: "NUL \<notin> set ds" "c \<noteq> NUL" using w(4) by (auto simp: cs)
    have st: "opts_str s = os" "optind s = i" "0 < i" "last_optind s = i" "cp s = c # ds" using w(1) by (auto simp: within_def cs)
    note call = getopt_within [OF w(1) [unfolded cs] w(3) os w(4) [unfolded cs], unfolded take_option_kind [OF os nul st(5)]]
    show ?thesis
    proof (cases "c = CHR ''-''")
      case True
      then show ?thesis using call by (simp add: cs)
    next
      case False
      show ?thesis
      proof (cases "kind_of os c")
        case Unknown
        have "options n argv (s\<lparr>optarg := c # ds, optind := i + 1\<rparr>) = ok (parse os (drop (i + 1) argv))"
          by (rule Suc.IH(1)) (use st w(5) in \<open>auto simp: before_def cs\<close>)
        then show ?thesis using call False Unknown st by (simp add: cs)
      next
        case Flag
        show ?thesis
        proof (cases "ds = []")
          case True
          have "options n argv (s\<lparr>optarg := c # ds, optind := i + 1, cp := ds\<rparr>) = ok (parse os (drop (i + 1) argv))"
            by (rule Suc.IH(1)) (use st w(5) in \<open>auto simp: before_def cs\<close>)
          then show ?thesis using call False Flag st True by (simp add: cs)
        next
          case ds: False
          have "options n argv (s\<lparr>optarg := c # ds, optind := i, cp := ds\<rparr>) = ok (letters os ds (drop (i + 1) argv))"
            by (rule Suc.IH(2)) (use st w(3,5) nul ds in \<open>auto simp: within_def cs\<close>)
          then show ?thesis using call False Flag st ds by (simp add: cs)
        qed
      next
        case Takes
        show ?thesis
        proof (cases "ds = []")
          case ds: False
          have "options n argv (s\<lparr>optarg := ds, optind := i + 1, cp := ds\<rparr>) = ok (parse os (drop (i + 1) argv))"
            by (rule Suc.IH(1)) (use st w(5) in \<open>auto simp: before_def cs\<close>)
          then show ?thesis using call False Takes st ds by (simp add: cs)
        next
          case ds: True
          show ?thesis
          proof (cases "i + 1 < length argv")
            case True
            have "options n argv (s\<lparr>optarg := argv ! (i + 1), optind := i + 2, cp := ds\<rparr>) = ok (parse os (drop (i + 2) argv))"
              by (rule Suc.IH(1)) (use st w(5) drop_argv [OF True] in \<open>auto simp: before_def cs weight_Cons\<close>)
            then show ?thesis using call False Takes st ds True drop_argv [OF True] by (simp add: cs)
          next
            case last: False
            have "options n argv (s\<lparr>optarg := c # ds, optind := i + 1, cp := ds\<rparr>) = ok (parse os (drop (i + 1) argv))"
              by (rule Suc.IH(1)) (use st w(5) in \<open>auto simp: before_def cs\<close>)
            then show ?thesis using call False Takes st ds last by (simp add: cs)
          qed
        qed
      qed
    qed
  qed
  have outside: "options (Suc n) argv s = ok (parse os (drop i argv))" if b: "before os i s" "weight (drop i argv) < Suc n" for i s
  proof (cases "i < length argv \<and> (\<exists>c cs. argv ! i = CHR ''-'' # c # cs)")
    case True
    then obtain c cs where i: "i < length argv" and a: "argv ! i = CHR ''-'' # c # cs" by auto
    have nul: "NUL \<notin> set (c # cs)" using argv nth_mem [OF i] a by auto
    let ?s = "s\<lparr>cp := c # cs, last_optind := i\<rparr>"
    have "c \<noteq> NUL" using nul by auto
    then have "getopt argv None s = getopt argv None ?s" by (rule getopt_before [OF b(1) i a])
    then have "options (Suc n) argv s = options (Suc n) argv ?s" by simp
    also have "\<dots> = ok (letters os (c # cs) (drop (i + 1) argv))"
      by (rule inside) (use b i nul drop_argv [OF i] a in \<open>auto simp: within_def before_def weight_Cons\<close>)
    finally show ?thesis using drop_argv [OF i] a by simp
  next
    case False
    have "fst (getopt argv None s) = None" by (rule getopt_stops [OF b(1)]) (use False in auto)
    moreover have "parse os (drop i argv) = []"
    proof (cases "i < length argv")
      case True
      then show ?thesis using False drop_argv [OF True] by (auto split: list.splits char.splits bool.splits)
    qed simp
    ultimately show ?thesis by (cases "getopt argv None s") simp
  qed
  { case 1 then show ?case by (rule outside) next case 2 then show ?case by (rule inside) }
qed simp_all

text \<open>C27: the calls of getopt end, and together they are a parser of the argument list: options alone and in
  groups, their arguments in the same word or in the next, a question mark for what is not an option or lacks
  its argument, up to the first word that is not an option.\<close>
theorem getopt_parses:
  assumes "NUL \<notin> set os" "\<forall>a \<in> set argv. NUL \<notin> set a" "optind s = 0" "opts_str s = os"
  shows "options (weight argv + 1) argv s = ok (parse os (tl argv))"
proof -
  let ?s = "s\<lparr>optind := 1, last_optind := 0\<rparr>"
  have "getopt argv None s = getopt argv None ?s" using assms(3) by (simp add: getopt_def Let_def)
  then have "options (weight argv + 1) argv s = options (weight argv + 1) argv ?s" by simp
  also have "\<dots> = ok (parse os (drop 1 argv))"
  proof (rule options_parse(1) [OF assms(1,2)])
    show "before os 1 ?s" using assms(4) by (simp add: before_def)
    show "weight (drop 1 argv) < weight argv + 1" by (cases argv) (simp_all add: weight_Cons)
  qed
  finally show ?thesis by (simp add: drop_Suc)
qed

theorem getopt_parses_witness:
  "options (weight [''startup'', ''-vvSl'', ''-r0x1000,4k'', ''-P'', ''2''] + 1) [''startup'', ''-vvSl'', ''-r0x1000,4k'', ''-P'', ''2'']
     \<lparr>optarg = [], optind = 0, cp = [], last_optind = 0, opts_str = ''r:P:vS''\<rparr> =
   ok [(CHR ''v'', ''vvSl''), (CHR ''v'', ''vSl''), (CHR ''S'', ''Sl''), (CHR ''?'', ''l''), (CHR ''r'', ''0x1000,4k''), (CHR ''P'', ''2'')]"
proof -
  have "parse ''r:P:vS'' (tl [''startup'', ''-vvSl'', ''-r0x1000,4k'', ''-P'', ''2'']) =
    [(CHR ''v'', ''vvSl''), (CHR ''v'', ''vSl''), (CHR ''S'', ''Sl''), (CHR ''?'', ''l''), (CHR ''r'', ''0x1000,4k''), (CHR ''P'', ''2'')]"
    by (simp add: kind_of_def at_def)
  then show ?thesis
    using getopt_parses [of "''r:P:vS''" "[''startup'', ''-vvSl'', ''-r0x1000,4k'', ''-P'', ''2'']"
      "\<lparr>optarg = [], optind = 0, cp = [], last_optind = 0, opts_str = ''r:P:vS''\<rparr>"] by simp
qed

end
