(* ===== verification/Hwinfo.thy ===== *)
theory Hwinfo
  imports Strings "HOL-Library.AList"
begin

text \<open>
  The hardware information section (startup/lib/hwi\_alloc.c): items, each followed by its
  tags, laid out one after another.  A tag is found at its offset in the section; what the
  union hwi\_tag looks like inside comes from sys/hwinfo.h, which is not part of the tree, so
  that a tag is a record of the fields the code names, and the names, sizes and alignments of
  the tags are the argument hwi\_abi.  The widths of the fields are not known either: they are
  natural numbers here.  hwi\_tag2off and hwi\_off2tag are inverse to each other and do not
  appear.  The main lemmas say what a new tag (place\_tag, alloc\_tag\_step) and a new item
  (place\_item, alloc\_item\_step) do to a well-formed section.
\<close>

section \<open>Data\<close>

text \<open>The tags of sys/hwinfo.h that startup creates, and the fields it sets in them.\<close>

datatype tag_kind = K_pad | K_group | K_bus | K_device | K_synonym | K_nanospin
  | K_location | K_irq | K_irqrange | K_inputclk | K_dma | K_errata | K_dll | K_optstr
  | K_busattr | K_regname | K_nicaddr | K_nicphyaddr

datatype tag_field = F_pnpid | F_synonym_real | F_loop_time | F_overhead
  | F_base | F_len | F_regshift | F_addrspace | F_vector | F_irq | F_num
  | F_clk | F_div | F_chnl | F_errata_num | F_dll_name | F_optstr
  | F_speed | F_width | F_busaddr | F_busflags | F_regname | F_regoffset
  | F_niclen | F_nicbyte nat | F_phyaddr

text \<open>What sys/hwinfo.h fixes: HWI\_TAG\_INFO of a kind is its name, its size in bytes and its
  alignment, and hi\_prefix is sizeof (struct hwi\_prefix).\<close>

record hwi_abi =
  hi_name :: "tag_kind \<Rightarrow> string"
  hi_size :: "tag_kind \<Rightarrow> nat"
  hi_align :: "tag_kind \<Rightarrow> nat"
  hi_prefix :: nat
  hi_nicaddr_off :: nat

text \<open>The union hwi\_tag: the prefix, the further fields of an item, the fields of a tag.
  HWI\_NULL\_OFF is None.\<close>

record hwi_tag =
  tg_size :: nat
  tg_name :: nat
  it_itemsize :: nat
  it_itemname :: nat
  it_owner :: "nat option"
  it_kids :: nat
  tg_fields :: "(tag_field \<times> nat) list"

definition blank_tag :: hwi_tag where
  "blank_tag = \<lparr>tg_size = 0, tg_name = 0, it_itemsize = 0, it_itemname = 0, it_owner = Some 0,
     it_kids = 0, tg_fields = []\<rparr>"

definition tg_field :: "hwi_tag \<Rightarrow> tag_field \<Rightarrow> nat" where
  "tg_field t fl = (case map_of (tg_fields t) fl of None \<Rightarrow> 0 | Some v \<Rightarrow> v)"

text \<open>The section with the two static variables of hwi\_alloc.c, the string section and the
  budget of the system page.\<close>

record hwsec =
  hs_size :: nat
  hs_offset :: nat
  hs_last :: nat
  hs_cells :: "(nat \<times> hwi_tag) list"
  hs_strs :: "char list"
  hs_bud :: budget

text \<open>The tag at an offset; bytes that were not written are zero.\<close>

definition hs_tags :: "hwsec \<Rightarrow> nat \<Rightarrow> hwi_tag" where
  "hs_tags h off = (case map_of (hs_cells h) off of None \<Rightarrow> blank_tag | Some t \<Rightarrow> t)"

definition upd_tag :: "nat \<Rightarrow> (hwi_tag \<Rightarrow> hwi_tag) \<Rightarrow> hwsec \<Rightarrow> hwsec" where
  "upd_tag off f h = h\<lparr>hs_cells := AList.update off (f (hs_tags h off)) (hs_cells h)\<rparr>"

definition set_field :: "nat \<Rightarrow> tag_field \<Rightarrow> nat \<Rightarrow> hwsec \<Rightarrow> hwsec" where
  "set_field off fl v = upd_tag off (\<lambda>t. t\<lparr>tg_fields := (fl, v) # tg_fields t\<rparr>)"

lemma hs_tags_simps [simp]:
  "hs_tags (h\<lparr>hs_size := x\<rparr>) = hs_tags h" "hs_tags (h\<lparr>hs_offset := x\<rparr>) = hs_tags h"
  "hs_tags (h\<lparr>hs_last := x\<rparr>) = hs_tags h" "hs_tags (h\<lparr>hs_strs := s\<rparr>) = hs_tags h"
  "hs_tags (h\<lparr>hs_bud := b\<rparr>) = hs_tags h"
  by (simp_all add: hs_tags_def fun_eq_iff)

lemma upd_tag_simps [simp]:
  "hs_tags (upd_tag off f h) = (hs_tags h)(off := f (hs_tags h off))"
  "hs_size (upd_tag off f h) = hs_size h" "hs_offset (upd_tag off f h) = hs_offset h"
  "hs_last (upd_tag off f h) = hs_last h" "hs_strs (upd_tag off f h) = hs_strs h"
  "hs_bud (upd_tag off f h) = hs_bud h"
  by (auto simp: upd_tag_def hs_tags_def fun_eq_iff update_conv')

lemma tg_field_simps [simp]:
  "tg_field (t\<lparr>tg_size := x\<rparr>) = tg_field t" "tg_field (t\<lparr>tg_name := x\<rparr>) = tg_field t"
  "tg_field (t\<lparr>it_itemsize := x\<rparr>) = tg_field t" "tg_field (t\<lparr>it_itemname := x\<rparr>) = tg_field t"
  "tg_field (t\<lparr>it_owner := ow\<rparr>) = tg_field t" "tg_field (t\<lparr>it_kids := x\<rparr>) = tg_field t"
  "tg_field (t\<lparr>tg_fields := (fl, v) # fs\<rparr>) = (tg_field (t\<lparr>tg_fields := fs\<rparr>))(fl := v)"
  by (auto simp: tg_field_def fun_eq_iff)

definition hwi_add_string :: "string \<Rightarrow> hwsec \<Rightarrow> (nat \<times> hwsec) res" where
  "hwi_add_string name h =
    and_then (add_string name (hs_strs h) (hs_bud h)) (\<lambda>(i, bs, b).
      ok (i, h\<lparr>hs_strs := bs, hs_bud := b\<rparr>))"

section \<open>Allocation\<close>

text \<open>hwi\_alloc\_tag after align\_tag: the room for the tag and one more prefix, then the
  name, the size of the last item, and the prefix of the new tag.\<close>

definition hwi_reserve :: "nat \<Rightarrow> hwsec \<Rightarrow> hwsec res" where
  "hwi_reserve need h =
    (let spare = (hs_size h + 2 ^ 32 - hs_offset h) mod 2 ^ 32
     in if need > spare then
          and_then (request (roundup (need - spare) 128) (hs_bud h)) (\<lambda>(n, b).
            ok (h\<lparr>hs_size := hs_size h + n, hs_bud := b\<rparr>))
        else ok h)"

definition hwi_place :: "hwi_abi \<Rightarrow> string \<Rightarrow> nat \<Rightarrow> hwsec \<Rightarrow> (nat \<times> hwsec) res" where
  "hwi_place H name sz h =
    and_then (hwi_add_string name h) (\<lambda>(name_off, h1).
    and_then (hwi_reserve (sz + hi_prefix H) h1) (\<lambda>h2.
      let off = hs_offset h2;
          h3 = upd_tag (hs_last h2) (\<lambda>t. t\<lparr>it_itemsize := it_itemsize t + sz div 4\<rparr>) h2;
          h4 = upd_tag off (\<lambda>t. t\<lparr>tg_size := sz div 4, tg_name := name_off\<rparr>) h3
      in ok (off, h4\<lparr>hs_offset := off + sz\<rparr>)))"

text \<open>align\_tag and hwi\_alloc\_tag call each other: the pad tag is itself aligned.  The first
  argument bounds the depth of the calls.\<close>

fun hwi_alloc_tag :: "nat \<Rightarrow> hwi_abi \<Rightarrow> string \<Rightarrow> nat \<Rightarrow> nat \<Rightarrow> hwsec \<Rightarrow> (nat \<times> hwsec) res" where
  "hwi_alloc_tag 0 H name sz al h = hang"
| "hwi_alloc_tag (Suc f) H name sz al h =
    and_then
      (if roundup (hs_offset h) al - hs_offset h \<noteq> 0
       then and_then (hwi_alloc_tag f H (hi_name H K_pad) (hi_size H K_pad) (hi_align H K_pad) h)
              (\<lambda>(_, h'). ok h')
       else ok h)
      (hwi_place H name sz)"

definition align_tag :: "nat \<Rightarrow> hwi_abi \<Rightarrow> nat \<Rightarrow> hwsec \<Rightarrow> hwsec res" where
  "align_tag f H al h =
    (let grow = roundup (hs_offset h) al - hs_offset h
     in if grow \<noteq> 0
        then and_then (hwi_alloc_tag f H (hi_name H K_pad) (hi_size H K_pad) (hi_align H K_pad) h)
               (\<lambda>(_, h'). ok h')
        else ok h)"

lemma hwi_alloc_tag_Suc [simp]:
  "hwi_alloc_tag (Suc f) H name sz al h = and_then (align_tag f H al h) (hwi_place H name sz)"
  by (simp add: align_tag_def)

declare hwi_alloc_tag.simps(2) [simp del]

text \<open>The depth that is always enough when offsets are aligned for the pad tag (lemma
  alloc\_tag\_unfold): a tag and its pad.\<close>

definition tag_depth :: nat where
  "tag_depth = 2"

abbreviation alloc_tag :: "hwi_abi \<Rightarrow> string \<Rightarrow> nat \<Rightarrow> nat \<Rightarrow> hwsec \<Rightarrow> (nat \<times> hwsec) res" where
  "alloc_tag \<equiv> hwi_alloc_tag tag_depth"

definition alloc_info :: "hwi_abi \<Rightarrow> tag_kind \<Rightarrow> hwsec \<Rightarrow> (nat \<times> hwsec) res" where
  "alloc_info H k = alloc_tag H (hi_name H k) (hi_size H k) (hi_align H k)"

definition hwi_alloc_item ::
  "hwi_abi \<Rightarrow> tag_kind \<Rightarrow> string \<Rightarrow> nat option \<Rightarrow> hwsec \<Rightarrow> (nat \<times> hwsec) res" where
  "hwi_alloc_item H k itemname owner h =
    and_then (hwi_add_string itemname h) (\<lambda>(saved_in, h1).
    and_then (align_tag tag_depth H (hi_align H k) h1) (\<lambda>h2.
    and_then (alloc_info H k (h2\<lparr>hs_last := hs_offset h2\<rparr>)) (\<lambda>(tag, h3).
      let h4 = upd_tag tag (\<lambda>t. t\<lparr>it_itemname := saved_in, it_owner := owner\<rparr>) h3
      in ok (tag, case owner of
                    None \<Rightarrow> h4
                  | Some ow \<Rightarrow> upd_tag ow (\<lambda>t. t\<lparr>it_kids := it_kids t + 1\<rparr>) h4))))"

text \<open>hwi\_grow\_tag: its parameter hides the static offset, so that offset += size changes the
  parameter only.\<close>

definition hwi_grow_tag :: "nat \<Rightarrow> nat \<Rightarrow> hwsec \<Rightarrow> (nat \<times> hwsec) res" where
  "hwi_grow_tag off sz h =
    and_then (request sz (hs_bud h)) (\<lambda>(n, b).
      let h1 = h\<lparr>hs_size := hs_size h + n, hs_bud := b\<rparr>;
          h2 = upd_tag (hs_last h1) (\<lambda>t. t\<lparr>it_itemsize := it_itemsize t + sz div 4\<rparr>) h1;
          h3 = upd_tag off (\<lambda>t. t\<lparr>tg_size := tg_size t + sz div 4\<rparr>) h2
      in ok (off, h3))"

section \<open>What the section holds\<close>

text \<open>An item with its tags, the newest tag first: offset, name and size of each.  A section is
  described by its items, the newest first.\<close>

record hwi_item =
  i_off :: nat
  i_name :: string
  i_size :: nat
  i_label :: string
  i_owner :: "nat option"
  i_tags :: "(nat \<times> string \<times> nat) list"

primrec tags_len :: "(nat \<times> string \<times> nat) list \<Rightarrow> nat" where
  "tags_len [] = 0"
| "tags_len (t # ts) = snd (snd t) + tags_len ts"

definition i_len :: "hwi_item \<Rightarrow> nat" where
  "i_len i = i_size i + tags_len (i_tags i)"

primrec hw_end :: "hwi_item list \<Rightarrow> nat" where
  "hw_end [] = 0"
| "hw_end (i # is) = i_off i + i_len i"

text \<open>The tags and the items follow one another without gaps.\<close>

primrec tags_at :: "nat \<Rightarrow> nat \<Rightarrow> (nat \<times> string \<times> nat) list \<Rightarrow> bool" where
  "tags_at P base [] = True"
| "tags_at P base (t # ts) =
    (fst t = base + tags_len ts \<and> 0 < snd (snd t) \<and> P dvd snd (snd t) \<and> tags_at P base ts)"

primrec items_at :: "nat \<Rightarrow> hwi_item list \<Rightarrow> bool" where
  "items_at P [] = True"
| "items_at P (i # is) =
    (i_off i = hw_end is \<and> 0 < i_size i \<and> P dvd i_size i \<and>
     tags_at P (i_off i + i_size i) (i_tags i) \<and> items_at P is)"

definition kids_of :: "hwi_item list \<Rightarrow> nat \<Rightarrow> nat" where
  "kids_of is o1 = length (filter (\<lambda>i. i_owner i = Some o1) is)"

text \<open>The entry in memory describes the tag, respectively the item.\<close>

definition tag_rep :: "(nat \<Rightarrow> hwi_tag) \<Rightarrow> string list \<Rightarrow> nat \<times> string \<times> nat \<Rightarrow> bool" where
  "tag_rep T ns t \<longleftrightarrow> (case t of (off, name, z) \<Rightarrow>
     tg_size (T off) = z div 4 \<and> name \<in> set ns \<and> tg_name (T off) = offset_of ns name)"

definition item_rep :: "(nat \<Rightarrow> hwi_tag) \<Rightarrow> string list \<Rightarrow> nat \<Rightarrow> hwi_item \<Rightarrow> bool" where
  "item_rep T ns kids i \<longleftrightarrow>
     tag_rep T ns (i_off i, i_name i, i_size i) \<and> (\<forall>t\<in>set (i_tags i). tag_rep T ns t) \<and>
     it_itemsize (T (i_off i)) = i_len i div 4 \<and> it_owner (T (i_off i)) = i_owner i \<and>
     i_label i \<in> set ns \<and> it_itemname (T (i_off i)) = offset_of ns (i_label i) \<and>
     it_kids (T (i_off i)) = kids"

definition hw_body :: "hwi_abi \<Rightarrow> hwsec \<Rightarrow> hwi_item list \<Rightarrow> string list \<Rightarrow> bool" where
  "hw_body H h is ns \<longleftrightarrow>
     str_inv (hs_strs h, hs_bud h) ns \<and> items_at (hi_size H K_pad) is \<and>
     hs_offset h = hw_end is \<and> hs_offset h \<le> hs_size h \<and> hs_size h \<le> bg_total (hs_bud h) \<and>
     (is \<noteq> [] \<longrightarrow> hs_offset h + hi_prefix H \<le> hs_size h) \<and>
     (\<forall>i\<in>set is. item_rep (hs_tags h) ns (kids_of is (i_off i)) i) \<and>
     (\<forall>i\<in>set is. \<forall>ow. i_owner i = Some ow \<longrightarrow> ow \<in> i_off ` set is) \<and>
     (\<forall>off\<ge>hs_offset h. hs_tags h off = blank_tag)"

text \<open>Moreover the static last\_item is the newest item.\<close>

definition hw_rep :: "hwi_abi \<Rightarrow> hwsec \<Rightarrow> hwi_item list \<Rightarrow> string list \<Rightarrow> bool" where
  "hw_rep H h is ns \<longleftrightarrow> hw_body H h is ns \<and> (is \<noteq> [] \<longrightarrow> hs_last h = i_off (hd is))"

definition abi_ok :: "hwi_abi \<Rightarrow> bool" where
  "abi_ok H \<longleftrightarrow> inj (hi_name H) \<and> 0 < hi_size H K_pad \<and> 4 dvd hi_size H K_pad \<and> hi_align H K_pad = hi_size H K_pad \<and>
     (\<forall>k. 0 < hi_size H k \<and> hi_size H K_pad dvd hi_size H k \<and> hi_size H k < 2 ^ 16 \<and>
       str_name_ok (hi_name H k)) \<and> hi_prefix H < 2 ^ 16 \<and>
     (\<forall>k. hi_align H k = hi_size H K_pad \<or> hi_align H k = 2 * hi_size H K_pad)"

lemma tags_at_dvd: "tags_at P b ts \<Longrightarrow> P dvd tags_len ts"
  by (induction ts) auto

lemma items_at_dvd: "items_at P is \<Longrightarrow> P dvd hw_end is"
  by (induction "is") (auto simp: i_len_def tags_at_dvd)

lemma tags_at_less: "tags_at P b ts \<Longrightarrow> t \<in> set ts \<Longrightarrow> b \<le> fst t \<and> fst t < b + tags_len ts"
  by (induction ts) auto

lemma item_off_less: "items_at P is \<Longrightarrow> i \<in> set is \<Longrightarrow> i_off i < hw_end is"
  by (induction "is") (auto simp: i_len_def)

lemma item_tag_less:
  "items_at P is \<Longrightarrow> i \<in> set is \<Longrightarrow> t \<in> set (i_tags i) \<Longrightarrow> fst t < hw_end is"
proof (induction "is")
  case (Cons j js)
  show ?case
  proof (cases "i = j")
    case True
    then show ?thesis using Cons.prems tags_at_less [of P "i_off j + i_size j" "i_tags j" t]
      by (auto simp: i_len_def)
  next
    case False
    then have "fst t < hw_end js" using Cons by auto
    also have "\<dots> = i_off j" using Cons.prems by simp
    finally show ?thesis by (simp add: i_len_def)
  qed
qed simp

lemma item_offs_distinct:
  "items_at P is \<Longrightarrow> i \<in> set is \<Longrightarrow> j \<in> set is \<Longrightarrow> i_off i = i_off j \<Longrightarrow> i = j"
proof (induction "is")
  case (Cons k ks)
  have "i_off l \<noteq> i_off k" if "l \<in> set ks" for l
    using item_off_less [OF _ that, of P] Cons.prems(1) by simp
  then show ?case using Cons by (metis items_at.simps(2) set_ConsD)
qed simp

lemma tag_rep_cong:
  "tg_size (T' (fst t)) = tg_size (T (fst t)) \<Longrightarrow> tg_name (T' (fst t)) = tg_name (T (fst t)) \<Longrightarrow>
    tag_rep T' ns t = tag_rep T ns t"
  by (cases t) (simp add: tag_rep_def)

lemma tag_rep_names: "tag_rep T ns t \<Longrightarrow> tag_rep T (strs.names_after ns n) t"
  by (cases t) (auto simp: tag_rep_def strs.names_after_def offset_of_append)

lemma item_rep_names: "item_rep T ns k i \<Longrightarrow> item_rep T (strs.names_after ns n) k i"
  by (auto simp: item_rep_def tag_rep_names) (auto simp: strs.names_after_def offset_of_append)

lemma roundup_step:
  fixes P :: nat
  assumes "0 < P" "P dvd x" "al = P \<or> al = 2 * P"
  shows "roundup x al - x \<in> {0, P} \<and> al dvd x + (roundup x al - x)"
proof -
  have al: "0 < al" using assms by auto
  have r: "x \<le> roundup x al" "roundup x al < x + al" "al dvd roundup x al"
    using roundup_ge [OF al] roundup_less [OF al] roundup_dvd by auto
  then have "P dvd roundup x al - x"
    using assms by (metis dvd_diff_nat dvd_mult_right dvd_refl dvd_trans)
  then obtain k where k: "roundup x al - x = P * k" by (auto simp: dvd_def)
  have "roundup x al - x < al" using r al by linarith
  also have "al \<le> P * 2" using assms(1,3) by auto
  finally have "P * k < P * 2" by (simp only: k)
  then have "k = 0 \<or> k = 1" using assms(1) by (cases k) auto
  with k r show ?thesis by auto
qed

section \<open>One tag\<close>

lemma add_string_grows:
  assumes "str_inv (bs, b) ns" "str_name_ok n" "add_string n bs b = ok (i, bs', b')"
  shows "bg_total b \<le> bg_total b'"
proof (cases "n \<in> set ns")
  case True
  then show ?thesis using assms add_string_found [of bs ns n b] by (simp add: str_inv_def)
next
  case False
  have "roundup (length n + 130) 8 < length n + 130 + 8" by (rule roundup_less) simp
  then have "bg_total b + roundup (length n + 130) 8 < 2 ^ 32"
    using assms(1,2) by (simp add: str_inv_def str_name_ok_def)
  from add_string_new(4) [OF _ False _ assms(3) this] show ?thesis
    using assms(1,2) by (simp add: str_inv_def str_name_ok_def)
qed

lemma hwi_add_string_ok:
  assumes run: "hwi_add_string n h = ok (i, h')" and rep: "hw_body H h is ns" and n: "str_name_ok n"
  shows "i = offset_of (strs.names_after ns n) n" "hw_body H h' is (strs.names_after ns n)"
    "hs_tags h' = hs_tags h" "hs_offset h' = hs_offset h" "hs_last h' = hs_last h"
proof -
  obtain bs b where r: "add_string n (hs_strs h) (hs_bud h) = ok (i, bs, b)"
    and h': "h' = h\<lparr>hs_strs := bs, hs_bud := b\<rparr>"
    using run by (auto simp: hwi_add_string_def res_simps)
  have inv: "str_inv (hs_strs h, hs_bud h) ns" using rep by (simp add: hw_body_def)
  have p: "add_string_p n (hs_strs h, hs_bud h) = ok (i, bs, b)" using r by (simp add: add_string_p_def)
  show "i = offset_of (strs.names_after ns n) n" by (rule strs.intern_step(2) [OF inv n p])
  have "str_inv (bs, b) (strs.names_after ns n)" by (rule strs.intern_step(1) [OF inv n p])
  moreover note add_string_grows [OF inv n r]
  ultimately show "hw_body H h' is (strs.names_after ns n)"
    using rep unfolding hw_body_def h' by (auto simp: item_rep_names)
  show "hs_tags h' = hs_tags h" "hs_offset h' = hs_offset h" "hs_last h' = hs_last h"
    by (simp_all add: h')
qed

text \<open>The room for the tag: only the size and the budget change.\<close>

lemma hwi_room:
  assumes rep: "hw_body H h is ns" and k: "need < 2 ^ 17"
    and run: "hwi_reserve need h = ok h'"
  shows "hw_body H h' is ns" "hs_offset h + need \<le> hs_size h'"
    "hs_tags h' = hs_tags h" "hs_offset h' = hs_offset h" "hs_last h' = hs_last h"
proof -
  have b: "hs_offset h \<le> hs_size h" "hs_size h \<le> bg_total (hs_bud h)"
    "bg_total (hs_bud h) \<le> bg_max (hs_bud h)" "bg_max (hs_bud h) < 2 ^ 31"
    using rep by (auto simp: hw_body_def str_inv_def)
  have sp: "(hs_size h + 2 ^ 32 - hs_offset h) mod 2 ^ 32 = hs_size h - hs_offset h"
  proof -
    have "hs_size h + 2 ^ 32 - hs_offset h = hs_size h - hs_offset h + 2 ^ 32" using b(1) by simp
    moreover have "hs_size h - hs_offset h < 2 ^ 32" using b by simp
    ultimately show ?thesis by (metis mod_add_self2 mod_less)
  qed
  let ?k = "roundup (need - (hs_size h - hs_offset h)) 128"
  have "hw_body H h' is ns \<and> hs_offset h + need \<le> hs_size h' \<and>
    hs_tags h' = hs_tags h \<and> hs_offset h' = hs_offset h \<and> hs_last h' = hs_last h"
  proof (cases "need > hs_size h - hs_offset h")
    case False
    then show ?thesis using run rep b(1) unfolding hwi_reserve_def sp Let_def by auto
  next
    case True
    then obtain n b1 where rq: "request ?k (hs_bud h) = ok (n, b1)"
      and h': "h' = h\<lparr>hs_size := hs_size h + n, hs_bud := b1\<rparr>"
      using run unfolding hwi_reserve_def sp Let_def by (auto simp: res_simps)
    have r1: "need - (hs_size h - hs_offset h) \<le> ?k" by (rule roundup_ge) simp
    have r2: "?k < need + 128" using roundup_less [of 128 "need - (hs_size h - hs_offset h)"] by simp
    have r3: "?k \<le> roundup ?k 8" "roundup ?k 8 < ?k + 8" using roundup_ge roundup_less by simp_all
    have fit: "bg_total (hs_bud h) + roundup ?k 8 < 2 ^ 32"
      using r2 r3 b k by simp
    have n: "n = roundup ?k 8" "bg_total b1 = bg_total (hs_bud h) + n"
      using request_ok [OF rq fit] by simp_all
    have mx: "bg_total b1 \<le> bg_max b1 \<and> bg_max b1 = bg_max (hs_bud h)"
      by (rule request_budget [OF rq b(3)])
    have "hs_offset h + need \<le> hs_size h + n" using r1 r3 n(1) b(1) by linarith
    moreover have "hw_body H h' is ns"
      using rep n(2) mx unfolding h' hw_body_def str_inv_def by auto
    ultimately show ?thesis by (simp add: h')
  qed
  then show "hw_body H h' is ns" "hs_offset h + need \<le> hs_size h'"
    "hs_tags h' = hs_tags h" "hs_offset h' = hs_offset h" "hs_last h' = hs_last h" by auto
qed

text \<open>What hwi\_place does, whatever the last item is.\<close>

lemma hwi_place_ok:
  assumes run: "hwi_place H name sz h = ok (off, h')" and rep: "hw_body H h is ns"
    and n: "str_name_ok name" and small: "sz < 2 ^ 16" "hi_prefix H < 2 ^ 16"
  obtains h2 where
    "off = hs_offset h" "hs_last h' = hs_last h" "hs_offset h' = hs_offset h + sz"
    "hw_body H h2 is (strs.names_after ns name)"
    "hs_offset h' + hi_prefix H \<le> hs_size h'"
    "hs_strs h' = hs_strs h2" "hs_bud h' = hs_bud h2" "hs_size h' = hs_size h2"
    "hs_tags h2 = hs_tags h"
    "hs_tags h' = (let T = (hs_tags h)(hs_last h := (hs_tags h (hs_last h))
                      \<lparr>it_itemsize := it_itemsize (hs_tags h (hs_last h)) + sz div 4\<rparr>)
       in T(hs_offset h := (T (hs_offset h))\<lparr>tg_size := sz div 4,
                      tg_name := offset_of (strs.names_after ns name) name\<rparr>))"
proof -
  obtain i h1 where a: "hwi_add_string name h = ok (i, h1)"
    using run by (auto simp: hwi_place_def elim!: and_then_okE)
  note s = hwi_add_string_ok [OF a rep n]
  obtain h2 where room: "hwi_reserve (sz + hi_prefix H) h1 = ok h2"
    and h': "off = hs_offset h2" "h' =
      (upd_tag (hs_offset h2) (\<lambda>t. t\<lparr>tg_size := sz div 4, tg_name := i\<rparr>)
        (upd_tag (hs_last h2) (\<lambda>t. t\<lparr>it_itemsize := it_itemsize t + sz div 4\<rparr>) h2))
          \<lparr>hs_offset := hs_offset h2 + sz\<rparr>"
    using run a by (auto simp: hwi_place_def Let_def elim!: and_then_okE)
  have "sz + hi_prefix H < 2 ^ 17" using small by simp
  note r = hwi_room [OF s(2) this room]
  show ?thesis
    by (rule that [of h2]) (use r s h' in \<open>auto simp: Let_def\<close>)
qed

definition add_tg :: "nat \<times> string \<times> nat \<Rightarrow> hwi_item list \<Rightarrow> hwi_item list" where
  "add_tg t is = (case is of [] \<Rightarrow> [] | i # js \<Rightarrow> i\<lparr>i_tags := t # i_tags i\<rparr> # js)"

lemma add_tg_same [simp]:
  "add_tg t is = [] \<longleftrightarrow> is = []"
  "is \<noteq> [] \<Longrightarrow> i_off (hd (add_tg t is)) = i_off (hd is)"
  "kids_of (add_tg t is) o1 = kids_of is o1"
  "is \<noteq> [] \<Longrightarrow> hw_end (add_tg t is) = hw_end is + snd (snd t)"
  by (auto simp: add_tg_def kids_of_def i_len_def neq_Nil_conv split: list.split)

lemma add_tg_offs [simp]: "i_off ` set (add_tg t is) = i_off ` set is"
  by (cases "is") (simp_all add: add_tg_def)

lemma items_at_add_tg:
  assumes "items_at P is" "is \<noteq> []" "P dvd sz" "0 < sz"
  shows "items_at P (add_tg (hw_end is, name, sz) is)"
  using assms by (cases "is") (auto simp: add_tg_def i_len_def)

lemma add_len_div4: "4 dvd z \<Longrightarrow> (n + z) div 4 = n div 4 + z div (4 :: nat)"
  by (metis div_add_self2 div_plus_div_distrib_dvd_right)

lemma place_tag:
  assumes rep: "hw_rep H h is ns" and ne: "is \<noteq> []" and run: "hwi_place H name sz h = ok (off, h')"
    and n: "str_name_ok name" and small: "sz < 2 ^ 16" "hi_prefix H < 2 ^ 16"
    and sz: "0 < sz" "hi_size H K_pad dvd sz" "4 dvd hi_size H K_pad"
  shows "off = hw_end is" "hw_rep H h' (add_tg (hw_end is, name, sz) is) (strs.names_after ns name)"
proof -
  let ?ns = "strs.names_after ns name" and ?is = "add_tg (hw_end is, name, sz) is"
  have body: "hw_body H h is ns" and last: "hs_last h = i_off (hd is)"
    using rep ne by (auto simp: hw_rep_def)
  obtain h2 where p: "off = hs_offset h" "hs_last h' = hs_last h" "hs_offset h' = hs_offset h + sz"
    "hw_body H h2 is ?ns" "hs_offset h' + hi_prefix H \<le> hs_size h'"
    "hs_strs h' = hs_strs h2" "hs_bud h' = hs_bud h2" "hs_size h' = hs_size h2"
    "hs_tags h2 = hs_tags h"
    "hs_tags h' = (let T = (hs_tags h)(hs_last h := (hs_tags h (hs_last h))
                      \<lparr>it_itemsize := it_itemsize (hs_tags h (hs_last h)) + sz div 4\<rparr>)
       in T(hs_offset h := (T (hs_offset h))\<lparr>tg_size := sz div 4, tg_name := offset_of ?ns name\<rparr>))"
    by (rule hwi_place_ok [OF run body n small])
  have at: "items_at (hi_size H K_pad) is" and e: "hs_offset h = hw_end is"
    and reps: "\<And>i. i \<in> set is \<Longrightarrow> item_rep (hs_tags h) ?ns (kids_of is (i_off i)) i"
    and own: "\<forall>i\<in>set is. \<forall>ow. i_owner i = Some ow \<longrightarrow> ow \<in> i_off ` set is"
    and blank: "\<And>o1. hs_offset h \<le> o1 \<Longrightarrow> hs_tags h o1 = blank_tag"
    using p(4,9) body by (auto simp: hw_body_def)
  show off: "off = hw_end is" using p(1) e by simp
  obtain i js where ij: "is = i # js" using ne by (cases "is") auto
  have lt: "i_off j < hw_end is" if "j \<in> set is" for j by (rule item_off_less [OF at that])
  have lst: "hs_last h < hw_end is" using lt [of i] last by (simp add: ij)
  have tlt: "fst t < hw_end is" if "j \<in> set is" "t \<in> set (i_tags j)" for j t
    by (rule item_tag_less [OF at that])
  have T1: "tg_size (hs_tags h' o1) = tg_size (hs_tags h o1)" "tg_name (hs_tags h' o1) = tg_name (hs_tags h o1)"
    "it_owner (hs_tags h' o1) = it_owner (hs_tags h o1)" "it_itemname (hs_tags h' o1) = it_itemname (hs_tags h o1)"
    "it_kids (hs_tags h' o1) = it_kids (hs_tags h o1)"
    "it_itemsize (hs_tags h' o1) = it_itemsize (hs_tags h o1) + (if o1 = i_off i then sz div 4 else 0)"
    if "o1 < hw_end is" for o1
    using that last lst e unfolding p(10) by (auto simp: ij)
  have T2: "tag_rep (hs_tags h') ?ns (hw_end is, name, sz)"
    using strs.in_names_after(1) [of name ns] e lst unfolding p(10) by (auto simp: tag_rep_def)
  have i: "item_rep (hs_tags h') ?ns (kids_of is (i_off j)) j" if "j \<in> set js" for j
  proof -
    have j: "j \<in> set is" using that by (simp add: ij)
    have "i_off j < i_off i" using item_off_less [OF _ that, of "hi_size H K_pad"] at by (simp add: ij)
    then show ?thesis
      using reps [OF j] lt [OF j] tlt [OF j]
      by (auto simp: item_rep_def T1 tag_rep_cong [of "hs_tags h'" _ "hs_tags h"])
  qed
  have "4 dvd sz" using sz(2,3) dvd_trans by blast
  then have ilen: "i_len (i\<lparr>i_tags := (hw_end is, name, sz) # i_tags i\<rparr>) div 4 = i_len i div 4 + sz div 4"
    using add_len_div4 [of sz "i_len i"] by (simp add: i_len_def ac_simps)
  have i0: "item_rep (hs_tags h') ?ns (kids_of is (i_off i)) (i\<lparr>i_tags := (hw_end is, name, sz) # i_tags i\<rparr>)"
    using reps [of i] lt [of i] tlt [of i] T2 ilen
    by (auto simp: ij item_rep_def T1 tag_rep_cong [of "hs_tags h'" _ "hs_tags h"])
  have "\<forall>j\<in>set ?is. item_rep (hs_tags h') ?ns (kids_of ?is (i_off j)) j"
    using i i0 unfolding add_tg_same(3) by (auto simp: add_tg_def ij)
  moreover have "\<forall>j\<in>set ?is. \<forall>ow. i_owner j = Some ow \<longrightarrow> ow \<in> i_off ` set ?is"
    using own by (auto simp: add_tg_def ij)
  moreover have "hs_tags h' o1 = blank_tag" if "hs_offset h' \<le> o1" for o1
    using blank [of o1] that lst e sz(1) unfolding p(3,10) by auto
  moreover have "items_at (hi_size H K_pad) ?is"
    by (rule items_at_add_tg [OF at ne sz(2,1)])
  moreover have "hs_offset h' = hw_end ?is" using ne e p(3) by simp
  moreover have "str_inv (hs_strs h', hs_bud h') ?ns" "hs_size h' \<le> bg_total (hs_bud h')"
    using p(4,6,7,8) by (auto simp: hw_body_def)
  ultimately show "hw_rep H h' ?is ?ns"
    using p(2,5) ne last by (auto simp: hw_rep_def hw_body_def)
qed

section \<open>Alignment\<close>

definition padded :: "hwi_abi \<Rightarrow> nat \<Rightarrow> hwi_item list \<Rightarrow> hwi_item list" where
  "padded H al is =
    (if al dvd hw_end is then is else add_tg (hw_end is, hi_name H K_pad, hi_size H K_pad) is)"

text \<open>The section holds the items and the string section at least the names ns.\<close>

definition hw_over :: "hwi_abi \<Rightarrow> string list \<Rightarrow> hwsec \<Rightarrow> hwi_item list \<Rightarrow> bool" where
  "hw_over H ns h is \<longleftrightarrow> (\<exists>ms. hw_rep H h is (ns @ ms))"

definition hw_ok :: "hwi_abi \<Rightarrow> hwsec \<Rightarrow> hwi_item list \<Rightarrow> bool" where
  "hw_ok H = hw_over H []"

lemma hw_overI: "hw_rep H h is (strs.names_after (ns @ ms) n) \<Longrightarrow> hw_over H ns h is"
  by (auto simp: hw_over_def strs.names_after_def split: if_splits)

definition align_ok :: "hwi_abi \<Rightarrow> nat \<Rightarrow> bool" where
  "align_ok H al \<longleftrightarrow> al = hi_size H K_pad \<or> al = 2 * hi_size H K_pad"

lemma roundup_zero:
  assumes "0 < al"
  shows "roundup x al - x = 0 \<longleftrightarrow> al dvd x"
proof
  assume "roundup x al - x = 0"
  then have "roundup x al = x" using roundup_ge [OF assms, of x] by simp
  then show "al dvd x" using roundup_dvd [of al x] by simp
qed (simp add: roundup_fix [OF assms])

lemma hw_over_offset:
  assumes "hw_over H ns h is"
  shows "hs_offset h = hw_end is" "hi_size H K_pad dvd hw_end is"
  using assms items_at_dvd by (auto simp: hw_over_def hw_rep_def hw_body_def)

lemma align_none:
  assumes "0 < al" "al dvd hs_offset h"
  shows "align_tag f H al h = ok h"
  using assms by (simp add: align_tag_def roundup_fix)

lemma alloc_aligned:
  assumes "0 < al" "al dvd hs_offset h"
  shows "hwi_alloc_tag (Suc f) H name sz al h = hwi_place H name sz h"
  using align_none [OF assms] by simp

lemma align_tag_unfold:
  assumes abi: "abi_ok H" and al: "align_ok H al" and off: "hi_size H K_pad dvd hs_offset h"
  shows "align_tag (Suc f) H al h =
    (if al dvd hs_offset h then ok h
     else and_then (hwi_place H (hi_name H K_pad) (hi_size H K_pad) h) (\<lambda>(_, h'). ok h'))"
proof -
  have P: "0 < hi_size H K_pad" "hi_align H K_pad = hi_size H K_pad" and al0: "0 < al"
    using abi al by (auto simp: abi_ok_def align_ok_def)
  have pad: "hwi_alloc_tag (Suc f) H (hi_name H K_pad) (hi_size H K_pad) (hi_align H K_pad) h =
      hwi_place H (hi_name H K_pad) (hi_size H K_pad) h"
    unfolding P(2) by (rule alloc_aligned [OF P(1) off])
  show ?thesis
    unfolding align_tag_def Let_def pad roundup_zero [OF al0] by simp
qed

lemma align_tag_ok:
  assumes abi: "abi_ok H" and al: "align_ok H al" and rep: "hw_over H ns h is"
    and run: "align_tag (Suc f) H al h = ok h'"
  shows "hw_over H ns h' (padded H al is)" "al dvd hw_end (padded H al is)"
proof -
  let ?P = "hi_size H K_pad"
  note o1 = hw_over_offset [OF rep]
  have P: "0 < ?P" using abi by (simp add: abi_ok_def)
  have "hw_over H ns h' (padded H al is) \<and> al dvd hw_end (padded H al is)"
  proof (cases "al dvd hs_offset h")
    case True
    then show ?thesis using run rep o1 align_tag_unfold [OF abi al, of h f] by (simp add: padded_def)
  next
    case False
    then have ne: "is \<noteq> []" using o1 by auto
    obtain off where pl: "hwi_place H (hi_name H K_pad) ?P h = ok (off, h')"
      using run False o1 unfolding align_tag_unfold [OF abi al o1(2) [folded o1(1)]]
      by (auto simp: res_simps)
    obtain ms where ns: "hw_rep H h is (ns @ ms)" using rep by (auto simp: hw_over_def)
    have "hw_rep H h' (add_tg (hw_end is, hi_name H K_pad, ?P) is) (strs.names_after (ns @ ms) (hi_name H K_pad))"
      by (rule place_tag [OF ns ne pl]) (use abi in \<open>auto simp: abi_ok_def\<close>)
    moreover have "al dvd hw_end is + ?P"
    proof -
      have "roundup (hw_end is) al - hw_end is \<noteq> 0"
        using False o1 al P by (subst roundup_zero) (auto simp: align_ok_def)
      then have "roundup (hw_end is) al - hw_end is = ?P \<and> al dvd hw_end is + (roundup (hw_end is) al - hw_end is)"
        using roundup_step [OF P o1(2) al [unfolded align_ok_def]] by (metis empty_iff insert_iff)
      then show ?thesis by (elim conjE) (simp only:)
    qed
    ultimately show ?thesis using False o1 ne by (auto simp: padded_def intro: hw_overI)
  qed
  then show "hw_over H ns h' (padded H al is)" "al dvd hw_end (padded H al is)" by auto
qed

lemma padded_ne [simp]: "padded H al is = [] \<longleftrightarrow> is = []"
  by (auto simp: padded_def add_tg_def split: list.splits)

lemma padded_off [simp]: "is \<noteq> [] \<Longrightarrow> i_off (hd (padded H al is)) = i_off (hd is)"
  by (simp add: padded_def)

text \<open>A new tag of any of the sizes the code uses, after at most one pad.\<close>

lemma alloc_tag_step:
  assumes abi: "abi_ok H" and al: "align_ok H al" and rep: "hw_over H ns h is" and ne: "is \<noteq> []"
    and run: "hwi_alloc_tag (Suc (Suc f)) H name sz al h = ok (off, h')" and n: "str_name_ok name"
    and sz: "0 < sz" "sz < 2 ^ 16" "hi_size H K_pad dvd sz"
  shows "off = hw_end (padded H al is)" "al dvd off"
    "hw_over H ns h' (add_tg (off, name, sz) (padded H al is))"
proof -
  obtain h1 where a: "align_tag (Suc f) H al h = ok h1" and p: "hwi_place H name sz h1 = ok (off, h')"
    using run by (auto simp: res_simps)
  note s = align_tag_ok [OF abi al rep a]
  obtain ms where ns: "hw_rep H h1 (padded H al is) (ns @ ms)" using s(1) by (auto simp: hw_over_def)
  note q = place_tag [OF ns _ p n sz(2) _ sz(1,3)]
  have "off = hw_end (padded H al is)" and
    r: "hw_rep H h' (add_tg (hw_end (padded H al is), name, sz) (padded H al is)) (strs.names_after (ns @ ms) name)"
    using q abi ne by (auto simp: abi_ok_def)
  then show "off = hw_end (padded H al is)" "al dvd off"
    "hw_over H ns h' (add_tg (off, name, sz) (padded H al is))"
    using s(2) hw_overI by auto
qed

lemma alloc_info_step:
  assumes "abi_ok H" "hw_over H ns h is" "is \<noteq> []" "alloc_info H k h = ok (off, h')"
  shows "off = hw_end (padded H (hi_align H k) is)"
    "hw_over H ns h' (add_tg (off, hi_name H k, hi_size H k) (padded H (hi_align H k) is))"
  using assms alloc_tag_step [of H "hi_align H k" ns h "is" 0 "hi_name H k" "hi_size H k" off h']
  by (auto simp: alloc_info_def tag_depth_def abi_ok_def align_ok_def numeral_2_eq_2)

section \<open>One item\<close>

lemma hw_over_mono: "hw_over H (ns @ ms) h is \<Longrightarrow> hw_over H ns h is"
  by (auto simp: hw_over_def)

lemma kids_of_Cons: "kids_of (i # is) o1 = kids_of is o1 + (if i_owner i = Some o1 then 1 else 0)"
  by (simp add: kids_of_def)

lemma place_item:
  assumes body: "hw_body H h is ns" and run: "hwi_place H name sz (h\<lparr>hs_last := hs_offset h\<rparr>) = ok (off, h')"
    and n: "str_name_ok name" and small: "sz < 2 ^ 16" "hi_prefix H < 2 ^ 16"
    and sz: "0 < sz" "hi_size H K_pad dvd sz"
    and lab: "label \<in> set ns" and ow: "\<forall>w. owner = Some w \<longrightarrow> w \<in> i_off ` set is"
    and h4: "h4 = upd_tag off (\<lambda>t. t\<lparr>it_itemname := offset_of ns label, it_owner := owner\<rparr>) h'"
    and h5: "h5 = (case owner of None \<Rightarrow> h4 | Some w \<Rightarrow> upd_tag w (\<lambda>t. t\<lparr>it_kids := it_kids t + 1\<rparr>) h4)"
  shows "off = hw_end is"
    "hw_rep H h5 (\<lparr>i_off = hw_end is, i_name = name, i_size = sz, i_label = label, i_owner = owner,
       i_tags = []\<rparr> # is) (strs.names_after ns name)"
proof -
  let ?ns = "strs.names_after ns name"
  let ?new = "\<lparr>i_off = hw_end is, i_name = name, i_size = sz, i_label = label, i_owner = owner, i_tags = []\<rparr>"
  have body': "hw_body H (h\<lparr>hs_last := hs_offset h\<rparr>) is ns" using body by (auto simp: hw_body_def)
  obtain h2 where p: "off = hs_offset h" "hs_last h' = hs_offset h" "hs_offset h' = hs_offset h + sz"
    "hw_body H h2 is ?ns" "hs_offset h' + hi_prefix H \<le> hs_size h'"
    "hs_strs h' = hs_strs h2" "hs_bud h' = hs_bud h2" "hs_size h' = hs_size h2"
    "hs_tags h2 = hs_tags h"
    "hs_tags h' = (let T = (hs_tags h)(hs_offset h := (hs_tags h (hs_offset h))
                      \<lparr>it_itemsize := it_itemsize (hs_tags h (hs_offset h)) + sz div 4\<rparr>)
       in T(hs_offset h := (T (hs_offset h))\<lparr>tg_size := sz div 4, tg_name := offset_of ?ns name\<rparr>))"
    by (rule hwi_place_ok [OF run body' n small]) simp
  have at: "items_at (hi_size H K_pad) is" and e: "hs_offset h = hw_end is"
    and reps: "\<And>i. i \<in> set is \<Longrightarrow> item_rep (hs_tags h) ?ns (kids_of is (i_off i)) i"
    and own: "\<forall>i\<in>set is. \<forall>w. i_owner i = Some w \<longrightarrow> w \<in> i_off ` set is"
    and blank: "\<And>o1. hs_offset h \<le> o1 \<Longrightarrow> hs_tags h o1 = blank_tag"
    using p(4,9) body by (auto simp: hw_body_def)
  show off: "off = hw_end is" using p(1) e by simp
  have lt: "i_off j < hw_end is" if "j \<in> set is" for j by (rule item_off_less [OF at that])
  have tlt: "fst t < hw_end is" if "j \<in> set is" "t \<in> set (i_tags j)" for j t
    by (rule item_tag_less [OF at that])
  have owlt: "w < hw_end is" if "owner = Some w" for w using ow that lt by auto
  have lab': "offset_of ?ns label = offset_of ns label" "label \<in> set ?ns"
    using lab by (auto simp: strs.names_after_def offset_of_append)
  have T1: "tg_size (hs_tags h5 o1) = tg_size (hs_tags h o1)" "tg_name (hs_tags h5 o1) = tg_name (hs_tags h o1)"
    "it_owner (hs_tags h5 o1) = it_owner (hs_tags h o1)" "it_itemname (hs_tags h5 o1) = it_itemname (hs_tags h o1)"
    "it_kids (hs_tags h5 o1) = it_kids (hs_tags h o1) + (if owner = Some o1 then 1 else 0)"
    "it_itemsize (hs_tags h5 o1) = it_itemsize (hs_tags h o1)"
    if "o1 < hw_end is" for o1
    using that e unfolding h5 h4 off by (auto simp: p(10) Let_def split: option.splits)
  have new: "hs_tags h5 (hw_end is) = blank_tag\<lparr>it_itemsize := sz div 4, tg_size := sz div 4,
      tg_name := offset_of ?ns name, it_itemname := offset_of ns label, it_owner := owner\<rparr>"
    using e blank [of "hw_end is"] owlt unfolding h5 h4 off
    by (auto simp: p(10) Let_def blank_tag_def split: option.splits)
  have "kids_of is (hw_end is) = 0"
    using own lt by (force simp: kids_of_def filter_empty_conv)
  then have "item_rep (hs_tags h5) ?ns (kids_of (?new # is) (hw_end is)) ?new"
    using strs.in_names_after(1) [of name ns] lab' owlt
    by (auto simp: item_rep_def tag_rep_def new kids_of_Cons i_len_def blank_tag_def)
  moreover have "item_rep (hs_tags h5) ?ns (kids_of (?new # is) (i_off j)) j" if j: "j \<in> set is" for j
    using reps [OF j] lt [OF j] tlt [OF j]
    by (auto simp: item_rep_def T1 kids_of_Cons tag_rep_cong [of "hs_tags h5" _ "hs_tags h"])
  moreover have "hs_tags h5 o1 = blank_tag" if "hs_offset h + sz \<le> o1" for o1
    using blank [of o1] that e sz(1) owlt unfolding h5 h4 off
    by (auto simp: p(10) Let_def split: option.splits)
  moreover have "hs_offset h5 = hs_offset h'" "hs_size h5 = hs_size h'" "hs_strs h5 = hs_strs h'"
    "hs_bud h5 = hs_bud h'" "hs_last h5 = hs_last h'"
    by (simp_all add: h5 h4 split: option.splits)
  moreover have "str_inv (hs_strs h', hs_bud h') ?ns" "hs_size h' \<le> bg_total (hs_bud h')"
    using p(4,6,7,8) by (auto simp: hw_body_def)
  ultimately show "hw_rep H h5 (?new # is) ?ns"
    using p(2,3,5) at e sz own ow by (auto simp: hw_rep_def hw_body_def i_len_def)
qed

definition new_item :: "hwi_abi \<Rightarrow> tag_kind \<Rightarrow> string \<Rightarrow> nat option \<Rightarrow> nat \<Rightarrow> hwi_item" where
  "new_item H k label owner off =
    \<lparr>i_off = off, i_name = hi_name H k, i_size = hi_size H k, i_label = label, i_owner = owner, i_tags = []\<rparr>"

lemma padded_offs [simp]: "i_off ` set (padded H al is) = i_off ` set is"
  by (simp add: padded_def)

lemma alloc_item_step:
  assumes abi: "abi_ok H" and rep: "hw_over H ns h is"
    and run: "hwi_alloc_item H k label owner h = ok (off, h')" and n: "str_name_ok label"
    and ow: "\<forall>w. owner = Some w \<longrightarrow> w \<in> i_off ` set is"
  shows "off = hw_end (padded H (hi_align H k) is)"
    "hw_over H ns h' (new_item H k label owner off # padded H (hi_align H k) is)"
proof -
  let ?is = "padded H (hi_align H k) is"
  obtain i h1 h2 h3 where a: "hwi_add_string label h = ok (i, h1)"
    and b: "align_tag (Suc (Suc 0)) H (hi_align H k) h1 = ok h2"
    and c: "alloc_info H k (h2\<lparr>hs_last := hs_offset h2\<rparr>) = ok (off, h3)"
    and h': "h' = (let h4 = upd_tag off (\<lambda>t. t\<lparr>it_itemname := i, it_owner := owner\<rparr>) h3
      in case owner of None \<Rightarrow> h4 | Some ow \<Rightarrow> upd_tag ow (\<lambda>t. t\<lparr>it_kids := it_kids t + 1\<rparr>) h4)"
    using run by (auto simp: hwi_alloc_item_def tag_depth_def numeral_2_eq_2 Let_def elim!: and_then_okE)
  obtain ms where r0: "hw_rep H h is (ns @ ms)" using rep by (auto simp: hw_over_def)
  let ?ns1 = "strs.names_after (ns @ ms) label"
  have b0: "hw_body H h is (ns @ ms)" using r0 by (simp add: hw_rep_def)
  note s = hwi_add_string_ok [OF a b0 n]
  have r1: "hw_over H ?ns1 h1 is"
    using s(2,5) r0 by (auto simp: hw_over_def hw_rep_def intro: exI [of _ "[]"])
  have al: "align_ok H (hi_align H k)" and nk: "str_name_ok (hi_name H k)"
    and sz: "hi_size H k < 2 ^ 16" "hi_prefix H < 2 ^ 16" "0 < hi_size H k" "hi_size H K_pad dvd hi_size H k"
    using abi by (auto simp: abi_ok_def align_ok_def)
  have al0: "0 < hi_align H k"
    using al abi unfolding align_ok_def abi_ok_def by (metis mult_pos_pos zero_less_numeral)
  note t = align_tag_ok [OF abi al r1 b]
  obtain ms2 where r2: "hw_rep H h2 ?is (?ns1 @ ms2)" using t(1) by (auto simp: hw_over_def)
  have b2: "hw_body H h2 ?is (?ns1 @ ms2)" using r2 by (simp add: hw_rep_def)
  have "hi_align H k dvd hs_offset (h2\<lparr>hs_last := hs_offset h2\<rparr>)"
    using t(2) b2 by (simp add: hw_body_def)
  then have p: "hwi_place H (hi_name H k) (hi_size H k) (h2\<lparr>hs_last := hs_offset h2\<rparr>) = ok (off, h3)"
    using c alloc_aligned [OF al0, of _ "Suc 0" H]
    by (simp add: alloc_info_def tag_depth_def numeral_2_eq_2 del: hwi_alloc_tag.simps)
  have "label \<in> set ?ns1" by (rule strs.in_names_after(1))
  then have lab: "label \<in> set (?ns1 @ ms2)" "i = offset_of (?ns1 @ ms2) label"
    using s(1) by (simp_all add: offset_of_append)
  have ow': "\<forall>w. owner = Some w \<longrightarrow> w \<in> i_off ` set ?is" using ow by simp
  note q = place_item [OF b2 p nk sz lab(1) ow' refl refl]
  show "off = hw_end ?is" by (rule q(1))
  have "hw_rep H h' (new_item H k label owner off # ?is) (strs.names_after (?ns1 @ ms2) (hi_name H k))"
    using q(2) unfolding h' Let_def lab(2) new_item_def q(1) .
  then show "hw_over H ns h' (new_item H k label owner off # ?is)"
    by (auto simp: hw_over_def strs.names_after_def split: if_splits)
qed

text \<open>Setting the fields of a tag changes nothing that the readers of the section walk over.\<close>

lemma item_rep_cong:
  assumes "\<And>o1. tg_size (T' o1) = tg_size (T o1) \<and> tg_name (T' o1) = tg_name (T o1) \<and>
      it_itemsize (T' o1) = it_itemsize (T o1) \<and> it_itemname (T' o1) = it_itemname (T o1) \<and>
      it_owner (T' o1) = it_owner (T o1) \<and> it_kids (T' o1) = it_kids (T o1)"
  shows "item_rep T' ns k i = item_rep T ns k i"
proof -
  have "tag_rep T' ns t = tag_rep T ns t" for t by (rule tag_rep_cong) (use assms in auto)
  then show ?thesis using assms by (simp add: item_rep_def)
qed

lemma hw_over_set_field:
  assumes "hw_over H ns h is" "off < hw_end is"
  shows "hw_over H ns (set_field off fl v h) is"
proof -
  let ?h = "set_field off fl v h"
  have r: "item_rep (hs_tags ?h) ns' k i = item_rep (hs_tags h) ns' k i" for ns' k i
    by (rule item_rep_cong) (simp add: set_field_def)
  have e: "hs_offset ?h = hs_offset h" "hs_size ?h = hs_size h" "hs_last ?h = hs_last h"
    "hs_strs ?h = hs_strs h" "hs_bud ?h = hs_bud h"
    and t: "o1 \<noteq> off \<Longrightarrow> hs_tags ?h o1 = hs_tags h o1" for o1
    by (simp_all add: set_field_def)
  obtain ms where "hw_rep H h is (ns @ ms)" using assms(1) by (auto simp: hw_over_def)
  then have "hw_rep H ?h is (ns @ ms)"
    using assms(2) t unfolding hw_rep_def hw_body_def e r by (metis leD)
  then show ?thesis by (auto simp: hw_over_def)
qed

end
