(* ===== verification/Hwinfo_Ops.thy ===== *)
theory Hwinfo_Ops
  imports Hwinfo
begin

text \<open>
  The users of hwi\_alloc.c: the attribute tags (hwitag\_add\_*.c, hwitag\_set\_*.c), devices and
  buses (hwidev\_add*.c, hwibus\_add*.c) and the older interface (hwi\_default.c,
  hwi\_add\_device.c, hwi\_add\_rtc.c and others).  The searches hwi\_find\_item and
  hwi\_tag\_find belong to the C library and are fields of hwi\_env; finds and tag\_finds state
  what their documentation promises.  The predicate adds describes an operation by the list of
  tags it requests, and is closed under sequences and loops.
\<close>

section \<open>The attribute tags\<close>

text \<open>The rest of sys/hwinfo.h and of the C library that the callers use: the fixed item names,
  the device classes, the unused vector, and the two searches hwi\_find\_item and
  hwi\_tag\_find.  The search for a tag takes an index and returns the tag with the index of
  the next search.\<close>

datatype item_const = ROOT_HW | BUS_UNKNOWN | BUS_CAN | BUS_USB | BUS_I2C | BUS_PCI | BUS_SDIO
  | BUS_SPI | DEVCLASS_MISC | DEVCLASS_RTC

datatype dev_class = C_DMA | C_ENET | C_RTC | C_TIMER | C_UART

record hwi_env =
  he_abi :: hwi_abi
  he_item :: "item_const \<Rightarrow> string"
  he_class :: "dev_class \<Rightarrow> nat"
  he_illegal :: nat
  he_find_item :: "hwsec \<Rightarrow> nat option \<Rightarrow> string list \<Rightarrow> nat option"
  he_tag_find :: "hwsec \<Rightarrow> nat \<Rightarrow> string \<Rightarrow> nat \<Rightarrow> (nat \<times> nat) option"

definition set_fields :: "nat \<Rightarrow> (tag_field \<times> nat) list \<Rightarrow> hwsec \<Rightarrow> hwsec" where
  "set_fields off fs h = fold (\<lambda>(fl, v). set_field off fl v) fs h"

definition add_info :: "hwi_abi \<Rightarrow> tag_kind \<Rightarrow> (tag_field \<times> nat) list \<Rightarrow> hwsec \<Rightarrow> hwsec res" where
  "add_info H k fs h = and_then (alloc_info H k h) (\<lambda>(tag, h1). ok (set_fields tag fs h1))"

definition hwitag_add_location :: "hwi_abi \<Rightarrow> u64 \<Rightarrow> u32 \<Rightarrow> u16 \<Rightarrow> u16 \<Rightarrow> hwsec \<Rightarrow> hwsec res" where
  "hwitag_add_location H base len reg_shift addr_space = add_info H K_location
     [(F_base, unat base), (F_len, unat len), (F_regshift, unat reg_shift), (F_addrspace, unat addr_space)]"

definition hwitag_add_irq :: "hwi_abi \<Rightarrow> nat \<Rightarrow> hwsec \<Rightarrow> hwsec res" where
  "hwitag_add_irq H vector = add_info H K_irq [(F_vector, vector)]"

definition hwitag_add_irqrange :: "hwi_abi \<Rightarrow> nat \<Rightarrow> nat \<Rightarrow> hwsec \<Rightarrow> hwsec res" where
  "hwitag_add_irqrange H start_vector num = add_info H K_irqrange [(F_irq, start_vector), (F_num, num)]"

definition hwitag_add_inputclk :: "hwi_abi \<Rightarrow> nat \<Rightarrow> nat \<Rightarrow> hwsec \<Rightarrow> hwsec res" where
  "hwitag_add_inputclk H clk dv = add_info H K_inputclk [(F_clk, clk), (F_div, dv)]"

definition hwitag_add_nicphyaddr :: "hwi_abi \<Rightarrow> nat \<Rightarrow> hwsec \<Rightarrow> hwsec res" where
  "hwitag_add_nicphyaddr H addr = add_info H K_nicphyaddr [(F_phyaddr, addr)]"

record busattr =
  ba_speed :: nat
  ba_width :: nat
  ba_addr :: nat
  ba_flags :: nat

definition hwitag_add_busattr :: "hwi_abi \<Rightarrow> busattr option \<Rightarrow> hwsec \<Rightarrow> hwsec res" where
  "hwitag_add_busattr H attr = add_info H K_busattr
     (case attr of
        Some a \<Rightarrow> [(F_speed, ba_speed a), (F_width, ba_width a), (F_busaddr, ba_addr a), (F_busflags, ba_flags a)]
      | None \<Rightarrow> [(F_speed, 0), (F_width, 0), (F_busaddr, 0), (F_busflags, 0)])"

definition hwitag_add_errata :: "hwi_abi \<Rightarrow> nat \<Rightarrow> hwsec \<Rightarrow> hwsec res" where
  "hwitag_add_errata H errata_num = add_info H K_errata [(F_errata_num, errata_num)]"

definition hwitag_add_dma :: "hwi_abi \<Rightarrow> nat \<Rightarrow> hwsec \<Rightarrow> hwsec res" where
  "hwitag_add_dma H chnl = add_info H K_dma [(F_chnl, chnl)]"

text \<open>The tags that hold the offset of a further string.\<close>

definition add_named :: "hwi_abi \<Rightarrow> tag_kind \<Rightarrow> tag_field \<Rightarrow> string \<Rightarrow> (tag_field \<times> nat) list \<Rightarrow> hwsec \<Rightarrow> hwsec res" where
  "add_named H k fl s fs h =
    and_then (hwi_add_string s h) (\<lambda>(string_idx, h1). add_info H k ((fl, string_idx) # fs) h1)"

definition hwitag_add_dll :: "hwi_abi \<Rightarrow> string \<Rightarrow> hwsec \<Rightarrow> hwsec res" where
  "hwitag_add_dll H dll = add_named H K_dll F_dll_name dll []"

definition hwitag_add_optstr :: "hwi_abi \<Rightarrow> string \<Rightarrow> hwsec \<Rightarrow> hwsec res" where
  "hwitag_add_optstr H s = add_named H K_optstr F_optstr s []"

definition hwitag_add_regname :: "hwi_abi \<Rightarrow> string \<Rightarrow> nat \<Rightarrow> hwsec \<Rightarrow> hwsec res" where
  "hwitag_add_regname H name regoffset = add_named H K_regname F_regname name [(F_regoffset, regoffset)]"

text \<open>The address of a network card has the length of the address, rounded to words.\<close>

definition nic_fields :: "u8 list \<Rightarrow> (tag_field \<times> nat) list" where
  "nic_fields addr = (F_niclen, length addr) # map (\<lambda>(j, b). (F_nicbyte j, unat b)) (zip [0..<length addr] addr)"

definition hwitag_add_nicaddr :: "hwi_abi \<Rightarrow> u8 list \<Rightarrow> hwsec \<Rightarrow> hwsec res" where
  "hwitag_add_nicaddr H addr h =
    (let sz = hi_nicaddr_off H + length addr
     in and_then (alloc_tag H (hi_name H K_nicaddr) (roundup sz 4) (hi_align H K_nicaddr) h)
          (\<lambda>(tag, h1). ok (set_fields tag (nic_fields addr) h1)))"

text \<open>A tag several times: the loops over the counts.\<close>

primrec times :: "nat \<Rightarrow> (hwsec \<Rightarrow> hwsec res) \<Rightarrow> hwsec \<Rightarrow> hwsec res" where
  "times 0 f h = ok h"
| "times (Suc n) f h = and_then (f h) (times n f)"

fun each :: "('a \<Rightarrow> hwsec \<Rightarrow> hwsec res) \<Rightarrow> 'a list \<Rightarrow> hwsec \<Rightarrow> hwsec res" where
  "each f [] h = ok h"
| "each f (x # xs) h = and_then (f x h) (each f xs)"

record common_attr =
  ca_base :: u64
  ca_len :: u32
  ca_regshift :: u16
  ca_addrspace :: u16
  ca_num_irq :: nat
  ca_num_errata :: nat
  ca_num_dma :: nat
  ca_dll :: "string option"
  ca_optstr :: "string option"

definition add_opt :: "('a \<Rightarrow> hwsec \<Rightarrow> hwsec res) \<Rightarrow> 'a option \<Rightarrow> hwsec \<Rightarrow> hwsec res" where
  "add_opt f x h = (case x of None \<Rightarrow> ok h | Some v \<Rightarrow> f v h)"

definition hwitag_add_common :: "hwi_env \<Rightarrow> common_attr \<Rightarrow> hwsec \<Rightarrow> hwsec res" where
  "hwitag_add_common E attr h =
    (let H = he_abi E in
     and_then (hwitag_add_location H (ca_base attr) (ca_len attr) (ca_regshift attr) (ca_addrspace attr) h) (\<lambda>h.
     and_then (times (ca_num_irq attr) (hwitag_add_irq H (he_illegal E)) h) (\<lambda>h.
     and_then (add_opt (hwitag_add_dll H) (ca_dll attr) h) (\<lambda>h.
     and_then (add_opt (hwitag_add_optstr H) (ca_optstr attr) h) (\<lambda>h.
     and_then (times (ca_num_errata attr) (hwitag_add_errata H 0) h) (\<lambda>h.
     times (ca_num_dma attr) (hwitag_add_dma H 0) h))))))"

section \<open>Devices and buses\<close>

definition hwi_alloc_dev :: "hwi_env \<Rightarrow> string \<Rightarrow> nat \<Rightarrow> nat \<Rightarrow> hwsec \<Rightarrow> (nat \<times> hwsec) res" where
  "hwi_alloc_dev E name pnp owner h =
    and_then (hwi_alloc_item (he_abi E) K_device name (Some owner) h) (\<lambda>(tag, h1).
      ok (tag, set_field tag F_pnpid pnp h1))"

definition hwidev_add :: "hwi_env \<Rightarrow> string \<Rightarrow> nat \<Rightarrow> nat option \<Rightarrow> hwsec \<Rightarrow> (nat option \<times> hwsec) res" where
  "hwidev_add E device_name pnp bus h =
    (case (case bus of Some b \<Rightarrow> Some b
           | None \<Rightarrow> he_find_item E h None [he_item E ROOT_HW, he_item E BUS_UNKNOWN]) of
       None \<Rightarrow> ok (None, h)
     | Some b \<Rightarrow> and_then (hwi_alloc_dev E device_name pnp b h) (\<lambda>(tag, h1). ok (Some tag, h1)))"

definition hwibus_add :: "hwi_env \<Rightarrow> string \<Rightarrow> nat option \<Rightarrow> hwsec \<Rightarrow> (nat option \<times> hwsec) res" where
  "hwibus_add E bus_name parent h =
    (case (case parent of Some p \<Rightarrow> Some p | None \<Rightarrow> he_find_item E h None [he_item E ROOT_HW]) of
       None \<Rightarrow> ok (None, h)
     | Some p \<Rightarrow> and_then (hwi_alloc_item (he_abi E) K_bus bus_name (Some p) h)
                   (\<lambda>(tag, h1). ok (Some tag, h1)))"

text \<open>The common end of hwidev\_add\_x and hwibus\_add\_x: the attributes are added when the
  item was and attributes were given.\<close>

definition with_attr ::
  "(nat option \<times> hwsec) res \<Rightarrow> 'a option \<Rightarrow> ('a \<Rightarrow> hwsec \<Rightarrow> hwsec res) \<Rightarrow> (nat option \<times> hwsec) res" where
  "with_attr m attr f =
    and_then m (\<lambda>(hwi_off, h).
      case (hwi_off, attr) of
        (Some off, Some a) \<Rightarrow> and_then (f a h) (\<lambda>h1. ok (hwi_off, h1))
      | _ \<Rightarrow> ok (hwi_off, h))"

definition hwidev_add_dma ::
  "hwi_env \<Rightarrow> string \<Rightarrow> common_attr option \<Rightarrow> nat option \<Rightarrow> hwsec \<Rightarrow> (nat option \<times> hwsec) res" where
  "hwidev_add_dma E name attr bus h =
    with_attr (hwidev_add E name (he_class E C_DMA) bus h) attr (hwitag_add_common E)"

record clk_attr =
  cl_common :: common_attr
  cl_num_clks :: nat

definition add_clks :: "hwi_abi \<Rightarrow> nat \<Rightarrow> hwsec \<Rightarrow> hwsec res" where
  "add_clks H n = times n (hwitag_add_inputclk H 0 1)"

definition hwidev_add_timer ::
  "hwi_env \<Rightarrow> string \<Rightarrow> clk_attr option \<Rightarrow> nat option \<Rightarrow> hwsec \<Rightarrow> (nat option \<times> hwsec) res" where
  "hwidev_add_timer E name attr bus h =
    with_attr (hwidev_add E name (he_class E C_TIMER) bus h) attr (\<lambda>a h.
      and_then (hwitag_add_common E (cl_common a) h) (add_clks (he_abi E) (cl_num_clks a)))"

definition hwidev_add_uart ::
  "hwi_env \<Rightarrow> string \<Rightarrow> clk_attr option \<Rightarrow> nat option \<Rightarrow> hwsec \<Rightarrow> (nat option \<times> hwsec) res" where
  "hwidev_add_uart E name attr bus h =
    with_attr (hwidev_add E name (he_class E C_UART) bus h) attr (\<lambda>a h.
      and_then (hwitag_add_common E (cl_common a) h) (add_clks (he_abi E) (cl_num_clks a)))"

record enet_attr =
  en_common :: common_attr
  en_num_phys :: nat
  en_num_clks :: nat
  en_mac :: "u8 list"

definition hwidev_add_enet ::
  "hwi_env \<Rightarrow> string \<Rightarrow> enet_attr option \<Rightarrow> nat option \<Rightarrow> hwsec \<Rightarrow> (nat option \<times> hwsec) res" where
  "hwidev_add_enet E name attr bus h =
    with_attr (hwidev_add E name (he_class E C_ENET) bus h) attr (\<lambda>a h.
      let H = he_abi E in
      and_then (hwitag_add_common E (en_common a) h) (\<lambda>h.
      and_then (each (hwitag_add_nicphyaddr H) [0..<en_num_phys a] h) (\<lambda>h.
      and_then (add_clks H (en_num_clks a) h) (\<lambda>h.
      if en_mac a \<noteq> [0, 0, 0, 0, 0, 0] then hwitag_add_nicaddr H (en_mac a) h else ok h))))"

record rtc_attr =
  rt_common :: common_attr
  rt_cent_name :: "string option"
  rt_cent_offset :: nat

definition hwidev_add_rtc ::
  "hwi_env \<Rightarrow> string \<Rightarrow> rtc_attr option \<Rightarrow> nat option \<Rightarrow> hwsec \<Rightarrow> (nat option \<times> hwsec) res" where
  "hwidev_add_rtc E name attr bus h =
    with_attr (hwidev_add E name (he_class E C_RTC) bus h) attr (\<lambda>a h.
      and_then (hwitag_add_common E (rt_common a) h)
        (add_opt (\<lambda>nm. hwitag_add_regname (he_abi E) nm (rt_cent_offset a)) (rt_cent_name a)))"

definition hwibus_add_usb ::
  "hwi_env \<Rightarrow> nat option \<Rightarrow> common_attr option \<Rightarrow> hwsec \<Rightarrow> (nat option \<times> hwsec) res" where
  "hwibus_add_usb E parent attr h =
    with_attr (hwibus_add E (he_item E BUS_USB) parent h) attr (hwitag_add_common E)"

record bus_attr = clk_attr +
  bs_num :: nat

definition hwibus_add_can ::
  "hwi_env \<Rightarrow> nat option \<Rightarrow> bus_attr option \<Rightarrow> hwsec \<Rightarrow> (nat option \<times> hwsec) res" where
  "hwibus_add_can E parent attr h =
    with_attr (hwibus_add E (he_item E BUS_CAN) parent h) attr (\<lambda>a h.
      and_then (hwitag_add_common E (cl_common a) h) (\<lambda>h.
      and_then (add_clks (he_abi E) (cl_num_clks a) h)
        (times (bs_num a) (hwitag_add_location (he_abi E) 0 0 0 0))))"

text \<open>hwibus\_add\_i2c, hwibus\_add\_spi and hwibus\_add\_sdio have the same body.\<close>

definition add_serial_bus ::
  "hwi_env \<Rightarrow> item_const \<Rightarrow> nat option \<Rightarrow> bus_attr option \<Rightarrow> hwsec \<Rightarrow> (nat option \<times> hwsec) res" where
  "add_serial_bus E nm parent attr h =
    with_attr (hwibus_add E (he_item E nm) parent h) attr (\<lambda>a h.
      and_then (hwitag_add_common E (cl_common a) h) (\<lambda>h.
      and_then (add_clks (he_abi E) (cl_num_clks a) h)
        (times (bs_num a) (hwitag_add_busattr (he_abi E) None))))"

definition hwibus_add_i2c where "hwibus_add_i2c E = add_serial_bus E BUS_I2C"
definition hwibus_add_spi where "hwibus_add_spi E = add_serial_bus E BUS_SPI"
definition hwibus_add_sdio where "hwibus_add_sdio E = add_serial_bus E BUS_SDIO"

record pci_attr =
  pc_common :: common_attr
  pc_num_irqblks :: nat
  pc_num_busattr :: nat

definition hwibus_add_pci ::
  "hwi_env \<Rightarrow> nat option \<Rightarrow> pci_attr option \<Rightarrow> hwsec \<Rightarrow> (nat option \<times> hwsec) res" where
  "hwibus_add_pci E parent attr h =
    with_attr (hwibus_add E (he_item E BUS_PCI) parent h) attr (\<lambda>a h.
      and_then (hwitag_add_common E (pc_common a) h) (\<lambda>h.
      and_then (times (pc_num_irqblks a) (hwitag_add_irqrange (he_abi E) (he_illegal E) 0) h)
        (times (pc_num_busattr a) (hwitag_add_busattr (he_abi E) None))))"

section \<open>The older interface\<close>

definition hwi_default :: "hwi_env \<Rightarrow> hwsec \<Rightarrow> hwsec res" where
  "hwi_default E h =
    and_then (hwi_alloc_item (he_abi E) K_group (he_item E ROOT_HW) None h) (\<lambda>(tag, h1).
    and_then (hwi_alloc_item (he_abi E) K_bus (he_item E BUS_UNKNOWN) (Some tag) h1) (\<lambda>(_, h2). ok h2))"

text \<open>An item that is searched for and added when it is missing.\<close>

definition find_or_add ::
  "hwi_env \<Rightarrow> nat option \<Rightarrow> tag_kind \<Rightarrow> string \<Rightarrow> nat option \<Rightarrow> hwsec \<Rightarrow> (nat \<times> hwsec) res" where
  "find_or_add E found k name owner h =
    (case found of Some off \<Rightarrow> ok (off, h) | None \<Rightarrow> hwi_alloc_item (he_abi E) k name owner h)"

definition hwi_add_device :: "hwi_env \<Rightarrow> string \<Rightarrow> string \<Rightarrow> string \<Rightarrow> nat \<Rightarrow> hwsec \<Rightarrow> hwsec res" where
  "hwi_add_device E bname cname dname pnp h =
    and_then (find_or_add E (he_find_item E h None [bname]) K_bus bname
               (he_find_item E h None [he_item E ROOT_HW]) h) (\<lambda>(bus, h1).
    and_then (find_or_add E (he_find_item E h1 None [bname, cname]) K_group cname (Some bus) h1) (\<lambda>(class, h2).
    and_then (hwi_alloc_dev E dname pnp class h2) (\<lambda>(_, h3). ok h3)))"

definition hwi_add_nanospin :: "hwi_env \<Rightarrow> nat \<Rightarrow> nat \<Rightarrow> hwsec \<Rightarrow> hwsec res" where
  "hwi_add_nanospin E hundred_loop_time overhead h =
    and_then (hwi_add_device E (he_item E BUS_UNKNOWN) (he_item E DEVCLASS_MISC) ''nanospin_calibrate'' 0 h)
      (add_info (he_abi E) K_nanospin [(F_loop_time, hundred_loop_time), (F_overhead, overhead)])"

text \<open>The address space of the register block is found by hwi\_find\_as, an argument here; a
  century register -1 is None.\<close>

definition hwi_add_rtc ::
  "hwi_env \<Rightarrow> string \<Rightarrow> u64 \<Rightarrow> nat \<Rightarrow> nat \<Rightarrow> u16 \<Rightarrow> nat option \<Rightarrow> hwsec \<Rightarrow> hwsec res" where
  "hwi_add_rtc E name base reg_shift len space cent_reg h =
    and_then (hwi_add_device E (he_item E BUS_UNKNOWN) (he_item E DEVCLASS_RTC) name 0 h) (\<lambda>h.
    and_then (hwitag_add_location (he_abi E) base (push_bit reg_shift (of_nat len)) (of_nat reg_shift) space h)
      (add_opt (\<lambda>c. add_info (he_abi E) K_regname [(F_regname, 0), (F_regoffset, c)]) cent_reg))"

definition hwi_add_synonym :: "hwi_env \<Rightarrow> nat option \<Rightarrow> string \<Rightarrow> hwsec \<Rightarrow> (nat option \<times> hwsec) res" where
  "hwi_add_synonym E hwi_off synonym_name h =
    (case (hwi_off, he_find_item E h None [he_item E ROOT_HW]) of
       (Some off, Some owner) \<Rightarrow>
         and_then (hwi_alloc_item (he_abi E) K_synonym synonym_name (Some owner) h) (\<lambda>(tag, h1).
           ok (Some tag, set_field tag F_synonym_real off h1))
     | _ \<Rightarrow> ok (None, h))"

section \<open>Setting the fields of existing tags\<close>

definition hwitag_set ::
  "hwi_env \<Rightarrow> tag_kind \<Rightarrow> nat \<Rightarrow> nat \<Rightarrow> (tag_field \<times> nat) list \<Rightarrow> hwsec \<Rightarrow> bool \<times> hwsec" where
  "hwitag_set E k hwi_off idx fs h =
    (case he_tag_find E h hwi_off (hi_name (he_abi E) k) idx of
       None \<Rightarrow> (False, h)
     | Some (tag, _) \<Rightarrow> (True, set_fields tag fs h))"

definition hwitag_set_ivec where
  "hwitag_set_ivec E hwi_off idx vector = hwitag_set E K_irq hwi_off idx [(F_vector, vector)]"
definition hwitag_set_ivecrange where
  "hwitag_set_ivecrange E hwi_off idx start_vector num =
    hwitag_set E K_irqrange hwi_off idx [(F_irq, start_vector), (F_num, num)]"
definition hwitag_set_dma where
  "hwitag_set_dma E hwi_off idx chnl = hwitag_set E K_dma hwi_off idx [(F_chnl, chnl)]"
definition hwitag_set_errata where
  "hwitag_set_errata E hwi_off idx errata = hwitag_set E K_errata hwi_off idx [(F_errata_num, errata)]"
definition hwitag_set_phyaddr where
  "hwitag_set_phyaddr E hwi_off idx a = hwitag_set E K_nicphyaddr hwi_off idx [(F_phyaddr, a)]"
definition hwitag_set_inputclk where
  "hwitag_set_inputclk E hwi_off idx clk dv =
    hwitag_set E K_inputclk hwi_off idx [(F_clk, clk), (F_div, dv)]"
definition hwitag_set_busattr where
  "hwitag_set_busattr E hwi_off idx a = hwitag_set E K_busattr hwi_off idx
    [(F_speed, ba_speed a), (F_width, ba_width a), (F_busaddr, ba_addr a), (F_busflags, ba_flags a)]"

text \<open>hwitag\_set\_nicaddr copies as many bytes as the tag has.\<close>

definition hwitag_set_nicaddr :: "hwi_env \<Rightarrow> nat \<Rightarrow> nat \<Rightarrow> u8 list \<Rightarrow> hwsec \<Rightarrow> (bool \<times> hwsec) res" where
  "hwitag_set_nicaddr E hwi_off idx nic_addr h =
    (case he_tag_find E h hwi_off (hi_name (he_abi E) K_nicaddr) idx of
       None \<Rightarrow> ok (False, h)
     | Some (tag, _) \<Rightarrow>
         let n = tg_field (hs_tags h tag) F_niclen
         in if length nic_addr < n then stray
            else ok (True, set_fields tag (map (\<lambda>j. (F_nicbyte j, unat (nic_addr ! j))) [0..<n]) h))"

text \<open>hwitag\_set\_avail\_ivec: from the index, or from 0 when it is negative, the first tag whose
  vector is free; a given index is tried once.  The fuel bounds the tags that are looked at.\<close>

fun set_avail :: "nat \<Rightarrow> hwi_env \<Rightarrow> nat \<Rightarrow> bool \<Rightarrow> nat \<Rightarrow> nat \<Rightarrow> hwsec \<Rightarrow> (nat option \<times> hwsec) res" where
  "set_avail 0 E hwi_off once tag_idx vector h = hang"
| "set_avail (Suc n) E hwi_off once tag_idx vector h =
    (case he_tag_find E h hwi_off (hi_name (he_abi E) K_irq) tag_idx of
       None \<Rightarrow> ok (None, h)
     | Some (tag, idx') \<Rightarrow>
         if tg_field (hs_tags h tag) F_vector = he_illegal E
         then ok (Some (idx' - 1), set_field tag F_vector vector h)
         else if once then ok (None, h)
         else set_avail n E hwi_off once idx' vector h)"

definition hwitag_set_avail_ivec ::
  "nat \<Rightarrow> hwi_env \<Rightarrow> nat \<Rightarrow> int \<Rightarrow> nat \<Rightarrow> hwsec \<Rightarrow> (nat option \<times> hwsec) res" where
  "hwitag_set_avail_ivec n E hwi_off ivec_idx vector h =
    set_avail n E hwi_off (0 \<le> ivec_idx) (if ivec_idx < 0 then 0 else nat ivec_idx) vector h"

section \<open>Sequences of tags\<close>

text \<open>A request for a tag is its name, size and alignment; put\_tag is what it does to the
  items.\<close>

definition put_tag :: "hwi_abi \<Rightarrow> string \<times> nat \<times> nat \<Rightarrow> hwi_item list \<Rightarrow> hwi_item list" where
  "put_tag H r is = (case r of (name, sz, al) \<Rightarrow>
     add_tg (hw_end (padded H al is), name, sz) (padded H al is))"

definition info :: "hwi_abi \<Rightarrow> tag_kind \<Rightarrow> string \<times> nat \<times> nat" where
  "info H k = (hi_name H k, hi_size H k, hi_align H k)"

text \<open>An operation adds the requested tags to the newest item and leaves the fields of the
  older tags alone.\<close>

definition adds :: "hwi_abi \<Rightarrow> (string \<times> nat \<times> nat) list \<Rightarrow> (hwsec \<Rightarrow> hwsec res) \<Rightarrow> bool" where
  "adds H rs f \<longleftrightarrow> (\<forall>ns h is h'. hw_over H ns h is \<longrightarrow> is \<noteq> [] \<longrightarrow> f h = ok h' \<longrightarrow>
     hw_over H ns h' (fold (put_tag H) rs is) \<and>
     (\<forall>o1<hw_end is. tg_field (hs_tags h' o1) = tg_field (hs_tags h o1)))"

lemma put_tag_ne [simp]: "put_tag H r is = [] \<longleftrightarrow> is = []"
  by (simp add: put_tag_def split: prod.split)

lemma fold_put_ne [simp]: "fold (put_tag H) rs is = [] \<longleftrightarrow> is = []"
  by (induction rs arbitrary: "is") auto

lemma padded_end: "is \<noteq> [] \<Longrightarrow> hw_end is \<le> hw_end (padded H al is)"
  by (simp add: padded_def)

lemma put_tag_end: "is \<noteq> [] \<Longrightarrow> hw_end is \<le> hw_end (put_tag H r is)"
  using padded_end by (simp add: put_tag_def trans_le_add1 split: prod.split)

lemma fold_put_end: "is \<noteq> [] \<Longrightarrow> hw_end is \<le> hw_end (fold (put_tag H) rs is)"
proof (induction rs arbitrary: "is")
  case (Cons r rs)
  then show ?case using order_trans [OF put_tag_end [of "is" H r] Cons.IH [of "put_tag H r is"]] by simp
qed simp

lemma adds_ok: "adds H [] ok"
  by (simp add: adds_def)

lemma adds_seq:
  assumes f: "adds H rs f" and g: "adds H rs' g"
  shows "adds H (rs @ rs') (\<lambda>h. and_then (f h) g)"
  unfolding adds_def
proof (intro allI impI)
  fix ns h h2 and "is" :: "hwi_item list"
  assume a: "hw_over H ns h is" "is \<noteq> []" and run: "and_then (f h) g = ok h2"
  obtain h1 where h1: "f h = ok h1" "g h1 = ok h2" using run by (auto simp: res_simps)
  let ?is = "fold (put_tag H) rs is"
  have 1: "hw_over H ns h1 ?is" "\<forall>o1<hw_end is. tg_field (hs_tags h1 o1) = tg_field (hs_tags h o1)"
    using f a h1(1) unfolding adds_def by blast+
  have 2: "hw_over H ns h2 (fold (put_tag H) rs' ?is)"
    "\<forall>o1<hw_end ?is. tg_field (hs_tags h2 o1) = tg_field (hs_tags h1 o1)"
    using g 1(1) a(2) h1(2) unfolding adds_def by (metis fold_put_ne)+
  show "hw_over H ns h2 (fold (put_tag H) (rs @ rs') is) \<and>
      (\<forall>o1<hw_end is. tg_field (hs_tags h2 o1) = tg_field (hs_tags h o1))"
    using 1(2) 2 fold_put_end [OF a(2), of H rs] by simp
qed

lemma adds_times: "adds H [r] f \<Longrightarrow> adds H (replicate n r) (times n f)"
proof (induction n)
  case 0
  then show ?case using adds_ok by (simp add: adds_def)
next
  case (Suc n)
  have "times (Suc n) f = (\<lambda>h. and_then (f h) (times n f))" by (simp add: fun_eq_iff)
  then show ?case using adds_seq [OF Suc.prems Suc.IH [OF Suc.prems]] by simp
qed

lemma adds_each: "(\<And>x. adds H [r] (f x)) \<Longrightarrow> adds H (replicate (length xs) r) (each f xs)"
proof (induction xs)
  case Nil
  then show ?case using adds_ok by (simp add: adds_def)
next
  case (Cons x xs)
  have "each f (x # xs) = (\<lambda>h. and_then (f x h) (each f xs))" by (simp add: fun_eq_iff)
  then show ?case using adds_seq [OF Cons.prems Cons.IH [OF Cons.prems]] by simp
qed

lemma adds_opt:
  "(\<And>v. x = Some v \<Longrightarrow> adds H rs (f v)) \<Longrightarrow> adds H (if x = None then [] else rs) (add_opt f x)"
  by (cases x) (simp_all add: adds_def add_opt_def)

lemma place_fields:
  "hwi_place H name sz h = ok (off, h') \<Longrightarrow> tg_field (hs_tags h' o1) = tg_field (hs_tags h o1)"
  by (auto simp: hwi_place_def hwi_add_string_def hwi_reserve_def Let_def res_simps split: if_splits)

lemma alloc_tag_fields:
  "hwi_alloc_tag f H name sz al h = ok (off, h2) \<Longrightarrow> tg_field (hs_tags h2 o1) = tg_field (hs_tags h o1)"
proof (induction f arbitrary: name sz al off h2)
  case (Suc f)
  then obtain ha where a: "align_tag f H al h = ok ha" "hwi_place H name sz ha = ok (off, h2)"
    by (auto simp: res_simps)
  have "tg_field (hs_tags ha o1) = tg_field (hs_tags h o1)"
    using a(1) Suc.IH by (auto simp: align_tag_def Let_def res_simps split: if_splits)
  then show ?case using place_fields [OF a(2)] by simp
qed simp

lemma align_fields: "align_tag f H al h = ok h1 \<Longrightarrow> tg_field (hs_tags h1 o1) = tg_field (hs_tags h o1)"
  by (auto simp: align_tag_def Let_def res_simps alloc_tag_fields split: if_splits)

lemmas alloc_fields = align_fields alloc_tag_fields

lemma set_fields_over:
  "hw_over H ns h is \<Longrightarrow> off < hw_end is \<Longrightarrow> hw_over H ns (set_fields off fs h) is"
  by (induction fs arbitrary: h) (auto simp: set_fields_def hw_over_set_field)

lemma set_fields_other: "o1 \<noteq> off \<Longrightarrow> hs_tags (set_fields off fs h) o1 = hs_tags h o1"
  by (induction fs arbitrary: h) (auto simp: set_fields_def set_field_def)

lemma adds_alloc:
  assumes abi: "abi_ok H" and al: "align_ok H al" and n: "str_name_ok name"
    and sz: "0 < sz" "sz < 2 ^ 16" "hi_size H K_pad dvd sz"
  shows "adds H [(name, sz, al)] (\<lambda>h. and_then (alloc_tag H name sz al h)
    (\<lambda>(tag, h1). ok (set_fields tag fs h1)))"
  unfolding adds_def
proof (intro allI impI)
  fix ns h h2 and "is" :: "hwi_item list"
  assume a: "hw_over H ns h is" "is \<noteq> []" and run: "and_then (alloc_tag H name sz al h)
    (\<lambda>(tag, h1). ok (set_fields tag fs h1)) = ok h2"
  obtain off h1 where al1: "alloc_tag H name sz al h = ok (off, h1)" and h2: "h2 = set_fields off fs h1"
    using run by (auto simp: res_simps)
  have r: "hwi_alloc_tag (Suc (Suc 0)) H name sz al h = ok (off, h1)"
    using al1 by (simp only: tag_depth_def numeral_2_eq_2)
  note s = alloc_tag_step [OF abi al a r n sz]
  have "off < hw_end (add_tg (off, name, sz) (padded H al is))"
    using a(2) sz(1) s(1) by simp
  then have "hw_over H ns h2 (add_tg (off, name, sz) (padded H al is))"
    unfolding h2 by (rule set_fields_over [OF s(3)])
  moreover have "tg_field (hs_tags h2 o1) = tg_field (hs_tags h o1)" if "o1 < hw_end is" for o1
  proof -
    have "o1 \<noteq> off" using that s(1) padded_end [OF a(2), of H al] by simp
    then show ?thesis using alloc_fields(2) [OF al1] by (simp add: h2 set_fields_other)
  qed
  ultimately show "hw_over H ns h2 (fold (put_tag H) [(name, sz, al)] is) \<and>
      (\<forall>o1<hw_end is. tg_field (hs_tags h2 o1) = tg_field (hs_tags h o1))"
    by (simp add: put_tag_def s(1))
qed

lemma adds_info: "abi_ok H \<Longrightarrow> adds H [info H k] (add_info H k fs)"
  using adds_alloc [of H "hi_align H k" "hi_name H k" "hi_size H k" fs]
  by (simp add: abi_ok_def align_ok_def info_def add_info_def [abs_def] alloc_info_def)

lemma adds_string:
  assumes n: "str_name_ok s" and f: "\<And>i. adds H rs (f i)"
  shows "adds H rs (\<lambda>h. and_then (hwi_add_string s h) (\<lambda>(i, h1). f i h1))"
  unfolding adds_def
proof (intro allI impI)
  fix ns h h2 and "is" :: "hwi_item list"
  assume a: "hw_over H ns h is" "is \<noteq> []"
    and run: "and_then (hwi_add_string s h) (\<lambda>(i, h1). f i h1) = ok h2"
  obtain i h1 where h1: "hwi_add_string s h = ok (i, h1)" "f i h1 = ok h2"
    using run by (auto simp: res_simps)
  obtain ms where r: "hw_rep H h is (ns @ ms)" using a(1) by (auto simp: hw_over_def)
  then have b: "hw_body H h is (ns @ ms)" by (simp add: hw_rep_def)
  note st = hwi_add_string_ok [OF h1(1) b n]
  have "hw_over H ns h1 is"
    by (rule hw_overI [of _ _ _ _ ms s]) (use st r in \<open>simp add: hw_rep_def\<close>)
  then show "hw_over H ns h2 (fold (put_tag H) rs is) \<and>
      (\<forall>o1<hw_end is. tg_field (hs_tags h2 o1) = tg_field (hs_tags h o1))"
    using f [of i] a(2) h1(2) st(3) unfolding adds_def by metis
qed

section \<open>What the devices and buses get\<close>

lemma adds_named:
  "abi_ok H \<Longrightarrow> str_name_ok s \<Longrightarrow> adds H [info H k] (add_named H k fl s fs)"
  unfolding add_named_def [abs_def] by (rule adds_string) (auto intro: adds_info)

definition opt_ok :: "string option \<Rightarrow> bool" where
  "opt_ok x \<longleftrightarrow> (case x of None \<Rightarrow> True | Some s \<Rightarrow> str_name_ok s)"

definition common_kinds :: "common_attr \<Rightarrow> tag_kind list" where
  "common_kinds a = K_location # replicate (ca_num_irq a) K_irq @
     (if ca_dll a = None then [] else [K_dll]) @ (if ca_optstr a = None then [] else [K_optstr]) @
     replicate (ca_num_errata a) K_errata @ replicate (ca_num_dma a) K_dma"

definition common_ok :: "common_attr \<Rightarrow> bool" where
  "common_ok a \<longleftrightarrow> opt_ok (ca_dll a) \<and> opt_ok (ca_optstr a)"

lemma adds_common:
  assumes abi: "abi_ok (he_abi E)" and a: "common_ok a"
  shows "adds (he_abi E) (map (info (he_abi E)) (common_kinds a)) (hwitag_add_common E a)"
proof -
  let ?H = "he_abi E"
  have str: "\<And>v. ca_dll a = Some v \<Longrightarrow> str_name_ok v" "\<And>v. ca_optstr a = Some v \<Longrightarrow> str_name_ok v"
    using a by (auto simp: common_ok_def opt_ok_def)
  have 1: "adds ?H [info ?H K_location]
      (hwitag_add_location ?H (ca_base a) (ca_len a) (ca_regshift a) (ca_addrspace a))"
    unfolding hwitag_add_location_def by (rule adds_info [OF abi])
  have 2: "adds ?H (replicate (ca_num_irq a) (info ?H K_irq))
      (times (ca_num_irq a) (hwitag_add_irq ?H (he_illegal E)))"
    unfolding hwitag_add_irq_def by (rule adds_times [OF adds_info [OF abi]])
  have 3: "adds ?H (if ca_dll a = None then [] else [info ?H K_dll]) (add_opt (hwitag_add_dll ?H) (ca_dll a))"
    unfolding hwitag_add_dll_def [abs_def] by (rule adds_opt) (rule adds_named [OF abi str(1)])
  have 4: "adds ?H (if ca_optstr a = None then [] else [info ?H K_optstr])
      (add_opt (hwitag_add_optstr ?H) (ca_optstr a))"
    unfolding hwitag_add_optstr_def [abs_def] by (rule adds_opt) (rule adds_named [OF abi str(2)])
  have 5: "adds ?H (replicate (ca_num_errata a) (info ?H K_errata)) (times (ca_num_errata a) (hwitag_add_errata ?H 0))"
    unfolding hwitag_add_errata_def by (rule adds_times [OF adds_info [OF abi]])
  have 6: "adds ?H (replicate (ca_num_dma a) (info ?H K_dma)) (times (ca_num_dma a) (hwitag_add_dma ?H 0))"
    unfolding hwitag_add_dma_def by (rule adds_times [OF adds_info [OF abi]])
  show ?thesis
    using adds_seq [OF 1 adds_seq [OF 2 adds_seq [OF 3 adds_seq [OF 4 adds_seq [OF 5 6]]]]]
    by (simp add: common_kinds_def hwitag_add_common_def [abs_def] Let_def if_distrib [of "map (info ?H)"] cong: if_cong)
qed

lemma adds_clks: "abi_ok H \<Longrightarrow> adds H (replicate n (info H K_inputclk)) (add_clks H n)"
  unfolding add_clks_def hwitag_add_inputclk_def by (rule adds_times [OF adds_info])

text \<open>The kinds of the tags of an item in the order in which they were added, without the
  pads.\<close>

definition tag_names :: "hwi_abi \<Rightarrow> hwi_item \<Rightarrow> string list" where
  "tag_names H i = filter (\<lambda>n. n \<noteq> hi_name H K_pad) (map (\<lambda>t. fst (snd t)) (rev (i_tags i)))"

text \<open>An item that only got further tags.\<close>

definition same_item :: "hwi_item \<Rightarrow> hwi_item \<Rightarrow> bool" where
  "same_item i j \<longleftrightarrow> i_off i = i_off j \<and> i_name i = i_name j \<and> i_size i = i_size j \<and>
     i_label i = i_label j \<and> i_owner i = i_owner j"

lemma put_info:
  assumes "abi_ok H" "k \<noteq> K_pad"
  shows "\<exists>j. put_tag H (info H k) (i # is) = j # is \<and> same_item j i \<and>
    tag_names H j = tag_names H i @ [hi_name H k]"
proof -
  have "hi_name H k \<noteq> hi_name H K_pad" using assms by (auto simp: abi_ok_def inj_eq)
  then show ?thesis
    by (auto simp: put_tag_def info_def padded_def add_tg_def tag_names_def same_item_def)
qed

lemma fold_put_info:
  assumes abi: "abi_ok H"
  shows "K_pad \<notin> set ks \<Longrightarrow> \<exists>j. fold (put_tag H) (map (info H) ks) (i # is) = j # is \<and> same_item j i \<and>
    tag_names H j = tag_names H i @ map (hi_name H) ks"
proof (induction ks arbitrary: i)
  case Nil
  then show ?case by (simp add: same_item_def)
next
  case (Cons k ks)
  obtain j where j: "put_tag H (info H k) (i # is) = j # is" "same_item j i"
    "tag_names H j = tag_names H i @ [hi_name H k]"
    using put_info [OF abi, of k i "is"] Cons.prems by auto
  obtain l where l: "fold (put_tag H) (map (info H) ks) (j # is) = l # is" "same_item l j"
    "tag_names H l = tag_names H j @ map (hi_name H) ks"
    using Cons.IH [of j] Cons.prems by auto
  have "same_item l i" using j(2) l(2) by (simp add: same_item_def)
  then show ?case using j l by (intro exI [of _ l]) simp
qed

lemma alloc_item_field:
  assumes "hwi_alloc_item H k label owner h = ok (off, h')"
  shows "tg_field (hs_tags h' o1) = tg_field (hs_tags h o1)"
  using assms by (auto simp: hwi_alloc_item_def alloc_info_def hwi_add_string_def Let_def res_simps
      alloc_fields split: option.splits)

text \<open>A device or bus with its attributes: one new item under the owner.\<close>

lemma with_attr_item:
  assumes abi: "abi_ok H" and rep: "hw_ok H h is" and n: "str_name_ok label"
    and ow: "b \<in> i_off ` set is"
    and al: "hwi_alloc_item H k label (Some b) h = ok (off, h1)"
    and f: "adds H (map (info H) ks) (f a)" "K_pad \<notin> set ks"
    and run: "with_attr (ok (Some off, set_fields off fs h1)) (Some a) f = ok (r, h')"
  shows "r = Some off \<and> (\<exists>i. hw_ok H h' (i # padded H (hi_align H k) is) \<and>
     same_item i (new_item H k label (Some b) off) \<and> tag_names H i = map (hi_name H) ks \<and>
     tg_field (hs_tags h' off) = tg_field (hs_tags (set_fields off fs h1) off))"
proof -
  let ?new = "new_item H k label (Some b) off" and ?is = "padded H (hi_align H k) is"
  let ?h = "set_fields off fs h1"
  have rep': "hw_over H [] h is" using rep by (simp add: hw_ok_def)
  have ow': "\<forall>w. Some b = Some w \<longrightarrow> w \<in> i_off ` set is" using ow by simp
  note s = alloc_item_step [OF abi rep' al n ow']
  have below: "off < hw_end (?new # ?is)"
    using abi by (simp add: new_item_def i_len_def abi_ok_def)
  have h: "hw_over H [] ?h (?new # ?is)" by (rule set_fields_over [OF s(2) below])
  have run': "f a ?h = ok h'" and r: "r = Some off" using run by (auto simp: with_attr_def res_simps)
  have *: "hw_over H [] h' (fold (put_tag H) (map (info H) ks) (?new # ?is)) \<and>
      (\<forall>o1<hw_end (?new # ?is). tg_field (hs_tags h' o1) = tg_field (hs_tags ?h o1))"
    using f(1) h run' unfolding adds_def by blast
  obtain i where i: "fold (put_tag H) (map (info H) ks) (?new # ?is) = i # ?is" "same_item i ?new"
    "tag_names H i = tag_names H ?new @ map (hi_name H) ks"
    using fold_put_info [OF abi f(2)] by blast
  have "tag_names H ?new = []" by (simp add: tag_names_def new_item_def)
  then show ?thesis using * i below r unfolding hw_ok_def by auto
qed

section \<open>Errors\<close>

lemma request_err: "request n b = Inl e \<Longrightarrow> \<exists>m. e = Crash m"
  by (auto simp: request_def Let_def split: if_splits)

lemma add_string_err:
  assumes "str_inv (bs, b) ns" "add_string n bs b = Inl e"
  shows "\<exists>m. e = Crash m"
proof (cases "n \<in> set ns")
  case True
  then show ?thesis using assms add_string_found [of bs ns n b] by (simp add: str_inv_def)
next
  case False
  obtain k where k: "0 < k" "bs = enc_strings ns @ replicate k NUL" "\<forall>s\<in>set ns. cstr s"
    using assms(1) by (auto simp: str_inv_def holds_def)
  show ?thesis
    using assms(2) request_err unfolding k(2) add_string_miss [OF k(3,1) False]
    by (auto simp: and_then_eq_crash)
qed

lemma place_err:
  assumes "hw_body H h is ns" "hwi_place H name sz h = Inl e"
  shows "\<exists>m. e = Crash m"
proof -
  have inv: "str_inv (hs_strs h, hs_bud h) ns" using assms(1) by (simp add: hw_body_def)
  have "\<exists>m. e = Crash m" if "hwi_add_string name h = Inl e"
    using that add_string_err [OF inv] by (auto simp: hwi_add_string_def and_then_eq_crash)
  moreover have "\<exists>m. e = Crash m" if "hwi_reserve n h1 = Inl e" for n h1
    using that request_err by (auto simp: hwi_reserve_def Let_def and_then_eq_crash split: if_splits)
  ultimately show ?thesis
    using assms(2) by (auto simp: hwi_place_def Let_def and_then_eq_crash)
qed

text \<open>Allocation ends: the recursion of align\_tag is at most one call deep.\<close>

lemma alloc_tag_err:
  assumes abi: "abi_ok H" and al: "align_ok H al" and rep: "hw_ok H h is"
    and run: "alloc_tag H name sz al h = Inl e"
  shows "\<exists>m. e = Crash m"
proof -
  have rep': "hw_over H [] h is" using rep by (simp add: hw_ok_def)
  obtain ns where ns: "hw_rep H h is ns" using rep by (auto simp: hw_ok_def hw_over_def)
  then have b: "hw_body H h is ns" by (simp add: hw_rep_def)
  note o1 = hw_over_offset [OF rep']
  have "alloc_tag H name sz al h = and_then (align_tag (Suc 0) H al h) (hwi_place H name sz)"
    by (simp add: tag_depth_def numeral_2_eq_2)
  then consider "align_tag (Suc 0) H al h = Inl e"
    | h1 where "align_tag (Suc 0) H al h = ok h1" "hwi_place H name sz h1 = Inl e"
    using run by (metis and_then_eq_crash)
  then show ?thesis
  proof cases
    case 1
    then show ?thesis
      using place_err [OF b] unfolding align_tag_unfold [OF abi al o1(2) [folded o1(1)]]
      by (auto simp: and_then_eq_crash split: if_splits)
  next
    case 2
    obtain ms where "hw_rep H h1 (padded H al is) ([] @ ms)"
      using align_tag_ok(1) [OF abi al rep' 2(1)] by (auto simp: hw_over_def)
    then show ?thesis using place_err [OF _ 2(2)] by (auto simp: hw_rep_def)
  qed
qed

section \<open>Reading the section\<close>

text \<open>The readers step from item to item with the size in the item, up to the end of the
  section.\<close>

primrec walk_items :: "nat \<Rightarrow> hwsec \<Rightarrow> nat \<Rightarrow> (nat \<times> string) list" where
  "walk_items 0 h off = []"
| "walk_items (Suc n) h off =
    (if hs_tags h off = blank_tag \<or> tg_size (hs_tags h off) = 0 then []
     else (off, cstr_at (hs_strs h) (it_itemname (hs_tags h off)))
       # walk_items n h (off + 4 * it_itemsize (hs_tags h off)))"

lemma i_len_4:
  assumes "4 dvd P" "items_at P (i # is)"
  shows "4 * (i_len i div 4) = i_len i" "0 < i_size i div 4"
proof -
  have "P dvd i_len i" using assms(2) tags_at_dvd by (auto simp: i_len_def)
  then have "4 dvd i_len i" using assms(1) dvd_trans by blast
  then show "4 * (i_len i div 4) = i_len i" by simp
  have "4 dvd i_size i" "0 < i_size i" using assms dvd_trans by auto
  then show "0 < i_size i div 4" by (simp add: div_greater_zero_iff dvd_imp_le)
qed

lemma walk_items_from:
  assumes "abi_ok H" "hw_rep H h (js @ is) ns"
  shows "walk_items (length js + 1) h (hw_end is) = map (\<lambda>i. (i_off i, i_label i)) (rev js)"
  using assms(2)
proof (induction js arbitrary: "is" rule: rev_induct)
  case Nil
  then show ?case by (auto simp: hw_rep_def hw_body_def)
next
  case (snoc j js)
  let ?P = "hi_size H K_pad"
  have "items_at ?P (js @ j # is)" using snoc.prems by (simp add: hw_rep_def hw_body_def)
  then have at: "items_at ?P (j # is)" by (induction js) auto
  have 4: "4 dvd ?P" using assms(1) by (simp add: abi_ok_def)
  have r: "item_rep (hs_tags h) ns (kids_of (js @ j # is) (i_off j)) j"
    and inv: "str_inv (hs_strs h, hs_bud h) ns"
    using snoc.prems by (auto simp: hw_rep_def hw_body_def)
  have lab: "cstr_at (hs_strs h) (it_itemname (hs_tags h (i_off j))) = i_label j"
    using r inv cstr_at_offset by (auto simp: item_rep_def str_inv_def)
  have nz: "tg_size (hs_tags h (i_off j)) \<noteq> 0" and sz: "it_itemsize (hs_tags h (i_off j)) = i_len j div 4"
    using r i_len_4(2) [OF 4 at] by (auto simp: item_rep_def tag_rep_def)
  have nb: "hs_tags h (i_off j) \<noteq> blank_tag" using nz by (auto simp: blank_tag_def)
  have off: "i_off j = hw_end is" using at by simp
  have "walk_items (length js + 1) h (hw_end (j # is)) = map (\<lambda>i. (i_off i, i_label i)) (rev js)"
    by (rule snoc.IH) (use snoc.prems in simp)
  then show ?case
    using lab nz nb sz off i_len_4(1) [OF 4 at] by simp
qed

section \<open>A path of items\<close>

text \<open>The item at the offset has the first name, its owner the second, and so on upwards.\<close>

fun chain :: "hwi_item list \<Rightarrow> nat \<Rightarrow> string list \<Rightarrow> bool" where
  "chain is off [] = True"
| "chain is off (n # ns) =
    (\<exists>i\<in>set is. i_off i = off \<and> i_label i = n \<and>
       (ns = [] \<or> (\<exists>w. i_owner i = Some w \<and> chain is w ns)))"

definition items_kept :: "hwi_item list \<Rightarrow> hwi_item list \<Rightarrow> bool" where
  "items_kept is js \<longleftrightarrow> (\<forall>i\<in>set is. \<exists>j\<in>set js. same_item j i)"

lemma items_kept_chain: "items_kept is js \<Longrightarrow> chain is off ns \<Longrightarrow> chain js off ns"
proof (induction ns arbitrary: off)
  case (Cons n ns)
  then obtain i j where "i_off i = off" "i_label i = n" "ns = [] \<or> (\<exists>w. i_owner i = Some w \<and> chain is w ns)"
    "j \<in> set js" "same_item j i"
    by (fastforce simp: items_kept_def)
  then show ?case using Cons by (auto simp: same_item_def)
qed simp

lemma items_kept_refl: "items_kept is is"
  by (auto simp: items_kept_def same_item_def)

lemma items_kept_trans: "items_kept is js \<Longrightarrow> items_kept js ks \<Longrightarrow> items_kept is ks"
  by (fastforce simp: items_kept_def same_item_def)

lemma items_kept_offs: "items_kept is js \<Longrightarrow> i_off ` set is \<subseteq> i_off ` set js"
  unfolding items_kept_def same_item_def by (metis image_eqI image_subsetI)

lemma items_kept_padded: "items_kept is (padded H al is)"
  by (cases "is") (auto simp: items_kept_def same_item_def padded_def add_tg_def)

lemma items_kept_Cons: "items_kept is js \<Longrightarrow> items_kept is (x # js)"
  by (auto simp: items_kept_def)

lemma chain_offs: "chain is off (n # ns) \<Longrightarrow> off \<in> i_off ` set is"
  by auto

text \<open>What startup relies on in hwi\_find\_item, as its manual page states it: an offset that is
  found is an item whose name is the last of the arguments, with the other names above it.\<close>

definition finds :: "hwi_env \<Rightarrow> bool" where
  "finds E \<longleftrightarrow> (\<forall>h is path off. hw_ok (he_abi E) h is \<longrightarrow>
     he_find_item E h None path = Some off \<longrightarrow> chain is off (rev path))"

text \<open>An item is added under a path.\<close>

lemma add_item_chain:
  assumes abi: "abi_ok H" and rep: "hw_ok H h is" and n: "str_name_ok label"
    and run: "hwi_alloc_item H k label owner h = ok (off, h')"
    and ow: "\<forall>w. owner = Some w \<longrightarrow> w \<in> i_off ` set is"
    and up: "ns = [] \<or> (\<exists>w. owner = Some w \<and> chain is w ns)"
  shows "\<exists>js. hw_ok H h' js \<and> items_kept is js \<and> js \<noteq> [] \<and> hd js = new_item H k label owner off \<and>
    chain js off (label # ns)"
proof -
  let ?js = "new_item H k label owner off # padded H (hi_align H k) is"
  have rep': "hw_over H [] h is" using rep by (simp add: hw_ok_def)
  note s = alloc_item_step [OF abi rep' run n ow]
  have k: "items_kept is ?js" by (rule items_kept_Cons [OF items_kept_padded])
  have "chain ?js off (label # ns)"
    using up items_kept_chain [OF k] by (auto simp: new_item_def)
  with k s(2) show ?thesis by (intro exI [of _ ?js]) (simp add: hw_ok_def)
qed

lemma find_or_add_chain:
  assumes abi: "abi_ok (he_abi E)" and rep: "hw_ok (he_abi E) h is" and n: "str_name_ok label"
    and run: "find_or_add E found k label owner h = ok (off, h')"
    and found: "\<And>o1. found = Some o1 \<Longrightarrow> chain is o1 (label # ns)"
    and ow: "\<forall>w. owner = Some w \<longrightarrow> w \<in> i_off ` set is"
    and up: "found = None \<Longrightarrow> ns = [] \<or> (\<exists>w. owner = Some w \<and> chain is w ns)"
  shows "\<exists>js. hw_ok (he_abi E) h' js \<and> items_kept is js \<and> js \<noteq> [] \<and> chain js off (label # ns)"
proof (cases found)
  case None
  then have "hwi_alloc_item (he_abi E) k label owner h = ok (off, h')"
    using run by (simp add: find_or_add_def)
  from add_item_chain [OF abi rep n this ow up [OF None]] show ?thesis by blast
next
  case (Some o1)
  then show ?thesis
    using run rep found [OF Some] items_kept_refl unfolding find_or_add_def
    by (intro exI [of _ "is"]) auto
qed

section \<open>Free vectors\<close>

text \<open>hwi\_tag\_find as its manual page states it: the tags of an item with a given name are
  numbered from 0, and the index that comes back is the next one.\<close>

definition tag_finds :: "hwi_env \<Rightarrow> nat \<Rightarrow> hwsec \<Rightarrow> nat list \<Rightarrow> bool" where
  "tag_finds E hwi_off h ts \<longleftrightarrow> (\<forall>j. he_tag_find E h hwi_off (hi_name (he_abi E) K_irq) j =
     (if j < length ts then Some (ts ! j, j + 1) else None))"

definition free_vector :: "hwi_env \<Rightarrow> hwsec \<Rightarrow> nat \<Rightarrow> bool" where
  "free_vector E h tag \<longleftrightarrow> tg_field (hs_tags h tag) F_vector = he_illegal E"

lemma set_avail_find:
  assumes t: "tag_finds E hwi_off h ts"
  shows "length ts - j < n \<Longrightarrow> set_avail n E hwi_off False j vector h =
    (case List.find (\<lambda>i. free_vector E h (ts ! i)) [j..<length ts] of
       None \<Rightarrow> ok (None, h)
     | Some i \<Rightarrow> ok (Some i, set_field (ts ! i) F_vector vector h))"
proof (induction n arbitrary: j)
  case (Suc n)
  show ?case
  proof (cases "j < length ts")
    case True
    then have "[j..<length ts] = j # [j + 1..<length ts]" by (simp add: upt_conv_Cons)
    then show ?thesis
      using True t Suc by (simp add: tag_finds_def free_vector_def)
  next
    case False
    then show ?thesis using t by (simp add: tag_finds_def)
  qed
qed simp

section \<open>Examples\<close>

fun kind_char :: "tag_kind \<Rightarrow> char" where
  "kind_char K_pad = CHR ''P''" | "kind_char K_group = CHR ''g''" | "kind_char K_bus = CHR ''b''"
| "kind_char K_device = CHR ''d''" | "kind_char K_synonym = CHR ''y''" | "kind_char K_nanospin = CHR ''n''"
| "kind_char K_location = CHR ''l''" | "kind_char K_irq = CHR ''i''" | "kind_char K_irqrange = CHR ''r''"
| "kind_char K_inputclk = CHR ''c''" | "kind_char K_dma = CHR ''D''" | "kind_char K_errata = CHR ''e''"
| "kind_char K_dll = CHR ''L''" | "kind_char K_optstr = CHR ''o''" | "kind_char K_busattr = CHR ''B''"
| "kind_char K_regname = CHR ''R''" | "kind_char K_nicaddr = CHR ''N''" | "kind_char K_nicphyaddr = CHR ''p''"

definition abi_ex :: hwi_abi where
  "abi_ex = \<lparr>hi_name = (\<lambda>k. [kind_char k]), hi_size = (\<lambda>k. if k = K_pad then 4 else if k = K_location then 24 else 12),
     hi_align = (\<lambda>k. if k = K_location then 8 else 4), hi_prefix = 4, hi_nicaddr_off = 8\<rparr>"

definition env_ex :: hwi_env where
  "env_ex = \<lparr>he_abi = abi_ex, he_item = (\<lambda>c. if c = ROOT_HW then ''hw'' else if c = BUS_UNKNOWN then ''unknown'' else ''x''),
     he_class = (\<lambda>_. 7), he_illegal = 0xffff, he_find_item = (\<lambda>_ _ _. None),
     he_tag_find = (\<lambda>_ _ _ j. if j < 2 then Some (24 + 12 * j, j + 1) else None)\<rparr>"

definition sec_ex :: hwsec where
  "sec_ex = \<lparr>hs_size = 0, hs_offset = 0, hs_last = 0, hs_cells = [], hs_strs = [NUL],
     hs_bud = \<lparr>bg_total = 8, bg_max = 8192\<rparr>\<rparr>"

lemma abi_ex_ok: "abi_ok abi_ex"
proof -
  have "inj (hi_name abi_ex)"
  proof (rule injI)
    fix k l assume "hi_name abi_ex k = hi_name abi_ex l"
    then show "k = l" by (cases k; cases l) (simp_all add: abi_ex_def)
  qed
  moreover have "str_name_ok (hi_name abi_ex k)" for k
    by (cases k) (simp_all add: abi_ex_def str_name_ok_def cstr_def)
  ultimately show ?thesis by (simp add: abi_ok_def abi_ex_def)
qed

lemma sec_ex_ok: "hw_ok abi_ex sec_ex []"
proof -
  have "hw_rep abi_ex sec_ex [] []"
    by (auto simp: hw_rep_def hw_body_def sec_ex_def hs_tags_def str_inv_def holds_def intro!: exI [of _ "1::nat"])
  then show ?thesis unfolding hw_ok_def hw_over_def by (intro exI [of _ "[]"]) simp
qed

definition uart_ex :: clk_attr where
  "uart_ex = \<lparr>cl_common = \<lparr>ca_base = 0x4a90000, ca_len = 0x4000, ca_regshift = 0, ca_addrspace = 1,
     ca_num_irq = 2, ca_num_errata = 0, ca_num_dma = 0, ca_dll = Some ''ser'', ca_optstr = None\<rparr>,
     cl_num_clks = 1\<rparr>"

text \<open>The section with the root item, at offset 0.\<close>

lemma root_ex:
  assumes "case and_then (hwi_alloc_item abi_ex K_group ''hw'' None sec_ex) (\<lambda>(_, h). f h) of
      Inl _ \<Rightarrow> False | Inr r \<Rightarrow> Q r"
  obtains h r where "hw_ok abi_ex h [new_item abi_ex K_group ''hw'' None 0]" "f h = ok r" "Q r"
proof -
  obtain off h r where run: "hwi_alloc_item abi_ex K_group ''hw'' None sec_ex = ok (off, h)" and r: "f h = ok r" "Q r"
    using assms by (cases "hwi_alloc_item abi_ex K_group ''hw'' None sec_ex") (auto split: sum.splits)
  have n: "str_name_ok ''hw''" by (simp add: str_name_ok_def cstr_def)
  have "off = 0" "hw_ok abi_ex h [new_item abi_ex K_group ''hw'' None off]"
    using alloc_item_step [OF abi_ex_ok sec_ex_ok [unfolded hw_ok_def] run n]
    by (simp_all add: hw_ok_def padded_def)
  with that r show ?thesis by blast
qed

section \<open>Properties\<close>

text \<open>C28: hwi\_alloc\_tag keeps the section well formed.  It either runs out of system page or
  returns the next offset that has the alignment of the tag; the newest item has one more tag
  there, after at most one pad, and its size, the names and the free room are right again.  The
  mutual recursion with align\_tag ends.\<close>

theorem hwi_alloc_tag_section:
  assumes "abi_ok H" "hw_ok H h is" "is \<noteq> []" "str_name_ok name" "align_ok H al"
    and "0 < sz" "sz < 2 ^ 16" "hi_size H K_pad dvd sz"
  shows "case alloc_tag H name sz al h of
      Inl e \<Rightarrow> \<exists>msg. e = Crash msg
    | Inr (off, h') \<Rightarrow> al dvd off \<and> off = hw_end (padded H al is) \<and>
        hw_ok H h' (add_tg (off, name, sz) (padded H al is))"
proof (cases "alloc_tag H name sz al h")
  case (Inl e)
  then show ?thesis using alloc_tag_err [OF assms(1,5,2) Inl] by simp
next
  case (Inr r)
  obtain off h' where r: "r = (off, h')" by (cases r)
  have "hwi_alloc_tag (Suc (Suc 0)) H name sz al h = ok (off, h')"
    using Inr r by (simp only: tag_depth_def numeral_2_eq_2)
  from alloc_tag_step [OF assms(1,5) assms(2) [unfolded hw_ok_def] assms(3) this assms(4,6,7,8)]
  show ?thesis by (simp add: Inr r hw_ok_def)
qed

lemma hwi_alloc_tag_section_witness:
  "\<exists>h off h'. alloc_tag abi_ex ''irq'' 12 8 h = ok (off, h') \<and> off = 16 \<and> 8 dvd off \<and>
     hw_ok abi_ex h' (add_tg (16, ''irq'', 12) (padded abi_ex 8 [new_item abi_ex K_group ''hw'' None 0]))"
proof -
  have "case and_then (hwi_alloc_item abi_ex K_group ''hw'' None sec_ex) (\<lambda>(_, h). alloc_tag abi_ex ''irq'' 12 8 h) of
      Inl _ \<Rightarrow> False | Inr r \<Rightarrow> fst r = 16" by code_simp
  then obtain h r where h: "hw_ok abi_ex h [new_item abi_ex K_group ''hw'' None 0]"
    "alloc_tag abi_ex ''irq'' 12 8 h = ok r" "fst r = 16" by (rule root_ex)
  obtain h' where r: "r = (16, h')" using h(3) by (cases r) simp
  have n: "str_name_ok ''irq''" "align_ok abi_ex 8" "hi_size abi_ex K_pad dvd 12"
    by (simp_all add: str_name_ok_def cstr_def align_ok_def abi_ex_def)
  from hwi_alloc_tag_section [OF abi_ex_ok h(1) _ n(1,2) _ _ n(3)] show ?thesis
    using h(2) r by auto
qed



text \<open>C29: hwidev\_add\_uart adds one device item under the given bus, with the device class in the
  field pnpid, and gives it a location, the requested number of interrupt tags, the optional
  driver and option strings, errata and DMA tags and one input clock per clock, in this
  order.\<close>

theorem hwidev_add_uart_item:
  assumes abi: "abi_ok (he_abi E)" and rep: "hw_ok (he_abi E) h is" and n: "str_name_ok name"
    and ow: "b \<in> i_off ` set is" and a: "common_ok (cl_common a)"
    and run: "hwidev_add_uart E name (Some a) (Some b) h = ok (r, h')"
  shows "\<exists>off i. r = Some off \<and> hw_ok (he_abi E) h' (i # padded (he_abi E) (hi_align (he_abi E) K_device) is) \<and>
    same_item i (new_item (he_abi E) K_device name (Some b) off) \<and>
    tag_names (he_abi E) i = map (hi_name (he_abi E)) (common_kinds (cl_common a) @ replicate (cl_num_clks a) K_inputclk) \<and>
    tg_field (hs_tags h' off) F_pnpid = he_class E C_UART"
proof -
  let ?H = "he_abi E" and ?fs = "[(F_pnpid, he_class E C_UART)]"
  let ?f = "\<lambda>a h. and_then (hwitag_add_common E (cl_common a) h) (add_clks ?H (cl_num_clks a))"
  obtain off h1 where al: "hwi_alloc_item ?H K_device name (Some b) h = ok (off, h1)"
    using run by (auto simp: hwidev_add_uart_def with_attr_def hwidev_add_def hwi_alloc_dev_def res_simps)
  have wa: "with_attr (ok (Some off, set_fields off ?fs h1)) (Some a) ?f = ok (r, h')"
    using run al by (simp add: hwidev_add_uart_def hwidev_add_def hwi_alloc_dev_def set_fields_def)
  have f: "adds ?H (map (info ?H) (common_kinds (cl_common a) @ replicate (cl_num_clks a) K_inputclk)) (?f a)"
    using adds_seq [OF adds_common [OF abi a] adds_clks [OF abi]] by (simp add: map_replicate)
  have np: "K_pad \<notin> set (common_kinds (cl_common a) @ replicate (cl_num_clks a) K_inputclk)"
    by (auto simp: common_kinds_def)
  from with_attr_item [OF abi rep n ow al f np wa] show ?thesis
    by (auto simp: set_fields_def set_field_def)
qed

lemma hwidev_add_uart_item_witness:
  "\<exists>h' i. hw_ok abi_ex h' (i # padded abi_ex 4 [new_item abi_ex K_group ''hw'' None 0]) \<and>
     tag_names abi_ex i = [''l'', ''i'', ''i'', ''L'', ''c'']"
proof -
  have "case and_then (hwi_alloc_item abi_ex K_group ''hw'' None sec_ex)
      (\<lambda>(_, h). hwidev_add_uart env_ex ''u'' (Some uart_ex) (Some 0) h) of
      Inl _ \<Rightarrow> False | Inr r \<Rightarrow> fst r = Some 12" by code_simp
  then obtain h r where h: "hw_ok abi_ex h [new_item abi_ex K_group ''hw'' None 0]"
    "hwidev_add_uart env_ex ''u'' (Some uart_ex) (Some 0) h = ok r" "fst r = Some 12" by (rule root_ex)
  obtain h' where r: "r = (Some 12, h')" using h(3) by (cases r) simp
  have e: "he_abi env_ex = abi_ex" by (simp add: env_ex_def)
  have n: "str_name_ok ''u''" "common_ok (cl_common uart_ex)"
    by (simp_all add: str_name_ok_def cstr_def common_ok_def opt_ok_def uart_ex_def)
  have "\<exists>off i. Some 12 = Some off \<and> hw_ok abi_ex h' (i # padded abi_ex (hi_align abi_ex K_device) [new_item abi_ex K_group ''hw'' None 0]) \<and>
    same_item i (new_item abi_ex K_device ''u'' (Some 0) off) \<and>
    tag_names abi_ex i = map (hi_name abi_ex) (common_kinds (cl_common uart_ex) @ replicate (cl_num_clks uart_ex) K_inputclk) \<and>
    tg_field (hs_tags h' off) F_pnpid = he_class env_ex C_UART"
    using hwidev_add_uart_item [of env_ex h "[new_item abi_ex K_group ''hw'' None 0]" "''u''" 0 uart_ex "Some 12" h']
      abi_ex_ok h(1,2) n r by (simp add: e new_item_def)
  then show ?thesis
    by (auto simp: common_kinds_def uart_ex_def abi_ex_def numeral_2_eq_2)
qed



text \<open>hwitag\_set\_avail\_ivec with a negative index puts the vector into the first interrupt tag
  of the device that is still free and returns its number; it returns -1, and changes nothing,
  exactly when no tag is free.  The search ends after the last tag.\<close>

lemma set_avail_ivec_first_free:
  assumes "tag_finds E hwi_off h ts" "idx < 0" "length ts < n"
  shows "hwitag_set_avail_ivec n E hwi_off idx vector h =
    (case List.find (\<lambda>i. free_vector E h (ts ! i)) [0..<length ts] of
       None \<Rightarrow> ok (None, h)
     | Some i \<Rightarrow> ok (Some i, set_field (ts ! i) F_vector vector h))"
  using set_avail_find [OF assms(1), of 0 n vector] assms(2,3) by (simp add: hwitag_set_avail_ivec_def)

lemma set_avail_ivec_first_free_witness:
  "hwitag_set_avail_ivec 3 env_ex 12 (-1) 33 (set_field 36 F_vector 0xffff sec_ex) =
     ok (Some 1, set_field 36 F_vector 33 (set_field 36 F_vector 0xffff sec_ex))"
proof -
  let ?h = "set_field 36 F_vector 0xffff sec_ex"
  have "tag_finds env_ex 12 ?h [24, 36]"
    by (simp add: tag_finds_def env_ex_def nth_Cons' less_2_cases_iff)
  moreover have "List.find (\<lambda>i. free_vector env_ex ?h ([24, 36] ! i)) [0..<length [24 :: nat, 36]] = Some 1"
    by code_simp
  ultimately show ?thesis
    using set_avail_ivec_first_free [of env_ex 12 ?h "[24, 36]" "-1" 3 33] by simp
qed

end
