(* ===== verification/Physmem.thy ===== *)
theory Physmem
  imports Prelude
begin

text \<open>
  Physical memory as a function from addresses to bytes, with the string functions and
  copy\_memory of startup/lib/memfuncs.c.  On this target startup\_memory\_map returns the physical
  address itself and MAKE\_1TO1\_PTR adds the bias of the one-to-one mapping, so both are an access
  to the physical address.  memmove.c and memcpy.c are modelled and shown to be the simultaneous
  move that the rest of the development uses.  Ranges of memory are sets of addresses that may wrap.
\<close>

section \<open>Bytes of physical memory\<close>

type_synonym pmem = "paddr \<Rightarrow> u8"

definition memmove_at :: "paddr \<Rightarrow> paddr \<Rightarrow> u64 \<Rightarrow> pmem \<Rightarrow> pmem" where
  "memmove_at d s n m = (\<lambda>a. if a - d < n then m (s + (a - d)) else m a)"

definition memset_at :: "paddr \<Rightarrow> u8 \<Rightarrow> u64 \<Rightarrow> pmem \<Rightarrow> pmem" where
  "memset_at d v n m = (\<lambda>a. if a - d < n then v else m a)"

text \<open>Little-endian words.\<close>

definition ld32 :: "pmem \<Rightarrow> paddr \<Rightarrow> u32" where
  "ld32 m a = ucast (m a) OR push_bit 8 (ucast (m (a + 1))) OR push_bit 16 (ucast (m (a + 2)))
    OR push_bit 24 (ucast (m (a + 3)))"

definition ld64 :: "pmem \<Rightarrow> paddr \<Rightarrow> u64" where
  "ld64 m a = ucast (ld32 m a) OR push_bit 32 (ucast (ld32 m (a + 4)))"

definition ld16 :: "pmem \<Rightarrow> paddr \<Rightarrow> u16" where
  "ld16 m a = ucast (m a) OR push_bit 8 (ucast (m (a + 1)))"

definition st32 :: "paddr \<Rightarrow> u32 \<Rightarrow> pmem \<Rightarrow> pmem" where
  "st32 a v m = m(a := ucast v, a + 1 := ucast (drop_bit 8 v), a + 2 := ucast (drop_bit 16 v),
     a + 3 := ucast (drop_bit 24 v))"

definition st64 :: "paddr \<Rightarrow> u64 \<Rightarrow> pmem \<Rightarrow> pmem" where
  "st64 a v m = st32 (a + 4) (ucast (drop_bit 32 v)) (st32 a (ucast v) m)"

text \<open>copy\_memory of memfuncs.c.  The length is 64 bits wide, but the largest part moved at once
  is kept in 32 bits; when those are zero and the length is not, no pass makes progress.\<close>

function copy_parts :: "nat \<Rightarrow> paddr \<Rightarrow> paddr \<Rightarrow> nat \<Rightarrow> pmem \<Rightarrow> pmem" where
  "copy_parts mx dst src len m =
    (let amount = if len > mx then mx else len;
         m' = memmove_at dst src (of_nat amount) m
     in if len - amount = 0 \<or> amount = 0 then m'
        else copy_parts mx (dst + of_nat amount) (src + of_nat amount) (len - amount) m')"
  by auto
termination
  by (relation "measure (\<lambda>(_, _, _, len, _). len)") auto

declare copy_parts.simps [simp del]

definition copy_memory :: "paddr \<Rightarrow> paddr \<Rightarrow> u64 \<Rightarrow> pmem \<Rightarrow> pmem res" where
  "copy_memory dst src len m =
    (let mx = unat (ucast len :: u32)
     in if mx = 0 \<and> len \<noteq> 0 then hang else ok (copy_parts mx dst src (unat len) m))"

lemma ucast_up_32: "unat (ucast (n :: u32) :: u64) = unat n" "(ucast (ucast n :: u64) :: u32) = n"
proof -
  have "unat n < 2 ^ 64" by (rule order_less_le_trans [OF unsigned_less]) simp
  then show u: "unat (ucast n :: u64) = unat n" by (simp add: unsigned_ucast_eq take_bit_nat_eq_self)
  show "(ucast (ucast n :: u64) :: u32) = n"
    by (rule bit_word_eqI) (auto simp: bit_simps)
qed

text \<open>For a length below 4 GB it is one move.\<close>

lemma copy_memory_32: "copy_memory dst src (ucast (n :: u32)) m = ok (memmove_at dst src (ucast n) m)"
proof -
  have z: "unat n = 0 \<longleftrightarrow> (ucast n :: u64) = 0"
    by (simp add: ucast_up_32(1) flip: unat_eq_0)
  have w: "(of_nat (unat n) :: u64) = ucast n"
    by simp
  have "copy_parts (unat n) dst src (unat n) m = memmove_at dst src (ucast n) m"
    by (subst copy_parts.simps) (simp add: w)
  then show ?thesis
    unfolding copy_memory_def Let_def ucast_up_32 z by simp
qed

section \<open>Ranges\<close>

text \<open>The bytes of a range, and ranges without a common byte.\<close>

definition rg :: "paddr \<Rightarrow> nat \<Rightarrow> paddr set" where
  "rg p n = {a. unat (a - p) < n}"

lemma rgI: "j < n \<Longrightarrow> n \<le> 2 ^ 64 \<Longrightarrow> p + of_nat j \<in> rg p n"
  by (simp add: rg_def unat_of_nat_small)

lemma rg_iff: "n \<le> 2 ^ 64 \<Longrightarrow> a \<in> rg p n \<longleftrightarrow> (\<exists>j<n. a = p + of_nat j)"
proof
  assume "a \<in> rg p n"
  then have "unat (a - p) < n" "a = p + of_nat (unat (a - p))" by (simp_all add: rg_def)
  then show "\<exists>j<n. a = p + of_nat j" by blast
qed (auto simp: rgI)

lemma rg_mono: "m \<le> n \<Longrightarrow> rg p m \<subseteq> rg p n"
  by (auto simp: rg_def)

lemma rg_shift:
  assumes "unat d + n \<le> k" "k \<le> 2 ^ 64"
  shows "rg (p + d) n \<subseteq> rg p k"
proof
  fix a assume a: "a \<in> rg (p + d) n"
  have "unat (a - p) = unat ((a - (p + d)) + d)" by (simp add: algebra_simps)
  also have "\<dots> \<le> unat (a - (p + d)) + unat d" unfolding unat_word_ariths(1) by (rule mod_less_eq_dividend)
  finally show "a \<in> rg p k" using a assms by (simp add: rg_def)
qed

lemma memmove_at_in: "a \<in> rg d (unat n) \<Longrightarrow> memmove_at d s n m a = m (s + (a - d))"
  by (simp add: memmove_at_def rg_def word_less_nat_alt)

lemma memmove_at_out: "a \<notin> rg d (unat n) \<Longrightarrow> memmove_at d s n m a = m a"
  by (simp add: memmove_at_def rg_def word_less_nat_alt)

definition agree :: "paddr set \<Rightarrow> pmem \<Rightarrow> pmem \<Rightarrow> bool" where
  "agree A m m' \<longleftrightarrow> (\<forall>a\<in>A. m a = m' a)"

lemma agreeD: "agree A m m' \<Longrightarrow> a \<in> A \<Longrightarrow> m a = m' a"
  by (simp add: agree_def)

lemma agree_refl [simp]: "agree A m m"
  by (simp add: agree_def)

lemma agree_trans: "agree A m m' \<Longrightarrow> agree A m' m'' \<Longrightarrow> agree A m m''"
  by (simp add: agree_def)

lemma agree_mono: "agree A m m' \<Longrightarrow> B \<subseteq> A \<Longrightarrow> agree B m m'"
  by (auto simp: agree_def)

lemma ex_less_4: "(\<exists>j<4. P j) \<longleftrightarrow> P 0 \<or> P 1 \<or> P 2 \<or> P (3 :: nat)"
proof -
  have "j < 4 \<longleftrightarrow> j = 0 \<or> j = 1 \<or> j = 2 \<or> j = 3" for j :: nat by presburger
  then show ?thesis by metis
qed

lemma rg4: "a \<in> rg p 4 \<longleftrightarrow> a = p \<or> a = p + 1 \<or> a = p + 2 \<or> a = p + 3"
proof -
  have "a \<in> rg p 4 \<longleftrightarrow> (\<exists>j<4. a = p + of_nat j)" by (rule rg_iff) simp
  also have "\<dots> \<longleftrightarrow> a = p \<or> a = p + 1 \<or> a = p + 2 \<or> a = p + 3"
    unfolding ex_less_4 by simp
  finally show ?thesis .
qed

lemma st32_out: "a \<notin> rg p 4 \<Longrightarrow> st32 p v m a = m a"
  by (auto simp: st32_def rg4)

lemma ld32_agree: "agree (rg p 4) m m' \<Longrightarrow> ld32 m p = ld32 m' p"
  by (simp add: agree_def ld32_def rg4)

lemma byte_range: "n < 32 \<Longrightarrow> n < 8 \<or> 8 \<le> n \<and> n < 16 \<or> 16 \<le> n \<and> n < 24 \<or> 24 \<le> n \<and> n < (32 :: nat)"
  by linarith

lemma bytes_join:
  fixes v :: u32
  shows "ucast (ucast v :: u8) OR push_bit 8 (ucast (ucast (drop_bit 8 v) :: u8)) OR
    push_bit 16 (ucast (ucast (drop_bit 16 v) :: u8)) OR push_bit 24 (ucast (ucast (drop_bit 24 v) :: u8)) = v"
    (is "?w = v")
proof (rule bit_word_eqI)
  fix n assume "n < LENGTH(32)"
  then have "n < 32" by simp
  from byte_range [OF this] show "bit ?w n = bit v n"
    by (elim disjE) (auto simp: bit_simps)
qed

lemma ld32_st32: "ld32 (st32 p v m) p = v"
proof -
  have "p + 1 \<noteq> p" "p + 2 \<noteq> p" "p + 3 \<noteq> p" "p + 2 \<noteq> p + 1" "p + 3 \<noteq> p + 1" "p + 3 \<noteq> p + 2"
    by simp_all
  then have "st32 p v m p = ucast v" "st32 p v m (p + 1) = ucast (drop_bit 8 v)"
    "st32 p v m (p + 2) = ucast (drop_bit 16 v)" "st32 p v m (p + 3) = ucast (drop_bit 24 v)"
    by (simp_all add: st32_def)
  then show ?thesis unfolding ld32_def using bytes_join [of v] by simp
qed

lemma ld32_st32_other: "rg q 4 \<inter> rg p 4 = {} \<Longrightarrow> ld32 (st32 p v m) q = ld32 m q"
  by (rule ld32_agree) (simp add: agree_def st32_out disjoint_iff)

text \<open>A length that is a positive multiple of 4 GB has no low 32 bits: the call does not end.\<close>

lemma copy_memory_4g: "copy_memory dst src 0x100000000 m = hang"
  by (simp add: copy_memory_def)

section \<open>memcpy and memmove\<close>

text \<open>The loops of memcpy: four bytes at a time, sixteen times in a pass whose first round may be
  shorter (the switch that jumps into the loop), and byte by byte.  The state is destination,
  source and memory; the number of passes is kept in 32 bits.\<close>

type_synonym cpy = "paddr \<times> paddr \<times> pmem"

definition cpy4 :: "cpy \<Rightarrow> cpy" where
  "cpy4 st = (case st of (d, s, m) \<Rightarrow> (d + 4, s + 4, memmove_at d s 4 m))"

definition cpy1 :: "cpy \<Rightarrow> cpy" where
  "cpy1 st = (case st of (d, s, m) \<Rightarrow> (d + 1, s + 1, m(d := m s)))"

definition duff_first :: "u64 \<Rightarrow> nat" where
  "duff_first w = (if w mod 16 = 0 then 16 else unat (w mod 16))"

definition duff_words :: "u64 \<Rightarrow> cpy \<Rightarrow> cpy" where
  "duff_words nbytes st =
    (let w = drop_bit 2 nbytes;
         n = ucast ((w + 15) div 16) :: u32;
         st1 = (cpy4 ^^ duff_first w) st
     in ((cpy4 ^^ 16) ^^ unat (n - 1)) st1)"

definition memcpy_c :: "paddr \<Rightarrow> paddr \<Rightarrow> u64 \<Rightarrow> pmem \<Rightarrow> pmem" where
  "memcpy_c dst src nbytes m =
    (let (st, n) = (if nbytes \<ge> 4 \<and> src AND 3 = 0 \<and> dst AND 3 = 0
                    then (duff_words nbytes (dst, src, m), nbytes AND 3)
                    else ((dst, src, m), nbytes))
     in snd (snd ((cpy1 ^^ unat n) st)))"

primrec copy_back :: "nat \<Rightarrow> paddr \<Rightarrow> paddr \<Rightarrow> pmem \<Rightarrow> pmem" where
  "copy_back 0 d s m = m"
| "copy_back (Suc n) d s m = copy_back n d s (m(d + of_nat n := m (s + of_nat n)))"

definition memmove_c :: "paddr \<Rightarrow> paddr \<Rightarrow> u64 \<Rightarrow> pmem \<Rightarrow> pmem" where
  "memmove_c dest src len m =
    (if src < dest \<and> src + len > dest then copy_back (unat len) dest src m
     else memcpy_c dest src len m)"

text \<open>A move in two parts, the lower part first, is one move when the first part does not write
  what the second reads.\<close>

definition moved :: "paddr \<Rightarrow> paddr \<Rightarrow> nat \<Rightarrow> pmem \<Rightarrow> pmem" where
  "moved d s n m = (\<lambda>a. if a \<in> rg d n then m (s + (a - d)) else m a)"

lemma moved_memmove: "memmove_at d s n m = moved d s (unat n) m"
  by (simp add: moved_def memmove_at_def rg_def word_less_nat_alt)

definition upward :: "paddr \<Rightarrow> paddr \<Rightarrow> nat \<Rightarrow> bool" where
  "upward d s n \<longleftrightarrow> (\<forall>i<n. \<forall>j<i. s + of_nat i \<noteq> d + of_nat j)"

lemma upward_mono: "upward d s n \<Longrightarrow> k \<le> n \<Longrightarrow> upward d s k"
  by (auto simp: upward_def)

lemma moved_step:
  assumes up: "upward d s (k + n)" and kn: "k + n < 2 ^ 64"
  shows "moved (d + of_nat k) (s + of_nat k) n (moved d s k m) = moved d s (k + n) m"
proof
  fix a
  have uk: "unat (of_nat k :: u64) = k" using kn by (simp add: unat_of_nat_small)
  show "moved (d + of_nat k) (s + of_nat k) n (moved d s k m) a = moved d s (k + n) m a"
  proof (cases "a \<in> rg (d + of_nat k) n")
    case True
    then obtain j where j: "j < n" "a = d + of_nat k + of_nat j" using kn by (auto simp: rg_iff)
    have in1: "a \<in> rg d (k + n)"
      using rg_shift [of "of_nat k" n "k + n" d] True kn uk by auto
    have "s + of_nat (k + j) \<notin> rg d k"
    proof
      assume "s + of_nat (k + j) \<in> rg d k"
      then obtain i where "i < k" "s + of_nat (k + j) = d + of_nat i" using kn by (auto simp: rg_iff)
      then show False using up j(1) unfolding upward_def
        by (metis add_strict_left_mono trans_less_add1)
    qed
    moreover have "s + of_nat k + (a - (d + of_nat k)) = s + of_nat (k + j)" by (simp add: j(2))
    moreover have "s + (a - d) = s + of_nat (k + j)" by (simp add: j(2))
    ultimately show ?thesis using True in1 by (simp add: moved_def)
  next
    case out: False
    have "a \<in> rg d (k + n) \<longleftrightarrow> a \<in> rg d k"
    proof
      assume "a \<in> rg d (k + n)"
      then obtain j where j: "j < k + n" "a = d + of_nat j" using kn by (auto simp: rg_iff)
      have "j < k"
      proof (rule ccontr)
        assume "\<not> j < k"
        then have "a = d + of_nat k + of_nat (j - k)" "j - k < n" using j by (simp_all flip: of_nat_add)
        then show False using out kn by (simp add: rgI)
      qed
      then show "a \<in> rg d k" using j kn by (simp add: rgI)
    qed (use rg_mono [of k "k + n" d] in auto)
    then show ?thesis using out by (simp add: moved_def)
  qed
qed

lemma moved_0: "moved d s 0 m = m"
  by (simp add: moved_def rg_def)

lemma moved_1: "moved d s 1 m = m(d := m s)"
proof -
  have "a \<in> rg d 1 \<longleftrightarrow> a = d" for a by (simp add: rg_def unat_eq_0)
  then show ?thesis by (auto simp: moved_def fun_eq_iff)
qed

lemma cpy1_apply: "cpy1 (d, s, m) = (d + 1, s + 1, moved d s 1 m)"
  by (simp only: cpy1_def moved_1 prod.case)

lemma cpy4_apply: "cpy4 (d, s, m) = (d + 4, s + 4, moved d s 4 m)"
proof -
  have "unat (4 :: u64) = 4" by simp
  then show ?thesis by (simp only: cpy4_def moved_memmove prod.case)
qed

lemma cpy1_steps:
  "upward d s n \<Longrightarrow> n < 2 ^ 64 \<Longrightarrow> (cpy1 ^^ n) (d, s, m) = (d + of_nat n, s + of_nat n, moved d s n m)"
proof (induction n)
  case (Suc n)
  have ih: "(cpy1 ^^ n) (d, s, m) = (d + of_nat n, s + of_nat n, moved d s n m)"
    using Suc upward_mono [of d s "Suc n" n] by simp
  have "moved (d + of_nat n) (s + of_nat n) 1 (moved d s n m) = moved d s (n + 1) m"
    by (rule moved_step) (use Suc.prems in simp_all)
  moreover have "(cpy1 ^^ Suc n) (d, s, m) = cpy1 ((cpy1 ^^ n) (d, s, m))" by simp
  ultimately show ?case unfolding ih cpy1_apply by simp
qed (simp add: moved_0)

lemma cpy4_steps:
  "upward d s (4 * n) \<Longrightarrow> 4 * n < 2 ^ 64 \<Longrightarrow>
    (cpy4 ^^ n) (d, s, m) = (d + of_nat (4 * n), s + of_nat (4 * n), moved d s (4 * n) m)"
proof (induction n)
  case (Suc n)
  have ih: "(cpy4 ^^ n) (d, s, m) = (d + of_nat (4 * n), s + of_nat (4 * n), moved d s (4 * n) m)"
    using Suc upward_mono [of d s "4 * Suc n" "4 * n"] by simp
  have "moved (d + of_nat (4 * n)) (s + of_nat (4 * n)) 4 (moved d s (4 * n) m) = moved d s (4 * n + 4) m"
    by (rule moved_step) (use Suc.prems in \<open>simp_all add: add.commute\<close>)
  moreover have "(cpy4 ^^ Suc n) (d, s, m) = cpy4 ((cpy4 ^^ n) (d, s, m))" by simp
  ultimately show ?case unfolding ih cpy4_apply by (simp add: algebra_simps)
qed (simp add: moved_0)

lemma duff_total:
  fixes w :: nat
  assumes "0 < w"
  shows "(if w mod 16 = 0 then 16 else w mod 16) + 16 * ((w + 15) div 16 - 1) = w"
proof -
  define q r where "q = w div 16" and "r = w mod 16"
  have w: "w = 16 * q + r" and r: "r < 16" by (simp_all add: q_def r_def)
  show ?thesis
  proof (cases "r = 0")
    case True
    then show ?thesis using assms by (simp add: w)
  next
    case False
    have "(r + 15) div 16 = 1" using r False by (simp add: div_nat_eqI)
    then have "(w + 15) div 16 = q + 1" by (simp add: w add.assoc)
    then show ?thesis using r False by (simp add: w)
  qed
qed

lemma duff_steps:
  assumes up: "upward d s (unat n)" and n: "4 \<le> n" "n < 2 ^ 34"
  shows "duff_words n (d, s, m) =
    (d + of_nat (4 * (unat n div 4)), s + of_nat (4 * (unat n div 4)), moved d s (4 * (unat n div 4)) m)"
proof -
  let ?w = "unat n div 4"
  have nn: "4 \<le> unat n" "unat n < 2 ^ 34" using n by (simp_all add: word_le_nat_alt word_less_nat_alt)
  have w: "unat (drop_bit 2 n) = ?w" by (simp add: unat_drop_bit)
  have w2: "?w < 2 ^ 32" "0 < ?w" using nn by simp_all
  have k: "unat ((drop_bit 2 n + 15) div 16) = (?w + 15) div 16"
    using w2 by (simp add: unat_div unat_word_ariths w)
  have k32: "unat (ucast ((drop_bit 2 n + 15) div 16) :: u32) = (?w + 15) div 16"
  proof -
    have "(?w + 15) div 16 < 2 ^ 32" using w2 by simp
    then show ?thesis by (simp add: unsigned_ucast_eq k take_bit_nat_eq_self)
  qed
  have k1: "unat (ucast ((drop_bit 2 n + 15) div 16) - 1 :: u32) = (?w + 15) div 16 - 1"
    using k32 w2 by (subst unat_sub) (simp_all add: word_le_nat_alt k32)
  have f: "duff_first (drop_bit 2 n) = (if ?w mod 16 = 0 then 16 else ?w mod 16)"
  proof -
    have "unat (drop_bit 2 n mod 16) = ?w mod 16" by (simp add: unat_mod w)
    moreover have "drop_bit 2 n mod 16 = 0 \<longleftrightarrow> unat (drop_bit 2 n mod 16) = 0" by (simp add: unat_eq_0)
    ultimately show ?thesis by (simp add: duff_first_def)
  qed
  have "duff_words n (d, s, m) = (cpy4 ^^ (16 * ((?w + 15) div 16 - 1) + duff_first (drop_bit 2 n))) (d, s, m)"
    by (simp add: duff_words_def Let_def k1 funpow_mult funpow_add mult.commute)
  also have "16 * ((?w + 15) div 16 - 1) + duff_first (drop_bit 2 n) = ?w"
    unfolding f using duff_total [OF w2(2)] by (simp add: add.commute)
  also have "(cpy4 ^^ ?w) (d, s, m) = (d + of_nat (4 * ?w), s + of_nat (4 * ?w), moved d s (4 * ?w) m)"
    by (rule cpy4_steps) (use upward_mono [OF up] nn in simp_all)
  finally show ?thesis .
qed

lemma memcpy_c_moved:
  assumes up: "upward d s (unat n)" and n: "n < 2 ^ 34"
  shows "memcpy_c d s n m = moved d s (unat n) m"
proof (cases "n \<ge> 4 \<and> s AND 3 = 0 \<and> d AND 3 = 0")
  case False
  have "unat n < 2 ^ 64" using unsigned_less [of n] by simp
  then show ?thesis
    unfolding memcpy_c_def if_not_P [OF False] using cpy1_steps [OF up, of m] by simp
next
  case True
  let ?k = "4 * (unat n div 4)" and ?r = "unat n mod 4"
  have r: "unat (n AND 3) = ?r"
  proof -
    have "n AND 3 = take_bit 2 n" by (simp add: take_bit_eq_mask mask_eq_exp_minus_1)
    then show ?thesis by (simp add: take_bit_eq_mod unat_mod)
  qed
  have kr: "?k + ?r = unat n" by simp
  have k64: "?k + ?r < 2 ^ 64" using unsigned_less [of n] kr by simp
  have "upward (d + of_nat ?k) (s + of_nat ?k) ?r"
    unfolding upward_def
  proof (intro allI impI notI)
    fix i j assume "i < ?r" "j < i" "s + of_nat ?k + of_nat i = d + of_nat ?k + of_nat j"
    then have "s + of_nat i = d + of_nat j" "i < unat n" using mod_less_eq_dividend [of "unat n" 4]
      by (simp_all add: add.assoc add.left_commute)
    then show False using up \<open>j < i\<close> by (auto simp: upward_def)
  qed
  then have "snd (snd ((cpy1 ^^ ?r) (d + of_nat ?k, s + of_nat ?k, moved d s ?k m))) =
      moved (d + of_nat ?k) (s + of_nat ?k) ?r (moved d s ?k m)"
    using k64 by (subst cpy1_steps) simp_all
  also have "\<dots> = moved d s (unat n) m"
    using moved_step [of d s ?k ?r m] up k64 kr by simp
  finally show ?thesis
    using True n by (simp add: memcpy_c_def duff_steps [OF up] r)
qed

lemma copy_back_moved:
  assumes "\<And>i j. i < j \<Longrightarrow> j < n \<Longrightarrow> s + of_nat i \<noteq> d + of_nat j" "n < 2 ^ 64"
  shows "copy_back n d s m = moved d s n m"
  using assms
proof (induction n arbitrary: m)
  case (Suc n)
  let ?m = "m(d + of_nat n := m (s + of_nat n))"
  have ih: "copy_back n d s ?m = moved d s n ?m" by (rule Suc.IH) (use Suc.prems in auto)
  have "moved d s n ?m a = moved d s (Suc n) m a" for a
  proof (cases "a \<in> rg d n")
    case True
    then obtain i where i: "i < n" "a = d + of_nat i" using Suc.prems(2) by (auto simp: rg_iff)
    have "s + (a - d) \<noteq> d + of_nat n" using Suc.prems(1) [of i n] i by simp
    moreover have "a \<in> rg d (Suc n)" using True rg_mono [of n "Suc n" d] by auto
    ultimately show ?thesis using True by (simp add: moved_def)
  next
    case False
    have "a \<in> rg d (Suc n) \<longleftrightarrow> a = d + of_nat n"
      using False Suc.prems(2) by (auto simp: rg_iff less_Suc_eq)
    then show ?thesis using False by (auto simp: moved_def)
  qed
  then show ?case using ih by (simp add: fun_eq_iff)
qed (simp add: moved_0)

text \<open>memmove.c with memcpy.c moves the bytes as if all were read before any is written, whatever
  the overlap and the alignment, when neither block wraps.\<close>

lemma no_wrap:
  fixes s d :: u64
  assumes "unat s + n < 2 ^ 64" "unat d + n < 2 ^ 64" "i < n" "j < n" "s + of_nat i = d + of_nat j"
  shows "unat s + i = unat d + j"
proof -
  have "(of_nat (unat s + i) :: u64) = of_nat (unat d + j)" using assms(5) by simp
  moreover have "unat s + i < 2 ^ LENGTH(64)" "unat d + j < 2 ^ LENGTH(64)" using assms by simp_all
  ultimately show ?thesis by (metis unat_of_nat_small)
qed

lemma memmove_c_moved:
  assumes w: "unat src + unat len < 2 ^ 64" "unat dest + unat len < 2 ^ 64" and len: "len < 2 ^ 34"
  shows "memmove_c dest src len m = memmove_at dest src len m"
proof -
  have sl: "unat (src + len) = unat src + unat len"
    using w(1) by (simp add: unat_word_ariths)
  note nw = no_wrap [OF w]
  show ?thesis
  proof (cases "src < dest \<and> src + len > dest")
    case True
    have "copy_back (unat len) dest src m = moved dest src (unat len) m"
    proof (rule copy_back_moved)
      fix i j assume ij: "i < j" "j < unat len"
      show "src + of_nat i \<noteq> dest + of_nat j"
        using nw [of i j] ij True by (auto simp: word_less_nat_alt)
    qed (use w in simp)
    then show ?thesis using True by (simp add: memmove_c_def moved_memmove)
  next
    case False
    have "upward dest src (unat len)"
      unfolding upward_def
    proof (intro allI impI notI)
      fix i j assume ij: "i < unat len" "j < i" "src + of_nat i = dest + of_nat j"
      then have "unat src + i = unat dest + j" using nw [of i j] by simp
      then show False using ij False sl by (auto simp: word_less_nat_alt)
    qed
    then show ?thesis using False memcpy_c_moved len by (auto simp: memmove_c_def moved_memmove)
  qed
qed

section \<open>Properties\<close>

text \<open>C34: memmove, with the unrolled loop of memcpy it falls back on, moves a block as if every
  byte were read before the first is written: whatever the overlap of the blocks, their alignment
  and the remainder of the length, and the memory outside the destination stays.\<close>

theorem memmove_c_moves:
  assumes "unat src + unat len < 2 ^ 64" "unat dest + unat len < 2 ^ 64" "len < 2 ^ 34"
  shows "(\<forall>i<unat len. memmove_c dest src len m (dest + of_nat i) = m (src + of_nat i)) \<and>
    (\<forall>a. a \<notin> rg dest (unat len) \<longrightarrow> memmove_c dest src len m a = m a)"
  using assms(1) by (auto simp: memmove_c_moved [OF assms] memmove_at_in memmove_at_out rgI)

lemma memmove_c_moves_witness:
  "memmove_c 0x1003 0x1000 70 (\<lambda>a. ucast a) 0x1043 = (0x40 :: u8) \<and>
   memmove_c 0x1000 0x1008 77 (\<lambda>a. ucast a) 0x104c = (0x54 :: u8)"
proof -
  have "memmove_c 0x1003 0x1000 70 (\<lambda>a. ucast a) (0x1003 + of_nat 64) = (ucast (0x1000 + of_nat 64 :: u64) :: u8)"
    by (rule memmove_c_moves [of "0x1000" 70 "0x1003" "\<lambda>a. ucast a", THEN conjunct1, THEN spec, THEN mp]) simp_all
  moreover have "memmove_c 0x1000 0x1008 77 (\<lambda>a. ucast a) (0x1000 + of_nat 76) = (ucast (0x1008 + of_nat 76 :: u64) :: u8)"
    by (rule memmove_c_moves [of "0x1008" 77 "0x1000" "\<lambda>a. ucast a", THEN conjunct1, THEN spec, THEN mp]) simp_all
  ultimately show ?thesis by simp
qed

end
