(* ===== verification/Restore_Ifs.thy ===== *)
theory Restore_Ifs
  imports Ram Physmem
begin

text \<open>
  startup/lib/restore\_ifs.c with public/sys/restore\_ifs.h: when memory survives a reset, the image
  in memory is made good again instead of being loaded.  The two information structures are bytes of
  memory at the offsets that the header gives them; a flag of the startup header says whether the
  image is compressed, and the offsets in ELF headers and in the image header, which come from
  outside the tree, are arguments.  The messages are left out.
\<close>

section \<open>Data\<close>

definition RIFS_FLAG_ENABLE :: u32 where "RIFS_FLAG_ENABLE = 0x01"
definition RIFS_FLAG_CKSUM :: u32 where "RIFS_FLAG_CKSUM = 0x02"
definition RIFS_FLAG_IFS2 :: u32 where "RIFS_FLAG_IFS2 = 0x04"
definition RIFS_FLAG_IFS2_RESTORE :: u32 where "RIFS_FLAG_IFS2_RESTORE = 0x08"
definition RIFS_FLAG_IFS2_CKSUM :: u32 where "RIFS_FLAG_IFS2_CKSUM = 0x10"
definition RIFS_FLAG_IFS2_SRC :: u32 where "RIFS_FLAG_IFS2_SRC = 0x20"
definition RIFS_FLAG_IFS2_DST :: u32 where "RIFS_FLAG_IFS2_DST = 0x40"

definition RIFS_SIGNATURE :: "u8 list" where
  "RIFS_SIGNATURE = map (\<lambda>c. of_nat (of_char c)) ''rifsboot''"

definition RIFS_MAX_BOOTABLE :: nat where
  "RIFS_MAX_BOOTABLE = 5"

text \<open>Offsets in struct restore\_ifs\_info, with the alignment of \_pack64.h, and the sizes of the
  two structures.\<close>

definition RI_CKSUM :: u64 where "RI_CKSUM = 8"
definition RI_IMAGE_SIZE :: u64 where "RI_IMAGE_SIZE = 12"
definition ri_elf :: "nat \<Rightarrow> u64" where "ri_elf i = 16 + 16 * of_nat i"
definition RI_NUMBOOT :: u64 where "RI_NUMBOOT = 96"
definition SZ_INFO :: nat where "SZ_INFO = 104"
definition SZ_INFO2 :: nat where "SZ_INFO2 = 16"

text \<open>What the code reads and does not change: the images and the startup header, and what
  sys/image.h fixes: the signature of an image file system and the offset of its field
  image\_size.\<close>

record rifs_env =
  re_ram :: ram_env
  re_full_image :: paddr
  re_full_imagefs :: paddr
  re_startup_size :: u32
  re_stored_size :: u32
  re_compressed :: bool
  re_ifs_sig :: "u8 list"
  re_image_size_off :: u64

record rifs_state =
  rf_ram :: ram_state
  rf_mem :: pmem
  rf_flag :: u32
  rf_info :: paddr
  rf_info2 :: paddr
  rf_src :: paddr
  rf_dst :: paddr
  rf_size :: u32

definition flag_set :: "rifs_state \<Rightarrow> u32 \<Rightarrow> bool" where
  "flag_set st f \<longleftrightarrow> rf_flag st AND f \<noteq> 0"

definition get_mem :: "paddr \<Rightarrow> u64 \<Rightarrow> u32 \<Rightarrow> rifs_env \<Rightarrow> rifs_state \<Rightarrow> (paddr \<times> rifs_state) res" where
  "get_mem addr sz align env st =
    and_then (alloc_ram (re_ram env) addr sz align (rf_ram st)) (\<lambda>(a, ram). ok (a, st\<lparr>rf_ram := ram\<rparr>))"

definition move :: "paddr \<Rightarrow> paddr \<Rightarrow> u32 \<Rightarrow> rifs_state \<Rightarrow> rifs_state res" where
  "move dst src n st =
    and_then (copy_memory dst src (ucast n) (rf_mem st)) (\<lambda>m. ok (st\<lparr>rf_mem := m\<rparr>))"

section \<open>Checksums and signatures\<close>

fun rifs_checksum :: "pmem \<Rightarrow> paddr \<Rightarrow> nat \<Rightarrow> u32" where
  "rifs_checksum m p len = (if len = 0 then 0 else ld32 m p + rifs_checksum m (p + 4) (len - 4))"

declare rifs_checksum.simps [simp del]

definition same_bytes :: "pmem \<Rightarrow> paddr \<Rightarrow> u8 list \<Rightarrow> bool" where
  "same_bytes m p bs \<longleftrightarrow> (\<forall>i<length bs. m (p + of_nat i) = bs ! i)"

definition check_ifs_signature :: "rifs_env \<Rightarrow> pmem \<Rightarrow> paddr \<Rightarrow> bool" where
  "check_ifs_signature env m p \<longleftrightarrow> same_bytes m p (take 7 (re_ifs_sig env))"

definition check_rifs_signature :: "pmem \<Rightarrow> paddr \<Rightarrow> bool" where
  "check_rifs_signature m p \<longleftrightarrow> same_bytes m p RIFS_SIGNATURE \<and> rifs_checksum m p SZ_INFO = 0"

fun put_list :: "paddr \<Rightarrow> u8 list \<Rightarrow> pmem \<Rightarrow> pmem" where
  "put_list p [] m = m"
| "put_list p (b # bs) m = put_list (p + 1) bs (m(p := b))"

definition image_size_at :: "rifs_env \<Rightarrow> pmem \<Rightarrow> paddr \<Rightarrow> u32" where
  "image_size_at env m p = ld32 m (p + re_image_size_off env)"

text \<open>The field cksum is the negated sum of the structure.  The C expression subtracts the sum,
  extended to 64 bits, from 2 to the 32 and keeps 32 bits of it.\<close>

definition put_cksum :: "paddr \<Rightarrow> nat \<Rightarrow> pmem \<Rightarrow> pmem" where
  "put_cksum p sz m =
    st32 (p + RI_CKSUM)
      (ucast (0xFFFFFFFF AND (0x100000000 - scast (rifs_checksum m p sz) :: u64))) m"

section \<open>The second image\<close>

definition rifs_restore_ifs2 :: "rifs_env \<Rightarrow> rifs_state \<Rightarrow> (bool \<times> rifs_state) res" where
  "rifs_restore_ifs2 env st =
    and_then (get_mem NULL_PADDR (of_nat SZ_INFO2) 8 env st) (\<lambda>(paddr, st).
      let st = st\<lparr>rf_info2 := paddr\<rparr>;
          m = rf_mem st
      in ok (check_ifs_signature env m (rf_dst st) \<and> rifs_checksum m paddr SZ_INFO2 = 0 \<and>
             (flag_set st RIFS_FLAG_IFS2_CKSUM \<longrightarrow>
                rifs_checksum m (rf_dst st) (unat (ld32 m (paddr + RI_IMAGE_SIZE))) = 0), st))"

definition save_ifs2_info :: "rifs_env \<Rightarrow> rifs_state \<Rightarrow> rifs_state" where
  "save_ifs2_info env st =
    (let p = rf_info2 st;
         m1 = put_list p RIFS_SIGNATURE (rf_mem st);
         m2 = st32 (p + RI_IMAGE_SIZE) (image_size_at env m1 (rf_dst st)) m1;
         m3 = st32 (p + RI_CKSUM) 0 m2
     in st\<lparr>rf_mem := put_cksum p SZ_INFO2 m3\<rparr>)"

definition rifs_load_ifs2 :: "rifs_env \<Rightarrow> rifs_state \<Rightarrow> rifs_state res" where
  "rifs_load_ifs2 env st =
    (let st1 = if flag_set st RIFS_FLAG_IFS2_SRC then st
               else st\<lparr>rf_src := re_full_imagefs env + ucast (re_stored_size env) - ucast (re_startup_size env)\<rparr>
     in and_then (if flag_set st1 RIFS_FLAG_IFS2_DST
                  then and_then (get_mem (rf_dst st1) (ucast (rf_size st1)) 0x1000 env st1) (\<lambda>(_, st2). ok st2)
                  else ok st1) (\<lambda>st2.
        and_then (move (rf_dst st2) (rf_src st2) (rf_size st2) st2) (\<lambda>st3.
          ok (if flag_set st3 RIFS_FLAG_IFS2_RESTORE then save_ifs2_info env st3 else st3))))"

definition load_ifs2_nonbootable :: "rifs_env \<Rightarrow> rifs_state \<Rightarrow> rifs_state res" where
  "load_ifs2_nonbootable env st =
    and_then (if flag_set st RIFS_FLAG_IFS2_DST then ok st
              else and_then (get_mem NULL_PADDR (ucast (rf_size st)) 0x1000 env st)
                     (\<lambda>(a, st1). ok (st1\<lparr>rf_dst := a\<rparr>))) (\<lambda>st1.
      if \<not> flag_set st1 RIFS_FLAG_IFS2_RESTORE then rifs_load_ifs2 env st1
      else and_then (rifs_restore_ifs2 env st1) (\<lambda>(good, st2).
             if good then ok st2 else rifs_load_ifs2 env st2))"

section \<open>The bootable image\<close>

definition elf_offset :: "pmem \<Rightarrow> paddr \<Rightarrow> nat \<Rightarrow> u32" where
  "elf_offset m p i = ld32 m (p + ri_elf i)"
definition elf_size :: "pmem \<Rightarrow> paddr \<Rightarrow> nat \<Rightarrow> u32" where
  "elf_size m p i = ld32 m (p + ri_elf i + 4)"
definition elf_data :: "pmem \<Rightarrow> paddr \<Rightarrow> nat \<Rightarrow> u64" where
  "elf_data m p i = ld64 m (p + ri_elf i + 8)"

text \<open>The loop over the executables; an index past the array is a stray access.  Its place in the
  image and where its data comes from.\<close>

definition data_dst :: "rifs_env \<Rightarrow> u32 \<Rightarrow> paddr" where
  "data_dst env off = re_full_image env + ucast (re_startup_size env) + ucast off"

function restore_loop :: "nat \<Rightarrow> rifs_env \<Rightarrow> rifs_state \<Rightarrow> rifs_state res" where
  "restore_loop i env st =
    (let m = rf_mem st; p = rf_info st in
     if \<not> of_nat i < ld32 m (p + RI_NUMBOOT) then ok st
     else if RIFS_MAX_BOOTABLE \<le> i then stray
     else let off = elf_offset m p i;
              src = if re_compressed env then elf_data m p i else re_full_imagefs env + ucast off
          in case move (data_dst env off) src (elf_size m p i) st of
               Inl e \<Rightarrow> Inl e
             | Inr st' \<Rightarrow> restore_loop (i + 1) env st')"
  by auto
termination
  by (relation "measure (\<lambda>(i, _). RIFS_MAX_BOOTABLE - i)") (auto simp: not_le)

declare restore_loop.simps [simp del]

definition zero_elf :: "paddr \<Rightarrow> nat \<Rightarrow> pmem \<Rightarrow> pmem" where
  "zero_elf p i m = st64 (p + ri_elf i + 8) 0 (st32 (p + ri_elf i + 4) 0 (st32 (p + ri_elf i) 0 m))"

definition rifs_init :: "paddr \<Rightarrow> pmem \<Rightarrow> pmem" where
  "rifs_init p m =
    fold (zero_elf p) [0..<RIFS_MAX_BOOTABLE]
      (st32 (p + RI_IMAGE_SIZE) 0 (st32 (p + RI_NUMBOOT) 0 (st32 (p + RI_CKSUM) 0
        (put_list p RIFS_SIGNATURE m))))"

definition rifs_restore_ifs :: "rifs_env \<Rightarrow> paddr \<Rightarrow> rifs_state \<Rightarrow> (bool \<times> rifs_state) res" where
  "rifs_restore_ifs env ifs_paddr st =
    and_then (get_mem NULL_PADDR (of_nat SZ_INFO) 8 env st) (\<lambda>(paddr, st).
      let st = st\<lparr>rf_info := paddr\<rparr>
      in and_then
           (if check_ifs_signature env (rf_mem st) ifs_paddr \<and> check_rifs_signature (rf_mem st) paddr
            then and_then (restore_loop 0 env st) (\<lambda>st.
                   ok (flag_set st RIFS_FLAG_CKSUM \<longrightarrow>
                         rifs_checksum (rf_mem st) ifs_paddr (unat (ld32 (rf_mem st) (paddr + RI_IMAGE_SIZE))) = 0, st))
            else ok (False, st))
           (\<lambda>(good, st). ok (good, st\<lparr>rf_mem := rifs_init paddr (rf_mem st)\<rparr>)))"

definition rifs_set_cksum :: "rifs_env \<Rightarrow> paddr \<Rightarrow> rifs_state \<Rightarrow> rifs_state" where
  "rifs_set_cksum env ifs_hdr st =
    (let p = rf_info st;
         m1 = st32 (p + RI_IMAGE_SIZE) (image_size_at env (rf_mem st) ifs_hdr) (rf_mem st)
     in st\<lparr>rf_mem := put_cksum p SZ_INFO m1\<rparr>)"

section \<open>The writable data of an executable\<close>

text \<open>What sys/elf.h fixes: offsets of fields in the headers of either class, and constants.\<close>

record elf_lay =
  eo_phoff :: u64
  eo_phnum :: u64
  eo_phentsize :: u64
  po_type :: u64
  po_flags :: u64
  po_offset :: u64
  po_filesz :: u64

record elf_abi =
  ea_mag :: "u8 list"
  ea_class_off :: u64
  ea_class64 :: u8
  ea_64 :: elf_lay
  ea_32 :: elf_lay
  ea_PT_LOAD :: u32
  ea_PF_W :: u32

text \<open>The loop over the program headers.  Offsets into the file are kept in 32 bits; the fields
  offset and size are wider in the 64-bit class and are cut.\<close>

fun find_rw :: "elf_abi \<Rightarrow> elf_lay \<Rightarrow> pmem \<Rightarrow> paddr \<Rightarrow> nat \<Rightarrow> u32 \<Rightarrow> u16 \<Rightarrow> (u32 \<times> u32) option" where
  "find_rw A L m ptr 0 off esz = None"
| "find_rw A L m ptr (Suc n) off esz =
    (let ph = ptr + ucast off in
     if ld32 m (ph + po_type L) = ea_PT_LOAD A \<and> ld32 m (ph + po_flags L) AND ea_PF_W A \<noteq> 0
     then Some (ld32 m (ph + po_offset L), ld32 m (ph + po_filesz L))
     else find_rw A L m ptr n (off + ucast esz) esz)"

definition rifs_readelf :: "elf_abi \<Rightarrow> pmem \<Rightarrow> paddr \<Rightarrow> (u32 \<times> u32) option" where
  "rifs_readelf A m paddr =
    (if \<not> same_bytes m paddr (take 4 (ea_mag A)) then None
     else let L = if m (paddr + ea_class_off A) = ea_class64 A then ea_64 A else ea_32 A
          in find_rw A L m paddr (unat (ld16 m (paddr + eo_phnum L))) (ld32 m (paddr + eo_phoff L))
               (ld16 m (paddr + eo_phentsize L)))"

definition rifs_save_elf32data ::
  "rifs_env \<Rightarrow> elf_abi \<Rightarrow> paddr \<Rightarrow> u32 \<Rightarrow> nat \<Rightarrow> rifs_state \<Rightarrow> (bool \<times> rifs_state) res" where
  "rifs_save_elf32data env A addr file_off numboot st =
    (if RIFS_MAX_BOOTABLE \<le> numboot then ok (False, st)
     else case rifs_readelf A (rf_mem st) addr of
       None \<Rightarrow> ok (False, st)
     | Some (off, sz) \<Rightarrow>
         let p = rf_info st;
             m1 = st32 (p + RI_NUMBOOT) (ld32 (rf_mem st) (p + RI_NUMBOOT) + 1) (rf_mem st);
             m2 = st32 (p + ri_elf numboot) (file_off + off) m1;
             m3 = st32 (p + ri_elf numboot + 4) sz m2;
             st1 = st\<lparr>rf_mem := m3\<rparr>
         in if re_compressed env then
              and_then (get_mem NULL_PADDR (ucast (elf_size m3 p numboot)) 8 env st1) (\<lambda>(data, st2).
                let st3 = st2\<lparr>rf_mem := st64 (p + ri_elf numboot + 8) data (rf_mem st2)\<rparr>;
                    m = rf_mem st3
                in and_then (move (elf_data m p numboot) (data_dst env (elf_offset m p numboot))
                               (elf_size m p numboot) st3)
                     (\<lambda>st4. ok (True, st4)))
            else ok (True, st1))"

section \<open>Sums of words\<close>

lemma neg_sum: "ucast (0xFFFFFFFF AND (0x100000000 - scast s :: u64)) = (- s :: u32)"
proof -
  have a: "ucast (x AND y :: u64) = (ucast x AND ucast y :: u32)" for x y
    by (rule bit_word_eqI) (simp add: bit_simps)
  have b: "ucast (x - y :: u64) = (ucast x - ucast y :: u32)" for x y
    by transfer (simp add: take_bit_diff min_def flip: take_bit_diff [of 32 "take_bit 64 _" "take_bit 64 _"])
  have c: "ucast (scast s :: u64) = s"
    by (rule bit_word_eqI) (simp add: bit_simps)
  have d: "ucast (0xFFFFFFFF :: u64) = (- 1 :: u32)" "ucast (0x100000000 :: u64) = (0 :: u32)"
    by simp_all
  show ?thesis unfolding a b c d by simp
qed

definition n_words :: "nat \<Rightarrow> nat" where
  "n_words n = (n + 3) div 4"

lemma cksum_sum: "rifs_checksum m p n = (\<Sum>j<n_words n. ld32 m (p + 4 * of_nat j))"
proof (induction m p n rule: rifs_checksum.induct)
  case (1 m p n)
  show ?case
  proof (cases "n = 0")
    case True
    then show ?thesis by (simp add: rifs_checksum.simps n_words_def)
  next
    case False
    have "n_words n = Suc (n_words (n - 4))" using False unfolding n_words_def by presburger
    then show ?thesis
      using 1 [OF False] False
      by (subst rifs_checksum.simps) (simp add: sum.lessThan_Suc_shift algebra_simps del: sum.lessThan_Suc)
  qed
qed

lemma unat_4: "j < 2 ^ 62 \<Longrightarrow> unat (4 * of_nat j :: u64) = 4 * j"
proof -
  assume "j < 2 ^ 62"
  then have "4 * j < 2 ^ LENGTH(64)" by simp
  then have "unat (of_nat (4 * j) :: u64) = 4 * j" by (rule unat_of_nat_small)
  then show ?thesis by simp
qed

lemma word_apart:
  assumes "j < 2 ^ 61" "k < 2 ^ 61" "j \<noteq> k"
  shows "rg (p + 4 * of_nat j) 4 \<inter> rg (p + 4 * of_nat k) 4 = {}"
proof -
  have less: "rg (p + 4 * of_nat j) 4 \<inter> rg (p + 4 * of_nat k) 4 = {}" if "j < k" "k < 2 ^ 61" for j k
  proof (rule ccontr)
    assume "rg (p + 4 * of_nat j) 4 \<inter> rg (p + 4 * of_nat k) 4 \<noteq> {}"
    then obtain x y where x: "x < 4" "y < 4" "p + 4 * of_nat j + of_nat x = p + 4 * of_nat k + (of_nat y :: u64)"
      by (auto simp: rg_iff)
    then have "of_nat (4 * j + x) = (of_nat (4 * k + y) :: u64)" by (simp add: algebra_simps)
    moreover have "4 * j + x < 2 ^ LENGTH(64)" "4 * k + y < 2 ^ LENGTH(64)" using x that by simp_all
    ultimately have "4 * j + x = 4 * k + y" by (metis unat_of_nat_small)
    then show False using x that by linarith
  qed
  show ?thesis using less [of j k] less [of k j] assms by (cases "j < k") auto
qed

lemma cksum_st32:
  assumes "j < n_words n" "n < 2 ^ 61"
  shows "rifs_checksum (st32 (p + 4 * of_nat j) v m) p n =
    rifs_checksum m p n - ld32 m (p + 4 * of_nat j) + v"
proof -
  let ?J = "{..<n_words n}" and ?m = "st32 (p + 4 * of_nat j) v m"
  have nw: "n_words n < 2 ^ 61" using assms(2) unfolding n_words_def by simp
  have j: "j \<in> ?J" "finite ?J" using assms by auto
  have "ld32 ?m (p + 4 * of_nat k) = ld32 m (p + 4 * of_nat k)" if "k \<in> ?J - {j}" for k
    by (rule ld32_st32_other) (use that nw assms(1) in \<open>intro word_apart; simp\<close>)
  then have "(\<Sum>k\<in>?J - {j}. ld32 ?m (p + 4 * of_nat k)) = (\<Sum>k\<in>?J - {j}. ld32 m (p + 4 * of_nat k))"
    by (rule sum.cong [OF refl])
  then show ?thesis
    unfolding cksum_sum sum.remove [OF j(2,1)] ld32_st32 by simp
qed

lemma word_range:
  assumes "j < n_words n" "n < 2 ^ 61"
  shows "rg (p + 4 * of_nat j) 4 \<subseteq> rg p (4 * n_words n)"
proof -
  have "n_words n < 2 ^ 61" using assms(2) unfolding n_words_def by simp
  then show ?thesis using assms(1) by (intro rg_shift) (simp_all add: unat_4)
qed

lemma cksum_agree:
  assumes "agree (rg p (4 * n_words n)) m m'" "n < 2 ^ 61"
  shows "rifs_checksum m p n = rifs_checksum m' p n"
  unfolding cksum_sum
proof (rule sum.cong [OF refl])
  fix j assume "j \<in> {..<n_words n}"
  then have "rg (p + 4 * of_nat j) 4 \<subseteq> rg p (4 * n_words n)" using word_range assms(2) by auto
  then show "ld32 m (p + 4 * of_nat j) = ld32 m' (p + 4 * of_nat j)"
    by (rule ld32_agree [OF agree_mono [OF assms(1)]])
qed

text \<open>put\_cksum makes the sum zero when the field was zero.\<close>

lemma put_cksum_zero:
  assumes "ld32 m (p + RI_CKSUM) = 0" "12 \<le> n" "n < 2 ^ 61"
  shows "rifs_checksum (put_cksum p n m) p n = 0"
proof -
  have e: "p + RI_CKSUM = p + 4 * of_nat 2" by (simp add: RI_CKSUM_def)
  have j: "2 < n_words n" using assms(2) by (simp add: n_words_def)
  show ?thesis
    using assms(1) unfolding put_cksum_def neg_sum e cksum_st32 [OF j assms(3)] by simp
qed

section \<open>The restore information\<close>

lemma get_mem_ok:
  "get_mem addr sz al env st = ok (a, st') \<longleftrightarrow>
    (\<exists>ram. alloc_ram (re_ram env) addr sz al (rf_ram st) = ok (a, ram) \<and> st' = st\<lparr>rf_ram := ram\<rparr>)"
  by (auto simp: get_mem_def res_simps)

lemma move_ok: "move d s n st = ok (st\<lparr>rf_mem := memmove_at d s (ucast n) (rf_mem st)\<rparr>)"
  by (simp add: move_def copy_memory_32)

lemma put_list_out: "a \<notin> rg p (length bs) \<Longrightarrow> length bs < 2 ^ 32 \<Longrightarrow> put_list p bs m a = m a"
proof (induction bs arbitrary: p m)
  case (Cons b bs)
  have "rg (p + 1) (length bs) \<subseteq> rg p (length (b # bs))"
    by (rule rg_shift) (use Cons.prems in auto)
  moreover have "p \<in> rg p (length (b # bs))" by (simp add: rg_def)
  ultimately have "a \<notin> rg (p + 1) (length bs)" "a \<noteq> p" using Cons.prems(1) by blast+
  then show ?case using Cons by simp
qed simp

lemma put_list_in:
  "i < length bs \<Longrightarrow> length bs < 2 ^ 32 \<Longrightarrow> put_list p bs m (p + of_nat i) = bs ! i"
proof (induction bs arbitrary: p m i)
  case (Cons b bs)
  show ?case
  proof (cases i)
    case 0
    have "p \<notin> rg (p + 1) (length bs)"
    proof -
      have "p - (p + 1) = (- 1 :: u64)" by simp
      then show ?thesis using Cons.prems by (simp add: rg_def unsigned_minus_1_eq_mask mask_eq_exp_minus_1)
    qed
    then show ?thesis using 0 Cons.prems by (simp add: put_list_out)
  next
    case (Suc j)
    then have e: "p + of_nat i = (p + 1) + of_nat j" by simp
    have "put_list (p + 1) bs (m(p := b)) ((p + 1) + of_nat j) = bs ! j"
      by (rule Cons.IH) (use Cons.prems Suc in simp_all)
    then show ?thesis unfolding e unfolding Suc put_list.simps nth_Cons_Suc .
  qed
qed simp

lemma same_bytes_agree:
  "agree (rg p n) m m' \<Longrightarrow> length bs \<le> n \<Longrightarrow> n \<le> 2 ^ 64 \<Longrightarrow> same_bytes m p bs = same_bytes m' p bs"
  by (auto simp: same_bytes_def agree_def rgI)

lemma length_sig [simp]: "length RIFS_SIGNATURE = 8"
  by (simp add: RIFS_SIGNATURE_def)

lemma rg_apart:
  assumes "unat x + k \<le> unat y" "unat y + n \<le> 2 ^ 64"
  shows "rg (p + x) k \<inter> rg (p + y) n = {}"
proof (rule ccontr)
  assume "rg (p + x) k \<inter> rg (p + y) n \<noteq> {}"
  then obtain i j where ij: "i < k" "j < n" "p + x + of_nat i = p + y + (of_nat j :: u64)"
    using assms by (auto simp: rg_iff)
  then have "x + of_nat i = y + (of_nat j :: u64)" by (simp add: add.assoc)
  then have "(of_nat (unat x + i) :: u64) = of_nat (unat y + j)" by simp
  moreover have "unat x + i < 2 ^ LENGTH(64)" "unat y + j < 2 ^ LENGTH(64)" using ij assms by simp_all
  ultimately have "unat x + i = unat y + j" by (metis unat_of_nat_small)
  then show False using ij assms by linarith
qed

lemma save_ifs2_info_ok:
  assumes apart: "rg (rf_info2 st) SZ_INFO2 \<inter> rg (rf_dst st + re_image_size_off env) 4 = {}"
  defines "m \<equiv> rf_mem (save_ifs2_info env st)"
  shows "rifs_checksum m (rf_info2 st) SZ_INFO2 = 0" "same_bytes m (rf_info2 st) RIFS_SIGNATURE"
    "ld32 m (rf_info2 st + RI_IMAGE_SIZE) = image_size_at env m (rf_dst st)"
    "a \<notin> rg (rf_info2 st) SZ_INFO2 \<Longrightarrow> m a = rf_mem st a"
proof -
  let ?p = "rf_info2 st"
  define m1 where "m1 = put_list ?p RIFS_SIGNATURE (rf_mem st)"
  define m2 where "m2 = st32 (?p + RI_IMAGE_SIZE) (image_size_at env m1 (rf_dst st)) m1"
  define m3 where "m3 = st32 (?p + RI_CKSUM) 0 m2"
  have m: "m = put_cksum ?p SZ_INFO2 m3"
    by (simp add: m_def save_ifs2_info_def m1_def m2_def m3_def Let_def)
  have c: "rg (?p + RI_CKSUM) 4 \<subseteq> rg ?p SZ_INFO2" "rg (?p + RI_IMAGE_SIZE) 4 \<subseteq> rg ?p SZ_INFO2"
    by (rule rg_shift; simp add: RI_CKSUM_def RI_IMAGE_SIZE_def SZ_INFO2_def)+
  have s: "rg ?p 8 \<subseteq> rg ?p SZ_INFO2" by (rule rg_mono) (simp add: SZ_INFO2_def)
  show "rifs_checksum m ?p SZ_INFO2 = 0"
    unfolding m by (rule put_cksum_zero) (simp_all add: m3_def ld32_st32 SZ_INFO2_def)
  have out: "m a = m1 a" if "a \<notin> rg (?p + RI_CKSUM) 4" "a \<notin> rg (?p + RI_IMAGE_SIZE) 4" for a
    using that by (simp add: m put_cksum_def m3_def m2_def st32_out)
  show "same_bytes m ?p RIFS_SIGNATURE"
  proof -
    have "rg (?p + 0) 8 \<inter> rg (?p + RI_CKSUM) 4 = {}" "rg (?p + 0) 8 \<inter> rg (?p + RI_IMAGE_SIZE) 4 = {}"
      by (rule rg_apart; simp add: RI_CKSUM_def RI_IMAGE_SIZE_def)+
    then have "agree (rg ?p 8) m m1" using out by (auto simp: agree_def)
    moreover have "same_bytes m1 ?p RIFS_SIGNATURE"
      by (simp add: same_bytes_def m1_def put_list_in)
    ultimately show ?thesis using same_bytes_agree [of ?p 8] by simp
  qed
  show "m a = rf_mem st a" if "a \<notin> rg ?p SZ_INFO2" for a
  proof -
    have "a \<notin> rg (?p + RI_CKSUM) 4" "a \<notin> rg (?p + RI_IMAGE_SIZE) 4" "a \<notin> rg ?p 8"
      using that c s by auto
    then show ?thesis using out [of a] put_list_out [of a ?p RIFS_SIGNATURE] by (simp add: m1_def)
  qed
  then have 1: "image_size_at env m (rf_dst st) = image_size_at env (rf_mem st) (rf_dst st)"
    unfolding image_size_at_def using apart by (intro ld32_agree) (auto simp: agree_def)
  have "agree (rg (rf_dst st + re_image_size_off env) 4) m1 (rf_mem st)"
    unfolding agree_def
  proof
    fix a assume "a \<in> rg (rf_dst st + re_image_size_off env) 4"
    then have "a \<notin> rg ?p 8" using apart s by blast
    then show "m1 a = rf_mem st a" by (simp add: m1_def put_list_out)
  qed
  then have "image_size_at env m1 (rf_dst st) = image_size_at env (rf_mem st) (rf_dst st)"
    unfolding image_size_at_def by (rule ld32_agree)
  moreover have "ld32 m (?p + RI_IMAGE_SIZE) = image_size_at env m1 (rf_dst st)"
  proof -
    have "rg (?p + RI_CKSUM) 4 \<inter> rg (?p + RI_IMAGE_SIZE) 4 = {}"
      by (rule rg_apart) (simp_all add: RI_CKSUM_def RI_IMAGE_SIZE_def)
    then have "ld32 m (?p + RI_IMAGE_SIZE) = ld32 m2 (?p + RI_IMAGE_SIZE)"
      by (simp add: m put_cksum_def m3_def ld32_st32_other inf_commute)
    then show ?thesis by (simp add: m2_def ld32_st32)
  qed
  ultimately show "ld32 m (?p + RI_IMAGE_SIZE) = image_size_at env m (rf_dst st)" using 1 by simp
qed

lemma and_then_case: "and_then m f = (case m of Inl e \<Rightarrow> Inl e | Inr x \<Rightarrow> f x)"
  by (cases m) simp_all

text \<open>The allocation does not look at the memory.\<close>

lemma get_mem_other:
  "get_mem addr sz al env (st\<lparr>rf_mem := m\<rparr>) =
    and_then (get_mem addr sz al env st) (\<lambda>(a, st'). ok (a, st'\<lparr>rf_mem := m\<rparr>))"
  by (cases "alloc_ram (re_ram env) addr sz al (rf_ram st)") (auto simp: get_mem_def)

definition cold :: "rifs_state \<Rightarrow> paddr \<Rightarrow> bool" where
  "cold st p \<longleftrightarrow> rifs_checksum (rf_mem st) p SZ_INFO2 \<noteq> 0"

text \<open>The two allocations of load\_ifs2\_nonbootable.\<close>

definition ifs2_places :: "rifs_env \<Rightarrow> rifs_state \<Rightarrow> (paddr \<times> paddr \<times> rifs_state) res" where
  "ifs2_places env st =
    and_then (get_mem NULL_PADDR (ucast (rf_size st)) 0x1000 env st) (\<lambda>(d, st1).
    and_then (get_mem NULL_PADDR (of_nat SZ_INFO2) 8 env (st1\<lparr>rf_dst := d\<rparr>)) (\<lambda>(p, st2).
      ok (d, p, st2\<lparr>rf_info2 := p\<rparr>)))"

lemma ifs2_places_mem:
  "ifs2_places env (st\<lparr>rf_mem := m\<rparr>) =
    and_then (ifs2_places env st) (\<lambda>(d, p, st'). ok (d, p, st'\<lparr>rf_mem := m\<rparr>))"
  by (simp add: ifs2_places_def get_mem_def and_then_case split: sum.split)

lemma ifs2_places_fields:
  assumes "ifs2_places env st = ok (d, p, st')"
  shows "rf_mem st' = rf_mem st" "rf_flag st' = rf_flag st" "rf_dst st' = d" "rf_info2 st' = p"
  using assms by (auto simp: ifs2_places_def get_mem_ok res_simps)

definition ifs2_good :: "rifs_env \<Rightarrow> rifs_state \<Rightarrow> bool" where
  "ifs2_good env st \<longleftrightarrow>
    check_ifs_signature env (rf_mem st) (rf_dst st) \<and> rifs_checksum (rf_mem st) (rf_info2 st) SZ_INFO2 = 0 \<and>
    (flag_set st RIFS_FLAG_IFS2_CKSUM \<longrightarrow>
       rifs_checksum (rf_mem st) (rf_dst st) (unat (ld32 (rf_mem st) (rf_info2 st + RI_IMAGE_SIZE))) = 0)"

lemma load_ifs2_unfold:
  assumes "flag_set st RIFS_FLAG_IFS2_RESTORE" "\<not> flag_set st RIFS_FLAG_IFS2_DST"
  shows "load_ifs2_nonbootable env st =
    and_then (ifs2_places env st) (\<lambda>(d, p, st2). if ifs2_good env st2 then ok st2 else rifs_load_ifs2 env st2)"
proof (cases "get_mem NULL_PADDR (ucast (rf_size st)) 0x1000 env st")
  case (Inl e)
  then show ?thesis using assms(2) by (simp add: load_ifs2_nonbootable_def ifs2_places_def)
next
  case (Inr r)
  obtain d st1 where r: "r = (d, st1)" by (cases r)
  then have f: "flag_set (st1\<lparr>rf_dst := d\<rparr>) RIFS_FLAG_IFS2_RESTORE"
    using Inr assms(1) by (auto simp: get_mem_ok flag_set_def)
  show ?thesis
  proof (cases "get_mem NULL_PADDR (of_nat SZ_INFO2) 8 env (st1\<lparr>rf_dst := d\<rparr>)")
    case (Inl e)
    then show ?thesis using assms(2) f
      by (simp add: load_ifs2_nonbootable_def ifs2_places_def rifs_restore_ifs2_def Inr r)
  next
    case R: (Inr r2)
    obtain p st2 where "r2 = (p, st2)" by (cases r2)
    then show ?thesis using assms(2) f R
      by (simp add: load_ifs2_nonbootable_def ifs2_places_def rifs_restore_ifs2_def Inr r Let_def
          ifs2_good_def flag_set_def)
  qed
qed

lemma rifs_load_ifs2_ok:
  assumes "\<not> flag_set st RIFS_FLAG_IFS2_DST" "flag_set st RIFS_FLAG_IFS2_RESTORE"
    "rifs_load_ifs2 env st = ok st'"
  shows "\<exists>st3. st' = save_ifs2_info env st3 \<and> rf_dst st3 = rf_dst st \<and> rf_info2 st3 = rf_info2 st \<and>
    rf_mem st3 = memmove_at (rf_dst st) (rf_src st3) (ucast (rf_size st)) (rf_mem st)"
  using assms by (auto simp: rifs_load_ifs2_def Let_def flag_set_def move_ok split: if_splits)

lemma ifs2_good_agree:
  assumes good: "ifs2_good env st" and sz: "n = unat (ld32 (rf_mem st) (rf_info2 st + RI_IMAGE_SIZE))"
    and sig: "length (re_ifs_sig env) = 7"
    and agr: "agree (rg (rf_info2 st) SZ_INFO2 \<union> rg (rf_dst st) (4 * n_words n + 8)) (rf_mem st) m"
  shows "ifs2_good env (st\<lparr>rf_mem := m\<rparr>)"
proof -
  have n: "n < 2 ^ 32" unfolding sz using unsigned_less [of "ld32 (rf_mem st) (rf_info2 st + RI_IMAGE_SIZE)"] by simp
  then have nw: "4 * n_words n + 8 \<le> 2 ^ 64" unfolding n_words_def by simp
  have a1: "agree (rg (rf_info2 st) SZ_INFO2) (rf_mem st) m"
    and a2: "agree (rg (rf_dst st) (4 * n_words n + 8)) (rf_mem st) m"
    using agr by (auto simp: agree_def)
  have i: "rg (rf_info2 st + RI_IMAGE_SIZE) 4 \<subseteq> rg (rf_info2 st) SZ_INFO2"
    by (rule rg_shift) (simp_all add: RI_IMAGE_SIZE_def SZ_INFO2_def)
  have "ld32 m (rf_info2 st + RI_IMAGE_SIZE) = ld32 (rf_mem st) (rf_info2 st + RI_IMAGE_SIZE)"
    using ld32_agree [OF agree_mono [OF a1 i]] by simp
  moreover have "rifs_checksum (rf_mem st) (rf_info2 st) SZ_INFO2 = rifs_checksum m (rf_info2 st) SZ_INFO2"
    by (rule cksum_agree) (use a1 in \<open>simp_all add: SZ_INFO2_def n_words_def\<close>)
  moreover have "rifs_checksum (rf_mem st) (rf_dst st) n = rifs_checksum m (rf_dst st) n"
    by (rule cksum_agree [OF agree_mono [OF a2 rg_mono]]) (use n in simp_all)
  moreover have "check_ifs_signature env (rf_mem st) (rf_dst st) = check_ifs_signature env m (rf_dst st)"
    unfolding check_ifs_signature_def by (rule same_bytes_agree [OF a2 _ nw]) (use sig in simp)
  ultimately show ?thesis using good sz by (simp add: ifs2_good_def flag_set_def)
qed

lemma ifs2_second_boot:
  assumes flags: "flag_set st0 RIFS_FLAG_IFS2_RESTORE" "\<not> flag_set st0 RIFS_FLAG_IFS2_DST"
    and sig: "length (re_ifs_sig env) = 7"
    and first: "load_ifs2_nonbootable env st0 = ok st1" and cold: "cold st0 (rf_info2 st1)"
    and valid: "check_ifs_signature env (rf_mem st1) (rf_dst st1)"
      "n = unat (image_size_at env (rf_mem st1) (rf_dst st1))" "rifs_checksum (rf_mem st1) (rf_dst st1) n = 0"
    and apart: "rg (rf_info2 st1) SZ_INFO2 \<inter> rg (rf_dst st1 + re_image_size_off env) 4 = {}"
    and same: "agree (rg (rf_info2 st1) SZ_INFO2 \<union> rg (rf_dst st1) (4 * n_words n + 8)) (rf_mem st1) m"
  shows "\<exists>st2. load_ifs2_nonbootable env (st0\<lparr>rf_mem := m\<rparr>) = ok st2 \<and> rf_mem st2 = m \<and> rf_dst st2 = rf_dst st1"
proof -
  obtain d p sta where pl: "ifs2_places env st0 = ok (d, p, sta)"
    and run: "(if ifs2_good env sta then ok sta else rifs_load_ifs2 env sta) = ok st1"
    using first unfolding load_ifs2_unfold [OF flags] by (auto simp: res_simps)
  note f = ifs2_places_fields [OF pl]
  have "\<not> ifs2_good env sta"
    using run cold f by (auto simp: ifs2_good_def cold_def split: if_splits)
  then have ld: "rifs_load_ifs2 env sta = ok st1" using run by simp
  obtain st3 where s3: "st1 = save_ifs2_info env st3" "rf_dst st3 = d" "rf_info2 st3 = p"
    using rifs_load_ifs2_ok [OF _ _ ld] flags f by (auto simp: flag_set_def)
  have same13: "rf_dst st1 = d" "rf_info2 st1 = p"
    by (simp_all add: s3 save_ifs2_info_def Let_def)
  note sv = save_ifs2_info_ok [of st3 env, folded s3(1), unfolded s3(2,3)]
  have ap: "rg p SZ_INFO2 \<inter> rg (d + re_image_size_off env) 4 = {}" using apart by (simp add: same13)
  have sz: "n = unat (ld32 (rf_mem st1) (p + RI_IMAGE_SIZE))"
    using sv(3) [OF ap] valid(2) by (simp add: same13)
  let ?sta = "sta\<lparr>rf_mem := rf_mem st1\<rparr>"
  have "ifs2_good env ?sta"
    using valid sv(1) [OF ap] sz by (simp add: ifs2_good_def same13 f)
  then have "ifs2_good env (?sta\<lparr>rf_mem := m\<rparr>)"
    by (rule ifs2_good_agree [OF _ _ sig]) (use sz same same13 f in simp_all)
  then have good: "ifs2_good env (sta\<lparr>rf_mem := m\<rparr>)" by simp
  have fl: "flag_set (st0\<lparr>rf_mem := m\<rparr>) RIFS_FLAG_IFS2_RESTORE" "\<not> flag_set (st0\<lparr>rf_mem := m\<rparr>) RIFS_FLAG_IFS2_DST"
    using flags by (simp_all add: flag_set_def)
  have "load_ifs2_nonbootable env (st0\<lparr>rf_mem := m\<rparr>) = ok (sta\<lparr>rf_mem := m\<rparr>)"
    unfolding load_ifs2_unfold [OF fl] ifs2_places_mem pl and_then.simps prod.case using good by simp
  then show ?thesis by (simp add: f same13)
qed

text \<open>The signature of the second structure is written but not looked at: memory that reads as
  zero counts as restore information for an image of size 0, and the check of the image that the
  flag asks for is empty.\<close>

lemma ifs2_zero_accepted:
  assumes "flag_set st RIFS_FLAG_IFS2_RESTORE" "\<not> flag_set st RIFS_FLAG_IFS2_DST"
    "ifs2_places env st = ok (d, p, st')" "check_ifs_signature env (rf_mem st) d"
    "\<forall>a\<in>rg p SZ_INFO2. rf_mem st a = 0"
  shows "load_ifs2_nonbootable env st = ok st'"
proof -
  note f = ifs2_places_fields [OF assms(3)]
  have z: "ld32 (rf_mem st) (p + x) = 0" if "unat x + 4 \<le> SZ_INFO2" for x
  proof -
    have "rg (p + x) 4 \<subseteq> rg p SZ_INFO2" by (rule rg_shift [OF that]) (simp add: SZ_INFO2_def)
    then have "agree (rg (p + x) 4) (rf_mem st) (\<lambda>_. 0)" using assms(5) by (auto simp: agree_def)
    then show ?thesis using ld32_agree by (force simp: ld32_def)
  qed
  have "rifs_checksum (rf_mem st) p SZ_INFO2 = 0"
    unfolding cksum_sum
    by (rule sum.neutral) (auto intro!: z simp: n_words_def SZ_INFO2_def unat_4)
  moreover have "ld32 (rf_mem st) (p + RI_IMAGE_SIZE) = 0"
    by (rule z) (simp add: RI_IMAGE_SIZE_def SZ_INFO2_def)
  ultimately have "ifs2_good env st'"
    using assms(4) f by (simp add: ifs2_good_def rifs_checksum.simps)
  then show ?thesis unfolding load_ifs2_unfold [OF assms(1,2)] assms(3) by simp
qed

section \<open>Restoring the data of the executables\<close>

definition data_src :: "rifs_env \<Rightarrow> pmem \<Rightarrow> paddr \<Rightarrow> nat \<Rightarrow> paddr" where
  "data_src env m p i = (if re_compressed env then elf_data m p i
     else re_full_imagefs env + ucast (elf_offset m p i))"

definition dst_range :: "rifs_env \<Rightarrow> pmem \<Rightarrow> paddr \<Rightarrow> nat \<Rightarrow> paddr set" where
  "dst_range env m p i = rg (data_dst env (elf_offset m p i)) (unat (elf_size m p i))"

definition src_range :: "rifs_env \<Rightarrow> pmem \<Rightarrow> paddr \<Rightarrow> nat \<Rightarrow> paddr set" where
  "src_range env m p i = rg (data_src env m p i) (unat (elf_size m p i))"

definition n_boot :: "pmem \<Rightarrow> paddr \<Rightarrow> nat" where
  "n_boot m p = unat (ld32 m (p + RI_NUMBOOT))"

lemma ld64_agree:
  assumes "agree (rg p 8) m m'"
  shows "ld64 m p = ld64 m' p"
proof -
  have "rg p 4 \<subseteq> rg p 8" by (rule rg_mono) simp
  moreover have "rg (p + 4) 4 \<subseteq> rg p 8" by (rule rg_shift) simp_all
  ultimately have "ld32 m p = ld32 m' p" "ld32 m (p + 4) = ld32 m' (p + 4)"
    using assms by (auto intro!: ld32_agree elim: agree_mono)
  then show ?thesis by (simp add: ld64_def)
qed

text \<open>Everything the loop reads of the structure is inside it.\<close>

lemma unat_elf: "i < 5 \<Longrightarrow> unat (ri_elf i) = 16 + 16 * i"
proof -
  assume "i < 5"
  then have "16 + 16 * i < 2 ^ LENGTH(64)" by simp
  then have "unat (of_nat (16 + 16 * i) :: u64) = 16 + 16 * i" by (rule unat_of_nat_small)
  then show ?thesis by (simp add: ri_elf_def)
qed

lemma unat_elf_plus: "i < 5 \<Longrightarrow> unat (ri_elf i + 4) = 20 + 16 * i \<and> unat (ri_elf i + 8) = 24 + 16 * i"
proof -
  assume i: "i < 5"
  have "unat (ri_elf i + of_nat k) = 16 + 16 * i + k" if "k < 100" for k
    using unat_elf [OF i] i that unfolding unat_word_ariths(1) by (simp add: unat_of_nat_small)
  from this [of 4] this [of 8] show ?thesis by simp
qed

lemma info_agree:
  assumes a: "agree (rg p SZ_INFO) m m'"
  shows "n_boot m p = n_boot m' p"
    "i < RIFS_MAX_BOOTABLE \<Longrightarrow> elf_offset m p i = elf_offset m' p i"
    "i < RIFS_MAX_BOOTABLE \<Longrightarrow> elf_size m p i = elf_size m' p i"
    "i < RIFS_MAX_BOOTABLE \<Longrightarrow> data_src env m p i = data_src env m' p i"
    "i < RIFS_MAX_BOOTABLE \<Longrightarrow> dst_range env m p i = dst_range env m' p i"
    "i < RIFS_MAX_BOOTABLE \<Longrightarrow> src_range env m p i = src_range env m' p i"
proof -
  have 4: "ld32 m (p + x) = ld32 m' (p + x)" if "unat x + 4 \<le> SZ_INFO" for x
  proof -
    have "rg (p + x) 4 \<subseteq> rg p SZ_INFO" by (rule rg_shift [OF that]) (simp add: SZ_INFO_def)
    then show ?thesis by (rule ld32_agree [OF agree_mono [OF a]])
  qed
  have 8: "ld64 m (p + x) = ld64 m' (p + x)" if "unat x + 8 \<le> SZ_INFO" for x
  proof -
    have "rg (p + x) 8 \<subseteq> rg p SZ_INFO" by (rule rg_shift [OF that]) (simp add: SZ_INFO_def)
    then show ?thesis by (rule ld64_agree [OF agree_mono [OF a]])
  qed
  show "n_boot m p = n_boot m' p"
    unfolding n_boot_def by (subst 4) (simp_all add: RI_NUMBOOT_def SZ_INFO_def)
  have o1: "elf_offset m p i = elf_offset m' p i" if "i < RIFS_MAX_BOOTABLE" for i
    unfolding elf_offset_def by (rule 4) (use that in \<open>simp add: unat_elf RIFS_MAX_BOOTABLE_def SZ_INFO_def\<close>)
  have s1: "elf_size m p i = elf_size m' p i" if "i < RIFS_MAX_BOOTABLE" for i
    unfolding elf_size_def add.assoc
    by (rule 4) (use that in \<open>simp add: unat_elf_plus RIFS_MAX_BOOTABLE_def SZ_INFO_def\<close>)
  have d1: "elf_data m p i = elf_data m' p i" if "i < RIFS_MAX_BOOTABLE" for i
    unfolding elf_data_def add.assoc
    by (rule 8) (use that in \<open>simp add: unat_elf_plus RIFS_MAX_BOOTABLE_def SZ_INFO_def\<close>)
  show "i < RIFS_MAX_BOOTABLE \<Longrightarrow> elf_offset m p i = elf_offset m' p i"
    "i < RIFS_MAX_BOOTABLE \<Longrightarrow> elf_size m p i = elf_size m' p i"
    "i < RIFS_MAX_BOOTABLE \<Longrightarrow> data_src env m p i = data_src env m' p i"
    "i < RIFS_MAX_BOOTABLE \<Longrightarrow> dst_range env m p i = dst_range env m' p i"
    "i < RIFS_MAX_BOOTABLE \<Longrightarrow> src_range env m p i = src_range env m' p i"
    by (simp_all add: o1 s1 d1 data_src_def dst_range_def src_range_def)
qed

text \<open>What the memory must look like: the entries are in the array, the data is where the
  structure says it is, and its places are clear of the structure and of the saved data.\<close>

definition saved_ok :: "rifs_env \<Rightarrow> pmem \<Rightarrow> pmem \<Rightarrow> paddr \<Rightarrow> bool" where
  "saved_ok env orig m p \<longleftrightarrow> n_boot m p \<le> RIFS_MAX_BOOTABLE \<and>
     (\<forall>i<n_boot m p. dst_range env m p i \<inter> rg p SZ_INFO = {} \<and>
        (\<forall>j<n_boot m p. dst_range env m p i \<inter> src_range env m p j = {}) \<and>
        (\<forall>a\<in>dst_range env m p i. m (data_src env m p i + (a - data_dst env (elf_offset m p i))) = orig a))"

definition dst_ranges :: "rifs_env \<Rightarrow> pmem \<Rightarrow> paddr \<Rightarrow> paddr set" where
  "dst_ranges env m p = (\<Union>i<n_boot m p. dst_range env m p i)"

definition patched :: "rifs_env \<Rightarrow> pmem \<Rightarrow> pmem \<Rightarrow> paddr \<Rightarrow> nat \<Rightarrow> pmem" where
  "patched env orig m p i = (\<lambda>a. if \<exists>j<i. a \<in> dst_range env m p j then orig a else m a)"

lemma patched_info:
  assumes "saved_ok env orig m p" "i \<le> n_boot m p"
  shows "agree (rg p SZ_INFO) (patched env orig m p i) m"
  using assms unfolding saved_ok_def agree_def patched_def by (metis disjoint_iff less_le_trans)

lemma patched_step:
  assumes ok: "saved_ok env orig m p" and i: "i < n_boot m p"
  shows "memmove_at (data_dst env (elf_offset m p i)) (data_src env m p i) (ucast (elf_size m p i)) (patched env orig m p i)
    = patched env orig m p (i + 1)"
proof
  fix a
  let ?d = "data_dst env (elf_offset m p i)" and ?s = "data_src env m p i" and ?q = "patched env orig m p i"
  show "memmove_at ?d ?s (ucast (elf_size m p i)) ?q a = patched env orig m p (i + 1) a"
  proof (cases "a \<in> dst_range env m p i")
    case True
    then have r: "a \<in> rg ?d (unat (ucast (elf_size m p i) :: u64))" by (simp add: dst_range_def ucast_up_32)
    have "?s + (a - ?d) \<in> src_range env m p i"
      using True by (simp add: src_range_def dst_range_def rg_def)
    then have "\<not> (\<exists>j<i. ?s + (a - ?d) \<in> dst_range env m p j)"
      using ok i unfolding saved_ok_def by (meson disjoint_iff less_trans)
    then have "?q (?s + (a - ?d)) = m (?s + (a - ?d))" unfolding patched_def by (rule if_not_P)
    also have "\<dots> = orig a" using ok i True by (simp add: saved_ok_def)
    finally show ?thesis using True memmove_at_in [OF r] by (auto simp: patched_def)
  next
    case False
    then have "a \<notin> rg ?d (unat (ucast (elf_size m p i) :: u64))" by (simp add: dst_range_def ucast_up_32)
    then have "memmove_at ?d ?s (ucast (elf_size m p i)) ?q a = ?q a" by (rule memmove_at_out)
    moreover have "(\<exists>j<i + 1. a \<in> dst_range env m p j) \<longleftrightarrow> (\<exists>j<i. a \<in> dst_range env m p j)"
      using False by (metis Suc_eq_plus1 less_Suc_eq)
    ultimately show ?thesis by (simp only: patched_def)
  qed
qed

lemma restore_loop_from:
  assumes ok: "saved_ok env orig m p" and i: "i \<le> n_boot m p"
    and st: "rf_info st = p" "rf_mem st = patched env orig m p i"
  shows "restore_loop i env st = ok (st\<lparr>rf_mem := patched env orig m p (n_boot m p)\<rparr>)"
  using i st
proof (induction "n_boot m p - i" arbitrary: i st)
  case 0
  then have i: "i = n_boot m p" by simp
  note a = info_agree [OF patched_info [OF ok 0(2)]]
  have "unat (ld32 (rf_mem st) (p + RI_NUMBOOT)) = i"
    using a(1) 0 i by (simp add: n_boot_def)
  then have "\<not> of_nat i < ld32 (rf_mem st) (p + RI_NUMBOOT)" by auto
  then show ?case using 0 i by (subst restore_loop.simps) (simp add: Let_def)
next
  case (Suc k)
  then have i: "i < n_boot m p" by simp
  then have i5: "i < RIFS_MAX_BOOTABLE" using ok by (simp add: saved_ok_def)
  note a = info_agree [OF patched_info [OF ok Suc(3)]]
  have lt: "(of_nat i :: u32) < ld32 (rf_mem st) (p + RI_NUMBOOT)"
  proof -
    have "n_boot (rf_mem st) p = n_boot m p" using a(1) Suc(5) by simp
    then have n: "i < unat (ld32 (rf_mem st) (p + RI_NUMBOOT))" using i by (simp add: n_boot_def)
    then have "i < 2 ^ LENGTH(32)" using unsigned_less less_trans by blast
    then show ?thesis using n by (simp add: word_less_nat_alt unat_of_nat_small)
  qed
  have src: "(if re_compressed env then elf_data (rf_mem st) p i else re_full_imagefs env + ucast (elf_offset (rf_mem st) p i))
      = data_src env m p i"
    using a(4) [OF i5, of env] unfolding Suc(5) data_src_def .
  have "restore_loop i env st = restore_loop (i + 1) env (st\<lparr>rf_mem := patched env orig m p (i + 1)\<rparr>)"
    using lt i5 a(2,3) [OF i5] patched_step [OF ok i] Suc(4,5) src
    by (subst restore_loop.simps) (cases "re_compressed env"; simp add: Let_def move_ok)
  also have "\<dots> = ok (st\<lparr>rf_mem := patched env orig m p (n_boot m p)\<rparr>)"
    using Suc(1) [of "i + 1" "st\<lparr>rf_mem := patched env orig m p (i + 1)\<rparr>"] Suc(2,4) i by simp
  finally show ?case .
qed

lemma zero_elf_out:
  assumes "i < RIFS_MAX_BOOTABLE" "a \<notin> rg p SZ_INFO"
  shows "zero_elf p i m a = m a"
proof -
  have u: "unat (ri_elf i) + 16 \<le> SZ_INFO" "unat (ri_elf i + 4) + 12 \<le> SZ_INFO" "unat (ri_elf i + 8) + 8 \<le> SZ_INFO"
    using assms(1) unat_elf [of i] unat_elf_plus [of i] by (simp_all add: RIFS_MAX_BOOTABLE_def SZ_INFO_def)
  have "unat (ri_elf i + 8 + 4) + 4 \<le> SZ_INFO"
  proof -
    have "unat (ri_elf i + 8 + 4) \<le> unat (ri_elf i + 8) + unat (4 :: u64)"
      unfolding unat_word_ariths(1) by (rule mod_less_eq_dividend)
    then show ?thesis using u(3) by simp
  qed
  then have "rg (p + (ri_elf i + 8 + 4)) 4 \<subseteq> rg p SZ_INFO" "rg (p + (ri_elf i + 8)) 4 \<subseteq> rg p SZ_INFO"
    "rg (p + (ri_elf i + 4)) 4 \<subseteq> rg p SZ_INFO" "rg (p + ri_elf i) 4 \<subseteq> rg p SZ_INFO"
    using u by (intro rg_shift; simp add: SZ_INFO_def)+
  then have "a \<notin> rg (p + ri_elf i + 8 + 4) 4" "a \<notin> rg (p + ri_elf i + 8) 4"
    "a \<notin> rg (p + ri_elf i + 4) 4" "a \<notin> rg (p + ri_elf i) 4"
    using assms(2) unfolding add.assoc by blast+
  then show ?thesis by (simp add: zero_elf_def st64_def st32_out)
qed

lemma fold_zero_elf_out:
  "a \<notin> rg p SZ_INFO \<Longrightarrow> n \<le> RIFS_MAX_BOOTABLE \<Longrightarrow> fold (zero_elf p) [0..<n] m a = m a"
  by (induction n) (auto simp: zero_elf_out)

lemma rifs_init_out:
  assumes "a \<notin> rg p SZ_INFO"
  shows "rifs_init p m a = m a"
proof -
  have "rg (p + RI_IMAGE_SIZE) 4 \<subseteq> rg p SZ_INFO" "rg (p + RI_NUMBOOT) 4 \<subseteq> rg p SZ_INFO"
    "rg (p + RI_CKSUM) 4 \<subseteq> rg p SZ_INFO"
    by (rule rg_shift; simp add: RI_IMAGE_SIZE_def RI_NUMBOOT_def RI_CKSUM_def SZ_INFO_def)+
  moreover have "rg p 8 \<subseteq> rg p SZ_INFO" by (rule rg_mono) (simp add: SZ_INFO_def)
  ultimately have "a \<notin> rg (p + RI_IMAGE_SIZE) 4" "a \<notin> rg (p + RI_NUMBOOT) 4"
    "a \<notin> rg (p + RI_CKSUM) 4" "a \<notin> rg p 8" using assms by blast+
  then show ?thesis
    using assms by (simp add: rifs_init_def fold_zero_elf_out st32_out put_list_out)
qed

lemma dst_ranges_info:
  assumes "saved_ok env orig m p"
  shows "dst_ranges env m p \<inter> rg p SZ_INFO = {}"
  using assms by (auto simp: saved_ok_def dst_ranges_def)

lemma patched_all: "patched env orig m p (n_boot m p) = (\<lambda>a. if a \<in> dst_ranges env m p then orig a else m a)"
  by (rule ext) (auto simp: patched_def dst_ranges_def)

lemma restore_image:
  assumes alloc: "get_mem NULL_PADDR (of_nat SZ_INFO) 8 env st = ok (p, st1)"
    and info: "check_rifs_signature (rf_mem st) p" "check_ifs_signature env (rf_mem st) ifs"
    and saved: "saved_ok env orig (rf_mem st) p"
    and img: "agree (I - dst_ranges env (rf_mem st) p) (rf_mem st) orig" "I \<inter> rg p SZ_INFO = {}"
    and n: "n = unat (ld32 (rf_mem st) (p + RI_IMAGE_SIZE))" "rg ifs (4 * n_words n) \<subseteq> I"
    and good: "rifs_checksum orig ifs n = 0"
  shows "\<exists>st'. rifs_restore_ifs env ifs st = ok (True, st') \<and> agree I (rf_mem st') orig \<and>
    (\<forall>a. a \<notin> dst_ranges env (rf_mem st) p \<longrightarrow> a \<notin> rg p SZ_INFO \<longrightarrow> rf_mem st' a = rf_mem st a)"
proof -
  let ?m = "rf_mem st"
  let ?q = "patched env orig ?m p (n_boot ?m p)" and ?st = "st1\<lparr>rf_info := p\<rparr>"
  have st1: "rf_mem st1 = ?m" "rf_flag st1 = rf_flag st" using alloc by (auto simp: get_mem_ok)
  have p0: "patched env orig ?m p 0 = ?m" by (simp add: patched_def)
  have loop: "restore_loop 0 env ?st = ok (?st\<lparr>rf_mem := ?q\<rparr>)"
    by (rule restore_loop_from [OF saved]) (simp_all add: st1 p0)
  have qi: "agree I ?q orig"
    using img(1) by (auto simp: agree_def patched_all)
  have sz: "ld32 ?q (p + RI_IMAGE_SIZE) = ld32 ?m (p + RI_IMAGE_SIZE)"
  proof -
    have "rg (p + RI_IMAGE_SIZE) 4 \<subseteq> rg p SZ_INFO"
      by (rule rg_shift; simp add: RI_IMAGE_SIZE_def SZ_INFO_def)
    then show ?thesis using patched_info [OF saved order_refl] by (blast intro: ld32_agree agree_mono)
  qed
  have "n < 2 ^ 32" unfolding n(1) using unsigned_less [of "ld32 ?m (p + RI_IMAGE_SIZE)"] by simp
  then have "n < 2 ^ 61" by simp
  then have "rifs_checksum ?q ifs n = 0"
    using cksum_agree [OF agree_mono [OF qi n(2)]] good by simp
  then have "rifs_restore_ifs env ifs st = ok (True, ?st\<lparr>rf_mem := rifs_init p ?q\<rparr>)"
    using info loop sz n(1) by (simp add: rifs_restore_ifs_def alloc st1 Let_def)
  moreover have "agree I (rifs_init p ?q) orig"
    using qi img(2) rifs_init_out by (auto simp: agree_def disjoint_iff)
  moreover have "rifs_init p ?q a = ?m a" if "a \<notin> dst_ranges env ?m p" "a \<notin> rg p SZ_INFO" for a
    using that by (simp add: rifs_init_out patched_all)
  ultimately show ?thesis by (intro exI [of _ "?st\<lparr>rf_mem := rifs_init p ?q\<rparr>"]) simp
qed

text \<open>The number of executables comes from memory that survived the reset and is not compared
  with the size of the array: with six entries the loop leaves the array.\<close>

lemma restore_past_array:
  assumes "rf_info st = p" "n_boot (rf_mem st) p = 6"
  shows "restore_loop 5 env st = stray"
proof -
  have "(of_nat 5 :: u32) < ld32 (rf_mem st) (p + RI_NUMBOOT)"
    using assms(2) by (simp add: n_boot_def word_less_nat_alt)
  then show ?thesis using assms(1) by (subst restore_loop.simps) (simp add: RIFS_MAX_BOOTABLE_def)
qed

section \<open>Saving the data of an executable\<close>

lemma ld64_st64: "ld64 (st64 p v m) p = v"
proof -
  have d: "rg (p + 0) 4 \<inter> rg (p + 4) 4 = {}" by (rule rg_apart) simp_all
  then have "ld32 (st64 p v m) p = ucast v" "ld32 (st64 p v m) (p + 4) = ucast (drop_bit 32 v)"
    by (simp_all add: st64_def ld32_st32 ld32_st32_other)
  moreover have "(ucast (ucast v :: u32) :: u64) OR push_bit 32 (ucast (ucast (drop_bit 32 v) :: u32)) = v"
    by (rule bit_word_eqI) (auto simp: bit_simps)
  ultimately show ?thesis by (simp add: ld64_def)
qed

lemma st64_out: "a \<notin> rg p 8 \<Longrightarrow> st64 p v m a = m a"
proof -
  assume a: "a \<notin> rg p 8"
  have "rg p 4 \<subseteq> rg p 8" by (rule rg_mono) simp
  moreover have "rg (p + 4) 4 \<subseteq> rg p 8" by (rule rg_shift) simp_all
  ultimately have "a \<notin> rg p 4" "a \<notin> rg (p + 4) 4" using a by blast+
  then show ?thesis by (simp add: st64_def st32_out)
qed

definition put_entry :: "paddr \<Rightarrow> nat \<Rightarrow> u32 \<Rightarrow> u32 \<Rightarrow> u64 \<Rightarrow> pmem \<Rightarrow> pmem" where
  "put_entry p i off sz data m = st64 (p + ri_elf i + 8) data (st32 (p + ri_elf i + 4) sz
     (st32 (p + ri_elf i) off (st32 (p + RI_NUMBOOT) (ld32 m (p + RI_NUMBOOT) + 1) m)))"

lemma put_entry_fields:
  assumes i: "i < RIFS_MAX_BOOTABLE"
  shows "elf_offset (put_entry p i off sz data m) p i = off" "elf_size (put_entry p i off sz data m) p i = sz"
    "elf_data (put_entry p i off sz data m) p i = data"
    "a \<notin> rg p SZ_INFO \<Longrightarrow> put_entry p i off sz data m a = m a"
proof -
  have ui: "unat (ri_elf i) = 16 + 16 * i" "unat (ri_elf i + 4) = 20 + 16 * i" "unat (ri_elf i + 8) = 24 + 16 * i"
    and i5: "i < 5"
    using i unat_elf [of i] unat_elf_plus [of i] by (auto simp: RIFS_MAX_BOOTABLE_def)
  let ?a = "p + ri_elf i" and ?b = "p + ri_elf i + 4" and ?c = "p + ri_elf i + 8"
  have d: "rg ?a 4 \<inter> rg ?b 4 = {}" "rg ?a 4 \<inter> rg ?c 8 = {}" "rg ?b 4 \<inter> rg ?c 8 = {}"
    unfolding add.assoc by (rule rg_apart; use ui i5 in simp)+
  have c: "ld32 (st64 ?c data m') x = ld32 m' x" if "rg x 4 \<inter> rg ?c 8 = {}" for m' x
    by (rule ld32_agree) (use that in \<open>simp add: agree_def st64_out disjoint_iff\<close>)
  show "elf_offset (put_entry p i off sz data m) p i = off"
    unfolding elf_offset_def put_entry_def c [OF d(2)] ld32_st32_other [OF d(1)] ld32_st32 ..
  show "elf_size (put_entry p i off sz data m) p i = sz"
    unfolding elf_size_def put_entry_def c [OF d(3)] ld32_st32 ..
  show "elf_data (put_entry p i off sz data m) p i = data"
    unfolding elf_data_def put_entry_def ld64_st64 ..
  assume a: "a \<notin> rg p SZ_INFO"
  have "rg ?a 4 \<subseteq> rg p SZ_INFO" "rg ?b 4 \<subseteq> rg p SZ_INFO" "rg ?c 8 \<subseteq> rg p SZ_INFO" "rg (p + RI_NUMBOOT) 4 \<subseteq> rg p SZ_INFO"
    unfolding add.assoc by (rule rg_shift; use ui i5 in \<open>simp add: SZ_INFO_def RI_NUMBOOT_def\<close>)+
  then have "a \<notin> rg ?a 4" "a \<notin> rg ?b 4" "a \<notin> rg ?c 8" "a \<notin> rg (p + RI_NUMBOOT) 4" using a by blast+
  then show "put_entry p i off sz data m a = m a"
    by (simp add: put_entry_def st64_out st32_out)
qed

text \<open>For a compressed image the entry of the executable names a copy of its data, in memory that
  is allocated for it.\<close>

lemma save_entry:
  assumes i: "i < RIFS_MAX_BOOTABLE" and comp: "re_compressed env" and p: "rf_info st = p"
    and rd: "rifs_readelf A (rf_mem st) addr = Some (off, sz)"
    and al: "alloc_ram (re_ram env) NULL_PADDR (ucast sz) 8 (rf_ram st) = ok (data, ram)"
    and apart: "rg data (unat sz) \<inter> rg p SZ_INFO = {}"
      "rg (data_dst env (file_off + off)) (unat sz) \<inter> rg p SZ_INFO = {}"
  shows "\<exists>st'. rifs_save_elf32data env A addr file_off i st = ok (True, st') \<and>
    elf_offset (rf_mem st') p i = file_off + off \<and> elf_size (rf_mem st') p i = sz \<and>
    (\<forall>a\<in>dst_range env (rf_mem st') p i.
       rf_mem st' (data_src env (rf_mem st') p i + (a - data_dst env (file_off + off))) = rf_mem st a)"
proof -
  let ?off = "file_off + off" and ?m = "put_entry p i (file_off + off) sz data (rf_mem st)"
  note e = put_entry_fields [OF i]
  define m' where "m' = memmove_at data (data_dst env ?off) (ucast sz) ?m"
  have sz3: "elf_size (st32 (p + ri_elf i + 4) sz m0) p i = sz" for m0
    by (simp add: elf_size_def ld32_st32)
  have run: "rifs_save_elf32data env A addr file_off i st = ok (True, st\<lparr>rf_ram := ram, rf_mem := m'\<rparr>)"
    using i comp rd al p e
    by (simp add: rifs_save_elf32data_def Let_def get_mem_def sz3 move_ok flip: put_entry_def)
       (simp add: put_entry_def m'_def)
  have "agree (rg p SZ_INFO) m' ?m"
    unfolding agree_def
  proof
    fix a assume "a \<in> rg p SZ_INFO"
    then have "a \<notin> rg data (unat (ucast sz :: u64))" using apart(1) by (auto simp: ucast_up_32)
    then show "m' a = ?m a" by (simp add: m'_def memmove_at_out)
  qed
  note inf = info_agree [OF this]
  have o1: "elf_offset m' p i = ?off" "elf_size m' p i = sz" "data_src env m' p i = data"
    using inf(2,3) [OF i] inf(4) [OF i, of env] e(1,2,3) comp by (simp_all add: data_src_def)
  have "m' (data + (a - data_dst env ?off)) = rf_mem st a" if a: "a \<in> dst_range env m' p i" for a
  proof -
    have r: "a \<in> rg (data_dst env ?off) (unat sz)" using a by (simp add: dst_range_def o1)
    then have "data + (a - data_dst env ?off) \<in> rg data (unat (ucast sz :: u64))"
      by (simp add: rg_def ucast_up_32)
    then have "m' (data + (a - data_dst env ?off)) = ?m a"
      by (simp add: m'_def memmove_at_in)
    also have "\<dots> = rf_mem st a" by (rule e(4)) (use r apart(2) in auto)
    finally show ?thesis .
  qed
  with run o1 show ?thesis by auto
qed

section \<open>Properties\<close>


definition rifs_env_ex :: rifs_env where
  "rifs_env_ex = \<lparr>re_ram = env_ex, re_full_image = 0x8000, re_full_imagefs = 0x9000, re_startup_size = 0,
     re_stored_size = 0x100, re_compressed = True, re_ifs_sig = [0, 0, 0, 0, 0, 0, 0], re_image_size_off = 8\<rparr>"

text \<open>The restore information of one executable, and a byte of its data that has changed.\<close>

definition rifs_mem_ex :: pmem where
  "rifs_mem_ex = (\<lambda>_. 0)
     (0x1800 := 0x72, 0x1801 := 0x69, 0x1802 := 0x66, 0x1803 := 0x73, 0x1804 := 0x62, 0x1805 := 0x6f,
      0x1806 := 0x6f, 0x1807 := 0x74, 0x1808 := 0x0f, 0x1809 := 0xe7, 0x180a := 0x29, 0x180b := 0x18,
      0x180c := 16, 0x1810 := 8, 0x1814 := 4, 0x1819 := 0x40, 0x1860 := 1, 0x8008 := 1)"

definition rifs_ex :: rifs_state where
  "rifs_ex = \<lparr>rf_ram = ram_ex, rf_mem = rifs_mem_ex, rf_flag = 3, rf_info = 0, rf_info2 = 0, rf_src = 0,
     rf_dst = 0, rf_size = 0x100\<rparr>"

lemma rifs_alloc_ex:
  "alloc_ram env_ex NULL_PADDR 104 8 ram_ex =
    ok (0x1800, ram_ex\<lparr>rs_ram := [mk_ram 0x1000 0x800, mk_ram 0x1868 0x3798]\<rparr>)"
proof -
  have "find_ram [\<lparr>av_start = 0x1000, av_end = 0x1800\<rparr>] [mk_ram 0x1000 0x4000] 104 8 0 0 = 0x1800"
    by (simp add: find_eval)
  moreover have "alloc_loop 4 0x1800 0x1868 0 [mk_ram 0x1000 0x4000] =
      ok [mk_ram 0x1000 0x800, mk_ram 0x1868 0x3798]"
    by (simp add: alloc_eval)
  ultimately show ?thesis by (simp add: ram_ex_eval)
qed

lemma sig_bytes: "RIFS_SIGNATURE = [0x72, 0x69, 0x66, 0x73, 0x62, 0x6f, 0x6f, 0x74]"
  by (simp add: RIFS_SIGNATURE_def)

lemma same_bytes_simps:
  "same_bytes m p []"
  "same_bytes m p (b # bs) \<longleftrightarrow> m p = b \<and> same_bytes m (p + 1) bs"
  by (auto simp: same_bytes_def less_Suc_eq_0_disj algebra_simps)

lemma rg_lit: "a \<in> rg p n \<longleftrightarrow> unat (a - p) < n"
  by (simp add: rg_def)



definition ifs2_ex :: rifs_state where
  "ifs2_ex = \<lparr>rf_ram = ram_ex, rf_mem = (\<lambda>_. 0)(0x1804 := 1), rf_flag = 0x2c, rf_info = 0, rf_info2 = 0,
     rf_src = 0x9000, rf_dst = 0, rf_size = 0x100\<rparr>"

lemma ifs2_places_ex:
  "\<exists>ram. ifs2_places rifs_env_ex ifs2_ex =
    ok (0x2000, 0x1800, ifs2_ex\<lparr>rf_ram := ram, rf_dst := 0x2000, rf_info2 := 0x1800\<rparr>)"
proof -
  let ?l = "[mk_ram 0x1000 0x1000, mk_ram 0x2100 0x2f00]"
  have "find_ram [\<lparr>av_start = 0x1000, av_end = 0x1800\<rparr>] ?l 16 8 0 0 = 0x1800"
    by (simp add: find_eval)
  moreover have "alloc_loop 5 0x1800 0x1810 0 ?l = ok [mk_ram 0x1000 0x800, mk_ram 0x1810 0x7f0, mk_ram 0x2100 0x2f00]"
    by (simp add: alloc_eval)
  ultimately have "\<exists>ram. alloc_ram env_ex NULL_PADDR 16 8 (ram_ex\<lparr>rs_ram := ?l\<rparr>) = ok (0x1800, ram)"
    by (simp add: ram_ex_eval)
  then show ?thesis
    using ram_ex_run1 by (auto simp: ifs2_places_def get_mem_def ifs2_ex_def rifs_env_ex_def SZ_INFO2_def)
qed


end
