(* ===== verification/Elf.thy ===== *)
theory Elf
  imports Page_Walk Physmem
begin

text \<open>
  The loader of the boot executables: elf.c, elf32.c and elf64.c of startup/lib.  The two loaders
  differ in the width of the fields and in one check; they are one definition over the layout of
  the class.  The layout and the constants come from sys/elf.h, which is not part of the
  repository, and are the fields of elf\_layout.  The state has the page tables with the RAM manager
  and the bytes of physical memory; headers are read from memory when the code reads them.
  BOOTSTRAPS\_RUN\_ONE\_TO\_ONE is 0 on this target.
\<close>

section \<open>Headers\<close>

text \<open>The layout of one class of ELF files: offsets of the fields in the file header and in a
  program header, the reader of an address, the conversions to the loader's type of physical
  addresses and to the width of the fields, and whether the loader checks the class.\<close>

record elf_layout =
  el_word :: "pmem \<Rightarrow> paddr \<Rightarrow> u64"
  el_paddr :: "paddr \<Rightarrow> paddr"
  el_trunc :: "u64 \<Rightarrow> u64"
  el_checks_class :: bool
  el_class :: u8
  el_ehdr_class :: u64
  el_ehdr_data :: u64
  el_e_machine :: u64
  el_e_entry :: u64
  el_e_phoff :: u64
  el_e_phentsize :: u64
  el_e_phnum :: u64
  el_phdr_size :: u16
  el_p_type :: u64
  el_p_flags :: u64
  el_p_offset :: u64
  el_p_vaddr :: u64
  el_p_paddr :: u64
  el_p_filesz :: u64
  el_p_memsz :: u64

record ld_env =
  le_mmu :: mmu_env
  le_bias :: u64
  le_elf32 :: elf_layout
  le_elf64 :: elf_layout
  ELFMAG :: "u8 list"
  ELFDATANATIVE :: u8
  EM_NATIVE :: u16
  PT_LOAD :: u32
  PF_W :: u32

record ld_state =
  ld_vm :: vm
  ld_mem :: pmem
  boot_vaddr_base :: u64
  boot_vaddr_end :: u64

text \<open>A program header.\<close>

record phdr =
  p_type :: u32
  p_flags :: u32
  p_offset :: u64
  p_vaddr :: u64
  p_paddr :: u64
  p_filesz :: u64
  p_memsz :: u64

definition read_phdr :: "elf_layout \<Rightarrow> pmem \<Rightarrow> paddr \<Rightarrow> phdr" where
  "read_phdr e m a =
    \<lparr>p_type = ld32 m (a + el_p_type e), p_flags = ld32 m (a + el_p_flags e),
     p_offset = el_word e m (a + el_p_offset e), p_vaddr = el_word e m (a + el_p_vaddr e),
     p_paddr = el_word e m (a + el_p_paddr e), p_filesz = el_word e m (a + el_p_filesz e),
     p_memsz = el_word e m (a + el_p_memsz e)\<rparr>"

definition has_magic :: "ld_env \<Rightarrow> pmem \<Rightarrow> paddr \<Rightarrow> bool" where
  "has_magic env m a = (\<forall>i\<in>{..<length (ELFMAG env)}. m (a + of_nat i) = ELFMAG env ! i)"

definition e_phnum :: "elf_layout \<Rightarrow> pmem \<Rightarrow> paddr \<Rightarrow> u16" where
  "e_phnum e m a = ld16 m (a + el_e_phnum e)"

text \<open>is\_elf32 and is\_elf64, which check the class but not the machine.\<close>

definition is_elf_class :: "ld_env \<Rightarrow> elf_layout \<Rightarrow> pmem \<Rightarrow> paddr \<Rightarrow> bool" where
  "is_elf_class env e m a \<longleftrightarrow>
    has_magic env m a \<and> m (a + el_ehdr_data e) = ELFDATANATIVE env \<and>
    m (a + el_ehdr_class e) = el_class e \<and> e_phnum e m a \<noteq> 0 \<and>
    ld16 m (a + el_e_phentsize e) = el_phdr_size e"

definition is_elf32 :: "ld_env \<Rightarrow> pmem \<Rightarrow> paddr \<Rightarrow> bool" where
  "is_elf32 env = is_elf_class env (le_elf32 env)"

definition is_elf64 :: "ld_env \<Rightarrow> pmem \<Rightarrow> paddr \<Rightarrow> bool" where
  "is_elf64 env = is_elf_class env (le_elf64 env)"

definition is_elf :: "ld_env \<Rightarrow> pmem \<Rightarrow> paddr \<Rightarrow> nat" where
  "is_elf env m a = (if is_elf32 env m a then 32 else if is_elf64 env m a then 64 else 0)"

text \<open>elf32\_phdr and elf64\_phdr: the first program header, when the file is for this machine.\<close>

definition elf_phdr :: "ld_env \<Rightarrow> elf_layout \<Rightarrow> pmem \<Rightarrow> paddr \<Rightarrow> paddr option" where
  "elf_phdr env e m a =
    (if \<not> has_magic env m a \<or> m (a + el_ehdr_data e) \<noteq> ELFDATANATIVE env \<or>
        (el_checks_class e \<and> m (a + el_ehdr_class e) \<noteq> el_class e) \<or>
        ld16 m (a + el_e_machine e) \<noteq> EM_NATIVE env \<or> e_phnum e m a = 0 \<or>
        ld16 m (a + el_e_phentsize e) \<noteq> el_phdr_size e
     then None else Some (el_paddr e (a + el_word e m (a + el_e_phoff e))))"

section \<open>Loading into virtual memory\<close>

text \<open>calloc\_ram, whose memory is zero as bytes too.\<close>

definition ld_calloc :: "ld_env \<Rightarrow> u64 \<Rightarrow> ld_state \<Rightarrow> (paddr \<times> ld_state) res" where
  "ld_calloc env sz s =
    and_then (vm_calloc (le_mmu env) sz (ucast (page (le_mmu env))) (ld_vm s)) (\<lambda>(a, v).
      ok (a, s\<lparr>ld_vm := v, ld_mem := if a = NULL_PADDR then ld_mem s else memset_at a 0 sz (ld_mem s)\<rparr>))"

definition ld_copy :: "paddr \<Rightarrow> paddr \<Rightarrow> u64 \<Rightarrow> ld_state \<Rightarrow> ld_state res" where
  "ld_copy dst src len s = and_then (copy_memory dst src len (ld_mem s)) (\<lambda>m. ok (s\<lparr>ld_mem := m\<rparr>))"

definition ld_map :: "ld_env \<Rightarrow> u64 \<Rightarrow> paddr \<Rightarrow> u64 \<Rightarrow> u32 \<Rightarrow> ld_state \<Rightarrow> ld_state res" where
  "ld_map env v p len flags s =
    and_then (elf_map (le_mmu env) v p len flags (ld_vm s)) (\<lambda>v. ok (s\<lparr>ld_vm := v\<rparr>))"

text \<open>The range of addresses of all segments.\<close>

definition note_range :: "u64 \<Rightarrow> u64 \<Rightarrow> ld_state \<Rightarrow> ld_state" where
  "note_range vaddr memsz s =
    (let s = (if boot_vaddr_base s = 0 \<or> boot_vaddr_base s > vaddr then s\<lparr>boot_vaddr_base := vaddr\<rparr> else s)
     in if boot_vaddr_end s < vaddr + memsz then s\<lparr>boot_vaddr_end := vaddr + memsz\<rparr> else s)"

text \<open>A segment that stays where it is in the image: whole pages are mapped in place, and the rest
  is copied to new memory, with the part that is not in the file zero.\<close>

definition map_in_place :: "ld_env \<Rightarrow> elf_layout \<Rightarrow> phdr \<Rightarrow> u64 \<Rightarrow> u64 \<Rightarrow> ld_state \<Rightarrow> ld_state res" where
  "map_in_place env e ph filesz memsz s =
    (let pb = page (le_mmu env) - 1; vaddr = p_vaddr ph AND NOT pb; paddr = p_paddr ph AND NOT pb;
         (filesz, memsz) = (if p_memsz ph = p_filesz ph
           then (ROUNDPG (le_mmu env) filesz, ROUNDPG (le_mmu env) filesz) else (filesz, memsz));
         full = filesz AND NOT pb
     in and_then (ld_map env vaddr paddr full (p_flags ph) s) (\<lambda>s.
        let memsz = ROUNDPG (le_mmu env) (memsz - full) in
        if memsz = 0 then ok s
        else and_then (ld_calloc env memsz s) (\<lambda>(daddr, s).
             and_then (ld_copy (el_paddr e daddr) (paddr + full) (filesz AND pb) s) (\<lambda>s.
               ld_map env (vaddr + full) (el_paddr e daddr) memsz (p_flags ph) s))))"

text \<open>A segment without a physical address is copied from the file.\<close>

definition map_copied :: "ld_env \<Rightarrow> elf_layout \<Rightarrow> paddr \<Rightarrow> phdr \<Rightarrow> u64 \<Rightarrow> u64 \<Rightarrow> ld_state \<Rightarrow> ld_state res" where
  "map_copied env e addr ph filesz memsz s =
    (let pb = page (le_mmu env) - 1 in
     and_then (ld_calloc env (ROUNDPG (le_mmu env) memsz) s) (\<lambda>(daddr, s).
     and_then (ld_copy (el_paddr e daddr) (el_paddr e (addr + p_offset ph) - (p_vaddr ph AND pb)) filesz s) (\<lambda>s.
       ld_map env (p_vaddr ph AND NOT pb) (el_paddr e daddr) memsz (p_flags ph) s)))"

text \<open>One round of the loop of load\_elf64mmu.\<close>

definition load_segment :: "ld_env \<Rightarrow> elf_layout \<Rightarrow> paddr \<Rightarrow> phdr \<Rightarrow> ld_state \<Rightarrow> ld_state res" where
  "load_segment env e addr ph s =
    (if p_type ph \<noteq> PT_LOAD env then ok s
     else let pb = page (le_mmu env) - 1; low = p_vaddr ph AND pb;
              memsz = p_memsz ph + low; filesz = p_filesz ph + low;
              s = note_range (p_vaddr ph AND NOT pb) memsz s;
              (filesz, memsz) = (if p_flags ph AND PF_W env = 0 \<and> memsz = filesz
                then (ROUNDPG (le_mmu env) filesz, ROUNDPG (le_mmu env) filesz) else (filesz, memsz))
          in if p_paddr ph \<noteq> 0 then map_in_place env e ph filesz memsz s
             else map_copied env e addr ph filesz memsz s)"

text \<open>A segment of a program that runs without page tables.\<close>

definition load_flat :: "ld_env \<Rightarrow> elf_layout \<Rightarrow> paddr \<Rightarrow> phdr \<Rightarrow> ld_state \<Rightarrow> ld_state res" where
  "load_flat env e addr ph s =
    (if p_type ph \<noteq> PT_LOAD env \<or> p_paddr ph + le_bias env = p_vaddr ph then ok s
     else let dst = p_vaddr ph - le_bias env in
       and_then (alloc_ram (me_ram (le_mmu env)) dst (p_memsz ph) 1 (vm_ram (ld_vm s))) (\<lambda>(_, r).
         ok (s\<lparr>ld_vm := (ld_vm s)\<lparr>vm_ram := r\<rparr>,
               ld_mem := memset_at (el_trunc e (p_vaddr ph + p_filesz ph) - le_bias env) 0
                   (el_trunc e (p_memsz ph - p_filesz ph))
                 (memmove_at dst (el_paddr e (addr + p_offset ph)) (p_filesz ph) (ld_mem s))\<rparr>)))"

text \<open>The loop over the program headers.\<close>

primrec each_phdr ::
  "(phdr \<Rightarrow> ld_state \<Rightarrow> ld_state res) \<Rightarrow> elf_layout \<Rightarrow> nat \<Rightarrow> paddr \<Rightarrow> ld_state \<Rightarrow> ld_state res" where
  "each_phdr f e 0 a s = ok s"
| "each_phdr f e (Suc n) a s =
    and_then (f (read_phdr e (ld_mem s) a) s) (each_phdr f e n (a + ucast (el_phdr_size e)))"

text \<open>load\_elf32 and load\_elf64: the entry point, or the value that means failure.\<close>

definition load_elf_class :: "ld_env \<Rightarrow> elf_layout \<Rightarrow> paddr \<Rightarrow> ld_state \<Rightarrow> (u64 \<times> ld_state) res" where
  "load_elf_class env e addr s =
    (let addr = el_paddr e addr; m = ld_mem s in
     case elf_phdr env e m addr of
       None \<Rightarrow> ok (NOT 0, s)
     | Some ph \<Rightarrow>
         and_then
           (each_phdr (if virtual_startup (le_mmu env) then load_segment env e addr else load_flat env e addr)
              e (unat (e_phnum e m addr)) ph s)
           (\<lambda>s. ok (el_word e m (addr + el_e_entry e), s)))"

definition load_elf32 :: "ld_env \<Rightarrow> paddr \<Rightarrow> ld_state \<Rightarrow> (u64 \<times> ld_state) res" where
  "load_elf32 env = load_elf_class env (le_elf32 env)"

definition load_elf64 :: "ld_env \<Rightarrow> paddr \<Rightarrow> ld_state \<Rightarrow> (u64 \<times> ld_state) res" where
  "load_elf64 env = load_elf_class env (le_elf64 env)"

definition load_elf :: "ld_env \<Rightarrow> paddr \<Rightarrow> ld_state \<Rightarrow> (u64 \<times> ld_state) res" where
  "load_elf env addr s =
    (if is_elf32 env (ld_mem s) addr then load_elf32 env addr s
     else if is_elf64 env (ld_mem s) addr then load_elf64 env addr s
     else ok (NOT 0, s))"

section \<open>What the map does to the RAM manager\<close>

text \<open>Free memory only becomes less.\<close>

definition less_free :: "vm \<Rightarrow> vm \<Rightarrow> bool" where
  "less_free s s' \<longleftrightarrow> (mem_ok s \<longrightarrow> mem_ok s' \<and> ram_free (vm_ram s') \<subseteq> ram_free (vm_ram s)) \<and>
    L1_ttbr0 s' = L1_ttbr0 s \<and> L1_ttbr1 s' = L1_ttbr1 s"

lemma less_free_refl [simp]: "less_free s s"
  by (simp add: less_free_def)

lemma less_free_trans: "less_free s s' \<Longrightarrow> less_free s' s'' \<Longrightarrow> less_free s s''"
  by (auto simp: less_free_def)

lemma less_free_mem: "less_free (s\<lparr>vm_mem := m\<rparr>) s' \<longleftrightarrow> less_free s s'"
  by (simp add: less_free_def mem_ok_def)

lemma need_table_free:
  assumes "arch_4k env" "need_table env t i s = ok s'"
  shows "less_free s s'"
proof (cases "mem_ok s \<and> vm_mem s (slot t i) = 0")
  case True
  obtain e s1 where pa: "pt_alloc env s = ok (e, s1)" and s': "s' = put_entry t i e s1"
    using assms(2) True by (auto simp: need_table_def elim!: and_then_okE)
  obtain a r where "s1 = s\<lparr>vm_ram := r, vm_mem := (\<lambda>x. if x \<in> {a ..< a + 0x1000} then 0 else vm_mem s x)\<rparr>"
    "ram_free r = ram_free (vm_ram s) - {a ..< a + 0x1000}" "mem_ok s1"
    by (rule page_pt_alloc [OF assms(1) _ pa]) (use True in auto)
  then show ?thesis by (auto simp: less_free_def s' put_entry_def mem_ok_def)
next
  case False
  show ?thesis
  proof (cases "vm_mem s (slot t i) = 0")
    case True
    then have "\<not> mem_ok s" using False by simp
    moreover have "L1_ttbr0 s' = L1_ttbr0 s" "L1_ttbr1 s' = L1_ttbr1 s"
      using assms(2) True
      by (auto simp: need_table_def pt_alloc_def vm_calloc_def put_entry_def elim!: and_then_okE split: if_splits)
    ultimately show ?thesis by (simp add: less_free_def)
  qed (use assms(2) in \<open>simp add: need_table_def\<close>)
qed

lemma l2_loop_free:
  "l2_loop env l2 i end va pte s = ok (va', pte', s') \<Longrightarrow> arch_4k env \<Longrightarrow> less_free s s'"
proof (induction env l2 i "end" va pte s arbitrary: va' pte' s' rule: l2_loop.induct)
  case (1 env l2 i "end" va pte s)
  show ?case
  proof (cases "i < NPTE_PTBL env \<and> va < end")
    case True
    obtain s1 where s1: "need_table env l2 i s = ok s1"
      and r: "(let l3 = PTP_PADDR env (vm_mem s1 (slot l2 i));
             j = (if USE_LARGE_PAGE env then L3_IDX_64K (me_abi env) va else L3_IDX (me_abi env) va);
             w = l3_loop env l3 end \<lparr>wk_mem = vm_mem s1, wk_i = j, wk_va = va, wk_pte = pte\<rparr>
         in l2_loop env l2 (i + 1) end (wk_va w) (wk_pte w) (s1\<lparr>vm_mem := wk_mem w\<rparr>)) = ok (va', pte', s')"
      using "1.prems"(1) True by (subst (asm) l2_loop.simps) (auto elim!: and_then_okE)
    have "less_free s s1" by (rule need_table_free [OF "1.prems"(2) s1])
    moreover have "less_free s1 s'"
      using "1.IH" [OF True refl refl refl r [unfolded Let_def] "1.prems"(2)]
      by (simp add: less_free_mem)
    ultimately show ?thesis by (rule less_free_trans)
  next
    case False
    have "ok (va, pte, s) = ok (va', pte', s')"
      using "1.prems"(1) unfolding l2_loop.simps [of env l2 i] if_not_P [OF False] .
    then show ?thesis by simp
  qed
qed

lemma l1_loop_free:
  "l1_loop env l1 i end va pte s = ok (va', pte', s') \<Longrightarrow> arch_4k env \<Longrightarrow> less_free s s'"
proof (induction env l1 i "end" va pte s arbitrary: va' pte' s' rule: l1_loop.induct)
  case (1 env l1 i "end" va pte s)
  note large = large_4k [OF "1.prems"(2)]
  show ?case
  proof (cases "i < NPTE_PTBL env \<and> va < end")
    case True
    obtain s1 va2 pte2 s2 where s1: "need_table env l1 i s = ok s1"
      and s2: "l2_loop env (PTP_PADDR env (vm_mem s1 (slot l1 i))) (L2_IDX (me_abi env) va) end va pte s1 = ok (va2, pte2, s2)"
      and r: "l1_loop env l1 (i + 1) end va2 pte2 s2 = ok (va', pte', s')"
      using "1.prems"(1) True large by (subst (asm) l1_loop.simps) (auto elim!: and_then_okE)
    have "less_free s s1" by (rule need_table_free [OF "1.prems"(2) s1])
    moreover have "less_free s1 s2" by (rule l2_loop_free [OF s2 "1.prems"(2)])
    moreover have "less_free s2 s'" by (rule "1.IH" [OF True r "1.prems"(2)])
    ultimately show ?thesis by (metis less_free_trans)
  next
    case False
    have "ok (va, pte, s) = ok (va', pte', s')"
      using "1.prems"(1) unfolding l1_loop.simps [of env l1 i] if_not_P [OF False] .
    then show ?thesis by simp
  qed
qed

lemma aarch64_map_free:
  assumes "arch_4k env" "virtual_startup env" "aarch64_map env vaddr paddr len flags s = ok (r, s')"
  shows "less_free s s'"
proof -
  obtain s0 l1 q w where s0: "vm_ram s0 = vm_ram s" "vm_mem s0 = vm_mem s" "L1_ttbr0 s0 = L1_ttbr0 s" "L1_ttbr1 s0 = L1_ttbr1 s"
    and lp: "l1_loop env l1 (L1_IDX (me_abi env) (TRUNCPG env (if vaddr = NOT 0 then vm_free s else vaddr)))
      (TRUNCPG env (if vaddr = NOT 0 then vm_free s else vaddr) + ROUNDPG env (len + (paddr AND 0xFFF)))
      (TRUNCPG env (if vaddr = NOT 0 then vm_free s else vaddr)) (set_pte env (paddr AND NOT 0xFFF) flags) s0 = ok (q, w, s')"
    by (rule aarch64_map_steps [OF assms refl refl])
  have "less_free s0 s'" by (rule l1_loop_free [OF lp assms(1)])
  then show ?thesis by (simp add: less_free_def mem_ok_def s0)
qed

section \<open>Memory for a segment\<close>

text \<open>What vm\_calloc does for a number of pages.\<close>

lemma pages_calloc:
  assumes m: "mem_ok s" and run: "vm_calloc env sz 0x1000 s = ok (a, s')" and a: "a \<noteq> NULL_PADDR" and sz: "0 < sz"
  shows "unat a mod 4096 = 0" "unat a + unat sz \<le> 2 ^ 48" "rg a (unat sz) \<subseteq> ram_free (vm_ram s)"
    "ram_free (vm_ram s') = ram_free (vm_ram s) - rg a (unat sz)" "mem_ok s'"
    "vm_mem s' = (\<lambda>x. if x \<in> rg a (unat sz) then 0 else vm_mem s x)"
    "L1_ttbr0 s' = L1_ttbr0 s" "L1_ttbr1 s' = L1_ttbr1 s"
proof -
  obtain r where ca: "calloc_ram (me_ram env) sz 0x1000 (vm_ram s) = ok (a, r)"
    and s': "s' = s\<lparr>vm_ram := r, vm_mem := (\<lambda>x. if a \<noteq> NULL_PADDR \<and> x - a < sz then 0 else vm_mem s x)\<rparr>"
    using run by (auto simp: vm_calloc_def elim!: and_then_okE)
  obtain r0 where al: "alloc_ram (me_ram env) NULL_PADDR sz 0x1000 (vm_ram s) = ok (a, r0)"
    and rr: "r = r0 \<or> r = r0\<lparr>rs_zeroed := (a, sz) # rs_zeroed r0\<rparr>"
    using ca by (auto simp: calloc_ram_def elim!: and_then_okE split: if_splits)
  have r: "rs_ram r = rs_ram r0" "rs_avoid r = rs_avoid r0" using rr by auto
  have ok: "align_ok sz 0x1000" unfolding align_ok_def using sz by (intro conjI exI [of _ 12]) simp_all
  have inv: "ram_inv (vm_ram s)" and below: "ram_free (vm_ram s) \<subseteq> {..< 2 ^ 48}" using m by (simp_all add: mem_ok_def)
  note sp = alloc_any_spec [OF inv ok al a]
  have same: "ram_free r = ram_free r0" "ram_inv r = ram_inv r0"
    by (simp_all only: ram_free_def ram_inv_def avoid_list_of_def r)
  have f: "find_ram_in_range (avoid_list_of (vm_ram s)) (rs_ram (vm_ram s)) 0 (NOT 0) sz 0x1000 0 0 = a"
    using al a unfolding find_ram_def [symmetric] by (auto simp: alloc_ram_def Let_def elim!: and_then_okE split: if_splits)
  obtain x where "a = ROUND x 0x1000" using find_ram_aligned [OF f a] by auto
  then have "a = TRUNC (x + 0xFFF) (2 ^ 12)" by (simp add: ROUND_def)
  then show "unat a mod 4096 = 0" using unat_TRUNC_pow2 [of 12 "x + 0xFFF"] by simp
  have lt: "a < a + sz" by (rule le_add_pos [OF sp(3) sz])
  then have u: "unat (a + sz) = unat a + unat sz" by (simp add: unat_plus_simple [THEN iffD1] less_imp_le)
  have eq: "rg a (unat sz) = {a ..< a + sz}"
  proof -
    have "unat (x - a) < unat sz \<longleftrightarrow> a \<le> x \<and> x < a + sz" for x
    proof (cases "a \<le> x")
      case True
      then have "unat (x - a) = unat x - unat a" by (simp add: unat_sub)
      then show ?thesis using True u by (auto simp: word_less_nat_alt word_le_nat_alt)
    next
      case False
      then have n: "unat x < unat a" by (simp add: word_le_nat_alt)
      have "unat (x - a) = 2 ^ 64 + unat x - unat a"
        using n by (simp add: unat_sub_if_size word_size)
      moreover have "unat a + unat sz < 2 ^ 64" using u unsigned_less [of "a + sz", where ?'a = nat] by simp
      ultimately show ?thesis using False by linarith
    qed
    then show ?thesis unfolding rg_def atLeastLessThan_iff [symmetric] by blast
  qed
  show "unat a + unat sz \<le> 2 ^ 48"
  proof -
    have "a + sz \<noteq> 0" using lt by auto
    then have "unat (a + sz - 1) = unat (a + sz) - 1" by (rule unat_minus_one)
    then have "a + sz - 1 \<in> {a ..< a + sz}" using lt by (simp add: word_le_nat_alt word_less_nat_alt)
    then have "a + sz - 1 < 2 ^ 48" using sp(1) below by auto
    moreover have "a + sz \<noteq> 0" using lt by auto
    ultimately have "unat (a + sz) - 1 < 2 ^ 48" by (simp add: word_less_nat_alt unat_minus_one)
    then show ?thesis using u by simp
  qed
  show "rg a (unat sz) \<subseteq> ram_free (vm_ram s)" using sp(1) eq by simp
  show f': "ram_free (vm_ram s') = ram_free (vm_ram s) - rg a (unat sz)" using sp(2) same eq s' by simp
  show "mem_ok s'" using sp(4) same below f' s' by (auto simp: mem_ok_def)
  show "vm_mem s' = (\<lambda>x. if x \<in> rg a (unat sz) then 0 else vm_mem s x)"
    using s' a by (simp add: rg_def word_less_nat_alt)
  show "L1_ttbr0 s' = L1_ttbr0 s" "L1_ttbr1 s' = L1_ttbr1 s" by (simp_all add: s')
qed

section \<open>Steps of the loader\<close>

lemma calloc_walk:
  assumes a4: "arch_4k env" and t: "tables l1 S s" and run: "vm_calloc env sz 0x1000 s = ok (a, s')"
    and a: "a \<noteq> NULL_PADDR" and sz: "0 < sz"
  shows "tables l1 S s'"
    "walk_from env x s = ok l1 \<Longrightarrow> unat x div 4096 div 512 div 512 \<in> S \<Longrightarrow>
      elf_vaddr_to_paddr env x s' = elf_vaddr_to_paddr env x s"
proof -
  obtain T2 T3 where tr: "tree l1 S T2 T3 s" using t by (auto simp: tables_def)
  then have mo: "mem_ok s" by (simp add: tree_def)
  note c = pages_calloc [OF mo run a sz]
  have ow: "owned s' u" if "owned s u" for u using that c(4) by (auto simp: owned_def)
  have same: "vm_mem s' (slot u j) = vm_mem s (slot u j)" if "owned s u" "j < 512" for u j
  proof -
    have "slot u j \<in> {u ..< u + 0x1000}" using that by (intro slot_in_page) (simp_all add: owned_def)
    then have "slot u j \<notin> rg a (unat sz)" using that c(3) unfolding owned_def by blast
    then show ?thesis by (simp add: c(6))
  qed
  have "links l1 S T2 T3 (vm_mem s')"
    by (rule links_cong [of _ _ _ _ "vm_mem s"])
      (use tr tree_owned [OF tr] same in \<open>auto simp: tree_def\<close>)
  then have tr': "tree l1 S T2 T3 s'" using tr c(5) ow by (simp add: tree_def)
  then show "tables l1 S s'" by (auto simp: tables_def)
  assume x: "walk_from env x s = ok l1" "unat x div 4096 div 512 div 512 \<in> S"
  have "walk_from env x s' = walk_from env x s" by (simp add: walk_from_def Let_def c(7,8))
  then have x': "walk_from env x s' = ok l1" using x(1) by simp
  have "leaf (vm_mem s') T3 P = leaf (vm_mem s) T3 P" for P
    by (simp add: leaf_def tree_owned(3) [OF tr] same split: option.split)
  then show "elf_vaddr_to_paddr env x s' = elf_vaddr_to_paddr env x s"
    using walk_leaf [OF a4 tr x(1) refl x(2)] walk_leaf [OF a4 tr' x' refl x(2)] by simp
qed

abbreviation free_of :: "ld_state \<Rightarrow> paddr set" where
  "free_of s \<equiv> ram_free (vm_ram (ld_vm s))"

text \<open>A step that maps the pages X: the tables stay in order, other pages translate as before, and
  only memory that was free is written.\<close>

definition maps_pages :: "mmu_env \<Rightarrow> paddr \<Rightarrow> nat set \<Rightarrow> nat set \<Rightarrow> ld_state \<Rightarrow> ld_state \<Rightarrow> bool" where
  "maps_pages mmu l1 S X s s' \<longleftrightarrow> tables l1 S (ld_vm s') \<and> free_of s' \<subseteq> free_of s \<and>
    (\<forall>x. walk_from mmu x (ld_vm s') = walk_from mmu x (ld_vm s)) \<and>
    (\<forall>x. unat x div 4096 \<notin> X \<and> unat x div 4096 div 512 div 512 \<in> S \<and> walk_from mmu x (ld_vm s) = ok l1 \<longrightarrow>
       elf_vaddr_to_paddr mmu x (ld_vm s') = elf_vaddr_to_paddr mmu x (ld_vm s)) \<and>
    agree (- free_of s) (ld_mem s) (ld_mem s')"

lemma maps_pages_trans:
  "maps_pages mmu l1 S X s s' \<Longrightarrow> maps_pages mmu l1 S Y s' s'' \<Longrightarrow> maps_pages mmu l1 S (X \<union> Y) s s''"
  unfolding maps_pages_def agree_def by (elim conjE, intro conjI) auto

lemma maps_pages_none: "tables l1 S (ld_vm s) \<Longrightarrow> maps_pages mmu l1 S {} s s"
  by (simp add: maps_pages_def)

text \<open>A byte in virtual memory, held by memory that is not free.\<close>

definition byte_at :: "mmu_env \<Rightarrow> ld_state \<Rightarrow> u64 \<Rightarrow> u8 \<Rightarrow> bool" where
  "byte_at mmu s v b \<longleftrightarrow> (\<exists>a. elf_vaddr_to_paddr mmu v (ld_vm s) = ok a \<and> a \<notin> free_of s \<and> ld_mem s a = b)"

lemma byte_kept:
  assumes "byte_at mmu s v b" "maps_pages mmu l1 S X s s'" "unat v div 4096 \<notin> X"
    "unat v div 4096 div 512 div 512 \<in> S" "walk_from mmu v (ld_vm s) = ok l1"
  shows "byte_at mmu s' v b"
  using assms unfolding byte_at_def maps_pages_def agree_def by auto

text \<open>New memory with a copy at its start.\<close>

lemma fresh_copy:
  assumes a4: "arch_4k (le_mmu env)" and t: "tables l1 S (ld_vm s)"
    and ca: "ld_calloc env sz s = ok (a, s1)" and a: "a \<noteq> NULL_PADDR" and sz: "0 < sz"
    and cp: "ld_copy a src len s1 = ok s2" and len: "len \<le> sz" "len < 2 ^ 32"
  shows "maps_pages (le_mmu env) l1 S {} s s2" "unat a mod 4096 = 0" "unat a + unat sz \<le> 2 ^ 48"
    "rg a (unat sz) \<inter> free_of s2 = {}" "rg a (unat sz) \<subseteq> free_of s"
    "j < unat len \<Longrightarrow> src + of_nat j \<notin> free_of s \<Longrightarrow> ld_mem s2 (a + of_nat j) = ld_mem s (src + of_nat j)"
    "unat len \<le> j \<Longrightarrow> j < unat sz \<Longrightarrow> ld_mem s2 (a + of_nat j) = 0"
proof -
  have pg: "(ucast (page (le_mmu env)) :: u32) = 0x1000" using a4 by (simp add: arch_4k_def)
  obtain v where vc: "vm_calloc (le_mmu env) sz 0x1000 (ld_vm s) = ok (a, v)"
    and s1: "s1 = s\<lparr>ld_vm := v, ld_mem := memset_at a 0 sz (ld_mem s)\<rparr>"
    using ca a by (auto simp: ld_calloc_def pg res_simps)
  have mo: "mem_ok (ld_vm s)" using t by (auto simp: tables_def tree_def)
  note c = pages_calloc [OF mo vc a sz] and w = calloc_walk [OF a4 t vc a sz]
  have "len = ucast (ucast len :: u32)"
  proof -
    have "unat len < 2 ^ 32" using len(2) by (simp add: word_less_nat_alt)
    then have "unat (ucast (ucast len :: u32) :: u64) = unat len"
      by (simp add: ucast_up_32(1) unsigned_ucast_eq take_bit_nat_eq_self unat_take_bit)
    then show ?thesis by (simp only: word_unat_eq_iff)
  qed
  then have s2: "s2 = s1\<lparr>ld_mem := memmove_at a src len (ld_mem s1)\<rparr>"
    using cp copy_memory_32 [of a src "ucast len" "ld_mem s1"] by (auto simp: ld_copy_def)
  have m1: "ld_mem s1 x = (if x \<in> rg a (unat sz) then 0 else ld_mem s x)" for x
    by (simp add: s1 memset_at_def rg_def word_less_nat_alt)
  have sub: "rg a (unat len) \<subseteq> rg a (unat sz)" using len(1) by (intro rg_mono) (simp add: word_le_nat_alt)
  have m2: "ld_mem s2 x = (if x \<in> rg a (unat len) then ld_mem s1 (src + (x - a)) else ld_mem s1 x)" for x
    by (simp add: s2 memmove_at_def rg_def word_less_nat_alt)
  have vm2: "ld_vm s2 = v" by (simp add: s2 s1)
  show "maps_pages (le_mmu env) l1 S {} s s2"
    unfolding maps_pages_def
  proof (intro conjI allI impI)
    show "tables l1 S (ld_vm s2)" "free_of s2 \<subseteq> free_of s" using w(1) c(4) by (simp_all add: vm2)
    show "agree (- free_of s) (ld_mem s) (ld_mem s2)"
      using sub c(3) unfolding agree_def m2 m1 by auto
    show "walk_from (le_mmu env) x (ld_vm s2) = walk_from (le_mmu env) x (ld_vm s)" for x
      by (simp add: vm2 walk_from_def Let_def c(7,8))
  qed (use w(2) in \<open>auto simp: vm2\<close>)
  show "unat a mod 4096 = 0" "unat a + unat sz \<le> 2 ^ 48" "rg a (unat sz) \<subseteq> free_of s" by (rule c)+
  show "rg a (unat sz) \<inter> free_of s2 = {}" using c(4) by (auto simp: vm2)
  have lim: "unat sz \<le> 2 ^ 64" using unsigned_less [of sz, where ?'a = nat] by simp
  show "ld_mem s2 (a + of_nat j) = ld_mem s (src + of_nat j)" if "j < unat len" "src + of_nat j \<notin> free_of s"
  proof -
    have "unat len \<le> 2 ^ 64" using unsigned_less [of len, where ?'a = nat] by simp
    then have "a + of_nat j \<in> rg a (unat len)" using that(1) by (simp add: rgI)
    moreover have "src + of_nat j \<notin> rg a (unat sz)" using that(2) c(3) by blast
    ultimately show ?thesis by (simp add: m2 m1)
  qed
  show "ld_mem s2 (a + of_nat j) = 0" if "unat len \<le> j" "j < unat sz"
  proof -
    have "a + of_nat j \<in> rg a (unat sz)" using that lim by (simp add: rgI)
    moreover have "a + of_nat j \<notin> rg a (unat len)"
    proof -
      have "j < 2 ^ LENGTH(64)" using that lim by simp
      then have "unat (of_nat j :: u64) = j" by (rule unat_of_nat_small)
      then show ?thesis using that by (simp add: rg_def)
    qed
    ultimately show ?thesis by (simp add: m2 m1)
  qed
qed

lemma page_mult: "x mod 4096 = 0 \<Longrightarrow> x div 4096 * 4096 = (x :: nat)"
  using div_mult_mod_eq [of x 4096] by simp

lemma aligned_not_ones: "unat (va :: u64) mod 4096 = 0 \<Longrightarrow> va \<noteq> NOT 0"
proof
  assume "unat va mod 4096 = 0" "va = NOT 0"
  moreover have "unat (- 1 :: u64) = 18446744073709551615"
    by (simp add: unsigned_minus_1_eq_mask mask_eq_exp_minus_1)
  ultimately show False by simp
qed

text \<open>Mapping whole pages.\<close>

lemma ld_map_pages:
  assumes a4: "arch_4k (le_mmu env)" and v: "virtual_startup (le_mmu env)" and t: "tables l1 S (ld_vm s)"
    and run: "ld_map env va p len fl s = ok s'"
    and al: "unat va mod 4096 = 0" "unat p mod 4096 = 0" and small: "unat p + unat len + 4096 \<le> 2 ^ 48"
    and wf: "walk_from (le_mmu env) va (ld_vm s) = ok l1"
    and n: "n = (unat len + 4095) div 4096"
    and S: "\<forall>P \<in> {unat va div 4096 ..< unat va div 4096 + n}. P div 512 div 512 \<in> S"
  shows "maps_pages (le_mmu env) l1 S {unat va div 4096 ..< unat va div 4096 + n} s s'"
    "ld_mem s' = ld_mem s"
    "j < n * 4096 \<Longrightarrow> elf_vaddr_to_paddr (le_mmu env) (va + of_nat j) (ld_vm s') = ok (p + of_nat j)"
proof -
  obtain r where m: "aarch64_map (le_mmu env) va p len (elf_prot (le_mmu env) fl) (ld_vm s) = ok (r, ld_vm s')"
    and mem: "ld_mem s' = ld_mem s"
    using run by (auto simp: ld_map_def elf_map_def res_simps)
  have pg: "page (le_mmu env) = 2 ^ 12" using a4 by (simp add: arch_4k_def)
  have ne: "va \<noteq> NOT 0" by (rule aligned_not_ones [OF al(1)])
  have tr: "TRUNCPG (le_mmu env) va = va"
  proof -
    have "unat va div 4096 * 4096 = unat va" by (rule page_mult [OF al(1)])
    then have "unat (TRUNC va (2 ^ 12)) = unat va" by (subst unat_TRUNC_pow2) simp_all
    then show ?thesis by (simp add: TRUNCPG_def pg word_unat_eq_iff)
  qed
  have pa: "p AND NOT 0xFFF = p"
  proof -
    have "unat p div 4096 * 4096 = unat p" by (rule page_mult [OF al(2)])
    then have "unat (TRUNC p (2 ^ 12)) = unat p" by (subst unat_TRUNC_pow2) simp_all
    then show ?thesis by (simp add: TRUNC_def word_unat_eq_iff)
  qed
  have va: "va = TRUNCPG (le_mmu env) (if va = NOT 0 then vm_free (ld_vm s) else va)" using ne tr by simp
  have n': "n = (unat p mod 4096 + unat len + 4095) div 4096" using n al(2) by simp
  note mt = map_translates [OF a4 v m va wf t small n' S]
  have fr: "less_free (ld_vm s) (ld_vm s')" by (rule aarch64_map_free [OF a4 v m])
  have mo: "mem_ok (ld_vm s)" using t by (auto simp: tables_def tree_def)
  show "maps_pages (le_mmu env) l1 S {unat va div 4096 ..< unat va div 4096 + n} s s'"
    unfolding maps_pages_def
  proof (intro conjI allI)
    show "walk_from (le_mmu env) x (ld_vm s') = walk_from (le_mmu env) x (ld_vm s)" for x
      using fr by (simp add: less_free_def walk_from_def Let_def)
  qed (use mt fr mo mem in \<open>auto simp: less_free_def\<close>)
  show "ld_mem s' = ld_mem s" by (rule mem)
  show "elf_vaddr_to_paddr (le_mmu env) (va + of_nat j) (ld_vm s') = ok (p + of_nat j)" if "j < n * 4096"
  proof -
    have "n * 4096 \<le> unat len + 4095" unfolding n by simp
    then have "j < 2 ^ LENGTH(64)" using that small by simp
    then have "unat (of_nat j :: u64) = j" by (rule unat_of_nat_small)
    then show ?thesis using mt [THEN conjunct1, rule_format, of "of_nat j"] that pa by simp
  qed
qed

text \<open>Memory that could not be allocated is not mapped: its offset in the page is that of all ones.\<close>

lemma ld_map_null:
  assumes "arch_4k (le_mmu env)" "virtual_startup (le_mmu env)" "unat va mod 4096 = 0"
  shows "ld_map env va NULL_PADDR len fl s \<noteq> ok s'"
proof -
  have pg: "page (le_mmu env) = 0x1000" using assms(1) by (simp add: arch_4k_def)
  have "unat (va AND 0xFFF) = 0" using assms(3) by (simp add: and_low12)
  then have z: "va AND 0xFFF = 0" by (simp add: unat_eq_0)
  have ne: "va \<noteq> NOT 0" by (rule aligned_not_ones [OF assms(3)])
  have "aarch64_map (le_mmu env) va NULL_PADDR len f (ld_vm s) = crash ''aarch64_map: bad alignment''" for f
    using assms(2) z ne by (simp add: aarch64_map_def pg pick_vaddr_def NULL_PADDR_def Let_def)
  then show ?thesis by (simp add: ld_map_def elf_map_def)
qed

section \<open>One segment\<close>

definition seg_pages :: "phdr \<Rightarrow> nat set" where
  "seg_pages ph =
    {unat (p_vaddr ph) div 4096 ..<
     unat (p_vaddr ph) div 4096 + (unat (p_vaddr ph) mod 4096 + unat (p_memsz ph) + 4095) div 4096}"

text \<open>The byte that a segment has i bytes after its start: that of the file, or of the image where it
  stays in place, and zero after the part in the file.\<close>

definition seg_byte :: "pmem \<Rightarrow> paddr \<Rightarrow> phdr \<Rightarrow> nat \<Rightarrow> u8" where
  "seg_byte m addr ph i =
    (if unat (p_filesz ph) \<le> i then 0
     else if p_paddr ph = 0 then m (addr + p_offset ph + of_nat i) else m (p_paddr ph + of_nat i))"

text \<open>What the loader expects: a size of less than 2 GB, pages that the tables for the blocks S can
  map, a file part that is not in free memory, and the same offset in the page for the place in
  the image.\<close>

definition seg_ok :: "mmu_env \<Rightarrow> paddr \<Rightarrow> nat set \<Rightarrow> paddr \<Rightarrow> phdr \<Rightarrow> ld_state \<Rightarrow> bool" where
  "seg_ok mmu l1 S addr ph s \<longleftrightarrow>
    0 < p_memsz ph \<and> p_filesz ph \<le> p_memsz ph \<and> unat (p_memsz ph) < 2 ^ 31 \<and>
    unat (p_vaddr ph) + unat (p_memsz ph) + 8192 \<le> 2 ^ 64 \<and>
    (\<forall>P \<in> seg_pages ph. P div 512 div 512 \<in> S) \<and>
    (\<forall>x. unat x div 4096 \<in> seg_pages ph \<longrightarrow> walk_from mmu x (ld_vm s) = ok l1) \<and>
    (if p_paddr ph = 0 then \<forall>i<unat (p_filesz ph). addr + p_offset ph + of_nat i \<notin> free_of s
     else unat (p_paddr ph) mod 4096 = unat (p_vaddr ph) mod 4096 \<and>
       unat (p_paddr ph) + unat (p_memsz ph) + 8192 \<le> 2 ^ 48 \<and>
       (\<forall>i<unat (p_filesz ph). p_paddr ph + of_nat i \<notin> free_of s))"

text \<open>Addresses and sizes of a segment as numbers.\<close>

lemma unat_page:
  fixes x :: u64
  shows "unat (x AND NOT 0xFFF) = unat x div 4096 * 4096" "x = (x AND NOT 0xFFF) + of_nat (unat x mod 4096)"
proof -
  show u: "unat (x AND NOT 0xFFF) = unat x div 4096 * 4096"
    using unat_TRUNC_pow2 [of 12 x] by (simp add: TRUNC_def)
  have "(of_nat (unat (x AND NOT 0xFFF)) :: u64) + of_nat (unat x mod 4096) = of_nat (unat x)"
    unfolding u of_nat_add [symmetric] div_mult_mod_eq ..
  then show "x = (x AND NOT 0xFFF) + of_nat (unat x mod 4096)" by simp
qed

text \<open>New memory with a copy at its start, mapped.\<close>

lemma fresh_mapped:
  assumes a4: "arch_4k (le_mmu env)" and v: "virtual_startup (le_mmu env)" and t: "tables l1 S (ld_vm s)"
    and ca: "ld_calloc env sz s = ok (a, s1)" and cp: "ld_copy a src len s1 = ok s2"
    and mp: "ld_map env va a mlen fl s2 = ok s3"
    and sz: "unat sz = n * 4096" "0 < n" "n = (unat mlen + 4095) div 4096" and len: "len \<le> sz" "len < 2 ^ 32"
    and va: "unat va mod 4096 = 0" and wf: "walk_from (le_mmu env) va (ld_vm s) = ok l1"
    and low: "free_of s \<subseteq> {..< 2 ^ 47}"
    and S: "\<forall>P \<in> {unat va div 4096 ..< unat va div 4096 + n}. P div 512 div 512 \<in> S"
  shows "maps_pages (le_mmu env) l1 S {unat va div 4096 ..< unat va div 4096 + n} s s3"
    "j < unat len \<Longrightarrow> src + of_nat j \<notin> free_of s \<Longrightarrow> byte_at (le_mmu env) s3 (va + of_nat j) (ld_mem s (src + of_nat j))"
    "unat len \<le> j \<Longrightarrow> j < n * 4096 \<Longrightarrow> byte_at (le_mmu env) s3 (va + of_nat j) 0"
proof -
  have a: "a \<noteq> NULL_PADDR" using ld_map_null [OF a4 v va] mp by auto
  have sz0: "0 < sz" using sz(1,2) by (simp add: word_gt_0 flip: unat_eq_0)
  note f = fresh_copy [OF a4 t ca a sz0 cp len]
  have t2: "tables l1 S (ld_vm s2)" using f(1) by (simp add: maps_pages_def)
  have wf2: "walk_from (le_mmu env) va (ld_vm s2) = ok l1" using f(1) wf by (simp add: maps_pages_def)
  have len48: "unat mlen \<le> n * 4096"
    unfolding sz(3) using div_mult_mod_eq [of "unat mlen + 4095" 4096] mod_less_divisor [of 4096 "unat mlen + 4095"]
    by linarith
  have small: "unat a + unat mlen + 4096 \<le> 2 ^ 48"
  proof -
    let ?x = "a + of_nat (unat sz - 1)"
    have "?x \<in> rg a (unat sz)" using sz0 unsigned_less [of sz, where ?'a = nat]
      by (intro rgI) (simp_all add: word_gt_0 unat_gt_0)
    then have "?x < 2 ^ 47" using f(5) low by auto
    moreover have "unat ?x = unat a + (unat sz - 1)"
    proof -
      have "unat (of_nat (unat sz - 1) :: u64) = unat sz - 1"
        using unsigned_less [of sz, where ?'a = nat] by (intro unat_of_nat_small) simp
      then show ?thesis using f(3) by (subst unat_add_lem [THEN iffD1]) simp_all
    qed
    ultimately show ?thesis using len48 sz(1) by (simp add: word_less_nat_alt)
  qed
  note m = ld_map_pages [OF a4 v t2 mp va f(2) small wf2 sz(3) S]
  have "maps_pages (le_mmu env) l1 S ({} \<union> {unat va div 4096 ..< unat va div 4096 + n}) s s3"
    by (rule maps_pages_trans [OF f(1) m(1)])
  then show "maps_pages (le_mmu env) l1 S {unat va div 4096 ..< unat va div 4096 + n} s s3" by simp
  have held: "byte_at (le_mmu env) s3 (va + of_nat i) (ld_mem s2 (a + of_nat i))" if "i < n * 4096" for i
  proof -
    have "n * 4096 \<le> 2 ^ 64" using sz(1) unsigned_less [of sz, where ?'a = nat] by simp
    then have "a + of_nat i \<in> rg a (unat sz)" using that sz(1) by (simp add: rgI)
    then have "a + of_nat i \<notin> free_of s3" using f(4) m(1) by (auto simp: maps_pages_def)
    then show ?thesis using m(3) [OF that] m(2) by (simp add: byte_at_def)
  qed
  show "byte_at (le_mmu env) s3 (va + of_nat j) (ld_mem s (src + of_nat j))"
    if "j < unat len" "src + of_nat j \<notin> free_of s"
  proof -
    have "j < n * 4096" using that(1) len(1) sz(1) by (simp add: word_le_nat_alt)
    then show ?thesis using held [of j] f(6) [OF that] by simp
  qed
  show "byte_at (le_mmu env) s3 (va + of_nat j) 0" if "unat len \<le> j" "j < n * 4096"
    using held [OF that(2)] f(7) [OF that(1)] that(2) sz(1) by simp
qed

lemma unat_ROUNDPG:
  assumes "arch_4k mmu" "unat x + 4095 < 2 ^ 64"
  shows "unat (ROUNDPG mmu x) = (unat x + 4095) div 4096 * 4096"
  using assms unat_ROUND_pow2 [of 12 x] by (simp add: ROUNDPG_def arch_4k_def)

lemma round_up: "m \<le> (m + 4095) div 4096 * (4096 :: nat)" "(m + 4095) div 4096 * 4096 < m + (4096 :: nat)"
  using div_mult_mod_eq [of "m + 4095" 4096] mod_less_divisor [of 4096 "m + 4095"] by linarith+

lemma round_twice: "((m + 4095) div 4096 * 4096 + 4095) div 4096 = (m + 4095) div (4096 :: nat)"
  by simp

text \<open>A segment of f bytes in the file and m bytes in memory, from the page address va on.\<close>

lemma map_copied_maps:
  assumes a4: "arch_4k (le_mmu env)" and v: "virtual_startup (le_mmu env)" and t: "tables l1 S (ld_vm s)"
    and pid: "\<forall>x. el_paddr e x = x" and run: "map_copied env e addr ph fz mz s = ok s'"
    and m: "0 < unat mz" "unat fz \<le> (unat mz + 4095) div 4096 * 4096" "unat mz < 2 ^ 32 - 4096"
    and va: "va = p_vaddr ph AND NOT 0xFFF" and wf: "walk_from (le_mmu env) va (ld_vm s) = ok l1"
    and low: "free_of s \<subseteq> {..< 2 ^ 47}" and n: "n = (unat mz + 4095) div 4096"
    and S: "\<forall>P \<in> {unat va div 4096 ..< unat va div 4096 + n}. P div 512 div 512 \<in> S"
    and src: "src = addr + p_offset ph - (p_vaddr ph AND 0xFFF)"
  shows "maps_pages (le_mmu env) l1 S {unat va div 4096 ..< unat va div 4096 + n} s s'"
    "j < unat fz \<Longrightarrow> src + of_nat j \<notin> free_of s \<Longrightarrow> byte_at (le_mmu env) s' (va + of_nat j) (ld_mem s (src + of_nat j))"
    "unat fz \<le> j \<Longrightarrow> j < unat mz \<Longrightarrow> byte_at (le_mmu env) s' (va + of_nat j) 0"
proof -
  have pg: "page (le_mmu env) - 1 = 0xFFF" using a4 by (simp add: arch_4k_def)
  obtain a s1 s2 where st: "ld_calloc env (ROUNDPG (le_mmu env) mz) s = ok (a, s1)" "ld_copy a src fz s1 = ok s2"
    "ld_map env va a mz (p_flags ph) s2 = ok s'"
    using run pid unfolding map_copied_def Let_def pg va src by (auto simp: res_simps)
  have r: "unat (ROUNDPG (le_mmu env) mz) = n * 4096"
    unfolding n using m(3) by (intro unat_ROUNDPG [OF a4]) simp
  have n0: "0 < n" unfolding n using m(1) by (simp add: div_greater_zero_iff)
  have fl: "fz \<le> ROUNDPG (le_mmu env) mz" "fz < 2 ^ 32"
    using m(2,3) r round_up(2) [of "unat mz"] unfolding n [symmetric]
    by (simp_all add: word_le_nat_alt word_less_nat_alt)
  have al: "unat va mod 4096 = 0" unfolding va unat_page by simp
  note f = fresh_mapped [OF a4 v t st r n0 n fl al wf low S]
  show "maps_pages (le_mmu env) l1 S {unat va div 4096 ..< unat va div 4096 + n} s s'" by (rule f(1))
  show "j < unat fz \<Longrightarrow> src + of_nat j \<notin> free_of s \<Longrightarrow> byte_at (le_mmu env) s' (va + of_nat j) (ld_mem s (src + of_nat j))"
    by (rule f(2))
  show "byte_at (le_mmu env) s' (va + of_nat j) 0" if "unat fz \<le> j" "j < unat mz"
    using f(3) [OF that(1)] that(2) round_up(1) [of "unat mz"] by (simp add: n)
qed

text \<open>The whole pages of a file part and the rest.\<close>

definition place_parts :: "ld_env \<Rightarrow> elf_layout \<Rightarrow> u64 \<Rightarrow> paddr \<Rightarrow> u32 \<Rightarrow> u64 \<Rightarrow> u64 \<Rightarrow> ld_state \<Rightarrow> ld_state res" where
  "place_parts env e va p fl fz mz s =
    and_then (ld_map env va p (fz AND NOT 0xFFF) fl s) (\<lambda>s.
      let mz = ROUNDPG (le_mmu env) (mz - (fz AND NOT 0xFFF)) in
      if mz = 0 then ok s
      else and_then (ld_calloc env mz s) (\<lambda>(a, s).
           and_then (ld_copy (el_paddr e a) (p + (fz AND NOT 0xFFF)) (fz AND 0xFFF) s) (\<lambda>s.
             ld_map env (va + (fz AND NOT 0xFFF)) (el_paddr e a) mz fl s)))"

lemma map_in_place_parts:
  assumes "arch_4k (le_mmu env)"
  shows "map_in_place env e ph fz mz s =
    (let R = ROUNDPG (le_mmu env) fz in
     if p_memsz ph = p_filesz ph
     then place_parts env e (p_vaddr ph AND NOT 0xFFF) (p_paddr ph AND NOT 0xFFF) (p_flags ph) R R s
     else place_parts env e (p_vaddr ph AND NOT 0xFFF) (p_paddr ph AND NOT 0xFFF) (p_flags ph) fz mz s)"
proof -
  have pg: "page (le_mmu env) - 1 = 0xFFF" using assms by (simp add: arch_4k_def)
  show ?thesis unfolding map_in_place_def place_parts_def Let_def pg by simp
qed

lemma first_pages:
  assumes a4: "arch_4k (le_mmu env)" and v: "virtual_startup (le_mmu env)" and t: "tables l1 S (ld_vm s)"
    and run: "ld_map env va p (fz AND NOT 0xFFF) fl s = ok s1"
    and al: "unat va mod 4096 = 0" "unat p mod 4096 = 0" and small: "unat p + unat fz + 4096 \<le> 2 ^ 48"
    and wf: "walk_from (le_mmu env) va (ld_vm s) = ok l1" and k: "k = unat fz div 4096"
    and S: "\<forall>P \<in> {unat va div 4096 ..< unat va div 4096 + k}. P div 512 div 512 \<in> S"
  shows "maps_pages (le_mmu env) l1 S {unat va div 4096 ..< unat va div 4096 + k} s s1" "ld_mem s1 = ld_mem s"
    "j < k * 4096 \<Longrightarrow> p + of_nat j \<notin> free_of s \<Longrightarrow> byte_at (le_mmu env) s1 (va + of_nat j) (ld_mem s (p + of_nat j))"
proof -
  have u: "unat (fz AND NOT 0xFFF) = k * 4096" unfolding unat_page k ..
  have n: "k = (unat (fz AND NOT 0xFFF) + 4095) div 4096" unfolding u by simp
  have sm: "unat p + unat (fz AND NOT 0xFFF) + 4096 \<le> 2 ^ 48"
    unfolding u using small k div_mult_mod_eq [of "unat fz" 4096] by linarith
  note m = ld_map_pages [OF a4 v t run al sm wf n S]
  show "maps_pages (le_mmu env) l1 S {unat va div 4096 ..< unat va div 4096 + k} s s1" by (rule m(1))
  show "ld_mem s1 = ld_mem s" by (rule m(2))
  show "byte_at (le_mmu env) s1 (va + of_nat j) (ld_mem s (p + of_nat j))"
    if "j < k * 4096" "p + of_nat j \<notin> free_of s"
    using m(1,2) m(3) [OF that(1)] that(2) by (auto simp: byte_at_def maps_pages_def)
qed

lemma page_of_add:
  assumes "unat (va :: u64) mod 4096 = 0" "unat va + j < 2 ^ 64"
  shows "unat (va + of_nat j) = unat va + j" "unat (va + of_nat j) div 4096 = unat va div 4096 + j div 4096"
proof -
  have "j < 2 ^ LENGTH(64)" using assms(2) by simp
  then have "unat (of_nat j :: u64) = j" by (rule unat_of_nat_small)
  then show u: "unat (va + of_nat j) = unat va + j" using assms(2) by (subst unat_add_lem [THEN iffD1]) simp_all
  have "unat va = unat va div 4096 * 4096" by (rule page_mult [OF assms(1), symmetric])
  then show "unat (va + of_nat j) div 4096 = unat va div 4096 + j div 4096"
    unfolding u by (metis div_mult_self3 zero_neq_numeral)
qed

lemma round_rest:
  fixes M k :: nat
  assumes "k * 4096 \<le> M"
  shows "(M - k * 4096 + 4095) div 4096 = (M + 4095) div 4096 - k"
proof -
  obtain r where r: "M = k * 4096 + r" using assms le_Suc_ex by blast
  have "(k * 4096 + r + 4095) div 4096 = k + (r + 4095) div 4096" by simp
  then show ?thesis unfolding r by simp
qed

lemma place_parts_maps:
  assumes a4: "arch_4k (le_mmu env)" and v: "virtual_startup (le_mmu env)" and t: "tables l1 S (ld_vm s)"
    and pid: "\<forall>x. el_paddr e x = x" and run: "place_parts env e va p fl fz mz s = ok s'"
    and m: "unat fz \<le> unat mz" "unat mz < 2 ^ 32" "unat va + unat mz + 4096 \<le> 2 ^ 64"
    and al: "unat va mod 4096 = 0" "unat p mod 4096 = 0" and small: "unat p + unat fz + 4096 \<le> 2 ^ 48"
    and low: "free_of s \<subseteq> {..< 2 ^ 47}" and n: "n = (unat mz + 4095) div 4096"
    and S: "\<forall>P \<in> {unat va div 4096 ..< unat va div 4096 + n}. P div 512 div 512 \<in> S"
    and wf: "\<forall>x. unat x div 4096 \<in> {unat va div 4096 ..< unat va div 4096 + n} \<longrightarrow> walk_from (le_mmu env) x (ld_vm s) = ok l1"
    and n0: "0 < n"
  shows "maps_pages (le_mmu env) l1 S {unat va div 4096 ..< unat va div 4096 + n} s s' \<and>
    (\<forall>j<unat mz. (j < unat fz \<and> p + of_nat j \<notin> free_of s \<longrightarrow>
        byte_at (le_mmu env) s' (va + of_nat j) (ld_mem s (p + of_nat j))) \<and>
      (unat fz \<le> j \<longrightarrow> byte_at (le_mmu env) s' (va + of_nat j) 0))"
proof -
  let ?V = "unat va div 4096" and ?k = "unat fz div 4096" and ?full = "fz AND NOT 0xFFF"
  have u: "unat ?full = ?k * 4096" by (rule unat_page)
  have km: "?k * 4096 \<le> unat fz" by simp
  have kn: "?k \<le> n" unfolding n using m(1) by (simp add: div_le_mono)
  obtain s1 where s1: "ld_map env va p ?full fl s = ok s1"
    and r: "(let mz = ROUNDPG (le_mmu env) (mz - ?full) in
      if mz = 0 then ok s1
      else and_then (ld_calloc env mz s1) (\<lambda>(a, s).
           and_then (ld_copy (el_paddr e a) (p + ?full) (fz AND 0xFFF) s) (\<lambda>s.
             ld_map env (va + ?full) (el_paddr e a) mz fl s))) = ok s'"
    using run unfolding place_parts_def by (auto elim!: and_then_okE)
  have wf0: "walk_from (le_mmu env) va (ld_vm s) = ok l1" using wf n0 by simp
  have S1: "\<forall>P \<in> {?V ..< ?V + ?k}. P div 512 div 512 \<in> S" using S kn by simp
  note f = first_pages [OF a4 v t s1 al small wf0 refl S1]
  have t1: "tables l1 S (ld_vm s1)" using f(1) by (simp add: maps_pages_def)
  have rest: "unat (mz - ?full) = unat mz - ?k * 4096"
    using u km m(1) by (subst unat_sub) (simp_all add: word_le_nat_alt)
  have R: "unat (ROUNDPG (le_mmu env) (mz - ?full)) = (n - ?k) * 4096"
  proof -
    have b: "unat (mz - ?full) + 4095 < 2 ^ 64" unfolding rest using m(2) by simp
    have "unat (ROUNDPG (le_mmu env) (mz - ?full)) = (unat mz - ?k * 4096 + 4095) div 4096 * 4096"
      using unat_ROUNDPG [OF a4 b] unfolding rest .
    also have "(unat mz - ?k * 4096 + 4095) div 4096 = n - ?k"
      unfolding n by (rule round_rest) (use km m(1) in linarith)
    finally show ?thesis .
  qed
  show ?thesis
  proof (cases "n = ?k")
    case True
    then have z: "ROUNDPG (le_mmu env) (mz - ?full) = 0" using R by (simp add: unat_eq_0)
    have s': "s' = s1" using r z by (simp add: Let_def)
    have "unat mz \<le> ?k * 4096" using round_up(1) [of "unat mz"] True n by simp
    then have "unat fz = unat mz" "unat mz = ?k * 4096" using m(1) km by linarith+
    then show ?thesis using f True s' by auto
  next
    case False
    then have lt: "?k < n" using kn by simp
    then have "unat (ROUNDPG (le_mmu env) (mz - ?full)) \<noteq> 0" unfolding R by simp
    then have nz: "ROUNDPG (le_mmu env) (mz - ?full) \<noteq> 0" by auto
    obtain a s2 s3 where st: "ld_calloc env (ROUNDPG (le_mmu env) (mz - ?full)) s1 = ok (a, s2)"
      "ld_copy a (p + ?full) (fz AND 0xFFF) s2 = ok s3"
      "ld_map env (va + ?full) a (ROUNDPG (le_mmu env) (mz - ?full)) fl s3 = ok s'"
      using r nz pid by (auto simp: Let_def elim!: and_then_okE)
    have kk: "?k * 4096 < unat mz" using lt n by (simp add: less_eq_div_iff_mult_less_eq)
    have "(of_nat (?k * 4096) :: u64) = ?full" unfolding u [symmetric] by simp
    then have full: "?full = of_nat (?k * 4096)" by (rule sym)
    have va2: "unat (va + ?full) = unat va + ?k * 4096" "unat (va + ?full) div 4096 = ?V + ?k"
      unfolding full using page_of_add [OF al(1), of "?k * 4096"] m kk by simp_all
    have r2: "n - ?k = (unat (ROUNDPG (le_mmu env) (mz - ?full)) + 4095) div 4096" unfolding R by simp
    have part: "unat (fz AND 0xFFF) = unat fz mod 4096" by (rule and_low12)
    have "unat fz mod 4096 < 4096" by simp
    then have lens: "fz AND 0xFFF \<le> ROUNDPG (le_mmu env) (mz - ?full)" "fz AND 0xFFF < 2 ^ 32"
      using R lt part unfolding word_le_nat_alt word_less_nat_alt by simp_all
    have al2: "unat (va + ?full) mod 4096 = 0" unfolding va2(1) using al(1) by simp
    have S2: "\<forall>P \<in> {unat (va + ?full) div 4096 ..< unat (va + ?full) div 4096 + (n - ?k)}. P div 512 div 512 \<in> S"
      unfolding va2(2) using S kn by simp
    have wf2: "walk_from (le_mmu env) (va + ?full) (ld_vm s1) = ok l1"
      using wf [rule_format, of "va + ?full"] va2(2) lt f(1) by (simp add: maps_pages_def)
    have low1: "free_of s1 \<subseteq> {..< 2 ^ 47}" using low f(1) by (auto simp: maps_pages_def)
    have lt0: "0 < n - ?k" using lt by simp
    note g = fresh_mapped [OF a4 v t1 st R lt0 r2 lens al2 wf2 low1 S2, unfolded va2(2)]
    have un: "{?V ..< ?V + ?k} \<union> {?V + ?k ..< ?V + ?k + (n - ?k)} = {?V ..< ?V + n}" using kn by auto
    have mp: "maps_pages (le_mmu env) l1 S {?V ..< ?V + n} s s'"
      using maps_pages_trans [OF f(1) g(1)] unfolding un .
    have shift: "va + of_nat j = (va + ?full) + of_nat (j - ?k * 4096)"
      "p + of_nat j = (p + ?full) + of_nat (j - ?k * 4096)" if "?k * 4096 \<le> j" for j
      using that unfolding full by (simp_all add: of_nat_diff)
    have held: "byte_at (le_mmu env) s' (va + of_nat j) (ld_mem s (p + of_nat j))"
      if j: "j < unat fz" "p + of_nat j \<notin> free_of s" for j
    proof (cases "j < ?k * 4096")
      case True
      have pge: "unat (va + of_nat j) div 4096 = ?V + j div 4096"
        using page_of_add(2) [OF al(1)] j(1) m by simp
      have jk: "j div 4096 < ?k" using True by (simp add: less_mult_imp_div_less)
      show ?thesis
      proof (rule byte_kept [OF f(3) [OF True j(2)] g(1)])
        have "walk_from (le_mmu env) (va + of_nat j) (ld_vm s) = ok l1" using wf pge jk kn by simp
        then show "walk_from (le_mmu env) (va + of_nat j) (ld_vm s1) = ok l1"
          using f(1) by (simp add: maps_pages_def)
      qed (use pge jk kn S in simp_all)
    next
      case False
      have "j - ?k * 4096 < unat (fz AND 0xFFF)"
        using False j(1) div_mult_mod_eq [of "unat fz" 4096] unfolding part by linarith
      moreover have "p + of_nat j \<notin> free_of s1" using j(2) f(1) by (auto simp: maps_pages_def)
      ultimately show ?thesis using g(2) [of "j - ?k * 4096"] shift [of j] False f(2) by simp
    qed
    have zero: "byte_at (le_mmu env) s' (va + of_nat j) 0" if j: "unat fz \<le> j" "j < unat mz" for j
    proof -
      have "unat (fz AND 0xFFF) \<le> j - ?k * 4096"
        using j(1) div_mult_mod_eq [of "unat fz" 4096] unfolding part by linarith
      moreover have "j - ?k * 4096 < (n - ?k) * 4096"
        using j(2) round_up(1) [of "unat mz"] kk lt unfolding n [symmetric] diff_mult_distrib by linarith
      ultimately show ?thesis using g(3) [of "j - ?k * 4096"] shift(1) [of j] km j(1) by simp
    qed
    show ?thesis using mp held zero by blast
  qed
qed

text \<open>The sizes that the loader uses: those of the segment with the offset in the first page, or
  rounded to pages when the file part is the whole segment.\<close>

definition seg_count :: "phdr \<Rightarrow> nat" where
  "seg_count ph = (unat (p_vaddr ph) mod 4096 + unat (p_memsz ph) + 4095) div 4096"

definition sizes_ok :: "phdr \<Rightarrow> u64 \<Rightarrow> u64 \<Rightarrow> bool" where
  "sizes_ok ph fz mz \<longleftrightarrow>
    (unat mz + 4095) div 4096 = seg_count ph \<and>
    unat (p_vaddr ph) mod 4096 + unat (p_memsz ph) \<le> unat mz \<and>
    unat (p_vaddr ph) mod 4096 + unat (p_filesz ph) \<le> unat fz \<and> unat fz \<le> unat mz \<and>
    (p_filesz ph \<noteq> p_memsz ph \<longrightarrow> unat fz = unat (p_vaddr ph) mod 4096 + unat (p_filesz ph)) \<and>
    unat (p_memsz ph) < 2 ^ 31 \<and> unat mz < 2 ^ 31 + 8192"

lemma add_low:
  fixes x v :: u64
  assumes "unat x < 2 ^ 31"
  shows "unat (x + (v AND 0xFFF)) = unat v mod 4096 + unat x"
proof -
  have l: "unat (v AND 0xFFF) < 4096" unfolding and_low12 by simp
  have "unat x + unat (v AND 0xFFF) < 2 ^ LENGTH(64)" using l assms by simp
  then have "unat (x + (v AND 0xFFF)) = unat x + unat (v AND 0xFFF)" by (rule unat_add_lem [THEN iffD1])
  then show ?thesis unfolding and_low12 by simp
qed

lemma sizes_plain:
  assumes "p_filesz ph \<le> p_memsz ph" "unat (p_memsz ph) < 2 ^ 31"
  shows "sizes_ok ph (p_filesz ph + (p_vaddr ph AND 0xFFF)) (p_memsz ph + (p_vaddr ph AND 0xFFF))"
proof -
  have f: "unat (p_filesz ph) \<le> unat (p_memsz ph)" using assms(1) by (simp add: word_le_nat_alt)
  have l: "unat (p_vaddr ph) mod 4096 < 4096" by simp
  have u: "unat (p_filesz ph + (p_vaddr ph AND 0xFFF)) = unat (p_vaddr ph) mod 4096 + unat (p_filesz ph)"
    "unat (p_memsz ph + (p_vaddr ph AND 0xFFF)) = unat (p_vaddr ph) mod 4096 + unat (p_memsz ph)"
    by (rule add_low; use f assms(2) in linarith)+
  show ?thesis unfolding sizes_ok_def seg_count_def u using f l assms(2) by (intro conjI impI) linarith+
qed

lemma sizes_round:
  assumes a4: "arch_4k mmu" and s: "sizes_ok ph fz mz" and e: "p_filesz ph = p_memsz ph"
  shows "sizes_ok ph (ROUNDPG mmu fz) (ROUNDPG mmu fz)"
proof -
  let ?w = "unat (p_vaddr ph) mod 4096 + unat (p_memsz ph)"
  have b: "?w \<le> unat fz" "unat fz \<le> unat mz" "unat mz < 2 ^ 31 + 8192" "(unat mz + 4095) div 4096 = seg_count ph"
    using s e by (simp_all add: sizes_ok_def)
  have "(?w + 4095) div 4096 \<le> (unat fz + 4095) div 4096" "(unat fz + 4095) div 4096 \<le> (unat mz + 4095) div 4096"
    using b by (intro div_le_mono; simp)+
  then have n: "(unat fz + 4095) div 4096 = seg_count ph" using b(4) by (simp add: seg_count_def)
  have R: "unat (ROUNDPG mmu fz) = seg_count ph * 4096"
    using b unfolding n [symmetric] by (intro unat_ROUNDPG [OF a4]) simp
  have up: "?w \<le> seg_count ph * 4096" using round_up(1) [of ?w] by (simp add: seg_count_def)
  have "seg_count ph * 4096 < 2 ^ 31 + 8192"
  proof -
    have "seg_count ph * 4096 < ?w + 4096" unfolding seg_count_def by (rule round_up(2))
    moreover have "unat (p_vaddr ph) mod 4096 < 4096" by simp
    moreover have "unat (p_memsz ph) < 2 ^ 31" using s by (simp only: sizes_ok_def)
    ultimately show ?thesis by linarith
  qed
  moreover have "unat (p_memsz ph) < 2 ^ 31" using s by (simp only: sizes_ok_def)
  ultimately show ?thesis using up e by (simp add: sizes_ok_def R)
qed

text \<open>Both ways of loading a segment with sizes that fit put its bytes into its pages.\<close>

definition seg_loaded :: "mmu_env \<Rightarrow> paddr \<Rightarrow> nat set \<Rightarrow> paddr \<Rightarrow> phdr \<Rightarrow> ld_state \<Rightarrow> ld_state \<Rightarrow> bool" where
  "seg_loaded mmu l1 S addr ph s s' \<longleftrightarrow> maps_pages mmu l1 S (seg_pages ph) s s' \<and>
    (\<forall>i<unat (p_memsz ph). byte_at mmu s' (p_vaddr ph + of_nat i) (seg_byte (ld_mem s) addr ph i))"

lemma seg_pages_count: "seg_pages ph = {unat (p_vaddr ph) div 4096 ..< unat (p_vaddr ph) div 4096 + seg_count ph}"
  by (simp add: seg_pages_def seg_count_def)

lemma seg_start:
  "unat (p_vaddr ph AND NOT 0xFFF) div 4096 = unat (p_vaddr ph) div 4096"
  "p_vaddr ph + of_nat i = (p_vaddr ph AND NOT 0xFFF) + of_nat (unat (p_vaddr ph) mod 4096 + i)"
proof -
  show "unat (p_vaddr ph AND NOT 0xFFF) div 4096 = unat (p_vaddr ph) div 4096" unfolding unat_page by simp
  show "p_vaddr ph + of_nat i = (p_vaddr ph AND NOT 0xFFF) + of_nat (unat (p_vaddr ph) mod 4096 + i)"
    by (subst unat_page(2) [of "p_vaddr ph"]) (simp only: of_nat_add add.assoc)
qed

lemma copied_loaded:
  assumes a4: "arch_4k (le_mmu env)" and v: "virtual_startup (le_mmu env)" and t: "tables l1 S (ld_vm s)"
    and pid: "\<forall>x. el_paddr e x = x" and ok: "seg_ok (le_mmu env) l1 S addr ph s" and low: "free_of s \<subseteq> {..< 2 ^ 47}"
    and sz: "sizes_ok ph fz mz" and p0: "p_paddr ph = 0" and run: "map_copied env e addr ph fz mz s = ok s'"
  shows "seg_loaded (le_mmu env) l1 S addr ph s s'"
proof -
  let ?va = "p_vaddr ph AND NOT 0xFFF" and ?w = "unat (p_vaddr ph) mod 4096"
  let ?src = "addr + p_offset ph - (p_vaddr ph AND 0xFFF)"
  note so = ok [unfolded seg_ok_def seg_pages_count] and z = sz [unfolded sizes_ok_def]
  have n: "seg_count ph = (unat mz + 4095) div 4096" using z by simp
  have mpos: "0 < unat (p_memsz ph)" using so by (simp add: word_less_nat_alt)
  have c0: "0 < seg_count ph" using mpos by (simp add: seg_count_def div_greater_zero_iff)
  have wf: "walk_from (le_mmu env) ?va (ld_vm s) = ok l1"
    using so c0 seg_start(1) [of ph] by (metis add_less_cancel_left atLeastLessThan_iff less_add_same_cancel1 order_refl)
  have m: "0 < unat mz" "unat fz \<le> (unat mz + 4095) div 4096 * 4096" "unat mz < 2 ^ 32 - 4096"
    using z mpos round_up(1) [of "unat mz"] by simp_all
  have S: "\<forall>P \<in> {unat ?va div 4096 ..< unat ?va div 4096 + seg_count ph}. P div 512 div 512 \<in> S"
    unfolding seg_start using so by blast
  note c = map_copied_maps [OF a4 v t pid run m refl wf low n S refl, unfolded seg_start(1)]
  have "byte_at (le_mmu env) s' (p_vaddr ph + of_nat i) (seg_byte (ld_mem s) addr ph i)"
    if i: "i < unat (p_memsz ph)" for i
  proof (cases "i < unat (p_filesz ph)")
    case True
    have src: "?src + of_nat (?w + i) = addr + p_offset ph + of_nat i"
    proof -
      have "(of_nat ?w :: u64) = p_vaddr ph AND 0xFFF" unfolding and_low12 [symmetric] by simp
      then show ?thesis by simp
    qed
    have "?w + i < unat fz" using True z by linarith
    moreover have "?src + of_nat (?w + i) \<notin> free_of s" unfolding src using so p0 True by simp
    ultimately have "byte_at (le_mmu env) s' (?va + of_nat (?w + i)) (ld_mem s (?src + of_nat (?w + i)))"
      by (rule c(2))
    then show ?thesis unfolding seg_start(2) src using True p0 by (simp only: seg_byte_def not_le [symmetric]) simp
  next
    case False
    then have "p_filesz ph \<noteq> p_memsz ph" using i by auto
    then have b: "unat fz \<le> ?w + i" "?w + i < unat mz" using z False i by linarith+
    have sb: "seg_byte (ld_mem s) addr ph i = 0" using False by (simp add: seg_byte_def)
    show ?thesis unfolding sb seg_start(2) by (rule c(3) [OF b])
  qed
  then show ?thesis using c(1) by (simp add: seg_loaded_def seg_pages_count)
qed

lemma pow_nums: "(2 :: nat) ^ 31 = 2147483648" "(2 :: nat) ^ 32 = 4294967296"
  "(2 :: nat) ^ 48 = 281474976710656" "(2 :: nat) ^ 64 = 18446744073709551616"
  by simp_all

lemma parts_loaded:
  assumes a4: "arch_4k (le_mmu env)" and v: "virtual_startup (le_mmu env)" and t: "tables l1 S (ld_vm s)"
    and pid: "\<forall>x. el_paddr e x = x" and ok: "seg_ok (le_mmu env) l1 S addr ph s" and low: "free_of s \<subseteq> {..< 2 ^ 47}"
    and sz: "sizes_ok ph fz mz" and p0: "p_paddr ph \<noteq> 0"
    and run: "place_parts env e (p_vaddr ph AND NOT 0xFFF) (p_paddr ph AND NOT 0xFFF) (p_flags ph) fz mz s = ok s'"
  shows "seg_loaded (le_mmu env) l1 S addr ph s s'"
proof -
  let ?va = "p_vaddr ph AND NOT 0xFFF" and ?p = "p_paddr ph AND NOT 0xFFF" and ?w = "unat (p_vaddr ph) mod 4096"
  note so = ok [unfolded seg_ok_def seg_pages_count] and z = sz [unfolded sizes_ok_def]
  have n: "seg_count ph = (unat mz + 4095) div 4096" using z by simp
  have mpos: "0 < unat (p_memsz ph)" using so by (simp add: word_less_nat_alt)
  have c0: "0 < seg_count ph" using mpos by (simp add: seg_count_def div_greater_zero_iff)
  have in_place: "unat (p_paddr ph) mod 4096 = ?w" "unat (p_paddr ph) + unat (p_memsz ph) + 8192 \<le> 2 ^ 48"
    "\<And>i. i < unat (p_filesz ph) \<Longrightarrow> p_paddr ph + of_nat i \<notin> free_of s" using so p0 by simp_all
  have mz: "unat mz < ?w + unat (p_memsz ph) + 4096"
  proof -
    have "unat mz \<le> seg_count ph * 4096" unfolding n by (rule round_up(1))
    also have "\<dots> < ?w + unat (p_memsz ph) + 4096" unfolding seg_count_def by (rule round_up(2))
    finally show ?thesis .
  qed
  have base: "unat ?va + ?w = unat (p_vaddr ph)" "unat ?p + ?w = unat (p_paddr ph)"
    unfolding unat_page using in_place(1) div_mult_mod_eq [of "unat (p_paddr ph)" 4096] by simp_all
  have m: "unat fz \<le> unat mz" "unat mz < 2 ^ 32" "unat ?va + unat mz + 4096 \<le> 2 ^ 64" "unat ?p + unat fz + 4096 \<le> 2 ^ 48"
    using z mz base so in_place(2) unfolding pow_nums by linarith+
  have al: "unat ?va mod 4096 = 0" "unat ?p mod 4096 = 0" unfolding unat_page by simp_all
  have S: "\<forall>P \<in> {unat ?va div 4096 ..< unat ?va div 4096 + seg_count ph}. P div 512 div 512 \<in> S"
    unfolding seg_start using so by blast
  have wf: "\<forall>x. unat x div 4096 \<in> {unat ?va div 4096 ..< unat ?va div 4096 + seg_count ph} \<longrightarrow>
      walk_from (le_mmu env) x (ld_vm s) = ok l1"
    unfolding seg_start using so by blast
  note c = place_parts_maps [OF a4 v t pid run m(1-3) al m(4) low n S wf c0, unfolded seg_start(1)]
  have "byte_at (le_mmu env) s' (p_vaddr ph + of_nat i) (seg_byte (ld_mem s) addr ph i)"
    if i: "i < unat (p_memsz ph)" for i
  proof (cases "i < unat (p_filesz ph)")
    case True
    have src: "?p + of_nat (?w + i) = p_paddr ph + of_nat i"
      by (subst unat_page(2) [of "p_paddr ph"]) (simp only: of_nat_add add.assoc in_place(1))
    have b: "?w + i < unat mz" "?w + i < unat fz \<and> ?p + of_nat (?w + i) \<notin> free_of s"
      unfolding src using True i z in_place(3) by (linarith, simp)
    have sb: "seg_byte (ld_mem s) addr ph i = ld_mem s (?p + of_nat (?w + i))"
      unfolding src using True p0 by (simp add: seg_byte_def)
    show ?thesis unfolding sb seg_start(2)
      using c [THEN conjunct2, rule_format, OF b(1), THEN conjunct1, rule_format, OF b(2)] .
  next
    case False
    then have "p_filesz ph \<noteq> p_memsz ph" using i by auto
    then have b: "unat fz \<le> ?w + i" "?w + i < unat mz" using z False i by linarith+
    have sb: "seg_byte (ld_mem s) addr ph i = 0" using False by (simp add: seg_byte_def)
    show ?thesis unfolding sb seg_start(2)
      using c [THEN conjunct2, rule_format, OF b(2), THEN conjunct2, rule_format, OF b(1)] .
  qed
  then show ?thesis using c by (simp add: seg_loaded_def seg_pages_count)
qed

lemma note_range_same [simp]:
  "ld_vm (note_range a n s) = ld_vm s" "ld_mem (note_range a n s) = ld_mem s"
  by (simp_all add: note_range_def Let_def)

text \<open>One round of the loop.\<close>

lemma load_segment_loads:
  assumes a4: "arch_4k (le_mmu env)" and v: "virtual_startup (le_mmu env)" and t: "tables l1 S (ld_vm s)"
    and pid: "\<forall>x. el_paddr e x = x" and low: "free_of s \<subseteq> {..< 2 ^ 47}"
    and ty: "p_type ph = PT_LOAD env" and ok: "seg_ok (le_mmu env) l1 S addr ph s"
    and run: "load_segment env e addr ph s = ok s'"
  shows "seg_loaded (le_mmu env) l1 S addr ph s s'"
proof -
  let ?s = "note_range (p_vaddr ph AND NOT 0xFFF) (p_memsz ph + (p_vaddr ph AND 0xFFF)) s"
  have pg: "page (le_mmu env) - 1 = 0xFFF" using a4 by (simp add: arch_4k_def)
  have sm: "p_filesz ph \<le> p_memsz ph" "unat (p_memsz ph) < 2 ^ 31" using ok by (simp_all add: seg_ok_def)
  note pl = sizes_plain [OF sm]
  have eq: "p_filesz ph = p_memsz ph"
    if "p_memsz ph + (p_vaddr ph AND 0xFFF) = p_filesz ph + (p_vaddr ph AND 0xFFF)" using that by simp
  obtain fz mz where sz: "sizes_ok ph fz mz" and r: "(if p_paddr ph \<noteq> 0 then map_in_place env e ph fz mz ?s
      else map_copied env e addr ph fz mz ?s) = ok s'"
  proof (cases "p_flags ph AND PF_W env = 0 \<and> p_memsz ph + (p_vaddr ph AND 0xFFF) = p_filesz ph + (p_vaddr ph AND 0xFFF)")
    case True
    let ?R = "ROUNDPG (le_mmu env) (p_filesz ph + (p_vaddr ph AND 0xFFF))"
    have "sizes_ok ph ?R ?R" by (rule sizes_round [OF a4 pl eq]) (use True in simp)
    then show thesis by (rule that) (use run True ty in \<open>simp only: load_segment_def Let_def pg not_not if_True if_False prod.case simp_thms\<close>)
  next
    case False
    show thesis by (rule that [OF pl]) (use run False ty in \<open>simp only: load_segment_def Let_def pg if_False prod.case simp_thms\<close>)
  qed
  have ok': "seg_ok (le_mmu env) l1 S addr ph ?s" using ok unfolding seg_ok_def note_range_same .
  have "seg_loaded (le_mmu env) l1 S addr ph ?s s'"
  proof (cases "p_paddr ph = 0")
    case True
    then show ?thesis using r by (intro copied_loaded [OF a4 v _ pid ok' _ sz]) (use t low in simp_all)
  next
    case p0: False
    let ?R = "ROUNDPG (le_mmu env) fz"
    have pl: "\<exists>fz' mz'. sizes_ok ph fz' mz' \<and> place_parts env e (p_vaddr ph AND NOT 0xFFF) (p_paddr ph AND NOT 0xFFF) (p_flags ph) fz' mz' ?s = ok s'"
    proof (cases "p_memsz ph = p_filesz ph")
      case True
      then show ?thesis using r p0 sizes_round [OF a4 sz] unfolding map_in_place_parts [OF a4] Let_def by auto
    next
      case False
      then show ?thesis using r p0 sz unfolding map_in_place_parts [OF a4] Let_def by auto
    qed
    then obtain fz' mz' where "sizes_ok ph fz' mz'"
      "place_parts env e (p_vaddr ph AND NOT 0xFFF) (p_paddr ph AND NOT 0xFFF) (p_flags ph) fz' mz' ?s = ok s'"
      by blast
    then show ?thesis by (intro parts_loaded [OF a4 v _ pid ok' _ _ p0]) (use t low in simp_all)
  qed
  then show ?thesis by (simp add: seg_loaded_def maps_pages_def)
qed

section \<open>All segments\<close>

text \<open>The program headers are not in free memory.\<close>

definition phdrs_at :: "elf_layout \<Rightarrow> ld_state \<Rightarrow> paddr \<Rightarrow> phdr list \<Rightarrow> bool" where
  "phdrs_at e s a phs \<longleftrightarrow> (\<forall>m. agree (- free_of s) (ld_mem s) m \<longrightarrow>
    (\<forall>k<length phs. read_phdr e m (a + of_nat k * ucast (el_phdr_size e)) = phs ! k))"

definition loads :: "ld_env \<Rightarrow> phdr list \<Rightarrow> phdr set" where
  "loads env phs = {ph \<in> set phs. p_type ph = PT_LOAD env}"

definition apart_segs :: "ld_env \<Rightarrow> phdr list \<Rightarrow> bool" where
  "apart_segs env phs \<longleftrightarrow>
    sorted_wrt (\<lambda>p q. p_type p = PT_LOAD env \<and> p_type q = PT_LOAD env \<longrightarrow> seg_pages p \<inter> seg_pages q = {}) phs"

lemma phdrs_at_next:
  assumes "phdrs_at e s a (ph # phs)" "agree (- free_of s) (ld_mem s) (ld_mem s1)" "free_of s1 \<subseteq> free_of s"
  shows "phdrs_at e s1 (a + ucast (el_phdr_size e)) phs"
  unfolding phdrs_at_def
proof (intro allI impI)
  fix m k assume m: "agree (- free_of s1) (ld_mem s1) m" and k: "k < length phs"
  have "agree (- free_of s) (ld_mem s) m" using m assms(2,3) by (auto simp: agree_def)
  then have "read_phdr e m (a + of_nat (Suc k) * ucast (el_phdr_size e)) = (ph # phs) ! Suc k"
    using assms(1) k unfolding phdrs_at_def length_Cons by blast
  then show "read_phdr e m (a + ucast (el_phdr_size e) + of_nat k * ucast (el_phdr_size e)) = phs ! k"
    by (simp add: algebra_simps)
qed

lemma phdrs_at_first: "phdrs_at e s a (ph # phs) \<Longrightarrow> read_phdr e (ld_mem s) a = ph"
  unfolding phdrs_at_def by (drule spec [of _ "ld_mem s"]) force

lemma seg_ok_kept:
  assumes "seg_ok mmu l1 S addr ph s" "maps_pages mmu l1 S X s s1"
  shows "seg_ok mmu l1 S addr ph s1"
    "i < unat (p_memsz ph) \<Longrightarrow> seg_byte (ld_mem s1) addr ph i = seg_byte (ld_mem s) addr ph i"
proof -
  have f: "free_of s1 \<subseteq> free_of s" "\<And>x. walk_from mmu x (ld_vm s1) = walk_from mmu x (ld_vm s)"
    "agree (- free_of s) (ld_mem s) (ld_mem s1)" using assms(2) by (auto simp: maps_pages_def)
  have sub: "a \<notin> free_of s \<Longrightarrow> a \<notin> free_of s1" for a using f(1) by blast
  show "seg_ok mmu l1 S addr ph s1"
    using assms(1) sub unfolding seg_ok_def f(2) by (simp split: if_splits)
  have same: "a \<notin> free_of s \<Longrightarrow> ld_mem s1 a = ld_mem s a" for a using f(3) by (simp add: agree_def)
  show "seg_byte (ld_mem s1) addr ph i = seg_byte (ld_mem s) addr ph i"
    using assms(1) same unfolding seg_ok_def seg_byte_def by (simp split: if_splits)
qed

lemma page_add: "(q * 4096 + r + i) div 4096 = q + (r + i) div (4096 :: nat)"
  by (simp add: add.assoc)

lemma seg_page_of:
  assumes "seg_ok mmu l1 S addr ph s" "i < unat (p_memsz ph)"
  shows "unat (p_vaddr ph + of_nat i) div 4096 \<in> seg_pages ph"
proof -
  let ?w = "unat (p_vaddr ph) mod 4096" and ?V = "unat (p_vaddr ph) div 4096"
  have b: "unat (p_vaddr ph) + unat (p_memsz ph) + 8192 \<le> 2 ^ 64" using assms(1) by (simp only: seg_ok_def)
  then have "i < 2 ^ LENGTH(64)" using assms(2) by simp
  then have "unat (of_nat i :: u64) = i" by (rule unat_of_nat_small)
  then have u: "unat (p_vaddr ph + of_nat i) = unat (p_vaddr ph) + i"
    using b assms(2) by (subst unat_add_lem [THEN iffD1]) simp_all
  have "(unat (p_vaddr ph) + i) div 4096 = ?V + (?w + i) div 4096"
    using page_add [of ?V ?w i] unfolding div_mult_mod_eq .
  moreover have "(?w + i + 4096) div 4096 \<le> seg_count ph"
    unfolding seg_count_def by (rule div_le_mono) (use assms(2) in linarith)
  moreover have "(?w + i + 4096) div 4096 = (?w + i) div 4096 + 1" by simp
  ultimately show ?thesis unfolding u seg_pages_count by simp
qed

lemma each_phdr_loads:
  assumes a4: "arch_4k (le_mmu env)" and v: "virtual_startup (le_mmu env)" and pid: "\<forall>x. el_paddr e x = x"
  shows "each_phdr (load_segment env e addr) e (length phs) a s = ok s' \<Longrightarrow> tables l1 S (ld_vm s) \<Longrightarrow>
    free_of s \<subseteq> {..< 2 ^ 47} \<Longrightarrow> phdrs_at e s a phs \<Longrightarrow>
    \<forall>ph \<in> loads env phs. seg_ok (le_mmu env) l1 S addr ph s \<Longrightarrow> apart_segs env phs \<Longrightarrow>
    maps_pages (le_mmu env) l1 S (\<Union>ph \<in> loads env phs. seg_pages ph) s s' \<and>
    (\<forall>ph \<in> loads env phs. \<forall>i<unat (p_memsz ph).
       byte_at (le_mmu env) s' (p_vaddr ph + of_nat i) (seg_byte (ld_mem s) addr ph i))"
proof (induction phs arbitrary: a s)
  case Nil
  then show ?case by (simp add: loads_def maps_pages_none)
next
  case (Cons ph phs)
  let ?mmu = "le_mmu env"
  obtain s1 where s1: "load_segment env e addr ph s = ok s1"
    and r: "each_phdr (load_segment env e addr) e (length phs) (a + ucast (el_phdr_size e)) s1 = ok s'"
    using Cons.prems(1) phdrs_at_first [OF Cons.prems(4)] by (auto elim!: and_then_okE)
  have first: "maps_pages ?mmu l1 S (\<Union>p \<in> loads env [ph]. seg_pages p) s s1 \<and>
      (\<forall>p \<in> loads env [ph]. seg_loaded ?mmu l1 S addr ph s s1)"
  proof (cases "p_type ph = PT_LOAD env")
    case True
    then have "seg_ok ?mmu l1 S addr ph s" using Cons.prems(5) by (simp add: loads_def)
    then have "seg_loaded ?mmu l1 S addr ph s s1"
      by (rule load_segment_loads [OF a4 v Cons.prems(2) pid Cons.prems(3) True _ s1])
    moreover have "loads env [ph] = {ph}" using True by (auto simp: loads_def)
    ultimately show ?thesis by (simp add: seg_loaded_def)
  next
    case False
    then have "loads env [ph] = {}" "s1 = s" using s1 by (auto simp: loads_def load_segment_def)
    then show ?thesis using Cons.prems(2) by (simp add: maps_pages_none)
  qed
  note mp = first [THEN conjunct1]
  have t1: "tables l1 S (ld_vm s1)" "free_of s1 \<subseteq> {..< 2 ^ 47}" "phdrs_at e s1 (a + ucast (el_phdr_size e)) phs"
    using mp Cons.prems(3) phdrs_at_next [OF Cons.prems(4)] by (auto simp: maps_pages_def)
  have ok1: "\<forall>p \<in> loads env phs. seg_ok ?mmu l1 S addr p s1"
    using Cons.prems(5) seg_ok_kept(1) [OF _ mp] by (auto simp: loads_def)
  have ap: "apart_segs env phs" and dis: "\<And>p q. p \<in> loads env [ph] \<Longrightarrow> q \<in> loads env phs \<Longrightarrow> seg_pages p \<inter> seg_pages q = {}"
    using Cons.prems(6) by (auto simp: apart_segs_def loads_def)
  have ih: "maps_pages ?mmu l1 S (\<Union>p \<in> loads env phs. seg_pages p) s1 s'"
    "\<And>p i. p \<in> loads env phs \<Longrightarrow> i < unat (p_memsz p) \<Longrightarrow>
      byte_at ?mmu s' (p_vaddr p + of_nat i) (seg_byte (ld_mem s1) addr p i)"
    using Cons.IH [OF r t1 ok1 ap] by blast+
  have un: "loads env (ph # phs) = loads env [ph] \<union> loads env phs" by (auto simp: loads_def)
  have "byte_at ?mmu s' (p_vaddr p + of_nat i) (seg_byte (ld_mem s) addr p i)"
    if p: "p \<in> loads env (ph # phs)" and i: "i < unat (p_memsz p)" for p i
  proof -
    have okp: "seg_ok ?mmu l1 S addr p s" using Cons.prems(5) p by blast
    show ?thesis
    proof (cases "p \<in> loads env phs")
      case True
      then show ?thesis using ih(2) [OF True i] seg_ok_kept(2) [OF okp mp i] by simp
    next
      case False
      then have ph: "p \<in> loads env [ph]" "p = ph" using p un by (auto simp: loads_def)
      have pg: "unat (p_vaddr p + of_nat i) div 4096 \<in> seg_pages p" by (rule seg_page_of [OF okp i])
      have b1: "byte_at ?mmu s1 (p_vaddr p + of_nat i) (seg_byte (ld_mem s) addr p i)"
        using first ph i by (auto simp: seg_loaded_def)
      show ?thesis
      proof (rule byte_kept [OF b1 ih(1)])
        show "unat (p_vaddr p + of_nat i) div 4096 \<notin> (\<Union>p \<in> loads env phs. seg_pages p)"
          using pg dis [OF ph(1)] by blast
        show "unat (p_vaddr p + of_nat i) div 4096 div 512 div 512 \<in> S"
          using okp pg unfolding seg_ok_def by blast
        have "walk_from ?mmu (p_vaddr p + of_nat i) (ld_vm s) = ok l1"
          using okp pg unfolding seg_ok_def by blast
        then show "walk_from ?mmu (p_vaddr p + of_nat i) (ld_vm s1) = ok l1"
          using mp by (simp add: maps_pages_def)
      qed
    qed
  qed
  then show ?case using maps_pages_trans [OF mp ih(1)] by (simp only: un UN_Un) blast
qed

lemma load_elf_class_loads:
  assumes a4: "arch_4k (le_mmu env)" and v: "virtual_startup (le_mmu env)" and pid: "\<forall>x. el_paddr e x = x"
    and hdr: "elf_phdr env e (ld_mem s) addr = Some a" "unat (e_phnum e (ld_mem s) addr) = length phs" "phdrs_at e s a phs"
    and t: "tables l1 S (ld_vm s)" and low: "free_of s \<subseteq> {..< 2 ^ 47}"
    and segs: "\<forall>ph \<in> loads env phs. seg_ok (le_mmu env) l1 S addr ph s" "apart_segs env phs"
    and run: "load_elf_class env e addr s = ok (entry, s')"
  shows "entry = el_word e (ld_mem s) (addr + el_e_entry e) \<and>
    agree (- free_of s) (ld_mem s) (ld_mem s') \<and>
    (\<forall>ph \<in> loads env phs. \<forall>i<unat (p_memsz ph).
       byte_at (le_mmu env) s' (p_vaddr ph + of_nat i) (seg_byte (ld_mem s) addr ph i))"
proof -
  have r: "each_phdr (load_segment env e addr) e (length phs) a s = ok s'"
    and entry: "entry = el_word e (ld_mem s) (addr + el_e_entry e)"
    using run by (auto simp: load_elf_class_def Let_def pid hdr v elim!: and_then_okE)
  show ?thesis
    using each_phdr_loads [OF a4 v pid r t low hdr(3) segs] entry by (simp add: maps_pages_def)
qed

section \<open>Properties\<close>


definition elf64_ex :: elf_layout where
  "elf64_ex = \<lparr>el_word = ld64, el_paddr = (\<lambda>x. x), el_trunc = (\<lambda>x. x), el_checks_class = True, el_class = 2,
     el_ehdr_class = 4, el_ehdr_data = 5, el_e_machine = 18, el_e_entry = 24, el_e_phoff = 32,
     el_e_phentsize = 54, el_e_phnum = 56, el_phdr_size = 56, el_p_type = 0, el_p_flags = 4,
     el_p_offset = 8, el_p_vaddr = 16, el_p_paddr = 24, el_p_filesz = 32, el_p_memsz = 40\<rparr>"

definition ld_env_ex :: ld_env where
  "ld_env_ex = \<lparr>le_mmu = mmu_virt, le_bias = 0, le_elf32 = elf64_ex\<lparr>el_class := 1\<rparr>, le_elf64 = elf64_ex,
     ELFMAG = [0x7F, 0x45, 0x4C, 0x46], ELFDATANATIVE = 1, EM_NATIVE = 0xB7, PT_LOAD = 1, PF_W = 2\<rparr>"

text \<open>A file at 0x9000 with one segment, whose page is at 0x80000000 in the image.\<close>

definition ld_mem_ex :: pmem where
  "ld_mem_ex = (\<lambda>_. 0)(0x9000 := 0x7F, 0x9001 := 0x45, 0x9002 := 0x4C, 0x9003 := 0x46, 0x9004 := 2, 0x9005 := 1,
     0x9012 := 0xB7, 0x9019 := 0x10, 0x901A := 0x20, 0x901B := 0x40, 0x9020 := 64, 0x9036 := 56, 0x9038 := 1,
     0x9040 := 1, 0x9044 := 2, 0x9051 := 0x10, 0x9052 := 0x20, 0x9053 := 0x40, 0x905B := 0x80,
     0x9061 := 0x10, 0x9069 := 0x10, 0x80000084 := 0x5A)"

definition phdr_ex :: phdr where
  "phdr_ex = \<lparr>p_type = 1, p_flags = 2, p_offset = 0, p_vaddr = 0x40201000, p_paddr = 0x80000000,
     p_filesz = 0x1000, p_memsz = 0x1000\<rparr>"

definition ld_ex :: ld_state where
  "ld_ex = \<lparr>ld_vm = vm_virt, ld_mem = ld_mem_ex, boot_vaddr_base = 0, boot_vaddr_end = 0\<rparr>"

lemma ld_mem_fields:
  "elf_phdr ld_env_ex elf64_ex ld_mem_ex 0x9000 = Some 0x9040" "e_phnum elf64_ex ld_mem_ex 0x9000 = 1"
  "read_phdr elf64_ex ld_mem_ex 0x9040 = phdr_ex" "ld64 ld_mem_ex 0x9018 = 0x40201000"
proof -
  have 1: "ld64 ld_mem_ex 0x9020 = 64" "ld16 ld_mem_ex 0x9036 = 56" "ld16 ld_mem_ex 0x9038 = 1" "ld16 ld_mem_ex 0x9012 = 0xB7"
    by (simp_all add: ld64_def ld32_def ld16_def ld_mem_ex_def)
  show "ld64 ld_mem_ex 0x9018 = 0x40201000" by (simp add: ld64_def ld32_def ld_mem_ex_def)
  have "has_magic ld_env_ex ld_mem_ex 0x9000"
    by (simp add: has_magic_def ld_env_ex_def lessThan_Suc numeral_eq_Suc) (simp add: ld_mem_ex_def)
  moreover have "ld_mem_ex 0x9005 = 1" "ld_mem_ex 0x9004 = 2" by (simp_all add: ld_mem_ex_def)
  ultimately show "elf_phdr ld_env_ex elf64_ex ld_mem_ex 0x9000 = Some 0x9040"
    using 1 by (simp add: elf_phdr_def elf64_ex_def e_phnum_def) (simp add: ld_env_ex_def)
  show "e_phnum elf64_ex ld_mem_ex 0x9000 = 1" using 1 by (simp add: e_phnum_def elf64_ex_def)
  have 2: "ld32 ld_mem_ex 0x9040 = 1" "ld32 ld_mem_ex 0x9044 = 2" "ld64 ld_mem_ex 0x9048 = 0" "ld64 ld_mem_ex 0x9050 = 0x40201000"
    "ld64 ld_mem_ex 0x9058 = 0x80000000" "ld64 ld_mem_ex 0x9060 = 0x1000" "ld64 ld_mem_ex 0x9068 = 0x1000"
    by (simp_all add: ld64_def ld32_def ld_mem_ex_def)
  show "read_phdr elf64_ex ld_mem_ex 0x9040 = phdr_ex"
    using 2 by (simp add: read_phdr_def elf64_ex_def phdr_ex_def)
qed

lemma ld_ex_facts:
  "free_of ld_ex = {}" "loads ld_env_ex [phdr_ex] = {phdr_ex}" "seg_pages phdr_ex = {262657}"
proof -
  show "free_of ld_ex = {}" by (simp add: ld_ex_def vm_virt_def ram_free_def)
  show "loads ld_env_ex [phdr_ex] = {phdr_ex}" by (auto simp: loads_def phdr_ex_def ld_env_ex_def)
  have "{262657 ..< 262657 + 1} = {262657 :: nat}" by auto
  then show "seg_pages phdr_ex = {262657}" by (simp add: seg_pages_def phdr_ex_def)
qed

lemma ld_ex_run: "\<exists>s'. load_elf_class ld_env_ex elf64_ex 0x9000 ld_ex = ok (0x40201000, s')"
proof -
  obtain r v where m: "aarch64_map mmu_virt 0x40201000 0x80000000 0x1000 0x200 vm_virt = ok (r, v)"
    using virt_map by blast
  have pr: "elf_prot mmu_virt 2 = 0x200"
    by (simp add: elf_prot_def has_def mmu_virt_def mmu_ex_def prot_ex_def)
  have R: "ROUNDPG mmu_virt 0x1000 = 0x1000" "ROUNDPG mmu_virt 0 = 0"
    by (simp_all add: ROUNDPG_def ROUND_def TRUNC_def virt_env)
  have mmu: "le_mmu ld_env_ex = mmu_virt" "PT_LOAD ld_env_ex = 1" "PF_W ld_env_ex = 2" by (simp_all add: ld_env_ex_def)
  have a4: "arch_4k (le_mmu ld_env_ex)" by (simp add: mmu arch_virt)
  let ?s = "note_range 0x40201000 0x1000 ld_ex"
  have lm: "ld_map ld_env_ex 0x40201000 0x80000000 0x1000 2 ?s = ok (?s\<lparr>ld_vm := v\<rparr>)"
    by (simp add: ld_map_def elf_map_def mmu pr) (simp add: ld_ex_def m)
  have "place_parts ld_env_ex elf64_ex 0x40201000 0x80000000 2 0x1000 0x1000 ?s = ok (?s\<lparr>ld_vm := v\<rparr>)"
    using lm by (simp add: place_parts_def mmu R)
  then have "map_in_place ld_env_ex elf64_ex phdr_ex 0x1000 0x1000 ?s = ok (?s\<lparr>ld_vm := v\<rparr>)"
    by (simp add: map_in_place_parts [OF a4] phdr_ex_def mmu R)
  then have seg: "load_segment ld_env_ex elf64_ex 0x9000 phdr_ex ld_ex = ok (?s\<lparr>ld_vm := v\<rparr>)"
    by (simp add: load_segment_def mmu virt_env Let_def) (simp add: phdr_ex_def)
  have mem: "ld_mem ld_ex = ld_mem_ex" by (simp add: ld_ex_def)
  have el: "el_paddr elf64_ex x = x" "el_e_entry elf64_ex = 24" "el_word elf64_ex = ld64" for x by (simp_all add: elf64_ex_def)
  show ?thesis
    using seg by (simp add: load_elf_class_def mem el mmu virt_env ld_mem_fields)
qed


end
