(* ===== verification/Load_Ifs.thy ===== *)
theory Load_Ifs
  imports Elf Restore_Ifs
begin

text \<open>
  Getting the image to its place and starting what is in it: load\_ifs.c, uncompress.c,
  uncompress\_ucl.c, uncompress\_lzo.c, startnext.c and the function load\_bootstraps of
  init\_system\_private.c of startup/lib.  The decompressors of UCL, LZO and zlib are libraries: a
  function of the memory, the place and length of a block and the place of the result, which gives
  the new memory and the length of the result, or nothing for an error.  The value None of a
  result means that the code does not return.
\<close>

section \<open>Compressed images\<close>

type_synonym decompressor = "pmem \<Rightarrow> paddr \<Rightarrow> u32 \<Rightarrow> paddr \<Rightarrow> (pmem \<times> u32) option"

text \<open>A compressed image is a sequence of blocks, each with its length in two bytes before it; the
  length 0 ends it.\<close>

definition block_len :: "pmem \<Rightarrow> paddr \<Rightarrow> u32" where
  "block_len m src = push_bit 8 (ucast (m src)) + ucast (m (src + 1))"

partial_function (option) uncompress_blocks ::
  "decompressor \<Rightarrow> paddr \<Rightarrow> paddr \<Rightarrow> pmem \<Rightarrow> pmem res option" where
  "uncompress_blocks dec dst src m =
    (let len = block_len m src in
     if len = 0 then Some (ok m)
     else case dec m (src + 2) len dst of
       None \<Rightarrow> Some (crash ''fail'')
     | Some (m', out_len) \<Rightarrow> uncompress_blocks dec (dst + ucast out_len) (src + 2 + ucast len) m')"

record image_env =
  ie_shdr :: bool
  ie_flags1 :: u32
  ie_startup_size :: u32
  ie_stored_size :: u32
  ie_imagefs_size :: u32
  ie_imagefs_paddr :: u32
  ie_full_image :: paddr
  ie_full_imagefs :: paddr
  COMPRESS_MASK :: u32
  COMPRESS_ZLIB :: u32
  COMPRESS_LZO :: u32
  COMPRESS_UCL :: u32
  SUPPORT_CMP_ZLIB :: bool
  SUPPORT_CMP_LZO :: bool
  SUPPORT_CMP_UCL :: bool
  uncompress_zlib :: "paddr \<Rightarrow> paddr \<Rightarrow> paddr \<Rightarrow> pmem \<Rightarrow> pmem res option"
  lzo_init_ok :: bool
  lzo1x_decompress :: decompressor
  ucl_nrv2b_decompress_8 :: decompressor

definition uncompress_ucl :: "image_env \<Rightarrow> paddr \<Rightarrow> paddr \<Rightarrow> pmem \<Rightarrow> pmem res option" where
  "uncompress_ucl env dst src m = uncompress_blocks (ucl_nrv2b_decompress_8 env) dst src m"

definition uncompress_lzo :: "image_env \<Rightarrow> paddr \<Rightarrow> paddr \<Rightarrow> pmem \<Rightarrow> pmem res option" where
  "uncompress_lzo env dst src m =
    (if \<not> lzo_init_ok env then Some (crash ''init fail'')
     else uncompress_blocks (lzo1x_decompress env) dst src m)"

text \<open>The methods that are compiled in.\<close>

definition uncompress :: "image_env \<Rightarrow> u32 \<Rightarrow> paddr \<Rightarrow> paddr \<Rightarrow> pmem \<Rightarrow> pmem res option" where
  "uncompress env type dst src m =
    (if SUPPORT_CMP_ZLIB env \<and> type = COMPRESS_ZLIB env
     then uncompress_zlib env dst src
            (ie_full_image env + ucast (ie_startup_size env) + ucast (ie_imagefs_size env)) m
     else if SUPPORT_CMP_LZO env \<and> type = COMPRESS_LZO env then uncompress_lzo env dst src m
     else if SUPPORT_CMP_UCL env \<and> type = COMPRESS_UCL env then uncompress_ucl env dst src m
     else Some (crash ''unsupported compression type''))"

section \<open>The image\<close>

text \<open>load\_ifs.  When the place of the compressed image is not known it is copied out of the way,
  to memory that is only looked for, not allocated.\<close>

definition load_ifs :: "image_env \<Rightarrow> ram_state \<Rightarrow> paddr \<Rightarrow> pmem \<Rightarrow> pmem res option" where
  "load_ifs env ram ifs_paddr m =
    (if \<not> ie_shdr env then Some (crash ''NULL shdr'')
     else if ie_full_image env = 0 \<or> ie_startup_size env = 0 then Some (crash ''Image header corrupt'')
     else let comp = ie_flags1 env AND COMPRESS_MASK env in
       if comp \<noteq> 0 then
         (let src = (if ie_full_imagefs env = 0
                     then find_ram (avoid_list_of ram) (rs_ram ram) (ucast (ie_stored_size env)) 8 0 0
                     else ie_full_imagefs env)
          in case (if ie_full_imagefs env = 0
                   then copy_memory src ifs_paddr (ucast (ie_stored_size env)) m else ok m) of
               Inl e \<Rightarrow> Some (Inl e)
             | Inr m \<Rightarrow>
                 if ie_full_imagefs env - ie_full_image env < ucast (ie_imagefs_size env)
                 then Some (crash ''Uncompressing this image will exceed allotted space'')
                 else uncompress env comp ifs_paddr src m)
       else if ie_full_imagefs env \<noteq> 0 \<and> ie_full_imagefs env \<noteq> ifs_paddr
       then Some (copy_memory ifs_paddr (ucast (ie_imagefs_paddr env)) (ucast (ie_imagefs_size env)) m)
       else Some (ok m))"

section \<open>The boot executables\<close>

text \<open>What the headers of the system fix: a directory entry, the image header, and the two
  structures at the start of a boot executable.\<close>

record dirent =
  de_size :: u16
  de_ino :: u32
  de_offset :: u32

record boot_env =
  be_ld :: ld_env
  be_rifs :: rifs_env
  be_rifs_elf :: elf_abi
  be_ino_bits :: "pmem \<Rightarrow> paddr \<Rightarrow> bool"
  be_dir_offset :: "pmem \<Rightarrow> paddr \<Rightarrow> u64"
  be_dirent :: "pmem \<Rightarrow> paddr \<Rightarrow> dirent"
  IFS_INO_BOOTSTRAP_EXE :: u32
  IFS_BOOTSTRAP_SIGNATURE :: u32
  be_head_size :: u64
  be_head_signature :: "pmem \<Rightarrow> paddr \<Rightarrow> u32"
  be_head_bootstrap :: "pmem \<Rightarrow> paddr \<Rightarrow> u64"
  be_data_args :: "pmem \<Rightarrow> paddr \<Rightarrow> u64"
  be_set_next :: "paddr \<Rightarrow> u64 \<Rightarrow> pmem \<Rightarrow> pmem"
  be_tweak_cmdline :: "paddr \<Rightarrow> paddr \<Rightarrow> pmem \<Rightarrow> pmem res"

record boot_state =
  bs_ld :: ld_state
  bs_rifs :: rifs_state
  first_bootstrap_start_vaddr :: u64

abbreviation bs_mem :: "boot_state \<Rightarrow> pmem" where
  "bs_mem st \<equiv> ld_mem (bs_ld st)"

definition set_mem :: "pmem \<Rightarrow> boot_state \<Rightarrow> boot_state" where
  "set_mem m st = st\<lparr>bs_ld := (bs_ld st)\<lparr>ld_mem := m\<rparr>\<rparr>"

definition bootstrap_map :: "boot_env \<Rightarrow> u64 \<Rightarrow> boot_state \<Rightarrow> paddr res" where
  "bootstrap_map env vaddr st = elf_vaddr_to_paddr (le_mmu (be_ld env)) vaddr (ld_vm (bs_ld st))"

text \<open>rifs\_save\_elf32data works on the memory and the RAM manager of the loader.\<close>

definition save_data :: "boot_env \<Rightarrow> paddr \<Rightarrow> u32 \<Rightarrow> nat \<Rightarrow> boot_state \<Rightarrow> boot_state res" where
  "save_data env base off i st =
    (let r = (bs_rifs st)\<lparr>rf_ram := vm_ram (ld_vm (bs_ld st)), rf_mem := bs_mem st\<rparr> in
     if \<not> flag_set r RIFS_FLAG_ENABLE then ok st
     else and_then (rifs_save_elf32data (be_rifs env) (be_rifs_elf env) base off i r) (\<lambda>(good, r).
       if \<not> good then crash ''Unable to save boot process elf data''
       else ok (st\<lparr>bs_rifs := r,
         bs_ld := (bs_ld st)\<lparr>ld_vm := (ld_vm (bs_ld st))\<lparr>vm_ram := rf_ram r\<rparr>, ld_mem := rf_mem r\<rparr>\<rparr>)))"

text \<open>One executable: it is loaded, its entry point becomes the next one of the executable before,
  and its arguments are adjusted.  The result is where its own data is.\<close>

definition boot_one ::
  "boot_env \<Rightarrow> paddr \<Rightarrow> nat \<Rightarrow> paddr option \<Rightarrow> boot_state \<Rightarrow> (paddr \<times> boot_state) res" where
  "boot_one env dir i prev st =
    (let off = de_offset (be_dirent env (bs_mem st) dir);
         base = re_full_image (be_rifs env) + ucast (re_startup_size (be_rifs env)) + ucast off
     in and_then (load_elf (be_ld env) base (bs_ld st)) (\<lambda>(start, ld).
        if start = NOT 0 then crash ''Unable to load boot process''
        else and_then (save_data env base (de_offset (be_dirent env (ld_mem ld) dir)) i (st\<lparr>bs_ld := ld\<rparr>)) (\<lambda>st.
        let st = (case prev of None \<Rightarrow> st\<lparr>first_bootstrap_start_vaddr := start\<rparr>
                  | Some p \<Rightarrow> set_mem (be_set_next env p start (bs_mem st)) st)
        in and_then (bootstrap_map env (start - be_head_size env) st) (\<lambda>head.
           if be_head_signature env (bs_mem st) head \<noteq> IFS_BOOTSTRAP_SIGNATURE env
           then crash ''missing bootstrap signature''
           else and_then (bootstrap_map env (be_head_bootstrap env (bs_mem st) head) st) (\<lambda>p.
             if be_data_args env (bs_mem st) p = 0 then ok (p, st)
             else and_then (bootstrap_map env (be_data_args env (bs_mem st) p) st) (\<lambda>args.
               and_then (be_tweak_cmdline env args dir (bs_mem st)) (\<lambda>m. ok (p, set_mem m st))))))))"

text \<open>The walk through the directory; n is the number of entries that are looked at.\<close>

fun boot_loop :: "boot_env \<Rightarrow> nat \<Rightarrow> paddr \<Rightarrow> nat \<Rightarrow> paddr option \<Rightarrow> boot_state \<Rightarrow> boot_state res" where
  "boot_loop env 0 dir i prev st = hang"
| "boot_loop env (Suc n) dir i prev st =
    (let d = be_dirent env (bs_mem st) dir in
     if de_size d = 0 then (if prev = None then crash ''No bootstrap executables found'' else ok st)
     else if de_ino d AND IFS_INO_BOOTSTRAP_EXE env = 0 then boot_loop env n (dir + ucast (de_size d)) i prev st
     else and_then (boot_one env dir i prev st) (\<lambda>(p, st).
       boot_loop env n (dir + ucast (de_size (be_dirent env (bs_mem st) dir))) (i + 1) (Some p) st))"

definition load_bootstraps :: "boot_env \<Rightarrow> nat \<Rightarrow> paddr \<Rightarrow> boot_state \<Rightarrow> boot_state res" where
  "load_bootstraps env n ifs_hdr st =
    (if \<not> be_ino_bits env (bs_mem st) ifs_hdr then crash ''Image unsupported - too old''
     else boot_loop env n (ifs_hdr + be_dir_offset env (bs_mem st) ifs_hdr) 0 None st)"

text \<open>startnext: the entry point that cpu\_startnext jumps to.\<close>

definition startnext :: "boot_state \<Rightarrow> u64 res" where
  "startnext st =
    (if first_bootstrap_start_vaddr st = NOT 0 then crash ''No next program to start''
     else ok (first_bootstrap_start_vaddr st))"

section \<open>Uncompressing\<close>

text \<open>An image of blocks cs, and what it holds when each block is the compressed form of a text.\<close>

definition frame :: "u8 list \<Rightarrow> u8 list" where
  "frame c = of_nat (length c div 256) # of_nat (length c mod 256) # c"

definition frames :: "u8 list list \<Rightarrow> u8 list" where
  "frames cs = concat (map frame cs) @ [0, 0]"

lemma length_frames: "length (frames (c # cs)) = 2 + length c + length (frames cs)"
  by (simp add: frames_def frame_def)

lemma same_bytes_append:
  assumes "same_bytes m p (xs @ ys)"
  shows "same_bytes m p xs" "same_bytes m (p + of_nat (length xs)) ys"
proof -
  show "same_bytes m p xs" using assms unfolding same_bytes_def
    by (metis length_append nth_append trans_less_add1)
  show "same_bytes m (p + of_nat (length xs)) ys"
    unfolding same_bytes_def
  proof (intro allI impI)
    fix i assume i: "i < length ys"
    have "m (p + of_nat (length xs + i)) = (xs @ ys) ! (length xs + i)"
      using assms [unfolded same_bytes_def, rule_format, of "length xs + i"] i by simp
    then show "m (p + of_nat (length xs) + of_nat i) = ys ! i"
      unfolding nth_append_length_plus of_nat_add add.assoc .
  qed
qed

lemma block_len_frame:
  assumes "same_bytes m p (frame c)" "length c < 65536"
  shows "block_len m p = of_nat (length c)" "same_bytes m (p + 2) c"
proof -
  have b: "m p = of_nat (length c div 256)" "m (p + 1) = of_nat (length c mod 256)"
    using assms(1) [unfolded same_bytes_def frame_def, rule_format, of 0]
      assms(1) [unfolded same_bytes_def frame_def, rule_format, of 1] by simp_all
  have u: "(ucast (of_nat n :: u8) :: u32) = of_nat n" if "n < 256" for n
    using that by (simp add: word_unat_eq_iff unsigned_ucast_eq unsigned_of_nat take_bit_nat_eq_self)
  have "block_len m p = push_bit 8 (of_nat (length c div 256)) + of_nat (length c mod 256)"
    using assms(2) unfolding block_len_def b by (subst (1 2) u) simp_all
  also have "push_bit 8 (of_nat (length c div 256) :: u32) = of_nat (length c div 256 * 256)"
    by (simp add: push_bit_eq_mult mult.commute)
  also have "of_nat (length c div 256 * 256) + of_nat (length c mod 256) = (of_nat (length c) :: u32)"
    unfolding of_nat_add [symmetric] by simp
  finally show "block_len m p = of_nat (length c)" .
  show "same_bytes m (p + 2) c"
    using same_bytes_append(2) [of m p "[of_nat (length c div 256), of_nat (length c mod 256)]" c] assms(1)
    by (simp add: frame_def)
qed

lemma put_list_append: "put_list d (xs @ ys) m = put_list (d + of_nat (length xs)) ys (put_list d xs m)"
  by (induction xs arbitrary: d m) (simp_all add: algebra_simps)

lemma same_bytes_put:
  assumes "same_bytes m p bs" "rg d (length ys) \<inter> rg p (length bs) = {}" "length ys < 2 ^ 32" "length bs \<le> 2 ^ 64"
  shows "same_bytes (put_list d ys m) p bs"
proof -
  have "agree (rg p (length bs)) m (put_list d ys m)"
    unfolding agree_def
  proof
    fix a assume "a \<in> rg p (length bs)"
    then have "a \<notin> rg d (length ys)" using assms(2) by blast
    then show "m a = put_list d ys m a" using assms(3) by (simp add: put_list_out)
  qed
  then show ?thesis using same_bytes_agree [of p "length bs" m _ bs] assms(1,4) by simp
qed

lemma ucast_of_nat_32: "n < 2 ^ 32 \<Longrightarrow> (ucast (of_nat n :: u32) :: u64) = of_nat n"
  by (simp add: word_unat_eq_iff ucast_up_32(1) unsigned_of_nat take_bit_nat_eq_self)

lemma blocks_decode:
  assumes law: "\<And>m p d c. c \<in> set cs \<Longrightarrow> same_bytes m p c \<Longrightarrow>
      dec m p (of_nat (length c)) d = Some (put_list d (plain c) m, of_nat (length (plain c)))"
    and cs: "\<forall>c \<in> set cs. c \<noteq> [] \<and> length c < 65536"
    and at: "same_bytes m src (frames cs)"
    and sz: "length (concat (map plain cs)) < 2 ^ 32" "length (frames cs) < 2 ^ 63"
    and apart: "rg dst (length (concat (map plain cs))) \<inter> rg src (length (frames cs)) = {}"
  shows "uncompress_blocks dec dst src m = Some (ok (put_list dst (concat (map plain cs)) m))"
  using assms
proof (induction cs arbitrary: dst src m)
  case Nil
  have "m src = 0" "m (src + 1) = 0"
    using Nil.prems(3) [unfolded same_bytes_def frames_def, rule_format, of 0]
      Nil.prems(3) [unfolded same_bytes_def frames_def, rule_format, of 1] by simp_all
  then have "block_len m src = 0" by (simp add: block_len_def)
  then show ?case by (subst uncompress_blocks.simps) simp
next
  case (Cons c cs)
  let ?out = "put_list dst (plain c) m"
  have c: "c \<noteq> []" "length c < 65536" using Cons.prems(2) by simp_all
  have f: "same_bytes m src (frame c @ frames cs)" using Cons.prems(3) by (simp add: frames_def)
  note b = block_len_frame [OF same_bytes_append(1) [OF f] c(2)]
  have nz: "block_len m src \<noteq> 0"
  proof -
    have "unat (of_nat (length c) :: u32) = length c" using c(2) by (simp add: unsigned_of_nat take_bit_nat_eq_self)
    then have "unat (block_len m src) \<noteq> 0" unfolding b(1) using c(1) by simp
    then show ?thesis by auto
  qed
  have d: "dec m (src + 2) (block_len m src) dst = Some (?out, of_nat (length (plain c)))"
    unfolding b(1) by (rule Cons.prems(1)) (use b(2) in simp_all)
  have len: "length (plain c) < 2 ^ 32" "length c < 2 ^ 32" using Cons.prems(4) c(2) by simp_all
  let ?src = "src + 2 + of_nat (length c)" and ?dst = "dst + of_nat (length (plain c))"
  have step: "uncompress_blocks dec dst src m = uncompress_blocks dec ?dst ?src ?out"
    using nz d unfolding uncompress_blocks.simps [of dec dst]
    by (simp add: b(1) ucast_of_nat_32 [OF len(1)] ucast_of_nat_32 [OF len(2)])
  have src: "?src = src + of_nat (length (frame c))" by (simp add: frame_def)
  have tail: "same_bytes m ?src (frames cs)" unfolding src by (rule same_bytes_append(2) [OF f])
  have sub: "rg ?src (length (frames cs)) \<subseteq> rg src (length (frames (c # cs)))"
    "rg ?dst (length (concat (map plain cs))) \<subseteq> rg dst (length (concat (map plain (c # cs))))"
    "rg dst (length (plain c)) \<subseteq> rg dst (length (concat (map plain (c # cs))))"
  proof -
    have u: "unat (2 + of_nat (length c) :: u64) = 2 + length c"
    proof -
      have "(2 + of_nat (length c) :: u64) = of_nat (2 + length c)" by simp
      moreover have "unat (of_nat (2 + length c) :: u64) = 2 + length c" using c(2) by (intro unat_of_nat_small) simp
      ultimately show ?thesis by simp
    qed
    show "rg ?src (length (frames cs)) \<subseteq> rg src (length (frames (c # cs)))"
      unfolding add.assoc by (rule rg_shift) (use Cons.prems(5) u in \<open>simp_all add: length_frames\<close>)
    have "unat (of_nat (length (plain c)) :: u64) = length (plain c)" using len by (intro unat_of_nat_small) simp
    then show "rg ?dst (length (concat (map plain cs))) \<subseteq> rg dst (length (concat (map plain (c # cs))))"
      by (intro rg_shift) (use Cons.prems(4) in simp_all)
    show "rg dst (length (plain c)) \<subseteq> rg dst (length (concat (map plain (c # cs))))"
      by (rule rg_mono) simp
  qed
  have "uncompress_blocks dec ?dst ?src ?out = Some (ok (put_list ?dst (concat (map plain cs)) ?out))"
  proof (rule Cons.IH)
    show "same_bytes ?out ?src (frames cs)"
      by (rule same_bytes_put [OF tail]) (use sub Cons.prems(5,6) len in \<open>auto simp: length_frames\<close>)
    show "rg ?dst (length (concat (map plain cs))) \<inter> rg ?src (length (frames cs)) = {}"
      using sub Cons.prems(6) by blast
  qed (use Cons.prems in \<open>simp_all add: length_frames\<close>)
  then show ?case using step by (simp add: put_list_append)
qed

section \<open>Properties of the rest\<close>

text \<open>An image that is not compressed is copied from the 32-bit address in the header, without the
  offset that the address of the image has when it was loaded elsewhere, for instance above 4 GB:
  then other memory is copied.\<close>

lemma load_ifs_moved:
  assumes "ie_shdr env" "ie_full_image env \<noteq> 0" "ie_startup_size env \<noteq> 0" "ie_flags1 env AND COMPRESS_MASK env = 0"
    and "ie_full_imagefs env = ucast (ie_imagefs_paddr env) + off" "ie_full_imagefs env \<notin> {0, ifs}"
    and "j < unat (ie_imagefs_size env)"
  shows "\<exists>m'. load_ifs env ram ifs m = Some (ok m') \<and>
    m' (ifs + of_nat j) = m (ie_full_imagefs env - off + of_nat j)"
proof -
  have "load_ifs env ram ifs m =
      Some (ok (memmove_at ifs (ucast (ie_imagefs_paddr env)) (ucast (ie_imagefs_size env)) m))"
    using assms(1-4,6) by (simp add: load_ifs_def copy_memory_32)
  moreover have "ifs + of_nat j \<in> rg ifs (unat (ucast (ie_imagefs_size env) :: u64))"
  proof -
    have "unat (ie_imagefs_size env) < 2 ^ 32" using unsigned_less [of "ie_imagefs_size env"] by simp
    then show ?thesis using assms(7) unfolding ucast_up_32 by (intro rgI) simp_all
  qed
  ultimately show ?thesis by (simp add: memmove_at_in assms(5))
qed

text \<open>A directory without executables stops the system, and it is enough to look at one entry
  more than there are.\<close>

primrec dir_at :: "boot_env \<Rightarrow> pmem \<Rightarrow> paddr \<Rightarrow> dirent list \<Rightarrow> bool" where
  "dir_at env m a [] \<longleftrightarrow> de_size (be_dirent env m a) = 0"
| "dir_at env m a (d # ds) \<longleftrightarrow> be_dirent env m a = d \<and> de_size d \<noteq> 0 \<and> dir_at env m (a + ucast (de_size d)) ds"

lemma boot_loop_none:
  assumes "dir_at env (bs_mem st) a ds" "\<forall>d \<in> set ds. de_ino d AND IFS_INO_BOOTSTRAP_EXE env = 0" "length ds < n"
  shows "boot_loop env n a i prev st = (if prev = None then crash ''No bootstrap executables found'' else ok st)"
  using assms
proof (induction ds arbitrary: n a)
  case Nil
  then obtain k where "n = Suc k" by (cases n) auto
  then show ?case using Nil by simp
next
  case (Cons d ds)
  then obtain k where "n = Suc k" by (cases n) auto
  then show ?case using Cons by simp
qed

lemma load_bootstraps_none:
  assumes "be_ino_bits env (bs_mem st) hdr" "dir_at env (bs_mem st) (hdr + be_dir_offset env (bs_mem st) hdr) ds"
    "\<forall>d \<in> set ds. de_ino d AND IFS_INO_BOOTSTRAP_EXE env = 0" "length ds < n"
  shows "load_bootstraps env n hdr st = crash ''No bootstrap executables found''"
  using boot_loop_none [OF assms(2-4)] assms(1) by (simp add: load_bootstraps_def)


text \<open>The example's library stores the text as it is.\<close>

definition stored_block :: decompressor where
  "stored_block m p len d = Some (put_list d (map (\<lambda>i. m (p + of_nat i)) [0 ..< unat len]) m, len)"

definition image_ex :: image_env where
  "image_ex = \<lparr>ie_shdr = True, ie_flags1 = 0xC, ie_startup_size = 0x1000, ie_stored_size = 0x1007,
     ie_imagefs_size = 3, ie_imagefs_paddr = 0x9000, ie_full_image = 0x4000, ie_full_imagefs = 0x9000,
     COMPRESS_MASK = 0x1C, COMPRESS_ZLIB = 4, COMPRESS_LZO = 8, COMPRESS_UCL = 0xC,
     SUPPORT_CMP_ZLIB = False, SUPPORT_CMP_LZO = False, SUPPORT_CMP_UCL = True,
     uncompress_zlib = (\<lambda>_ _ _ _. None), lzo_init_ok = False,
     lzo1x_decompress = stored_block, ucl_nrv2b_decompress_8 = stored_block\<rparr>"

definition image_mem_ex :: pmem where
  "image_mem_ex = put_list 0x9000 [0, 3, 7, 8, 9, 0, 0] (\<lambda>_. 1)"


end
