(* ===== verification/Smp.thy ===== *)
theory Smp
  imports Syspage Callouts
begin

text \<open>
  Starting the other processors: init\_smp.c, ap\_fail.c and aarch64/smp\_start.S of startup/lib, the
  end of aarch64/callout\_smp\_spin.S, and boards/qrb2210/board\_smp.c.  The boot processor and the
  others (APs) share three variables; they take their steps in any order.  A step of the boot
  processor is one pass of its code between two looks at the shared variables, a step of an AP is
  one access to them.  The function board\_smp\_start says which processor begins to run, if any.
\<close>

section \<open>The processors\<close>

text \<open>Where an AP is in smp\_start: not running, started, with its number, waiting for the system
  page with cpu\_starting cleared, in the callout smp\_spin, and with pending cleared.\<close>

datatype ap_pc = Off | Starting | Numbered u32 | Waiting u32 | Entering u32 | Spinning u32

text \<open>Where the boot processor is: in start\_aps before processor i and in its poll with its count,
  between the two calls of smp\_hook\_rtn, and in transfer\_aps.\<close>

datatype bsp_pc =
  Start u32 | Poll_starting u32 u32 | Between | Transfer u32 | Announce u32 | Poll_pending u32
  | Finished | Failed u32

record smp =
  cpu_starting :: u32
  syspage_available :: u32
  pending :: u32
  bsp :: bsp_pc
  aps :: "nat \<Rightarrow> ap_pc"

record smp_env =
  num_cpu :: u32
  board_smp_start :: "u32 \<Rightarrow> nat option"
  board_smp_adjust_num :: "u32 \<Rightarrow> u32"

text \<open>A processor that begins to run is at smp\_start.\<close>

definition start_aps_step :: "smp_env \<Rightarrow> u32 \<Rightarrow> smp \<Rightarrow> smp" where
  "start_aps_step env i s =
    (if i < num_cpu env then
       (case board_smp_start env i of
          None \<Rightarrow> s\<lparr>cpu_starting := i + 1, bsp := Failed i\<rparr>
        | Some c \<Rightarrow> s\<lparr>cpu_starting := i + 1, bsp := Poll_starting i 0, aps := (aps s)(c := Starting)\<rparr>)
     else s\<lparr>bsp := Between\<rparr>)"

definition poll_starting_step :: "u32 \<Rightarrow> u32 \<Rightarrow> smp \<Rightarrow> smp" where
  "poll_starting_step i count s =
    (if count + 1 = 0 then s\<lparr>bsp := Failed i\<rparr>
     else if cpu_starting s \<noteq> 0 then s\<lparr>bsp := Poll_starting i (count + 1)\<rparr>
     else s\<lparr>bsp := Start (i + 1)\<rparr>)"

definition transfer_aps_step :: "smp_env \<Rightarrow> u32 \<Rightarrow> smp \<Rightarrow> smp" where
  "transfer_aps_step env i s =
    (if i < num_cpu env then s\<lparr>pending := 1, bsp := Announce i\<rparr> else s\<lparr>bsp := Finished\<rparr>)"

definition bsp_step :: "smp_env \<Rightarrow> smp \<Rightarrow> smp" where
  "bsp_step env s =
    (case bsp s of
       Start i \<Rightarrow> start_aps_step env i s
     | Poll_starting i count \<Rightarrow> poll_starting_step i count s
     | Between \<Rightarrow> s\<lparr>bsp := Transfer 1\<rparr>
     | Transfer i \<Rightarrow> transfer_aps_step env i s
     | Announce i \<Rightarrow> s\<lparr>syspage_available := i, bsp := Poll_pending i\<rparr>
     | Poll_pending i \<Rightarrow> if pending s \<noteq> 0 then s else s\<lparr>bsp := Transfer (i + 1)\<rparr>
     | Finished \<Rightarrow> s
     | Failed i \<Rightarrow> s)"

text \<open>An AP reads its number from the variable that names the processor being started.\<close>

definition ap_step :: "smp_env \<Rightarrow> nat \<Rightarrow> smp \<Rightarrow> smp option" where
  "ap_step env c s =
    (case aps s c of
       Starting \<Rightarrow> Some (s\<lparr>aps := (aps s)(c := Numbered (board_smp_adjust_num env (cpu_starting s - 1)))\<rparr>)
     | Numbered w \<Rightarrow> Some (s\<lparr>cpu_starting := 0, aps := (aps s)(c := Waiting w)\<rparr>)
     | Waiting w \<Rightarrow> if syspage_available s = w then Some (s\<lparr>aps := (aps s)(c := Entering w)\<rparr>) else None
     | Entering w \<Rightarrow> Some (s\<lparr>pending := 0, aps := (aps s)(c := Spinning w)\<rparr>)
     | _ \<Rightarrow> None)"

inductive smp_step :: "smp_env \<Rightarrow> smp \<Rightarrow> smp \<Rightarrow> bool" for env where
  boot: "smp_step env s (bsp_step env s)"
| ap: "ap_step env c s = Some s' \<Longrightarrow> smp_step env s s'"

inductive_cases smp_stepE: "smp_step env s s'"

definition smp_begin :: smp where
  "smp_begin = \<lparr>cpu_starting = 0, syspage_available = 0, pending = 0, bsp = Start 1, aps = (\<lambda>_. Off)\<rparr>"

inductive smp_reachable :: "smp_env \<Rightarrow> smp \<Rightarrow> bool" for env where
  initial: "smp_reachable env smp_begin"
| more: "smp_reachable env s \<Longrightarrow> smp_step env s s' \<Longrightarrow> smp_reachable env s'"

section \<open>What always holds\<close>

text \<open>The board starts the processor it is asked to start and does not renumber.\<close>

definition board_ok :: "smp_env \<Rightarrow> bool" where
  "board_ok env \<longleftrightarrow> (\<forall>i<num_cpu env. board_smp_start env i = Some (unat i)) \<and>
    (\<forall>w. board_smp_adjust_num env w = w) \<and> 1 \<le> num_cpu env \<and> num_cpu env < 0x80000000"

text \<open>Processors from 1 to i - 1 are at f, the others from n on and the boot processor are off.\<close>

definition aps_are :: "smp_env \<Rightarrow> (u32 \<Rightarrow> ap_pc) \<Rightarrow> smp \<Rightarrow> bool" where
  "aps_are env f s \<longleftrightarrow>
    (\<forall>c. aps s c = (if 1 \<le> c \<and> c < unat (num_cpu env) then f (of_nat c) else Off))"

definition smp_inv :: "smp_env \<Rightarrow> smp \<Rightarrow> bool" where
  "smp_inv env s \<longleftrightarrow>
    (case bsp s of
       Start i \<Rightarrow> 1 \<le> i \<and> i \<le> num_cpu env \<and> syspage_available s = 0 \<and>
         aps_are env (\<lambda>c. if c < i then Waiting c else Off) s
     | Poll_starting i count \<Rightarrow> 1 \<le> i \<and> i < num_cpu env \<and> syspage_available s = 0 \<and>
         (\<exists>a. aps_are env (\<lambda>c. if c < i then Waiting c else if c = i then a else Off) s \<and>
           (a \<in> {Starting, Numbered i} \<and> cpu_starting s = i + 1 \<or> a = Waiting i \<and> cpu_starting s = 0))
     | Between \<Rightarrow> syspage_available s = 0 \<and> aps_are env Waiting s
     | Transfer i \<Rightarrow> 1 \<le> i \<and> i \<le> num_cpu env \<and> syspage_available s = i - 1 \<and>
         aps_are env (\<lambda>c. if c < i then Spinning c else Waiting c) s
     | Announce i \<Rightarrow> 1 \<le> i \<and> i < num_cpu env \<and> syspage_available s = i - 1 \<and> pending s = 1 \<and>
         aps_are env (\<lambda>c. if c < i then Spinning c else Waiting c) s
     | Poll_pending i \<Rightarrow> 1 \<le> i \<and> i < num_cpu env \<and> syspage_available s = i \<and>
         (\<exists>a. aps_are env (\<lambda>c. if c < i then Spinning c else if c = i then a else Waiting c) s \<and>
           (a \<in> {Waiting i, Entering i} \<and> pending s = 1 \<or> a = Spinning i \<and> pending s = 0))
     | Finished \<Rightarrow> aps_are env Spinning s
     | Failed i \<Rightarrow> True)"

lemma aps_at:
  assumes "aps_are env f s" "1 \<le> i" "i < num_cpu env"
  shows "aps s (unat i) = f i"
proof -
  have "1 \<le> unat i \<and> unat i < unat (num_cpu env)" using assms(2,3) by (simp add: word_le_nat_alt word_less_nat_alt)
  then show ?thesis using assms(1) by (simp add: aps_are_def)
qed

lemma aps_only:
  assumes "aps_are env f s" "aps s c \<noteq> Off"
  obtains i where "1 \<le> i" "i < num_cpu env" "c = unat i" "aps s c = f i"
proof -
  have c: "1 \<le> c" "c < unat (num_cpu env)" "aps s c = f (of_nat c)"
    using assms by (auto simp: aps_are_def split: if_splits)
  have "unat (num_cpu env) < 2 ^ 32" using unsigned_less [of "num_cpu env"] by simp
  then have "unat (of_nat c :: u32) = c" using c(2) by (intro unat_of_nat_small) simp
  then show thesis using c by (intro that [of "of_nat c"]) (simp_all add: word_le_nat_alt word_less_nat_alt)
qed

lemma aps_upd:
  assumes "aps_are env f s" "1 \<le> i" "i < num_cpu env" "aps s' = (aps s)(unat i := a)"
  shows "aps_are env (f(i := a)) s'"
  unfolding aps_are_def
proof
  fix c
  have "1 \<le> unat i \<and> unat i < unat (num_cpu env)" using assms(2,3) by (simp add: word_le_nat_alt word_less_nat_alt)
  moreover have "of_nat c = i \<longleftrightarrow> c = unat i" if "c < unat (num_cpu env)"
  proof -
    have "unat (num_cpu env) < 2 ^ 32" using unsigned_less [of "num_cpu env"] by simp
    then have "unat (of_nat c :: u32) = c" using that by (intro unat_of_nat_small) simp
    then show ?thesis by (auto simp: word_unat_eq_iff)
  qed
  ultimately show "aps s' c = (if 1 \<le> c \<and> c < unat (num_cpu env) then (f(i := a)) (of_nat c) else Off)"
    using assms(1,4) by (auto simp: aps_are_def)
qed

lemma aps_cong: "aps_are env f s \<Longrightarrow> aps s' = aps s \<Longrightarrow> (\<And>c. 1 \<le> c \<Longrightarrow> c < num_cpu env \<Longrightarrow> f c = g c) \<Longrightarrow> aps_are env g s'"
  unfolding aps_are_def
proof
  fix c assume a: "\<forall>c. aps s c = (if 1 \<le> c \<and> c < unat (num_cpu env) then f (of_nat c) else Off)" "aps s' = aps s"
    and fg: "\<And>c. 1 \<le> c \<Longrightarrow> c < num_cpu env \<Longrightarrow> f c = g c"
  show "aps s' c = (if 1 \<le> c \<and> c < unat (num_cpu env) then g (of_nat c) else Off)"
  proof (cases "1 \<le> c \<and> c < unat (num_cpu env)")
    case True
    have "unat (num_cpu env) < 2 ^ 32" using unsigned_less [of "num_cpu env"] by simp
    then have "unat (of_nat c :: u32) = c" using True by (intro unat_of_nat_small) simp
    then have "f (of_nat c) = g (of_nat c)" using True by (intro fg) (simp_all add: word_le_nat_alt word_less_nat_alt)
    then show ?thesis using a True by simp
  next
    case False
    then have "aps s' c = Off" using a by auto
    then show ?thesis using False by auto
  qed
qed

text \<open>The boot processor.\<close>

lemma less_next: "i < n \<Longrightarrow> i + 1 \<le> (n :: u32)" "i < n \<Longrightarrow> 1 \<le> i \<Longrightarrow> 1 \<le> i + (1 :: u32)"
  "i < (n :: u32) \<Longrightarrow> c < i + 1 \<longleftrightarrow> c < i \<or> c = i"
proof -
  assume i: "i < n"
  have u: "unat (i + 1) = unat i + 1"
  proof -
    have "unat i + 1 < 2 ^ LENGTH(32)" using i unsigned_less [of n, where ?'a = nat] by (simp add: word_less_nat_alt)
    then show ?thesis by (subst unat_add_lem [THEN iffD1]) simp_all
  qed
  show "i + 1 \<le> n" using i u by (simp add: word_le_nat_alt word_less_nat_alt)
  show "1 \<le> i + 1" if "1 \<le> i" using u by (simp add: word_le_nat_alt)
  show "c < i + 1 \<longleftrightarrow> c < i \<or> c = i" using u by (auto simp: word_less_nat_alt word_unat_eq_iff)
qed

lemma bsp_keeps:
  assumes b: "board_ok env" and inv: "smp_inv env s"
  shows "smp_inv env (bsp_step env s)"
proof (cases "bsp s")
  case (Start i)
  note i = inv [unfolded smp_inv_def Start bsp_pc.case]
  show ?thesis
  proof (cases "i < num_cpu env")
    case True
    let ?s = "s\<lparr>cpu_starting := i + 1, bsp := Poll_starting i 0, aps := (aps s)(unat i := Starting)\<rparr>"
    have st: "bsp_step env s = ?s" using b True by (simp add: bsp_step_def Start start_aps_step_def board_ok_def)
    have "aps_are env ((\<lambda>c. if c < i then Waiting c else Off)(i := Starting)) ?s"
      using i by (intro aps_upd [of _ _ s i]) (simp_all add: True)
    then have "aps_are env (\<lambda>c. if c < i then Waiting c else if c = i then Starting else Off) ?s"
      by (rule aps_cong) auto
    then show ?thesis unfolding st using i True by (auto simp: smp_inv_def)
  next
    case False
    then have e: "i = num_cpu env" using i by simp
    have "aps_are env (\<lambda>c. if c < i then Waiting c else Off) s" using i by blast
    then have "aps_are env Waiting (s\<lparr>bsp := Between\<rparr>)" by (rule aps_cong) (simp_all add: e)
    then show ?thesis using i False by (simp add: bsp_step_def Start start_aps_step_def smp_inv_def)
  qed
next
  case (Poll_starting i k)
  note i = inv [unfolded smp_inv_def Poll_starting bsp_pc.case]
  obtain a where a: "aps_are env (\<lambda>c. if c < i then Waiting c else if c = i then a else Off) s"
    "a \<in> {Starting, Numbered i} \<and> cpu_starting s = i + 1 \<or> a = Waiting i \<and> cpu_starting s = 0" using i by blast
  show ?thesis
  proof (cases "k + 1 = 0")
    case True
    then show ?thesis by (simp add: bsp_step_def Poll_starting poll_starting_step_def smp_inv_def)
  next
    case k: False
    show ?thesis
    proof (cases "cpu_starting s = 0")
      case False
      have "aps_are env (\<lambda>c. if c < i then Waiting c else if c = i then a else Off) (s\<lparr>bsp := Poll_starting i (k + 1)\<rparr>)"
        using a(1) by (rule aps_cong) auto
      then show ?thesis using i a k False
        by (auto simp: bsp_step_def Poll_starting poll_starting_step_def smp_inv_def)
    next
      case True
      have "i + 1 \<noteq> 0" using less_next(2) [of i "num_cpu env"] i by auto
      then have "a = Waiting i" using a(2) True by auto
      have "aps_are env (\<lambda>c. if c < i + 1 then Waiting c else Off) (s\<lparr>bsp := Start (i + 1)\<rparr>)"
        using a(1) by (rule aps_cong) (use i \<open>a = Waiting i\<close> in \<open>simp_all add: less_next(3) [of i "num_cpu env"]\<close>)
      then show ?thesis using i k True less_next(1,2) [of i "num_cpu env"]
        by (simp add: bsp_step_def Poll_starting poll_starting_step_def smp_inv_def)
    qed
  qed
next
  case Between
  note i = inv [unfolded smp_inv_def Between bsp_pc.case]
  have "aps_are env (\<lambda>c. if c < 1 then Spinning c else Waiting c) (s\<lparr>bsp := Transfer 1\<rparr>)"
    by (rule aps_cong [OF conjunct2 [OF i]]) (simp_all add: not_less [symmetric])
  then show ?thesis using i b by (simp add: bsp_step_def Between smp_inv_def board_ok_def)
next
  case (Transfer i)
  note i = inv [unfolded smp_inv_def Transfer bsp_pc.case]
  show ?thesis
  proof (cases "i < num_cpu env")
    case True
    have "aps_are env (\<lambda>c. if c < i then Spinning c else Waiting c) s" using i by blast
    then have "aps_are env (\<lambda>c. if c < i then Spinning c else Waiting c) (s\<lparr>pending := 1, bsp := Announce i\<rparr>)"
      by (rule aps_cong) simp_all
    then show ?thesis using i True by (simp add: bsp_step_def Transfer transfer_aps_step_def smp_inv_def)
  next
    case False
    then have e: "i = num_cpu env" using i by simp
    have "aps_are env (\<lambda>c. if c < i then Spinning c else Waiting c) s" using i by blast
    then have "aps_are env Spinning (s\<lparr>bsp := Finished\<rparr>)" by (rule aps_cong) (simp_all add: e)
    then show ?thesis using False by (simp add: bsp_step_def Transfer transfer_aps_step_def smp_inv_def)
  qed
next
  case (Announce i)
  note i = inv [unfolded smp_inv_def Announce bsp_pc.case]
  have "aps_are env (\<lambda>c. if c < i then Spinning c else Waiting c) s" using i by blast
  then have "aps_are env (\<lambda>c. if c < i then Spinning c else if c = i then Waiting i else Waiting c)
      (s\<lparr>syspage_available := i, bsp := Poll_pending i\<rparr>)"
    by (rule aps_cong) simp_all
  then show ?thesis using i by (auto simp: bsp_step_def Announce smp_inv_def)
next
  case (Poll_pending i)
  note i = inv [unfolded smp_inv_def Poll_pending bsp_pc.case]
  show ?thesis
  proof (cases "pending s = 0")
    case True
    then have "aps_are env (\<lambda>c. if c < i then Spinning c else if c = i then Spinning i else Waiting c) s" using i by auto
    then have "aps_are env (\<lambda>c. if c < i + 1 then Spinning c else Waiting c) (s\<lparr>bsp := Transfer (i + 1)\<rparr>)"
      by (rule aps_cong) (use i in \<open>simp_all add: less_next(3) [of i "num_cpu env"]\<close>)
    then show ?thesis using i True less_next(1,2) [of i "num_cpu env"]
      by (simp add: bsp_step_def Poll_pending smp_inv_def)
  qed (use inv in \<open>simp add: bsp_step_def Poll_pending\<close>)
qed (use inv in \<open>simp_all add: bsp_step_def smp_inv_def\<close>)

text \<open>An AP.\<close>

lemma ap_step_fields:
  "ap_step env c s = Some s' \<Longrightarrow> bsp s' = bsp s \<and> syspage_available s' = syspage_available s \<and> aps s c \<noteq> Off"
  by (auto simp: ap_step_def split: ap_pc.splits if_splits)

lemma waiting_stuck: "aps s c = Waiting w \<Longrightarrow> syspage_available s \<noteq> w \<Longrightarrow> ap_step env c s = None"
  by (simp add: ap_step_def)

lemma spinning_stuck: "aps s c = Spinning w \<Longrightarrow> ap_step env c s = None"
  by (simp add: ap_step_def)

lemma aps_stuck:
  assumes a: "aps_are env f s" and run: "ap_step env c s = Some s'"
    and f: "\<And>c. 1 \<le> c \<Longrightarrow> f c = Off \<or> f c = Spinning c \<or> f c = Waiting c \<and> syspage_available s \<noteq> c"
  shows False
proof -
  obtain i where "1 \<le> i" "aps s c = f i" using aps_only [OF a] ap_step_fields [OF run] by metis
  then show False using run f [of i] by (auto simp: ap_step_def)
qed

lemma pred_less: "1 \<le> i \<Longrightarrow> \<not> c < i \<Longrightarrow> c \<noteq> i - (1 :: u32)"
proof
  assume i: "1 \<le> i" and c: "\<not> c < i" "c = i - 1"
  have "i \<noteq> 0" using i by auto
  then have "unat (i - 1) = unat i - 1" by (rule unat_minus_one)
  moreover have "0 < unat i" using i by (simp add: word_le_nat_alt)
  ultimately show False using c by (simp add: word_less_nat_alt)
qed

lemma ap_keeps:
  assumes b: "board_ok env" and inv: "smp_inv env s" and run: "ap_step env c s = Some s'"
  shows "smp_inv env s'"
proof -
  note fs = ap_step_fields [OF run]
  have nz: "0 \<noteq> (c :: u32)" if "1 \<le> c" for c using that by auto
  show ?thesis
  proof (cases "bsp s")
    case (Start i)
    note i = inv [unfolded smp_inv_def Start bsp_pc.case]
    have "aps_are env (\<lambda>c. if c < i then Waiting c else Off) s" using i by blast
    then have False by (rule aps_stuck [OF _ run]) (use i nz in auto)
    then show ?thesis ..
  next
    case (Poll_starting i k)
    note i = inv [unfolded smp_inv_def Poll_starting bsp_pc.case]
    obtain a where a: "aps_are env (\<lambda>c. if c < i then Waiting c else if c = i then a else Off) s"
      "a \<in> {Starting, Numbered i} \<and> cpu_starting s = i + 1 \<or> a = Waiting i \<and> cpu_starting s = 0" using i by blast
    obtain j where j: "1 \<le> j" "j < num_cpu env" "c = unat j" "aps s c = (if j < i then Waiting j else if j = i then a else Off)"
      using aps_only [OF a(1)] fs by metis
    have ne: "aps s c \<noteq> Waiting j" using run i nz [OF j(1)] by (auto simp: ap_step_def)
    then have ji: "j = i" using j(4) fs by (auto split: if_splits)
    have a': "a = Starting \<or> a = Numbered i" "cpu_starting s = i + 1" using a(2) j(4) ne ji by auto
    have up: "aps_are env (\<lambda>c. if c < i then Waiting c else if c = i then a2 else Off) s'"
      if "aps s' = (aps s)(unat i := a2)" for a2
      by (rule aps_cong [OF aps_upd [OF a(1) _ _ that]]) (use i in auto)
    show ?thesis
    proof (cases "a = Starting")
      case True
      then have s': "s' = s\<lparr>aps := (aps s)(c := Numbered i)\<rparr>"
        using run j(3,4) ji a'(2) b by (simp add: ap_step_def board_ok_def)
      then have "aps s' = (aps s)(unat i := Numbered i)" using j(3) ji by simp
      from up [OF this] show ?thesis using i a'(2) by (auto simp: smp_inv_def s' Poll_starting)
    next
      case False
      then have s': "s' = s\<lparr>cpu_starting := 0, aps := (aps s)(c := Waiting i)\<rparr>"
        using run j(3,4) ji a' by (simp add: ap_step_def)
      then have "aps s' = (aps s)(unat i := Waiting i)" using j(3) ji by simp
      from up [OF this] show ?thesis using i by (auto simp: smp_inv_def s' Poll_starting)
    qed
  next
    case Between
    note i = inv [unfolded smp_inv_def Between bsp_pc.case]
    have False by (rule aps_stuck [OF conjunct2 [OF i] run]) (use i nz in auto)
    then show ?thesis ..
  next
    case (Transfer i)
    note i = inv [unfolded smp_inv_def Transfer bsp_pc.case]
    have "aps_are env (\<lambda>c. if c < i then Spinning c else Waiting c) s" using i by blast
    then have False by (rule aps_stuck [OF _ run]) (use i pred_less [of i] in auto)
    then show ?thesis ..
  next
    case (Announce i)
    note i = inv [unfolded smp_inv_def Announce bsp_pc.case]
    have "aps_are env (\<lambda>c. if c < i then Spinning c else Waiting c) s" using i by blast
    then have False by (rule aps_stuck [OF _ run]) (use i pred_less [of i] in auto)
    then show ?thesis ..
  next
    case (Poll_pending i)
    note i = inv [unfolded smp_inv_def Poll_pending bsp_pc.case]
    obtain a where a: "aps_are env (\<lambda>c. if c < i then Spinning c else if c = i then a else Waiting c) s"
      "a \<in> {Waiting i, Entering i} \<and> pending s = 1 \<or> a = Spinning i \<and> pending s = 0" using i by blast
    obtain j where j: "1 \<le> j" "j < num_cpu env" "c = unat j" "aps s c = (if j < i then Spinning j else if j = i then a else Waiting j)"
      using aps_only [OF a(1)] fs by metis
    have ji: "j = i"
    proof (rule ccontr)
      assume "j \<noteq> i"
      then have "aps s c = Spinning j \<or> aps s c = Waiting j" using j(4) by auto
      then show False using run i \<open>j \<noteq> i\<close> by (auto simp: ap_step_def)
    qed
    have a': "a = Waiting i \<or> a = Entering i" "pending s = 1" using a(2) j(4) ji run by (auto simp: ap_step_def)
    have up: "aps_are env (\<lambda>c. if c < i then Spinning c else if c = i then a2 else Waiting c) s'"
      if "aps s' = (aps s)(unat i := a2)" for a2
      by (rule aps_cong [OF aps_upd [OF a(1) _ _ that]]) (use i in auto)
    show ?thesis
    proof (cases "a = Waiting i")
      case True
      then have s': "s' = s\<lparr>aps := (aps s)(c := Entering i)\<rparr>"
        using run j(3,4) ji i by (simp add: ap_step_def)
      then have "aps s' = (aps s)(unat i := Entering i)" using j(3) ji by simp
      from up [OF this] show ?thesis using i a'(2) by (auto simp: smp_inv_def s' Poll_pending)
    next
      case False
      then have s': "s' = s\<lparr>pending := 0, aps := (aps s)(c := Spinning i)\<rparr>"
        using run j(3,4) ji a' by (simp add: ap_step_def)
      then have "aps s' = (aps s)(unat i := Spinning i)" using j(3) ji by simp
      from up [OF this] show ?thesis using i by (auto simp: smp_inv_def s' Poll_pending)
    qed
  next
    case Finished
    note i = inv [unfolded smp_inv_def Finished bsp_pc.case]
    have False by (rule aps_stuck [OF i run]) auto
    then show ?thesis ..
  next
    case (Failed i)
    then show ?thesis using fs by (simp add: smp_inv_def)
  qed
qed

lemma reachable_inv:
  assumes "board_ok env" "smp_reachable env s"
  shows "smp_inv env s"
  using assms(2)
proof induction
  case initial
  have "aps_are env (\<lambda>c. Off) smp_begin" by (simp add: aps_are_def smp_begin_def)
  then have "aps_are env (\<lambda>c. if c < 1 then Waiting c else Off) smp_begin"
    by (rule aps_cong) (simp_all add: not_less [symmetric])
  then show ?case using assms(1) by (simp add: smp_inv_def smp_begin_def board_ok_def)
next
  case (more s s')
  then show ?case using bsp_keeps [OF assms(1)] ap_keeps [OF assms(1)] by (auto elim: smp_stepE)
qed

section \<open>The start ends\<close>

text \<open>A poll whose count is used up.\<close>

definition gave_up :: "smp \<Rightarrow> bool" where
  "gave_up s \<longleftrightarrow> (\<exists>i. bsp s = Failed i \<or> bsp s = Poll_starting i (- 1))"

definition ap_left :: "ap_pc \<Rightarrow> nat" where
  "ap_left a = (case a of Starting \<Rightarrow> 2 | Numbered _ \<Rightarrow> 1 | Waiting _ \<Rightarrow> 0 | Entering _ \<Rightarrow> 0 | _ \<Rightarrow> 0)"

definition ap_left2 :: "ap_pc \<Rightarrow> nat" where
  "ap_left2 a = (case a of Waiting _ \<Rightarrow> 2 | Entering _ \<Rightarrow> 1 | _ \<Rightarrow> 0)"

text \<open>What is left to do.\<close>

definition left_to_do :: "smp_env \<Rightarrow> smp \<Rightarrow> nat" where
  "left_to_do env s =
    (let n = unat (num_cpu env) in
     case bsp s of
       Start i \<Rightarrow> 10 * (2 * n - unat i) + 5
     | Poll_starting i _ \<Rightarrow> 10 * (2 * n - unat i) + 1 + ap_left (aps s (unat i))
     | Between \<Rightarrow> 10 * n + 4
     | Transfer i \<Rightarrow> 10 * (n - unat i) + 9
     | Announce i \<Rightarrow> 10 * (n - unat i) + 8
     | Poll_pending i \<Rightarrow> 10 * (n - unat i) + 2 + ap_left2 (aps s (unat i))
     | _ \<Rightarrow> 0)"

lemma unat_next: "i < n \<Longrightarrow> unat (i + 1) = unat i + (1 :: nat)" for i n :: u32
proof -
  assume "i < n"
  then have "unat i + 1 < 2 ^ LENGTH(32)" using unsigned_less [of n, where ?'a = nat] by (simp add: word_less_nat_alt)
  then show ?thesis by (subst unat_add_lem [THEN iffD1]) simp_all
qed

text \<open>Some processor can always take a step that leaves less to do.\<close>

lemma smp_progress:
  assumes b: "board_ok env" and inv: "smp_inv env s" and up: "\<not> gave_up s" and fin: "bsp s \<noteq> Finished"
  shows "\<exists>s'. smp_step env s s' \<and> \<not> gave_up s' \<and> left_to_do env s' < left_to_do env s"
proof (cases "bsp s")
  case (Start i)
  note i = inv [unfolded smp_inv_def Start bsp_pc.case]
  have le: "unat i \<le> unat (num_cpu env)" using i by (simp add: word_le_nat_alt)
  show ?thesis
  proof (cases "i < num_cpu env")
    case True
    have "bsp_step env s = s\<lparr>cpu_starting := i + 1, bsp := Poll_starting i 0, aps := (aps s)(unat i := Starting)\<rparr>"
      using b True by (simp add: bsp_step_def Start start_aps_step_def board_ok_def)
    then show ?thesis using smp_step.boot [of env s]
      by (intro exI [of _ "bsp_step env s"]) (simp add: gave_up_def left_to_do_def Start ap_left_def Let_def)
  next
    case False
    then have "bsp_step env s = s\<lparr>bsp := Between\<rparr>" by (simp add: bsp_step_def Start start_aps_step_def)
    then show ?thesis using smp_step.boot [of env s] le
      by (intro exI [of _ "bsp_step env s"]) (simp add: gave_up_def left_to_do_def Start Let_def)
  qed
next
  case (Poll_starting i k)
  note i = inv [unfolded smp_inv_def Poll_starting bsp_pc.case]
  obtain a where a: "aps_are env (\<lambda>c. if c < i then Waiting c else if c = i then a else Off) s"
    "a \<in> {Starting, Numbered i} \<and> cpu_starting s = i + 1 \<or> a = Waiting i \<and> cpu_starting s = 0" using i by blast
  have ai: "aps s (unat i) = a" using aps_at [OF a(1)] i by simp
  have lt: "unat i < unat (num_cpu env)" using i by (simp add: word_less_nat_alt)
  have k: "k \<noteq> - 1" using up by (auto simp: gave_up_def Poll_starting)
  then have k1: "k + 1 \<noteq> 0" by (metis eq_neg_iff_add_eq_0)
  consider "a = Starting" | "a = Numbered i" | "a = Waiting i" "cpu_starting s = 0" using a(2) by blast
  then show ?thesis
  proof cases
    case 1
    obtain s' where s': "ap_step env (unat i) s = Some s'" "s' = s\<lparr>aps := (aps s)(unat i := Numbered (board_smp_adjust_num env (cpu_starting s - 1)))\<rparr>"
      using ai 1 by (simp add: ap_step_def)
    then show ?thesis using smp_step.ap [OF s'(1)] 1 ai k
      by (intro exI [of _ s']) (simp add: gave_up_def left_to_do_def Poll_starting ap_left_def Let_def)
  next
    case 2
    obtain s' where s': "ap_step env (unat i) s = Some s'" "s' = s\<lparr>cpu_starting := 0, aps := (aps s)(unat i := Waiting i)\<rparr>"
      using ai 2 by (simp add: ap_step_def)
    then show ?thesis using smp_step.ap [OF s'(1)] 2 ai k
      by (intro exI [of _ s']) (simp add: gave_up_def left_to_do_def Poll_starting ap_left_def Let_def)
  next
    case 3
    have "bsp_step env s = s\<lparr>bsp := Start (i + 1)\<rparr>"
      using 3 k1 by (simp add: bsp_step_def Poll_starting poll_starting_step_def)
    then show ?thesis using smp_step.boot [of env s] lt unat_next [of i "num_cpu env"] i
      by (intro exI [of _ "bsp_step env s"]) (simp add: gave_up_def left_to_do_def Poll_starting Let_def)
  qed
next
  case Between
  then have st: "bsp_step env s = s\<lparr>bsp := Transfer 1\<rparr>" by (simp add: bsp_step_def)
  have "0 < unat (num_cpu env)" using b by (simp add: board_ok_def word_le_nat_alt)
  then show ?thesis using smp_step.boot [of env s] st
    by (intro exI [of _ "bsp_step env s"]) (simp add: gave_up_def left_to_do_def Between Let_def)
next
  case (Transfer i)
  have "bsp_step env s = s\<lparr>pending := 1, bsp := Announce i\<rparr> \<or> bsp_step env s = s\<lparr>bsp := Finished\<rparr>"
    by (simp add: bsp_step_def Transfer transfer_aps_step_def)
  then show ?thesis using smp_step.boot [of env s]
    by (intro exI [of _ "bsp_step env s"]) (auto simp: gave_up_def left_to_do_def Transfer Let_def)
next
  case (Announce i)
  note i = inv [unfolded smp_inv_def Announce bsp_pc.case]
  have "aps s (unat i) = Waiting i" using aps_at [of env "\<lambda>c. if c < i then Spinning c else Waiting c" s i] i by simp
  moreover have "bsp_step env s = s\<lparr>syspage_available := i, bsp := Poll_pending i\<rparr>" by (simp add: bsp_step_def Announce)
  ultimately show ?thesis using smp_step.boot [of env s]
    by (intro exI [of _ "bsp_step env s"]) (simp add: gave_up_def left_to_do_def Announce Let_def ap_left2_def)
next
  case (Poll_pending i)
  note i = inv [unfolded smp_inv_def Poll_pending bsp_pc.case]
  obtain a where a: "aps_are env (\<lambda>c. if c < i then Spinning c else if c = i then a else Waiting c) s"
    "a \<in> {Waiting i, Entering i} \<and> pending s = 1 \<or> a = Spinning i \<and> pending s = 0" using i by blast
  have ai: "aps s (unat i) = a" using aps_at [OF a(1)] i by simp
  have lt: "unat i < unat (num_cpu env)" using i by (simp add: word_less_nat_alt)
  consider "a = Waiting i" | "a = Entering i" | "a = Spinning i" "pending s = 0" using a(2) by blast
  then show ?thesis
  proof cases
    case 1
    obtain s' where s': "ap_step env (unat i) s = Some s'" "s' = s\<lparr>aps := (aps s)(unat i := Entering i)\<rparr>"
      using ai 1 i by (simp add: ap_step_def)
    then show ?thesis using smp_step.ap [OF s'(1)] 1 ai
      by (intro exI [of _ s']) (simp add: gave_up_def left_to_do_def Poll_pending ap_left2_def Let_def)
  next
    case 2
    obtain s' where s': "ap_step env (unat i) s = Some s'" "s' = s\<lparr>pending := 0, aps := (aps s)(unat i := Spinning i)\<rparr>"
      using ai 2 by (simp add: ap_step_def)
    then show ?thesis using smp_step.ap [OF s'(1)] 2 ai
      by (intro exI [of _ s']) (simp add: gave_up_def left_to_do_def Poll_pending ap_left2_def Let_def)
  next
    case 3
    have "bsp_step env s = s\<lparr>bsp := Transfer (i + 1)\<rparr>" using 3 by (simp add: bsp_step_def Poll_pending)
    then show ?thesis using smp_step.boot [of env s] lt unat_next [of i "num_cpu env"] i
      by (intro exI [of _ "bsp_step env s"]) (simp add: gave_up_def left_to_do_def Poll_pending Let_def)
  qed
qed (use up fin in \<open>auto simp: gave_up_def\<close>)

lemma smp_finishes:
  assumes b: "board_ok env"
  shows "smp_inv env s \<Longrightarrow> \<not> gave_up s \<Longrightarrow>
    \<exists>s'. (smp_step env)\<^sup>*\<^sup>* s s' \<and> bsp s' = Finished \<and> smp_inv env s'"
proof (induction "left_to_do env s" arbitrary: s rule: less_induct)
  case less
  show ?case
  proof (cases "bsp s = Finished")
    case False
    obtain s1 where s1: "smp_step env s s1" "\<not> gave_up s1" "left_to_do env s1 < left_to_do env s"
      using smp_progress [OF b less.prems False] by blast
    have "smp_inv env s1" using s1(1) less.prems(1) bsp_keeps [OF b] ap_keeps [OF b] by (auto elim: smp_stepE)
    then show ?thesis using less.hyps [OF s1(3) _ s1(2)] s1(1) by (meson converse_rtranclp_into_rtranclp)
  qed (use less.prems in blast)
qed

section \<open>init\_smp\<close>

datatype smp_hook = Hook_dummy | Start_aps | Transfer_aps

text \<open>The slots that callout\_output\_smp puts out before it hands over to the routine that was
  there before.\<close>

datatype out_slot = Smp_spin_vaddr | Smp_send_ipi

record smp_setup =
  su_mem :: sysmem
  su_num_cpu :: u32
  su_send_ipi :: "callout option"
  su_spin :: "callout option"
  su_hook :: smp_hook
  su_outputs :: "out_slot list list"

definition callout_output_smp :: "smp_setup \<Rightarrow> out_slot list" where
  "callout_output_smp st = Smp_spin_vaddr # (if su_send_ipi st = None then [] else [Smp_send_ipi])"

record board_smp =
  board_smp_num_cpu :: u32
  board_smp_init :: "callout option"
  smp_spin :: callout
  lsp_smp :: nat
  smp_entry_size :: nat

definition init_smp :: "board_smp \<Rightarrow> u32 \<Rightarrow> smp_setup \<Rightarrow> smp_setup res" where
  "init_smp b max_cpus st =
    (if max_cpus \<le> 1 then ok st
     else let n = (if board_smp_num_cpu b > max_cpus then max_cpus else board_smp_num_cpu b);
              st = st\<lparr>su_num_cpu := n\<rparr>
       in if n \<le> 1 then ok st
          else and_then (set_syspage_section (lsp_smp b) (smp_entry_size b) (su_mem st)) (\<lambda>(_, m).
            let st = st\<lparr>su_mem := m, su_spin := Some (smp_spin b), su_send_ipi := board_smp_init b,
                        su_hook := Start_aps\<rparr>
            in ok (st\<lparr>su_outputs := callout_output_smp st # su_outputs st\<rparr>)))"

section \<open>The board\<close>

text \<open>board\_smp.c: the table has six entries and values for two.  PSCI's CPU\_ON gives the status;
  a processor that it starts is the one with the affinity it was given.  A status other than 0 is
  a crash, which has no processor as result.\<close>

definition QRB2210_CPU_CORES_NUMBER :: u32 where "QRB2210_CPU_CORES_NUMBER = 4"

definition qrb2210_core_affinity :: "u64 list" where
  "qrb2210_core_affinity = [0, 1, 0, 0, 0, 0]"

definition qrb2210_smp_start :: "(u64 \<Rightarrow> u64) \<Rightarrow> (u64 \<Rightarrow> nat) \<Rightarrow> u32 \<Rightarrow> nat option" where
  "qrb2210_smp_start psci_cpu_on core_of cpu =
    (if length qrb2210_core_affinity \<le> unat cpu then None
     else let a = qrb2210_core_affinity ! unat cpu
       in if psci_cpu_on a \<noteq> 0 then None else Some (core_of a))"

definition qrb2210_smp :: "(u64 \<Rightarrow> u64) \<Rightarrow> (u64 \<Rightarrow> nat) \<Rightarrow> u32 \<Rightarrow> smp_env" where
  "qrb2210_smp psci_cpu_on core_of n =
    \<lparr>num_cpu = n, board_smp_start = qrb2210_smp_start psci_cpu_on core_of, board_smp_adjust_num = (\<lambda>w. w)\<rparr>"

text \<open>The third processor has the affinity of the boot processor, which is on.  PSCI refuses to turn
  it on, so with all four processors the start stops there.\<close>

lemma qrb2210_stops:
  assumes on: "psci_cpu_on 0 \<noteq> 0" and n: "3 \<le> n"
    and r: "smp_reachable (qrb2210_smp psci_cpu_on core_of n) s"
  shows "bsp s = Start 1 \<or> (\<exists>k. bsp s = Poll_starting 1 k) \<or> bsp s = Start 2 \<or> bsp s = Failed 1 \<or> bsp s = Failed 2"
  using r
proof induction
  case initial
  then show ?case by (simp add: smp_begin_def)
next
  case (more s s')
  let ?env = "qrb2210_smp psci_cpu_on core_of n"
  have lt: "2 < n" "1 < n" using n by (simp_all add: word_le_nat_alt word_less_nat_alt)
  have two: "board_smp_start ?env 2 = None"
    using on by (simp add: qrb2210_smp_def qrb2210_smp_start_def qrb2210_core_affinity_def)
  from more.hyps(2) show ?case
  proof cases
    case boot
    from more.IH consider "bsp s = Start 1" | k where "bsp s = Poll_starting 1 k" | "bsp s = Start 2"
      | "bsp s = Failed 1 \<or> bsp s = Failed 2" by blast
    then show ?thesis
    proof cases
      case 1
      then show ?thesis using lt unfolding boot
        by (auto simp: bsp_step_def start_aps_step_def qrb2210_smp_def split: option.split)
    next
      case 2
      then show ?thesis unfolding boot by (auto simp: bsp_step_def poll_starting_step_def)
    next
      case 3
      have "num_cpu ?env = n" by (simp add: qrb2210_smp_def)
      then show ?thesis using 3 lt two unfolding boot by (simp add: bsp_step_def start_aps_step_def)
    next
      case 4
      then show ?thesis unfolding boot by (auto simp: bsp_step_def)
    qed
  next
    case (ap c)
    then show ?thesis using more.IH ap_step_fields [OF ap] by simp
  qed
qed

section \<open>Properties\<close>



text \<open>A board of four processors that starts the one it is asked to start, and the start of the
  first of them.\<close>

definition smp_four :: smp_env where
  "smp_four = \<lparr>num_cpu = 4, board_smp_start = (\<lambda>i. Some (unat i)), board_smp_adjust_num = (\<lambda>w. w)\<rparr>"

definition smp_first :: smp where
  "smp_first = smp_begin\<lparr>cpu_starting := 2, bsp := Poll_starting 1 0, aps := (\<lambda>_. Off)(1 := Starting)\<rparr>"

lemma smp_four_ok: "board_ok smp_four"
  by (simp add: board_ok_def smp_four_def)

lemma smp_first_reachable: "smp_reachable smp_four smp_first"
proof -
  have "bsp_step smp_four smp_begin = smp_first"
    by (simp add: bsp_step_def start_aps_step_def smp_begin_def smp_first_def smp_four_def)
  then have "smp_step smp_four smp_begin smp_first" using smp_step.boot [of smp_four smp_begin] by simp
  then show ?thesis by (rule smp_reachable.more [OF smp_reachable.initial])
qed



text \<open>C36: The board's start stops the system: the table of affinities has values for two of the four
  processors, so the third is started with the affinity of the boot processor, which is on.  When
  PSCI refuses to turn on a processor that is on and more than two are used, transfer\_aps is never
  reached, whatever the other processors do, and the third start ends in the crash.\<close>

theorem qrb2210_third_core:
  assumes "psci_cpu_on 0 \<noteq> 0" "3 \<le> n"
  shows "smp_reachable (qrb2210_smp psci_cpu_on core_of n) s \<longrightarrow>
      bsp s \<noteq> Finished \<and> (bsp s = Start 2 \<longrightarrow> bsp (bsp_step (qrb2210_smp psci_cpu_on core_of n) s) = Failed 2)"
proof
  assume r: "smp_reachable (qrb2210_smp psci_cpu_on core_of n) s"
  have "board_smp_start (qrb2210_smp psci_cpu_on core_of n) 2 = None"
    using assms(1) by (simp add: qrb2210_smp_def qrb2210_smp_start_def qrb2210_core_affinity_def)
  moreover have "num_cpu (qrb2210_smp psci_cpu_on core_of n) = n" by (simp add: qrb2210_smp_def)
  moreover have "2 < n" using assms(2) by (simp add: word_le_nat_alt word_less_nat_alt)
  ultimately have "bsp s = Start 2 \<longrightarrow> bsp (bsp_step (qrb2210_smp psci_cpu_on core_of n) s) = Failed 2"
    by (simp add: bsp_step_def start_aps_step_def)
  then show "bsp s \<noteq> Finished \<and> (bsp s = Start 2 \<longrightarrow> bsp (bsp_step (qrb2210_smp psci_cpu_on core_of n) s) = Failed 2)"
    using qrb2210_stops [OF assms r] by auto
qed

lemma qrb2210_third_core_witness:
  "bsp (bsp_step (qrb2210_smp (\<lambda>a. if a = 0 then - 4 else 0) unat QRB2210_CPU_CORES_NUMBER)
     (smp_begin\<lparr>bsp := Start 2, aps := (\<lambda>_. Off)(1 := Waiting 1)\<rparr>)) = Failed 2"
proof -
  let ?env = "qrb2210_smp (\<lambda>a. if a = 0 then - 4 else 0) unat QRB2210_CPU_CORES_NUMBER"
  let ?s1 = "smp_begin\<lparr>cpu_starting := 2, bsp := Poll_starting 1 0, aps := (\<lambda>_. Off)(1 := Starting)\<rparr>"
  let ?s2 = "?s1\<lparr>aps := (\<lambda>_. Off)(1 := Numbered 1)\<rparr>"
  let ?s3 = "?s2\<lparr>cpu_starting := 0, aps := (\<lambda>_. Off)(1 := Waiting 1)\<rparr>"
  let ?s4 = "?s3\<lparr>bsp := Start 2\<rparr>"
  have e: "num_cpu ?env = 4" "board_smp_start ?env 1 = Some 1" "board_smp_adjust_num ?env 1 = 1"
    by (simp_all add: qrb2210_smp_def qrb2210_smp_start_def qrb2210_core_affinity_def QRB2210_CPU_CORES_NUMBER_def)
  have "bsp_step ?env smp_begin = ?s1" using e by (simp add: bsp_step_def start_aps_step_def smp_begin_def)
  then have 1: "smp_reachable ?env ?s1"
    using smp_reachable.more [OF smp_reachable.initial smp_step.boot, of ?env] by simp
  have "ap_step ?env 1 ?s1 = Some ?s2" using e by (simp add: ap_step_def)
  then have 2: "smp_reachable ?env ?s2" by (rule smp_reachable.more [OF 1 smp_step.ap])
  have "ap_step ?env 1 ?s2 = Some ?s3" by (simp add: ap_step_def)
  then have 3: "smp_reachable ?env ?s3" by (rule smp_reachable.more [OF 2 smp_step.ap])
  have "bsp_step ?env ?s3 = ?s4" by (simp add: bsp_step_def poll_starting_step_def)
  then have 4: "smp_reachable ?env ?s4" using smp_reachable.more [OF 3 smp_step.boot] by simp
  have s4: "?s4 = smp_begin\<lparr>bsp := Start 2, aps := (\<lambda>_. Off)(1 := Waiting 1)\<rparr>" by (simp add: smp_begin_def)
  have "(if (0 :: u64) = 0 then - 4 else 0) \<noteq> (0 :: u64)" "3 \<le> QRB2210_CPU_CORES_NUMBER"
    by (simp_all add: QRB2210_CPU_CORES_NUMBER_def)
  from qrb2210_third_core [of "\<lambda>a. if a = 0 then - 4 else 0", OF this] 4 show ?thesis unfolding s4 by auto
qed

end
