(* ===== verification/Spec2Isabelle.thy ===== *)
theory Spec2Isabelle
  imports Syspage Typed_Strings Ram Asinfo Aarch64_Map Page_Walk Callouts Gic_Its Gic_V3 Gic_Dist Gic_Init
    Gic_Cpu Clock Cmdline Getopt Hwinfo_Ops Restore_Ifs Elf Load_Ifs Smp
begin

text \<open>
  A model of the startup program of the QNX board support package for the Arduino Uno Q
  (qrb2210, AArch64), and theorems about it.  The program runs once, before the kernel: it finds
  the memory, builds the system page that describes the machine to the kernel, builds page tables,
  sets up the interrupt controller and the timers, loads the image and jumps to it.  File names
  below are relative to src/hardware of the package; startup/lib is written lib.

  \<^bold>\<open>Parts and theories.\<close>

  \<^item> Prelude: results with faults (a crash or failed ASSERT, an access to memory that nothing
    owns, a loop that does not end), sequencing, and rounding of addresses.

  \<^item> Ramlist and Ram: lib/ram.c.  Ramlist has the sorted table of free memory and the table of ranges
    to avoid; Ram has the searches, alloc\_ram, calloc\_ram, add\_ram, reserve\_ram, the working
    storage and the watchers.  The tables are lists of records in the order of the C arrays.

  \<^item> Syspage: lib/syspage\_memory.c.  The system page is a block of bytes with sections that grow and
    move; a C pointer to a section is its offset and size.

  \<^item> Strings and Typed\_Strings: lib/strings.c, at the level of the bytes in the sections.

  \<^item> Asinfo: lib/as\_*.c, the tree of address-space entries; an offset is an index into the list.

  \<^item> Aarch64\_Map: lib/aarch64/aarch64\_map.c, init\_mmu.c, elf\_map.c and the two functions that map for
    callouts.  Page tables are words of a memory that maps addresses to 64 bit values.

  \<^item> Device: registers.  A device is a record of functions that say what a read returns, as a
    function of all accesses before it; the accesses are recorded in order on a bus.  The code's
    polls without a limit are followed for the number of reads that the device's field spins
    gives, and are the fault Hang after that; theorems that a call returns assume that the device
    settles within that number.

  \<^item> Gic\_Id: the identifiers of lib/public/aarch64/gic.h and their decoding in lib/aarch64/gic\_v3.c.

  \<^item> Gic\_Its: lib/aarch64/gic\_v3\_its.c, the interrupt translation service: its tables, its command
    queue and the commands that map a collection to a processor.

  \<^item> Gic\_V3: base addresses, counts of interrupts, trigger modes, and the tables of entries for SPIs,
    ESPIs and LPIs of lib/aarch64/gic\_v3.c; Gic\_Dist: the reset of the distributor; Gic\_Init: the rest of
    gic\_v3\_initialize, with the tables of LPIs and the entries for PPIs; Gic\_Cpu: gic\_v3\_gicc\_init, the
    initialisation of each processor's redistributor and interface.

  \<^item> Callouts: lib/callouts.c, add\_interrupt.c and interrupt\_valid.c: the routines that the kernel calls
    back, their patch data, and the two passes that place and write them.

  \<^item> Page\_Fill and Page\_Walk: proofs about Aarch64\_Map, that one table is filled page by page, and that the
    walk finds what was mapped.

  \<^item> Numbers: numbers in text, strtoul.c, getsize.c, ultoa\_end.c, bcd2bin.c and calc\_cksum.c of lib.

  \<^item> Clock: dates and timers, calc\_time\_t.c, gmtime.c, timer\_tick2ns.c, timer\_ns2tick.c and
    invert\_timer\_freq.c of lib.

  \<^item> Cmdline and Getopt: the argument strings of the startup program and of the programs it starts,
    bootstrap\_cmdline.c, \_main.c and fdt\_tweak\_cmdline.c of lib at the level of bytes, and getopt.c.

  \<^item> Hwinfo and Hwinfo\_Ops: the hardware information section, hwi\_alloc.c, and its users hwi\_*.c,
    hwidev\_*.c, hwibus\_*.c and hwitag\_*.c of lib.  A tag is a record at its offset in the section.

  \<^item> Physmem and Restore\_Ifs: physical memory as bytes with memmove.c, memcpy.c and copy\_memory of lib,
    and restore\_ifs.c, which keeps an image in memory over a reset.

  \<^item> Elf and Load\_Ifs: elf.c, elf32.c and elf64.c of lib, over the page tables and the bytes of memory; and
    load\_ifs.c, the block formats of uncompress\_*.c, the function load\_bootstraps and startnext.c.

  \<^item> Smp: init\_smp.c and smp\_start.S of lib and board\_smp.c of the board: the processors as a step
    relation on the variables that they share.

  \<^bold>\<open>How the parts interact.\<close>  Page tables, the tables of the translation service and the system page
  get their memory from the RAM manager; the controller adds its registers to the address-space
  table, which stores names in the string section, which grows the system page; the controller
  reads and writes registers through Device and maps them with the page tables.  State is passed
  explicitly: ram\_state contains the system page, vm contains ram\_state, its\_state contains vm and
  the bus, gic\_state contains its\_state.

  \<^bold>\<open>What the lemmas show.\<close>  Allocation takes memory that was free, once, and never memory that must be
  avoided; the free table is the set of free addresses and stays sorted and coalesced; sections
  grow without touching each other; strings are interned and typed strings replaced; a new range of
  addresses is divided among the innermost entries that contain it.  The tables of the translation
  service are large enough for their identifiers when the sizes fit, its registers hold each field
  in its place, its parameters stay legal through every sequence of calls, and its commands go to
  consecutive slots of the queue.  The tables of interrupt entries stay in range, ordered and
  without overlap through every sequence of calls, an entry is accepted exactly when it should be,
  and counts and trigger modes change exactly what they should; the initialisation adds them to the
  system page complete and with their patch data, resets every interrupt and finds each processor's
  redistributor.  The walk of the page tables finds every byte that was mapped, with the contiguous
  hint or without, and calls for other addresses do not disturb it.  Both passes over the callouts
  agree.  The hardware information
  section is a chain of items and tags after every allocation, and devices get the tags of their
  attributes.  An image that a reset left in memory is restored or loaded anew, as its checksum says.  A boot executable can be read through the page tables, segment by segment, and a
  compressed image is unpacked block by block.  The processors come up one at a time, and all of them.
  Numbers, dates and argument lists survive being written and read back, the computations with
  timers end without overflow, and getopt is a parser.  Interfaces between parts are locales:
  conflict\_test in Gic\_V3 is interpreted on the tests of all three tables, entry\_table in Gic\_Init on
  the three loops that complete and add their entries.

  \<^bold>\<open>Bounds and fuel.\<close>  Words have the width of the C types (addresses and sizes 64 bits, unsigned 32).
  The poll of the command queue has the code's own limit of 255 passes.  Loops over page tables
  end because their index grows to the size of a table; loops over lists are structural.  The loop
  of invert\_timer\_freq is given 20 passes and the calls of getopt one more than there are
  characters; both are proved to be enough.

  \<^bold>\<open>Not modelled.\<close>  Messages and the reads made only to print them, except in the version
  information; libfdt, UEFI services and the headers of the system, which are not part of the
  repository (their constants are fields of records that the definitions take as arguments);
  assembly other than the entry of the other processors; register definitions without behaviour.
  Also left out: the function init\_system\_private, most of whose parts are modelled, and the writing of
  the final system page (alloc\_syspage\_memory and the functions after it); the options of
  common\_options.c, which mostly set variables of other components; the version 2 interrupt
  controller, which the board does not have; the clock chips; the text formatting of the messages;
  and the board files other than board\_smp.c, which call the modelled library with constants.
\<close>

end
